(* ===== verification/Prelude.thy ===== *)
theory Prelude
  imports Main "HOL-Library.Word"
begin

text \<open>
  Shared vocabulary of the development: the string searches of \<^verbatim>\<open>std::string\<close> the sender
  uses, C string truncation, two's complement 32-bit values, and the generic facts on
  lists, maps and options that the component theories share.
\<close>

named_theorems search_simps \<open>substring search\<close>
named_theorems frame_simps \<open>fields an operation leaves alone\<close>

subsection \<open>Machine integers\<close>

type_synonym u8 = "8 word"
type_synonym u16 = "16 word"
type_synonym u32 = "32 word"
type_synonym u64 = "64 word"

text \<open>The values of a C++ \<^verbatim>\<open>int\<close> and of \<^verbatim>\<open>int64_t\<close>.\<close>

definition int32_range :: "int \<Rightarrow> bool" where
  "int32_range i \<longleftrightarrow> - (2 ^ 31) \<le> i \<and> i < 2 ^ 31"

definition int64_range :: "int \<Rightarrow> bool" where
  "int64_range i \<longleftrightarrow> - (2 ^ 63) \<le> i \<and> i < 2 ^ 63"

text \<open>Integer division and remainder of C++: truncation towards zero.\<close>

definition c_div :: "int \<Rightarrow> int \<Rightarrow> int" where
  "c_div a b = sgn a * sgn b * (\<bar>a\<bar> div \<bar>b\<bar>)"

definition c_mod :: "int \<Rightarrow> int \<Rightarrow> int" where
  "c_mod a b = a - b * c_div a b"

lemma c_div_nonneg: "0 \<le> a \<Longrightarrow> 0 < b \<Longrightarrow> c_div a b = a div b"
  by (cases "a = 0") (auto simp: c_div_def sgn_if)

lemma c_mod_nonneg: "0 \<le> a \<Longrightarrow> 0 < b \<Longrightarrow> c_mod a b = a mod b"
  by (simp add: c_mod_def c_div_nonneg minus_mult_div_eq_mod)

lemma u8_of_int: "0 \<le> k \<Longrightarrow> k < 256 \<Longrightarrow> uint (word_of_int k :: u8) = k"
  by (simp add: unsigned_of_int take_bit_int_eq_self)

subsection \<open>Substring search\<close>

text \<open>\<^verbatim>\<open>s.find(needle) != npos\<close>.\<close>

fun is_prefix :: "'a list \<Rightarrow> 'a list \<Rightarrow> bool" where
  "is_prefix [] ys = True"
| "is_prefix (x # xs) [] = False"
| "is_prefix (x # xs) (y # ys) = (x = y \<and> is_prefix xs ys)"

fun contains_sub :: "'a list \<Rightarrow> 'a list \<Rightarrow> bool" where
  "contains_sub n [] = (n = [])"
| "contains_sub n (y # ys) = (is_prefix n (y # ys) \<or> contains_sub n ys)"

text \<open>\<^verbatim>\<open>s.find(c, from)\<close> for a single character: the first index at or after \<open>from\<close>.\<close>

fun find_char :: "'a \<Rightarrow> 'a list \<Rightarrow> nat option" where
  "find_char c [] = None"
| "find_char c (x # xs) = (if x = c then Some 0 else map_option Suc (find_char c xs))"

definition find_char_from :: "'a \<Rightarrow> nat \<Rightarrow> 'a list \<Rightarrow> nat option" where
  "find_char_from c from s = map_option ((+) from) (find_char c (drop from s))"

lemma is_prefix_append [search_simps]: "is_prefix n (n @ ys)"
  by (induction n) auto

lemma is_prefix_iff: "is_prefix n ys \<longleftrightarrow> (\<exists>zs. ys = n @ zs)"
  by (induction n ys rule: is_prefix.induct) auto

lemma contains_sub_iff: "contains_sub n ys \<longleftrightarrow> (\<exists>as bs. ys = as @ n @ bs)"
proof (induction ys)
  case Nil
  then show ?case by auto
next
  case (Cons y ys)
  have "(\<exists>as bs. y # ys = as @ n @ bs)
        \<longleftrightarrow> (\<exists>zs. y # ys = n @ zs) \<or> (\<exists>as bs. ys = as @ n @ bs)"
    by (metis append_Cons append_Nil list.exhaust list.sel(3))
  with Cons show ?case by (simp add: is_prefix_iff)
qed

lemma contains_sub_append [search_simps]: "contains_sub n (as @ n @ bs)"
  by (auto simp: contains_sub_iff)

lemma find_char_Some:
  "find_char c s = Some i \<Longrightarrow> i < length s \<and> s ! i = c \<and> c \<notin> set (take i s)"
  by (induction s arbitrary: i) (auto split: if_splits)

lemma find_char_None: "find_char c s = None \<longleftrightarrow> c \<notin> set s"
  by (induction s) auto

lemma find_char_append: "c \<notin> set as \<Longrightarrow> find_char c (as @ c # bs) = Some (length as)"
  by (induction as) auto

subsection \<open>C strings\<close>

text \<open>What a \<^verbatim>\<open>const char *\<close> denotes: the bytes before the first NUL.\<close>

definition c_str :: "string \<Rightarrow> string" where
  "c_str s = takeWhile (\<lambda>c. c \<noteq> CHR 0x00) s"

lemma c_str_id: "CHR 0x00 \<notin> set s \<Longrightarrow> c_str s = s"
  by (induction s) (auto simp: c_str_def)

lemma c_str_terminated: "c_str (xs @ CHR 0x00 # ys) = c_str xs"
  by (induction xs) (auto simp: c_str_def)

lemma c_str_no_nul: "CHR 0x00 \<notin> set (c_str s)"
  by (auto simp: c_str_def dest: set_takeWhileD)

subsection \<open>Lists, options and maps\<close>

lemma find_Some_mem: "find P xs = Some x \<Longrightarrow> x \<in> set xs \<and> P x"
  by (induction xs) (auto split: if_splits)

lemma find_None_all: "find P xs = None \<longleftrightarrow> (\<forall>x \<in> set xs. \<not> P x)"
  by (induction xs) auto

lemma find_exists: "x \<in> set xs \<Longrightarrow> P x \<Longrightarrow> \<exists>y. find P xs = Some y"
  by (induction xs) auto

lemma rev_append_filter_perm:
  "length (filter P xs) + length (filter (\<lambda>x. \<not> P x) xs) = length xs"
  by (rule sum_length_filter_compl)

subsection \<open>Transition systems\<close>

text \<open>
  A component with state is a partial step function on events: \<open>None\<close> where the
  event cannot happen. \<open>run\<close> executes a list of events; \<open>reachable\<close> is the least
  set of states closed under steps. The locale states once that what every step keeps holds
  in every reachable state and along every run; each component interprets it.
\<close>

fun run :: "('e \<Rightarrow> 's \<Rightarrow> 's option) \<Rightarrow> 'e list \<Rightarrow> 's \<Rightarrow> 's option" where
  "run step [] s = Some s"
| "run step (e # es) s = (case step e s of None \<Rightarrow> None | Some t \<Rightarrow> run step es t)"

inductive reachable :: "('e \<Rightarrow> 's \<Rightarrow> 's option) \<Rightarrow> 's \<Rightarrow> 's \<Rightarrow> bool"
  for step :: "'e \<Rightarrow> 's \<Rightarrow> 's option" and init :: 's where
  reach_init: "reachable step init init"
| reach_step: "reachable step init s \<Longrightarrow> step e s = Some t \<Longrightarrow> reachable step init t"

lemma run_append:
  "run step (es @ fs) s = (case run step es s of None \<Rightarrow> None | Some t \<Rightarrow> run step fs t)"
  by (induction es arbitrary: s) (auto split: option.splits)

lemma reachable_run:
  "reachable step init s \<Longrightarrow> run step es s = Some t \<Longrightarrow> reachable step init t"
proof (induction es arbitrary: s)
  case Nil
  then show ?case by simp
next
  case (Cons e es)
  then obtain u where "step e s = Some u" "run step es u = Some t"
    by (auto split: option.splits)
  with Cons show ?case by (blast intro: reach_step)
qed

lemma run_reachable: "run step es init = Some t \<Longrightarrow> reachable step init t"
  by (rule reachable_run [OF reach_init])

locale invariant_system =
  fixes step :: "'e \<Rightarrow> 's \<Rightarrow> 's option"
    and init :: 's
    and inv :: "'s \<Rightarrow> bool"
  assumes init_inv: "inv init"
    and step_inv: "step e s = Some t \<Longrightarrow> inv s \<Longrightarrow> inv t"
begin

lemma reachable_inv: "reachable step init s \<Longrightarrow> inv s"
  by (induction rule: reachable.induct) (auto intro: init_inv step_inv)

lemma run_inv: "run step es init = Some s \<Longrightarrow> inv s"
  by (rule reachable_inv) (rule run_reachable)

lemma run_keeps_inv: "inv s \<Longrightarrow> run step es s = Some t \<Longrightarrow> inv t"
proof (induction es arbitrary: s)
  case Nil
  then show ?case by simp
next
  case (Cons e es)
  then show ?case by (auto split: option.splits intro: step_inv)
qed

end

end
