(* ===== verification/SignalingServer.thy ===== *)
theory SignalingServer
  imports Prelude
begin

text \<open>
  The signalling server of \<^verbatim>\<open>tools/signaling_server.cpp\<close>: it keeps the connected sockets,
  the senders that announced themselves, the session table and the reverse table from
  sockets to sessions, and routes messages between the two ends of a session.

  Qt is outside the repository. A \<^verbatim>\<open>QWebSocket *\<close> is an address (0 is the null pointer);
  \<^verbatim>\<open>QSet\<close>, \<^verbatim>\<open>QMap\<close> and \<^verbatim>\<open>QHash\<close> are sets and maps; the order in which a \<^verbatim>\<open>QSet\<close> is
  iterated is the parameter \<open>enum\<close>; JSON parsing and printing are the fields of a \<open>qjson\<close>
  record. A \<^verbatim>\<open>QPointer\<close> is an address that is reset to null when the object is destroyed,
  and \<^verbatim>\<open>deleteLater\<close> puts the object on a list (\<open>doomed\<close>) from which the event loop
  destroys it by a later \<open>EvDestroy\<close>.
\<close>

subsection \<open>State\<close>

type_synonym sock = nat

record 'j qjson =
  qj_parse :: "string \<Rightarrow> 'j option"
  qj_string :: "'j \<Rightarrow> string \<Rightarrow> string"
  qj_object :: "(string \<times> string) list \<Rightarrow> 'j"
  qj_compact :: "'j \<Rightarrow> string"

record session_binding =
  sb_sender :: sock
  sb_receiver :: sock

record server =
  sockets :: "sock set"
  ready_senders :: "sock set"
  sessions :: "string \<rightharpoonup> session_binding"
  socket_to_session :: "sock \<rightharpoonup> string"
  live :: "sock set"
  doomed :: "sock set"
  sent :: "(sock \<times> string) list"

definition init_server :: server where
  "init_server = \<lparr>sockets = {}, ready_senders = {}, sessions = Map.empty,
     socket_to_session = Map.empty, live = {}, doomed = {}, sent = []\<rparr>"

subsection \<open>Operations\<close>

definition sendJson :: "'j qjson \<Rightarrow> sock \<Rightarrow> 'j \<Rightarrow> server \<Rightarrow> server" where
  "sendJson J socket json st =
     (if socket = 0 then st
      else st\<lparr>sent := sent st @ [(socket, qj_compact J json)]\<rparr>)"

definition sendError :: "'j qjson \<Rightarrow> sock \<Rightarrow> string \<Rightarrow> server \<Rightarrow> server" where
  "sendError J socket message st =
     sendJson J socket
       (qj_object J [(''type'', ''error''), (''message'', message)]) st"

definition sendPeerDisconnected :: "'j qjson \<Rightarrow> sock \<Rightarrow> string \<Rightarrow> server \<Rightarrow> server" where
  "sendPeerDisconnected J socket sid st =
     sendJson J socket
       (qj_object J [(''type'', ''peer-disconnected''), (''id'', sid)]) st"

text \<open>The texts of the error replies.\<close>

definition err_missing_id :: string where
  "err_missing_id = ''request missing id''"

definition err_exists :: "string \<Rightarrow> string" where
  "err_exists sid = ''session already exists: '' @ sid"

definition err_no_sender :: string where
  "err_no_sender = ''no sender-ready client available''"

definition err_unknown :: "string \<Rightarrow> string" where
  "err_unknown sid = ''unknown session id: '' @ sid"

definition err_peer :: "string \<Rightarrow> string" where
  "err_peer sid = ''peer not connected for session: '' @ sid"

definition onNewConnection :: "sock \<Rightarrow> server \<Rightarrow> server" where
  "onNewConnection socket st =
     (if socket = 0 then st
      else st\<lparr>sockets := insert socket (sockets st), live := insert socket (live st)\<rparr>)"

definition selectable :: "sock \<Rightarrow> server \<Rightarrow> sock \<Rightarrow> bool" where
  "selectable receiver st candidate \<longleftrightarrow>
     candidate \<noteq> 0 \<and> candidate \<noteq> receiver \<and> socket_to_session st candidate = None"

definition handleRequest ::
  "'j qjson \<Rightarrow> (sock set \<Rightarrow> sock list) \<Rightarrow> sock \<Rightarrow> 'j \<Rightarrow> string \<Rightarrow> server \<Rightarrow> server" where
  "handleRequest J enum receiver json sid st =
     (if sid = [] then sendError J receiver err_missing_id st
      else if sessions st sid \<noteq> None then
        sendError J receiver (err_exists sid) st
      else case find (selectable receiver st) (enum (ready_senders st)) of
        None \<Rightarrow> sendError J receiver err_no_sender st
      | Some selected_sender \<Rightarrow>
          sendJson J selected_sender json
            (st\<lparr>sessions := (sessions st)
                  (sid \<mapsto> \<lparr>sb_sender = selected_sender, sb_receiver = receiver\<rparr>),
                socket_to_session := (socket_to_session st)
                  (selected_sender \<mapsto> sid, receiver \<mapsto> sid)\<rparr>))"

definition forward_target :: "session_binding \<Rightarrow> sock \<Rightarrow> sock" where
  "forward_target binding socket =
     (if sb_sender binding = socket then sb_receiver binding
      else if sb_receiver binding = socket then sb_sender binding
      else 0)"

definition forwardSessionMessage ::
  "'j qjson \<Rightarrow> sock \<Rightarrow> 'j \<Rightarrow> string \<Rightarrow> server \<Rightarrow> server" where
  "forwardSessionMessage J socket json sid st =
     (case (if sid = [] then None else sessions st sid) of
        None \<Rightarrow> sendError J socket (err_unknown sid) st
      | Some binding \<Rightarrow>
          (let target = forward_target binding socket in
           if target = 0
           then sendError J socket (err_peer sid) st
           else sendJson J target json st))"

text \<open>
  One side of the clean-up in \<^verbatim>\<open>onDisconnected\<close>: forget the socket's session and, when the
  socket is not the one that went away, tell it.
\<close>

definition release_end :: "'j qjson \<Rightarrow> sock \<Rightarrow> sock \<Rightarrow> string \<Rightarrow> server \<Rightarrow> server" where
  "release_end J gone peer sid st =
     (if peer = 0 then st
      else let st' = st\<lparr>socket_to_session := (socket_to_session st)(peer := None)\<rparr> in
           if peer \<noteq> gone then sendPeerDisconnected J peer sid st' else st')"

definition onDisconnected :: "'j qjson \<Rightarrow> sock \<Rightarrow> server \<Rightarrow> server" where
  "onDisconnected J socket st =
     (let st1 = st\<lparr>ready_senders := ready_senders st - {socket},
                   sockets := sockets st - {socket},
                   socket_to_session := (socket_to_session st)(socket := None)\<rparr>;
          session_id = (case socket_to_session st socket of None \<Rightarrow> [] | Some i \<Rightarrow> i);
          st2 = (if session_id = [] then st1
                 else let binding = (case sessions st1 session_id of
                            None \<Rightarrow> \<lparr>sb_sender = 0, sb_receiver = 0\<rparr> | Some b \<Rightarrow> b)
                      in release_end J socket (sb_receiver binding) session_id
                           (release_end J socket (sb_sender binding) session_id
                             (st1\<lparr>sessions := (sessions st1)(session_id := None)\<rparr>)))
      in st2\<lparr>doomed := insert socket (doomed st2)\<rparr>)"

definition onTextMessage ::
  "'j qjson \<Rightarrow> (sock set \<Rightarrow> sock list) \<Rightarrow> sock \<Rightarrow> string \<Rightarrow> server \<Rightarrow> server" where
  "onTextMessage J enum socket message st =
     (case qj_parse J message of
        None \<Rightarrow> st
      | Some json \<Rightarrow>
          (let type = qj_string J json ''type''; sid = qj_string J json ''id'' in
           if type = ''sender-ready'' then
             st\<lparr>ready_senders := insert socket (ready_senders st)\<rparr>
           else if type = ''request'' then handleRequest J enum socket json sid st
           else if type = ''offer'' \<or> type = ''answer'' \<or> type = ''candidate'' \<or> type = ''error''
           then forwardSessionMessage J socket json sid st
           else st))"

subsection \<open>Events\<close>

text \<open>
  The deferred destruction of a socket: every \<^verbatim>\<open>QPointer\<close> to it becomes null.
\<close>

definition clear_qpointer :: "sock \<Rightarrow> session_binding \<Rightarrow> session_binding" where
  "clear_qpointer s b =
     \<lparr>sb_sender = (if sb_sender b = s then 0 else sb_sender b),
      sb_receiver = (if sb_receiver b = s then 0 else sb_receiver b)\<rparr>"

definition destroy_socket :: "sock \<Rightarrow> server \<Rightarrow> server" where
  "destroy_socket s st =
     st\<lparr>live := live st - {s}, doomed := doomed st - {s},
        sessions := (\<lambda>sid. map_option (clear_qpointer s) (sessions st sid))\<rparr>"

datatype server_event =
  EvConnect sock | EvText sock string | EvDisconnect sock | EvDestroy sock

text \<open>
  Which events the event loop can deliver: an address is handed out only while no object
  lives there, text arrives on a connected socket, \<^verbatim>\<open>disconnected\<close> is signalled once, and
  only an object given to \<^verbatim>\<open>deleteLater\<close> is destroyed.
\<close>

fun server_enabled :: "server_event \<Rightarrow> server \<Rightarrow> bool" where
  "server_enabled (EvConnect s) st = (s \<notin> live st)"
| "server_enabled (EvText s m) st = (s \<in> sockets st)"
| "server_enabled (EvDisconnect s) st = (s \<in> sockets st)"
| "server_enabled (EvDestroy s) st = (s \<in> doomed st)"

fun server_step ::
  "'j qjson \<Rightarrow> (sock set \<Rightarrow> sock list) \<Rightarrow> server_event \<Rightarrow> server \<Rightarrow> server" where
  "server_step J enum (EvConnect s) st = onNewConnection s st"
| "server_step J enum (EvText s m) st = onTextMessage J enum s m st"
| "server_step J enum (EvDisconnect s) st = onDisconnected J s st"
| "server_step J enum (EvDestroy s) st = destroy_socket s st"

text \<open>
  The server as a transition system. The guard \<open>G\<close> restricts what the clients do: with
  \<open>any_client\<close> they send whatever they like.
\<close>

definition server_trans ::
  "'j qjson \<Rightarrow> (sock set \<Rightarrow> sock list) \<Rightarrow> (server_event \<Rightarrow> server \<Rightarrow> bool)
   \<Rightarrow> server_event \<Rightarrow> server \<Rightarrow> server option" where
  "server_trans J enum G ev st =
     (if server_enabled ev st \<and> G ev st then Some (server_step J enum ev st) else None)"

definition any_client :: "server_event \<Rightarrow> server \<Rightarrow> bool" where
  "any_client ev st = True"

text \<open>
  A client that follows the protocol asks for a session only while it is in none.
\<close>

fun one_session_client :: "'j qjson \<Rightarrow> server_event \<Rightarrow> server \<Rightarrow> bool" where
  "one_session_client J (EvText s m) st =
     (case qj_parse J m of None \<Rightarrow> True
      | Some j \<Rightarrow> qj_string J j ''type'' = ''request'' \<longrightarrow> socket_to_session st s = None)"
| "one_session_client J ev st = True"

subsection \<open>What an operation leaves alone\<close>

lemma sendJson_frame [frame_simps]:
  "sockets (sendJson J s j st) = sockets st"
  "ready_senders (sendJson J s j st) = ready_senders st"
  "sessions (sendJson J s j st) = sessions st"
  "socket_to_session (sendJson J s j st) = socket_to_session st"
  "live (sendJson J s j st) = live st"
  "doomed (sendJson J s j st) = doomed st"
  by (simp_all add: sendJson_def)

lemma sendError_frame [frame_simps]:
  "sockets (sendError J s m st) = sockets st"
  "ready_senders (sendError J s m st) = ready_senders st"
  "sessions (sendError J s m st) = sessions st"
  "socket_to_session (sendError J s m st) = socket_to_session st"
  "live (sendError J s m st) = live st"
  "doomed (sendError J s m st) = doomed st"
  by (simp_all add: sendError_def frame_simps)

lemma release_end_frame [frame_simps]:
  "sockets (release_end J g p i st) = sockets st"
  "ready_senders (release_end J g p i st) = ready_senders st"
  "sessions (release_end J g p i st) = sessions st"
  "live (release_end J g p i st) = live st"
  "doomed (release_end J g p i st) = doomed st"
  by (simp_all add: release_end_def sendPeerDisconnected_def Let_def frame_simps)

lemma release_end_map [frame_simps]:
  "socket_to_session (release_end J g p i st) k =
     (if p \<noteq> 0 \<and> k = p then None else socket_to_session st k)"
  by (simp add: release_end_def sendPeerDisconnected_def Let_def frame_simps)

lemma forward_frame [frame_simps]:
  "sockets (forwardSessionMessage J s j i st) = sockets st"
  "ready_senders (forwardSessionMessage J s j i st) = ready_senders st"
  "sessions (forwardSessionMessage J s j i st) = sessions st"
  "socket_to_session (forwardSessionMessage J s j i st) = socket_to_session st"
  "live (forwardSessionMessage J s j i st) = live st"
  "doomed (forwardSessionMessage J s j i st) = doomed st"
  by (simp_all add: forwardSessionMessage_def Let_def frame_simps split: option.splits)

lemma sent_sendJson [simp]:
  "s \<noteq> 0 \<Longrightarrow> sent (sendJson J s j st) = sent st @ [(s, qj_compact J j)]"
  by (simp add: sendJson_def)

text \<open>The two ways \<^verbatim>\<open>handleRequest\<close> can end.\<close>

lemma handleRequest_cases:
  obtains (refused) m where "handleRequest J enum r j sid st = sendError J r m st"
  | (bound) x where "sid \<noteq> []" "sessions st sid = None" "x \<in> set (enum (ready_senders st))"
      "selectable r st x"
      "handleRequest J enum r j sid st = sendJson J x j
         (st\<lparr>sessions := (sessions st)(sid \<mapsto> \<lparr>sb_sender = x, sb_receiver = r\<rparr>),
             socket_to_session := (socket_to_session st)(x \<mapsto> sid, r \<mapsto> sid)\<rparr>)"
proof -
  consider "sid = []" | "sid \<noteq> []" "sessions st sid \<noteq> None"
    | "sid \<noteq> []" "sessions st sid = None" "find (selectable r st) (enum (ready_senders st)) = None"
    | x where "sid \<noteq> []" "sessions st sid = None"
        "find (selectable r st) (enum (ready_senders st)) = Some x"
    by fastforce
  then show thesis
  proof cases
    case 1
    then show thesis by (intro refused [of err_missing_id]) (simp add: handleRequest_def)
  next
    case 2
    then show thesis by (intro refused [of "err_exists sid"]) (simp add: handleRequest_def)
  next
    case 3
    then show thesis by (intro refused [of err_no_sender]) (simp add: handleRequest_def)
  next
    case (4 x)
    with find_Some_mem [OF 4(3)] show thesis
      by (intro bound [of x]) (simp_all add: handleRequest_def)
  qed
qed

text \<open>The four ways a text message is handled.\<close>

lemma onTextMessage_cases:
  obtains (ignored) "onTextMessage J enum s m st = st"
  | (ready) j where "qj_parse J m = Some j" "qj_string J j ''type'' = ''sender-ready''"
      "onTextMessage J enum s m st = st\<lparr>ready_senders := insert s (ready_senders st)\<rparr>"
  | (request) j where "qj_parse J m = Some j" "qj_string J j ''type'' = ''request''"
      "onTextMessage J enum s m st = handleRequest J enum s j (qj_string J j ''id'') st"
  | (session) j where "qj_parse J m = Some j"
      "qj_string J j ''type'' \<in> {''offer'', ''answer'', ''candidate'', ''error''}"
      "onTextMessage J enum s m st = forwardSessionMessage J s j (qj_string J j ''id'') st"
proof (cases "qj_parse J m")
  case None
  then show ?thesis by (intro ignored) (simp add: onTextMessage_def)
next
  case (Some j)
  let ?t = "qj_string J j ''type''"
  consider "?t = ''sender-ready''" | "?t = ''request''"
    | "?t \<in> {''offer'', ''answer'', ''candidate'', ''error''}"
    | "?t \<notin> {''sender-ready'', ''request'', ''offer'', ''answer'', ''candidate'', ''error''}"
    by blast
  then show ?thesis
  proof cases
    case 1
    with Some show ?thesis by (intro ready) (simp_all add: onTextMessage_def Let_def)
  next
    case 2
    with Some show ?thesis by (intro request) (simp_all add: onTextMessage_def Let_def)
  next
    case 3
    with Some show ?thesis by (intro session) (auto simp: onTextMessage_def Let_def)
  next
    case 4
    with Some show ?thesis by (intro ignored) (simp add: onTextMessage_def Let_def)
  qed
qed

subsection \<open>The table invariant\<close>

text \<open>
  What holds whatever the clients send: no raw pointer of any container names an object that
  is destroyed or about to be, a binding names two different sockets, and a socket mapped to
  a session is one of the two ends of that session.
\<close>

definition pointers_ok :: "server \<Rightarrow> bool" where
  "pointers_ok st \<longleftrightarrow>
     finite (sockets st) \<and> 0 \<notin> live st \<and> ready_senders st \<subseteq> sockets st
     \<and> sockets st \<subseteq> live st \<and> doomed st \<subseteq> live st \<and> sockets st \<inter> doomed st = {}
     \<and> dom (socket_to_session st) \<subseteq> sockets st"

definition binding_ok :: "sock set \<Rightarrow> session_binding \<Rightarrow> bool" where
  "binding_ok L b \<longleftrightarrow> sb_sender b \<in> insert 0 L \<and> sb_receiver b \<in> insert 0 L
     \<and> (sb_sender b = sb_receiver b \<longrightarrow> sb_sender b = 0)"

definition bindings_ok :: "server \<Rightarrow> bool" where
  "bindings_ok st \<longleftrightarrow>
     (\<forall>sid b. sessions st sid = Some b \<longrightarrow> sid \<noteq> [] \<and> binding_ok (live st) b)"

definition mapping_ok :: "server \<Rightarrow> bool" where
  "mapping_ok st \<longleftrightarrow>
     (\<forall>k sid. socket_to_session st k = Some sid \<longrightarrow>
        (\<exists>b. sessions st sid = Some b \<and> (k = sb_sender b \<or> k = sb_receiver b)))"

definition server_wf :: "server \<Rightarrow> bool" where
  "server_wf st \<longleftrightarrow> pointers_ok st \<and> bindings_ok st \<and> mapping_ok st"

definition enum_ok :: "(sock set \<Rightarrow> sock list) \<Rightarrow> bool" where
  "enum_ok enum \<longleftrightarrow> (\<forall>S. finite S \<longrightarrow> set (enum S) = S)"

lemmas wf_defs = server_wf_def pointers_ok_def bindings_ok_def mapping_ok_def

lemma wf_init: "server_wf init_server"
  by (simp add: wf_defs init_server_def)

lemma wf_cong:
  assumes "server_wf st" "sockets st' = sockets st" "ready_senders st' = ready_senders st"
    "sessions st' = sessions st" "socket_to_session st' = socket_to_session st"
    "live st' = live st" "doomed st' = doomed st"
  shows "server_wf st'"
  using assms by (simp add: wf_defs)

lemma binding_ok_mono: "binding_ok L b \<Longrightarrow> L \<subseteq> L' \<Longrightarrow> binding_ok L' b"
  by (auto simp: binding_ok_def)

lemma mapping_okD:
  "mapping_ok st \<Longrightarrow> socket_to_session st k = Some sid \<Longrightarrow> sessions st sid = Some b
   \<Longrightarrow> k = sb_sender b \<or> k = sb_receiver b"
  by (fastforce simp: mapping_ok_def)

lemma mapping_okE:
  assumes "mapping_ok st" "socket_to_session st k = Some sid"
  obtains b where "sessions st sid = Some b" "k = sb_sender b \<or> k = sb_receiver b"
  using assms unfolding mapping_ok_def by blast

lemma mapping_ok_bound:
  "mapping_ok st \<Longrightarrow> socket_to_session st k = Some sid \<Longrightarrow> sessions st sid \<noteq> None"
  by (auto simp: mapping_ok_def)

lemma wf_onNewConnection:
  assumes "server_wf st" "s \<notin> live st"
  shows "server_wf (onNewConnection s st)"
proof -
  have "pointers_ok (onNewConnection s st)"
    using assms by (auto simp: onNewConnection_def server_wf_def pointers_ok_def)
  moreover have "bindings_ok (onNewConnection s st)"
    using assms
    by (auto simp: onNewConnection_def server_wf_def bindings_ok_def intro: binding_ok_mono)
  moreover have "mapping_ok (onNewConnection s st)"
    using assms by (simp add: onNewConnection_def server_wf_def mapping_ok_def)
  ultimately show ?thesis by (simp add: server_wf_def)
qed

lemma wf_bind:
  assumes wf: "server_wf st" and r: "r \<in> sockets st" and x: "x \<in> ready_senders st"
    and sel: "selectable r st x" and sid: "sid \<noteq> []" "sessions st sid = None"
  shows "server_wf (st\<lparr>sessions := (sessions st)(sid \<mapsto> \<lparr>sb_sender = x, sb_receiver = r\<rparr>),
             socket_to_session := (socket_to_session st)(x \<mapsto> sid, r \<mapsto> sid)\<rparr>)" (is "server_wf ?st")
proof -
  have "pointers_ok ?st"
    using assms by (auto simp: server_wf_def pointers_ok_def)
  moreover have "bindings_ok ?st"
    using assms
    by (auto simp: server_wf_def pointers_ok_def bindings_ok_def binding_ok_def selectable_def)
  moreover have "mapping_ok ?st"
    using wf sid mapping_ok_bound [of st]
    by (fastforce simp: server_wf_def mapping_ok_def split: if_splits)
  ultimately show ?thesis by (simp add: server_wf_def)
qed

lemma enum_ready:
  "server_wf st \<Longrightarrow> enum_ok enum \<Longrightarrow> set (enum (ready_senders st)) = ready_senders st"
  unfolding server_wf_def pointers_ok_def enum_ok_def by (metis finite_subset)

lemma wf_handleRequest:
  assumes "server_wf st" "r \<in> sockets st" "enum_ok enum"
  shows "server_wf (handleRequest J enum r j sid st)"
proof (cases rule: handleRequest_cases [of J enum r j sid st])
  case (refused m)
  with assms(1) show ?thesis by (auto intro: wf_cong simp: frame_simps)
next
  case (bound x)
  have "x \<in> ready_senders st"
    using bound(3) enum_ready [OF assms(1,3)] by simp
  from wf_bind [OF assms(1,2) this bound(4,1,2)]
  show ?thesis
    unfolding bound(5) by (rule wf_cong) (simp_all add: frame_simps)
qed

lemma wf_forward: "server_wf st \<Longrightarrow> server_wf (forwardSessionMessage J s j sid st)"
  by (erule wf_cong) (simp_all add: frame_simps)

text \<open>What a disconnect does to each field, for a socket outside and inside a session.\<close>

lemma onDisconnected_fields [frame_simps]:
  "sockets (onDisconnected J s st) = sockets st - {s}"
  "ready_senders (onDisconnected J s st) = ready_senders st - {s}"
  "live (onDisconnected J s st) = live st"
  "doomed (onDisconnected J s st) = insert s (doomed st)"
  by (simp_all add: onDisconnected_def Let_def frame_simps)

lemma onDisconnected_free:
  assumes "socket_to_session st s = None"
  shows "sessions (onDisconnected J s st) = sessions st"
    and "socket_to_session (onDisconnected J s st) = socket_to_session st"
    and "sent (onDisconnected J s st) = sent st"
  using assms by (auto simp: onDisconnected_def Let_def)

lemma onDisconnected_bound:
  assumes "socket_to_session st s = Some sid" "sid \<noteq> []" "sessions st sid = Some b"
  shows "sessions (onDisconnected J s st) = (sessions st)(sid := None)"
    and "socket_to_session (onDisconnected J s st) k =
      (if k = s \<or> k \<noteq> 0 \<and> (k = sb_sender b \<or> k = sb_receiver b) then None
       else socket_to_session st k)"
    and "sent (onDisconnected J s st) =
      sent st @ map (\<lambda>k. (k, qj_compact J (qj_object J
                    [(''type'', ''peer-disconnected''), (''id'', sid)])))
                (filter (\<lambda>k. k \<noteq> 0 \<and> k \<noteq> s) [sb_sender b, sb_receiver b])"
  using assms
  by (auto simp: onDisconnected_def Let_def frame_simps release_end_def sendPeerDisconnected_def
      sendJson_def)

lemma wf_onDisconnected:
  assumes wf: "server_wf st" and s: "s \<in> sockets st"
  shows "server_wf (onDisconnected J s st)"
proof (cases "socket_to_session st s")
  case None
  have "pointers_ok (onDisconnected J s st)"
    using wf s None
    by (auto simp: server_wf_def pointers_ok_def frame_simps onDisconnected_free)
  with wf None show ?thesis
    by (simp add: server_wf_def bindings_ok_def mapping_ok_def frame_simps onDisconnected_free)
next
  case (Some sid)
  then obtain b where b: "sessions st sid = Some b" and sid: "sid \<noteq> []"
    using wf by (fastforce simp: server_wf_def mapping_ok_def bindings_ok_def)
  note bound = onDisconnected_bound [OF Some sid b, where J = J]
  have "pointers_ok (onDisconnected J s st)"
    using wf s
    by (auto simp: server_wf_def pointers_ok_def frame_simps bound dom_def split: if_splits)
  moreover have "bindings_ok (onDisconnected J s st)"
    using wf by (simp add: server_wf_def bindings_ok_def frame_simps bound)
  moreover have "mapping_ok (onDisconnected J s st)"
  proof -
    have nz: "k \<noteq> 0" if "socket_to_session st k = Some i" for k i
      using wf that by (auto simp: server_wf_def pointers_ok_def)
    have "i \<noteq> sid \<or> k = sb_sender b \<or> k = sb_receiver b" if "socket_to_session st k = Some i" for k i
      using mapping_okD [of st k i b] that b wf by (auto simp: server_wf_def)
    with wf nz show ?thesis
      by (fastforce simp: server_wf_def mapping_ok_def bound split: if_splits)
  qed
  ultimately show ?thesis by (simp add: server_wf_def)
qed

lemma binding_ok_clear: "binding_ok L b \<Longrightarrow> binding_ok (L - {s}) (clear_qpointer s b)"
  by (simp add: binding_ok_def clear_qpointer_def)

lemma wf_destroy_socket:
  assumes wf: "server_wf st" and s: "s \<in> doomed st"
  shows "server_wf (destroy_socket s st)"
proof -
  have "pointers_ok (destroy_socket s st)"
    using wf s by (auto simp: server_wf_def pointers_ok_def destroy_socket_def)
  moreover have "bindings_ok (destroy_socket s st)"
    using wf
    by (auto simp: server_wf_def bindings_ok_def destroy_socket_def intro: binding_ok_clear)
  moreover have "mapping_ok (destroy_socket s st)"
    unfolding mapping_ok_def
  proof (intro allI impI)
    fix k sid
    assume k: "socket_to_session (destroy_socket s st) k = Some sid"
    then have k': "socket_to_session st k = Some sid" by (simp add: destroy_socket_def)
    have "mapping_ok st" using wf by (simp add: server_wf_def)
    from this k' obtain b where "sessions st sid = Some b" "k = sb_sender b \<or> k = sb_receiver b"
      by (rule mapping_okE)
    moreover have "k \<noteq> s"
      using k' wf s by (auto simp: server_wf_def pointers_ok_def)
    ultimately show "\<exists>b. sessions (destroy_socket s st) sid = Some b
        \<and> (k = sb_sender b \<or> k = sb_receiver b)"
      by (auto simp: destroy_socket_def clear_qpointer_def)
  qed
  ultimately show ?thesis by (simp add: server_wf_def)
qed

lemma wf_onTextMessage:
  assumes wf: "server_wf st" and s: "s \<in> sockets st" and en: "enum_ok enum"
  shows "server_wf (onTextMessage J enum s m st)"
proof (cases rule: onTextMessage_cases [of J enum s m st])
  case ready
  have "server_wf (st\<lparr>ready_senders := insert s (ready_senders st)\<rparr>)"
    using wf s by (auto simp: wf_defs)
  with ready show ?thesis by simp
qed (simp_all add: wf wf_handleRequest [OF assms] wf_forward [OF wf])

lemma wf_step:
  assumes "enum_ok enum" "server_trans J enum G ev st = Some st'" "server_wf st"
  shows "server_wf st'"
  using assms
  by (cases ev)
    (auto simp: server_trans_def wf_onNewConnection wf_onTextMessage wf_onDisconnected
      wf_destroy_socket split: if_splits)

interpretation srv: invariant_system "server_trans J enum G" init_server
    "\<lambda>st. enum_ok enum \<longrightarrow> server_wf st" for J enum G
  by unfold_locales (auto intro: wf_init wf_step)

subsection \<open>Exact sessions\<close>

text \<open>
  When every client keeps to one session at a time the two tables agree: both ends of every
  session are connected and mapped to it, so a socket is in at most one session.
\<close>

definition exact_binding :: "server \<Rightarrow> string \<Rightarrow> session_binding \<Rightarrow> bool" where
  "exact_binding st sid b \<longleftrightarrow>
     sb_sender b \<noteq> sb_receiver b \<and> {sb_sender b, sb_receiver b} \<subseteq> sockets st
     \<and> socket_to_session st (sb_sender b) = Some sid
     \<and> socket_to_session st (sb_receiver b) = Some sid"

definition server_exact :: "server \<Rightarrow> bool" where
  "server_exact st \<longleftrightarrow>
     server_wf st \<and> (\<forall>sid b. sessions st sid = Some b \<longrightarrow> exact_binding st sid b)"

lemma exact_wf: "server_exact st \<Longrightarrow> server_wf st"
  by (simp add: server_exact_def)

lemma exactD: "server_exact st \<Longrightarrow> sessions st sid = Some b \<Longrightarrow> exact_binding st sid b"
  by (simp add: server_exact_def)

lemma exact_cong:
  assumes "server_exact st" "sockets st \<subseteq> sockets st'" "sessions st' = sessions st"
    "socket_to_session st' = socket_to_session st" "server_wf st'"
  shows "server_exact st'"
  using assms by (auto simp: server_exact_def exact_binding_def)

lemma exact_handleRequest:
  assumes ex: "server_exact st" and r: "r \<in> sockets st" and en: "enum_ok enum"
    and free: "socket_to_session st r = None"
  shows "server_exact (handleRequest J enum r j sid st)"
proof (cases rule: handleRequest_cases [of J enum r j sid st])
  case (refused m)
  with ex wf_handleRequest [OF exact_wf [OF ex] r en, of J j sid] show ?thesis
    by (auto intro: exact_cong simp: frame_simps)
next
  case (bound x)
  have wf: "server_wf st" using ex by (rule exact_wf)
  have "x \<in> ready_senders st"
    using bound(3) enum_ready [OF wf en] by simp
  then have x: "x \<in> sockets st" using wf by (auto simp: wf_defs)
  have new: "exact_binding (handleRequest J enum r j sid st) i b"
    if "sessions (handleRequest J enum r j sid st) i = Some b" for i b
  proof (cases "i = sid")
    case True
    with that bound x r show ?thesis
      by (auto simp: exact_binding_def frame_simps selectable_def)
  next
    case False
    with that have "sessions st i = Some b" by (simp add: bound(5) frame_simps)
    from exactD [OF ex this] have old: "exact_binding st i b" .
    with free bound(4) have "x \<notin> {sb_sender b, sb_receiver b}" "r \<notin> {sb_sender b, sb_receiver b}"
      by (auto simp: exact_binding_def selectable_def)
    with old show ?thesis
      by (simp add: exact_binding_def bound(5) frame_simps)
  qed
  with wf_handleRequest [OF wf r en, of J j sid] show ?thesis
    by (simp add: server_exact_def)
qed

lemma exact_onDisconnected:
  assumes ex: "server_exact st" and s: "s \<in> sockets st"
  shows "server_exact (onDisconnected J s st)"
proof -
  have wf: "server_wf (onDisconnected J s st)"
    using wf_onDisconnected [OF exact_wf [OF ex] s] .
  show ?thesis
  proof (cases "socket_to_session st s")
    case None
    have "exact_binding (onDisconnected J s st) i c" if "sessions st i = Some c" for i c
      using exactD [OF ex that] None
      by (auto simp: exact_binding_def frame_simps onDisconnected_free)
    with wf None show ?thesis by (simp add: server_exact_def onDisconnected_free)
  next
    case (Some sid)
    have "mapping_ok st" using ex by (simp add: server_exact_def server_wf_def)
    from this Some obtain b where b: "sessions st sid = Some b" by (rule mapping_okE)
    have sid: "sid \<noteq> []" using ex b by (auto simp: server_exact_def server_wf_def bindings_ok_def)
    note bound = onDisconnected_bound [OF Some sid b, where J = J]
    have sb: "exact_binding st sid b" by (rule exactD [OF ex b])
    have "exact_binding (onDisconnected J s st) i c"
      if i: "sessions st i = Some c" "i \<noteq> sid" for i c
    proof -
      have c: "exact_binding st i c" by (rule exactD [OF ex i(1)])
      with sb Some i(2) have "{sb_sender c, sb_receiver c} \<inter> {s, sb_sender b, sb_receiver b} = {}"
        by (auto simp: exact_binding_def)
      with c show ?thesis by (auto simp: exact_binding_def frame_simps bound)
    qed
    with wf show ?thesis by (simp add: server_exact_def bound)
  qed
qed

lemma exact_destroy_socket:
  assumes ex: "server_exact st" and s: "s \<in> doomed st"
  shows "server_exact (destroy_socket s st)"
proof -
  have out: "s \<notin> sockets st" using ex s by (auto simp: server_exact_def wf_defs)
  have "exact_binding (destroy_socket s st) i (clear_qpointer s b)" if "sessions st i = Some b" for i b
    using exactD [OF ex that] out
    by (auto simp: exact_binding_def clear_qpointer_def destroy_socket_def)
  then have "exact_binding (destroy_socket s st) i c"
    if "sessions (destroy_socket s st) i = Some c" for i c
    using that by (auto simp: destroy_socket_def)
  with wf_destroy_socket [OF exact_wf [OF ex] s] show ?thesis
    by (simp add: server_exact_def)
qed

lemma exact_step:
  assumes en: "enum_ok enum" and tr: "server_trans J enum (one_session_client J) ev st = Some st'"
    and ex: "server_exact st"
  shows "server_exact st'"
proof -
  from tr have ok: "server_enabled ev st" "one_session_client J ev st"
    and st': "st' = server_step J enum ev st"
    by (auto simp: server_trans_def split: if_splits)
  have wf: "server_wf st'" by (rule wf_step [OF en tr exact_wf [OF ex]])
  show ?thesis
  proof (cases ev)
    case (EvConnect s)
    with wf st' show ?thesis
      by (intro exact_cong [OF ex]) (auto simp: onNewConnection_def)
  next
    case (EvText s m)
    show ?thesis
    proof (cases rule: onTextMessage_cases [of J enum s m st])
      case ignored
      with EvText st' ex show ?thesis by simp
    next
      case (ready j)
      with EvText st' wf show ?thesis by (intro exact_cong [OF ex]) simp_all
    next
      case (request j)
      with EvText ok have "socket_to_session st s = None" "s \<in> sockets st" by simp_all
      with exact_handleRequest [OF ex _ en] request EvText st' show ?thesis by simp
    next
      case (session j)
      with EvText st' wf show ?thesis by (intro exact_cong [OF ex]) (simp_all add: frame_simps)
    qed
  next
    case (EvDisconnect s)
    with ok st' exact_onDisconnected [OF ex] show ?thesis by simp
  next
    case (EvDestroy s)
    with ok st' exact_destroy_socket [OF ex] show ?thesis by simp
  qed
qed

lemma exact_init: "server_exact init_server"
  using wf_init by (simp add: server_exact_def) (simp add: init_server_def)

interpretation one_session: invariant_system "server_trans J enum (one_session_client J)"
    init_server "\<lambda>st. enum_ok enum \<longrightarrow> server_exact st" for J enum
  by unfold_locales (auto intro: exact_init exact_step)

subsection \<open>A small wire format for evaluation\<close>

text \<open>
  A concrete \<open>qjson\<close> and iteration order, used only to evaluate the server on runs.
\<close>

definition demo_json :: "(string \<times> string) list qjson" where
  "demo_json = \<lparr>
     qj_parse = map_of
       [(''ready'', [(''type'', ''sender-ready'')]),
        (''req1'', [(''type'', ''request''), (''id'', ''1'')]),
        (''req2'', [(''type'', ''request''), (''id'', ''2'')]),
        (''req3'', [(''type'', ''request''), (''id'', ''3'')]),
        (''off1'', [(''type'', ''offer''), (''id'', ''1'')])],
     qj_string = (\<lambda>j k. case map_of j k of None \<Rightarrow> '''' | Some v \<Rightarrow> v),
     qj_object = (\<lambda>fields. fields),
     qj_compact = (\<lambda>j. concat (map (\<lambda>(k, v). k @ '':'' @ v @ '';'') j))\<rparr>"

definition demo_enum :: "sock set \<Rightarrow> sock list" where
  "demo_enum = sorted_list_of_set"

definition demo_run :: "server_event list \<Rightarrow> server option" where
  "demo_run es = run (server_trans demo_json demo_enum any_client) es init_server"

definition demo_events :: "server_event list" where
  "demo_events = [EvConnect 1, EvConnect 2, EvText 1 ''ready'', EvText 2 ''req1'']"

text \<open>A sender (1) and a receiver (2) in session ''1''.\<close>

definition demo_state :: server where
  "demo_state = the (run (server_trans demo_json demo_enum (one_session_client demo_json))
     demo_events init_server)"

lemma demo_enum_ok: "enum_ok demo_enum"
  by (simp add: enum_ok_def demo_enum_def)

lemma demo_state_reachable:
  "reachable (server_trans demo_json demo_enum (one_session_client demo_json)) init_server demo_state"
proof -
  have "\<not> Option.is_none
      (run (server_trans demo_json demo_enum (one_session_client demo_json)) demo_events init_server)"
    by code_simp
  then show ?thesis unfolding demo_state_def
    by (intro run_reachable [of _ demo_events]) (auto simp: Option.is_none_def)
qed

lemma demo_state_session:
  "sessions demo_state ''1'' = Some \<lparr>sb_sender = 1, sb_receiver = 2\<rparr>"
  "1 \<in> sockets demo_state" "2 \<in> sockets demo_state"
  by code_simp+

subsection \<open>Properties of the server\<close>

text \<open>C1. Whatever the clients send, the raw pointers kept in the containers name connected sockets
  that nobody has given to \<^verbatim>\<open>deleteLater\<close>: the announced senders and the keys of the reverse
  table are connected. A session is stored under a non-empty id; its two ends are different unless
  both are null, and each is null or an object that still exists, which is all that holds of them (an
  end may have disconnected); a socket of the reverse table is an end of the session it maps to.\<close>
theorem server_tables_safe:
  assumes "enum_ok enum" and "reachable (server_trans J enum any_client) init_server st"
  shows "ready_senders st \<union> dom (socket_to_session st) \<subseteq> sockets st
    \<and> sockets st \<subseteq> live st - doomed st \<and> 0 \<notin> live st
    \<and> (\<forall>sid b. sessions st sid = Some b \<longrightarrow> sid \<noteq> []
         \<and> {sb_sender b, sb_receiver b} \<subseteq> insert 0 (live st)
         \<and> (sb_sender b = sb_receiver b \<longrightarrow> sb_sender b = 0))
    \<and> (\<forall>k sid. socket_to_session st k = Some sid \<longrightarrow>
         (\<exists>b. sessions st sid = Some b \<and> k \<in> {sb_sender b, sb_receiver b}))"
proof -
  have wf: "pointers_ok st" "bindings_ok st" "mapping_ok st"
    using srv.reachable_inv [OF assms(2)] assms(1) by (auto simp: server_wf_def)
  have "ready_senders st \<union> dom (socket_to_session st) \<subseteq> sockets st"
    "sockets st \<subseteq> live st - doomed st" "0 \<notin> live st"
    using wf(1) by (auto simp: pointers_ok_def)
  moreover have "\<forall>sid b. sessions st sid = Some b \<longrightarrow> sid \<noteq> []
         \<and> {sb_sender b, sb_receiver b} \<subseteq> insert 0 (live st)
         \<and> (sb_sender b = sb_receiver b \<longrightarrow> sb_sender b = 0)"
    using wf(2) by (auto simp: bindings_ok_def binding_ok_def)
  moreover have "\<forall>k sid. socket_to_session st k = Some sid \<longrightarrow>
         (\<exists>b. sessions st sid = Some b \<and> k \<in> {sb_sender b, sb_receiver b})"
    using mapping_okE [OF wf(3)] by blast
  ultimately show ?thesis by blast
qed

lemma reachable_any_client:
  assumes "reachable (server_trans J enum G) i st"
  shows "reachable (server_trans J enum any_client) i st"
  using assms
proof (induction rule: reachable.induct)
  case reach_init
  show ?case by (rule reachable.reach_init)
next
  case (reach_step s e t)
  then have "server_trans J enum any_client e s = Some t"
    by (auto simp: server_trans_def any_client_def split: if_splits)
  with reach_step show ?case by (blast intro: reachable.reach_step)
qed

theorem server_tables_safe_witness:
  "enum_ok demo_enum
   \<and> reachable (server_trans demo_json demo_enum any_client) init_server demo_state
   \<and> sockets demo_state \<subseteq> live demo_state - doomed demo_state"
  using server_tables_safe [OF demo_enum_ok reachable_any_client [OF demo_state_reachable]]
    demo_enum_ok reachable_any_client [OF demo_state_reachable]
  by blast



text \<open>C34. Without that discipline the comment that a sender carries one session at a time is
  wrong: a socket that announced itself and also asks for a session loses its entry when the
  sender of that session leaves, and is then given a second session to send.\<close>
theorem sender_in_two_sessions_reachable:
  "\<exists>es st b b'. run (server_trans demo_json demo_enum any_client) es init_server = Some st
     \<and> sessions st ''1'' = Some b \<and> sessions st ''3'' = Some b'
     \<and> sb_sender b = 1 \<and> sb_sender b' = 1 \<and> sb_receiver b \<noteq> sb_receiver b'
     \<and> {sb_sender b, sb_receiver b, sb_receiver b'} \<subseteq> sockets st"
proof -
  let ?es = "[EvConnect 1, EvConnect 2, EvConnect 3, EvConnect 4,
    EvText 1 ''ready'', EvText 2 ''ready'', EvText 3 ''req1'', EvText 1 ''req2'',
    EvDisconnect 2, EvText 4 ''req3'']"
  have "case demo_run ?es of None \<Rightarrow> False
    | Some st \<Rightarrow> sessions st ''1'' = Some \<lparr>sb_sender = 1, sb_receiver = 3\<rparr>
        \<and> sessions st ''3'' = Some \<lparr>sb_sender = 1, sb_receiver = 4\<rparr>
        \<and> 1 \<in> sockets st \<and> 3 \<in> sockets st \<and> 4 \<in> sockets st"
    by code_simp
  then obtain st where "demo_run ?es = Some st"
    and "sessions st ''1'' = Some \<lparr>sb_sender = 1, sb_receiver = 3\<rparr>"
      "sessions st ''3'' = Some \<lparr>sb_sender = 1, sb_receiver = 4\<rparr>"
      "1 \<in> sockets st" "3 \<in> sockets st" "4 \<in> sockets st"
    by (auto split: option.splits)
  then show ?thesis
    by (intro exI [of _ ?es] exI [of _ st] exI [of _ "\<lparr>sb_sender = 1, sb_receiver = 3\<rparr>"]
        exI [of _ "\<lparr>sb_sender = 1, sb_receiver = 4\<rparr>"])
      (simp del: run.simps flip: demo_run_def)
qed

text \<open>
  What C1 leaves open about the ends of a session does happen: when such a sender leaves, only the
  session of its reverse entry is removed, and the other one goes on naming a socket that is not
  connected, so its id stays taken although its sender is gone.
\<close>

lemma stale_session_reachable:
  "\<exists>es st b. run (server_trans demo_json demo_enum any_client) es init_server = Some st
     \<and> sessions st ''1'' = Some b \<and> sb_sender b = 1 \<and> 1 \<notin> sockets st \<and> sb_receiver b \<in> sockets st"
proof -
  let ?es = "[EvConnect 1, EvConnect 2, EvConnect 3, EvConnect 4,
    EvText 1 ''ready'', EvText 2 ''ready'', EvText 3 ''req1'', EvText 1 ''req2'',
    EvDisconnect 2, EvText 4 ''req3'', EvDisconnect 1]"
  have "case demo_run ?es of None \<Rightarrow> False
    | Some st \<Rightarrow> sessions st ''1'' = Some \<lparr>sb_sender = 1, sb_receiver = 3\<rparr>
        \<and> 1 \<notin> sockets st \<and> 3 \<in> sockets st"
    by code_simp
  then obtain st where "demo_run ?es = Some st"
    and "sessions st ''1'' = Some \<lparr>sb_sender = 1, sb_receiver = 3\<rparr>" "1 \<notin> sockets st" "3 \<in> sockets st"
    by (auto split: option.splits)
  then show ?thesis
    by (intro exI [of _ ?es] exI [of _ st] exI [of _ "\<lparr>sb_sender = 1, sb_receiver = 3\<rparr>"])
      (simp del: run.simps flip: demo_run_def)
qed

lemma request_step:
  assumes "qj_parse J m = Some j" "qj_string J j ''type'' = ''request''"
  shows "onTextMessage J enum s m st = handleRequest J enum s j (qj_string J j ''id'') st"
  using assms by (simp add: onTextMessage_def Let_def)

lemma selectable_ready:
  assumes "server_wf st" "x \<in> ready_senders st"
  shows "selectable s st x \<longleftrightarrow> x \<noteq> s \<and> socket_to_session st x = None"
  using assms by (cases "x = 0") (auto simp: selectable_def server_wf_def pointers_ok_def)

lemma handleRequest_grants:
  assumes "server_wf st" "enum_ok enum" "sid \<noteq> []" "sessions st sid = None"
    and free: "\<exists>x \<in> ready_senders st. x \<noteq> s \<and> socket_to_session st x = None"
  obtains x where "x \<in> ready_senders st" "x \<noteq> s" "x \<noteq> 0" "socket_to_session st x = None"
    "handleRequest J enum s j sid st = st\<lparr>
          sessions := (sessions st)(sid \<mapsto> \<lparr>sb_sender = x, sb_receiver = s\<rparr>),
          socket_to_session := (socket_to_session st)(x \<mapsto> sid, s \<mapsto> sid),
          sent := sent st @ [(x, qj_compact J j)]\<rparr>"
proof (cases "find (selectable s st) (enum (ready_senders st))")
  case None
  then have "\<forall>x \<in> ready_senders st. \<not> selectable s st x"
    by (simp add: find_None_all enum_ready [OF assms(1,2)])
  with free selectable_ready [OF assms(1)] have False by blast
  then show thesis ..
next
  case (Some x)
  from find_Some_mem [OF this] have x: "x \<in> ready_senders st" "selectable s st x"
    by (auto simp: enum_ready [OF assms(1,2)])
  then have "x \<noteq> 0" by (simp add: selectable_def)
  with x Some assms(3,4) selectable_ready [OF assms(1) x(1)] show thesis
    by (intro that [of x]) (simp_all add: handleRequest_def sendJson_def)
qed

text \<open>The error reply to a client, with nothing else changed.\<close>

definition error_reply :: "'j qjson \<Rightarrow> sock \<Rightarrow> string \<Rightarrow> server \<Rightarrow> server" where
  "error_reply J s reason st = st\<lparr>sent := sent st @ [(s, qj_compact J
     (qj_object J [(''type'', ''error''), (''message'', reason)]))]\<rparr>"

lemma sendError_reply: "s \<noteq> 0 \<Longrightarrow> sendError J s reason st = error_reply J s reason st"
  by (simp add: sendError_def sendJson_def error_reply_def)

lemma connected_pos: "server_wf st \<Longrightarrow> s \<in> sockets st \<Longrightarrow> s \<noteq> 0"
  by (auto simp: server_wf_def pointers_ok_def)

text \<open>C3. A request of a connected client is granted exactly when its id is not empty and new and
  some announced sender other than the requester is in no session. Then both tables record the pair
  and that sender is sent the request unchanged. Otherwise nothing but an error reply to the
  requester happens, which says, in this order: the id is missing, the session already exists, or no
  sender is available.\<close>
theorem request_granted_iff_sender_free:
  assumes "server_wf st" "enum_ok enum" "s \<in> sockets st"
    and "qj_parse J m = Some j" "qj_string J j ''type'' = ''request''"
    and "sid = qj_string J j ''id''"
  shows "if sid = [] then onTextMessage J enum s m st = error_reply J s err_missing_id st
    else if sessions st sid \<noteq> None then onTextMessage J enum s m st = error_reply J s (err_exists sid) st
    else if \<exists>x \<in> ready_senders st. x \<noteq> s \<and> socket_to_session st x = None
    then \<exists>x \<in> ready_senders st. x \<noteq> s \<and> socket_to_session st x = None
      \<and> onTextMessage J enum s m st = st\<lparr>
          sessions := (sessions st)(sid \<mapsto> \<lparr>sb_sender = x, sb_receiver = s\<rparr>),
          socket_to_session := (socket_to_session st)(x \<mapsto> sid, s \<mapsto> sid),
          sent := sent st @ [(x, qj_compact J j)]\<rparr>
    else onTextMessage J enum s m st = error_reply J s err_no_sender st"
proof -
  have req: "onTextMessage J enum s m st = handleRequest J enum s j sid st"
    unfolding assms(6) by (rule request_step [OF assms(4,5)])
  have s: "s \<noteq> 0" by (rule connected_pos [OF assms(1,3)])
  consider "sid = []" | "sid \<noteq> []" "sessions st sid \<noteq> None"
    | "sid \<noteq> []" "sessions st sid = None" "\<exists>x \<in> ready_senders st. x \<noteq> s \<and> socket_to_session st x = None"
    | "sid \<noteq> []" "sessions st sid = None" "\<not> (\<exists>x \<in> ready_senders st. x \<noteq> s \<and> socket_to_session st x = None)"
    by blast
  then show ?thesis
  proof cases
    case 1
    with s show ?thesis by (simp add: req handleRequest_def sendError_reply)
  next
    case 2
    with s show ?thesis by (simp add: req handleRequest_def sendError_reply)
  next
    case 3
    show ?thesis
      by (rule handleRequest_grants [OF assms(1,2) 3, of J j]) (use 3 in \<open>auto simp: req\<close>)
  next
    case 4
    have "find (selectable s st) (enum (ready_senders st)) = None"
      using 4(3) selectable_ready [OF assms(1)] by (auto simp: find_None_iff enum_ready [OF assms(1,2)])
    with 4 s show ?thesis by (simp only: req if_False) (simp add: handleRequest_def sendError_reply)
  qed
qed

text \<open>A sender (1) that is announced and a receiver (2) with no session yet.\<close>

definition demo_idle :: server where
  "demo_idle = the (run (server_trans demo_json demo_enum any_client)
     [EvConnect 1, EvConnect 2, EvText 1 ''ready''] init_server)"

lemma demo_idle_run:
  "run (server_trans demo_json demo_enum any_client)
     [EvConnect 1, EvConnect 2, EvText 1 ''ready''] init_server = Some demo_idle"
proof -
  have "\<not> Option.is_none (run (server_trans demo_json demo_enum any_client)
     [EvConnect 1, EvConnect 2, EvText 1 ''ready''] init_server)" by code_simp
  then show ?thesis by (simp only: demo_idle_def is_none_simps option.collapse Option.is_none_def) simp
qed

lemma demo_idle_facts:
  "server_wf demo_idle" "2 \<in> sockets demo_idle" "sessions demo_idle ''1'' = None"
  "1 \<in> ready_senders demo_idle" "socket_to_session demo_idle 1 = None"
proof -
  show "server_wf demo_idle" using srv.run_inv [OF demo_idle_run] demo_enum_ok by blast
  show "2 \<in> sockets demo_idle" "1 \<in> ready_senders demo_idle" by code_simp+
  have "Option.is_none (sessions demo_idle ''1'') \<and> Option.is_none (socket_to_session demo_idle 1)"
    by code_simp
  then show "sessions demo_idle ''1'' = None" "socket_to_session demo_idle 1 = None"
    by (simp_all add: Option.is_none_def)
qed

theorem request_granted_iff_sender_free_witness:
  "\<exists>x \<in> ready_senders demo_idle. x \<noteq> 2
     \<and> sessions (onTextMessage demo_json demo_enum 2 ''req1'' demo_idle) ''1''
         = Some \<lparr>sb_sender = x, sb_receiver = 2\<rparr>"
proof -
  let ?j = "[(''type'', ''request''), (''id'', ''1'')]"
  have "qj_parse demo_json ''req1'' = Some ?j" "qj_string demo_json ?j ''type'' = ''request''"
    "''1'' = qj_string demo_json ?j ''id''"
    by (simp_all add: demo_json_def)
  from request_granted_iff_sender_free [OF demo_idle_facts(1) demo_enum_ok demo_idle_facts(2) this]
  show ?thesis using demo_idle_facts(3-5) by (force split: if_splits)
qed

text \<open>What a disconnect does to the tables, in terms of the reverse table's entry.\<close>

lemma mapped_session:
  assumes "server_wf st" "socket_to_session st s = Some sid" "s \<noteq> 0"
  obtains b peer where "sessions st sid = Some b" "sid \<noteq> []" "peer \<noteq> s"
    "{s, peer} = {sb_sender b, sb_receiver b}" "filter (\<lambda>k. k \<noteq> s) [sb_sender b, sb_receiver b] = [peer]"
proof -
  have wf: "bindings_ok st" "mapping_ok st" using assms(1) by (simp_all add: server_wf_def)
  obtain b where b: "sessions st sid = Some b" "s = sb_sender b \<or> s = sb_receiver b"
    using wf(2) assms(2) by (rule mapping_okE)
  let ?peer = "if s = sb_sender b then sb_receiver b else sb_sender b"
  have ok: "sid \<noteq> []" "binding_ok (live st) b" using wf(1) b(1) by (auto simp: bindings_ok_def)
  have "sb_sender b \<noteq> sb_receiver b"
  proof
    assume eq: "sb_sender b = sb_receiver b"
    with ok(2) have "sb_sender b = 0" by (simp add: binding_ok_def)
    with eq b(2) assms(3) show False by simp
  qed
  with b ok(1) show thesis by (intro that [of b ?peer]) auto
qed

lemma disconnect_mapped:
  assumes wf: "server_wf st" and "s \<in> sockets st" and map: "socket_to_session st s = Some sid"
  shows "\<exists>b peer. sessions st sid = Some b \<and> peer \<noteq> s \<and> {s, peer} = {sb_sender b, sb_receiver b}
    \<and> sessions (onDisconnected J s st) = (sessions st)(sid := None)
    \<and> socket_to_session (onDisconnected J s st) = (socket_to_session st)(s := None, peer := None)
    \<and> sent (onDisconnected J s st) = sent st @ (if peer = 0 then [] else [(peer, qj_compact J
          (qj_object J [(''type'', ''peer-disconnected''), (''id'', sid)]))])
    \<and> (peer \<in> ready_senders st \<longrightarrow> peer \<in> ready_senders (onDisconnected J s st)
         \<and> (\<forall>r. r \<noteq> peer \<longrightarrow> selectable r (onDisconnected J s st) peer))"
proof -
  have s: "s \<noteq> 0" by (rule connected_pos [OF assms(1,2)])
  obtain b peer where b: "sessions st sid = Some b" "sid \<noteq> []" "peer \<noteq> s"
    "{s, peer} = {sb_sender b, sb_receiver b}" "filter (\<lambda>k. k \<noteq> s) [sb_sender b, sb_receiver b] = [peer]"
    by (rule mapped_session [OF wf map s])
  note bound = onDisconnected_bound [OF map b(2,1), where J = J]
  have zero: "socket_to_session st 0 = None" using wf by (auto simp: server_wf_def pointers_ok_def)
  have ends: "k = sb_sender b \<or> k = sb_receiver b \<longleftrightarrow> k = s \<or> k = peer" for k using b(4) by blast
  have tab: "socket_to_session (onDisconnected J s st) = (socket_to_session st)(s := None, peer := None)"
    using zero by (auto simp: bound(2) ends fun_eq_iff)
  have "filter (\<lambda>k. k \<noteq> 0 \<and> k \<noteq> s) [sb_sender b, sb_receiver b]
      = filter (\<lambda>k. k \<noteq> 0) (filter (\<lambda>k. k \<noteq> s) [sb_sender b, sb_receiver b])" by simp
  also have "\<dots> = (if peer = 0 then [] else [peer])" unfolding b(5) by simp
  finally have told: "filter (\<lambda>k. k \<noteq> 0 \<and> k \<noteq> s) [sb_sender b, sb_receiver b] = (if peer = 0 then [] else [peer])" .
  have "peer \<noteq> 0" if "peer \<in> ready_senders st"
    using that wf by (auto simp: server_wf_def pointers_ok_def)
  then have again: "peer \<in> ready_senders st \<longrightarrow> peer \<in> ready_senders (onDisconnected J s st)
         \<and> (\<forall>r. r \<noteq> peer \<longrightarrow> selectable r (onDisconnected J s st) peer)"
    using b(3) by (simp add: selectable_def tab frame_simps)
  have out: "sent (onDisconnected J s st) = sent st @ (if peer = 0 then [] else [(peer, qj_compact J
          (qj_object J [(''type'', ''peer-disconnected''), (''id'', sid)]))])"
    unfolding bound(3) told by simp
  show ?thesis using b(1,3,4) bound(1) tab out again by blast
qed

lemma exact_disconnect_sessions:
  assumes "server_exact st" "s \<in> sockets st"
  shows "sessions (onDisconnected J s st) =
    (\<lambda>i. case sessions st i of None \<Rightarrow> None
         | Some b \<Rightarrow> if s \<in> {sb_sender b, sb_receiver b} then None else Some b)"
proof -
  have member: "socket_to_session st s = Some i"
    if "sessions st i = Some b" "s \<in> {sb_sender b, sb_receiver b}" for i b
    using exactD [OF assms(1) that(1)] that(2) by (auto simp: exact_binding_def)
  show ?thesis
  proof (cases "socket_to_session st s")
    case None
    with member show ?thesis by (fastforce simp: onDisconnected_free fun_eq_iff split: option.split)
  next
    case (Some sid)
    obtain b peer where "sessions st sid = Some b" "{s, peer} = {sb_sender b, sb_receiver b}"
      "sessions (onDisconnected J s st) = (sessions st)(sid := None)"
      using disconnect_mapped [OF exact_wf [OF assms(1)] assms(2) Some, of J] by blast
    note s = this
    show ?thesis
    proof (rule ext)
      fix i
      show "sessions (onDisconnected J s st) i = (case sessions st i of None \<Rightarrow> None
         | Some b \<Rightarrow> if s \<in> {sb_sender b, sb_receiver b} then None else Some b)"
      proof (cases "i = sid")
        case True
        have "s \<in> {sb_sender b, sb_receiver b}" using s(2) by blast
        with s(1,3) True show ?thesis by simp
      next
        case False
        with member [of i] Some s(3) show ?thesis by (cases "sessions st i") auto
      qed
    qed
  qed
qed

text \<open>C5. When a socket disconnects, it leaves the connected sockets and the announced senders and
  is given to \<^verbatim>\<open>deleteLater\<close>. If the reverse table has no session for it, no table changes and
  nobody is told. Otherwise exactly that session and both ends' entries are removed, its other end,
  unless it is null, is told once, and an announced sender at that end can be chosen by the next
  request. Only the session of the reverse table is removed; where each client is in at most one
  session these are all the sessions of the socket, and no session names it afterwards.\<close>
theorem disconnect_releases_peer:
  assumes "server_wf st" "s \<in> sockets st"
  shows "sockets (onDisconnected J s st) = sockets st - {s}
    \<and> ready_senders (onDisconnected J s st) = ready_senders st - {s}
    \<and> doomed (onDisconnected J s st) = insert s (doomed st)
    \<and> (case socket_to_session st s of
         None \<Rightarrow> sessions (onDisconnected J s st) = sessions st
           \<and> socket_to_session (onDisconnected J s st) = socket_to_session st
           \<and> sent (onDisconnected J s st) = sent st
       | Some sid \<Rightarrow> (\<exists>b peer. sessions st sid = Some b \<and> peer \<noteq> s \<and> {s, peer} = {sb_sender b, sb_receiver b}
           \<and> sessions (onDisconnected J s st) = (sessions st)(sid := None)
           \<and> socket_to_session (onDisconnected J s st) = (socket_to_session st)(s := None, peer := None)
           \<and> sent (onDisconnected J s st) = sent st @ (if peer = 0 then [] else [(peer, qj_compact J
                 (qj_object J [(''type'', ''peer-disconnected''), (''id'', sid)]))])
           \<and> (peer \<in> ready_senders st \<longrightarrow> peer \<in> ready_senders (onDisconnected J s st)
                \<and> (\<forall>r. r \<noteq> peer \<longrightarrow> selectable r (onDisconnected J s st) peer))))
    \<and> (server_exact st \<longrightarrow> sessions (onDisconnected J s st) =
         (\<lambda>i. case sessions st i of None \<Rightarrow> None
              | Some b \<Rightarrow> if s \<in> {sb_sender b, sb_receiver b} then None else Some b))"
proof (intro conjI impI)
  show "case socket_to_session st s of
         None \<Rightarrow> sessions (onDisconnected J s st) = sessions st
           \<and> socket_to_session (onDisconnected J s st) = socket_to_session st
           \<and> sent (onDisconnected J s st) = sent st
       | Some sid \<Rightarrow> (\<exists>b peer. sessions st sid = Some b \<and> peer \<noteq> s \<and> {s, peer} = {sb_sender b, sb_receiver b}
           \<and> sessions (onDisconnected J s st) = (sessions st)(sid := None)
           \<and> socket_to_session (onDisconnected J s st) = (socket_to_session st)(s := None, peer := None)
           \<and> sent (onDisconnected J s st) = sent st @ (if peer = 0 then [] else [(peer, qj_compact J
                 (qj_object J [(''type'', ''peer-disconnected''), (''id'', sid)]))])
           \<and> (peer \<in> ready_senders st \<longrightarrow> peer \<in> ready_senders (onDisconnected J s st)
                \<and> (\<forall>r. r \<noteq> peer \<longrightarrow> selectable r (onDisconnected J s st) peer)))"
  proof (cases "socket_to_session st s")
    case None
    with onDisconnected_free [OF None, of J] show ?thesis by simp
  next
    case (Some sid)
    from disconnect_mapped [OF assms Some, of J] show ?thesis unfolding Some option.case .
  qed
qed (simp_all add: frame_simps exact_disconnect_sessions [OF _ assms(2)])

lemma sock_pos: "pointers_ok st \<Longrightarrow> s \<in> sockets st \<Longrightarrow> 0 < s"
  by (cases "s = 0") (auto simp: pointers_ok_def)

lemma demo_state_exact: "server_exact demo_state"
  using one_session.reachable_inv [OF demo_state_reachable] demo_enum_ok by blast

theorem disconnect_releases_peer_witness:
  "sessions (onDisconnected demo_json 2 demo_state) ''1'' = None
   \<and> sent (onDisconnected demo_json 2 demo_state)
       = sent demo_state @ [(1, ''type:peer-disconnected;id:1;'')]"
proof -
  have "socket_to_session demo_state 2 = Some ''1''"
    using exactD [OF demo_state_exact demo_state_session(1)] by (simp add: exact_binding_def)
  note gone = disconnect_releases_peer [OF exact_wf [OF demo_state_exact] demo_state_session(3), of demo_json,
      THEN conjunct2, THEN conjunct2, THEN conjunct2, THEN conjunct1, unfolded this option.case]
  from gone obtain b peer where b: "sessions demo_state ''1'' = Some b" "{2, peer} = {sb_sender b, sb_receiver b}"
    and out: "sessions (onDisconnected demo_json 2 demo_state) = (sessions demo_state)(''1'' := None)"
      "sent (onDisconnected demo_json 2 demo_state) = sent demo_state @ (if peer = 0 then [] else
         [(peer, qj_compact demo_json (qj_object demo_json [(''type'', ''peer-disconnected''), (''id'', ''1'')]))])"
    by (elim exE conjE)
  have "peer = 1" using b demo_state_session(1) by (auto simp: doubleton_eq_iff)
  with out show ?thesis by (simp add: demo_json_def)
qed

lemma session_step:
  assumes "qj_parse J m = Some j"
    and "qj_string J j ''type'' \<in> {''offer'', ''answer'', ''candidate'', ''error''}"
  shows "onTextMessage J enum s m st = forwardSessionMessage J s j (qj_string J j ''id'') st"
  using assms by (auto simp: onTextMessage_def Let_def)

text \<open>C4. An offer, answer, candidate or error of a session member goes to the other end of that
  session, unchanged, and to nobody else; from a socket outside the session it comes back as an
  error; no table changes.\<close>
theorem session_message_routed:
  assumes "server_exact st"
    and "qj_parse J m = Some j" "sid = qj_string J j ''id''"
    and "qj_string J j ''type'' \<in> {''offer'', ''answer'', ''candidate'', ''error''}"
    and "sessions st sid = Some b"
  shows "onTextMessage J enum s m st = st\<lparr>sent := sent st @
      (if s = sb_sender b then [(sb_receiver b, qj_compact J j)]
       else if s = sb_receiver b then [(sb_sender b, qj_compact J j)]
       else if s = 0 then []
       else [(s, qj_compact J (qj_object J [(''type'', ''error''), (''message'', err_peer sid)]))])\<rparr>"
proof -
  have b: "exact_binding st sid b" by (rule exactD [OF assms(1,5)])
  have wf: "pointers_ok st" "bindings_ok st"
    using assms(1) by (auto simp: server_exact_def server_wf_def)
  have "sid \<noteq> []" using wf(2) assms(5) by (auto simp: bindings_ok_def)
  moreover have "0 < sb_sender b" "0 < sb_receiver b" "sb_sender b \<noteq> sb_receiver b"
    using b by (auto simp: exact_binding_def intro: sock_pos [OF wf(1)])
  ultimately show ?thesis
    using assms(5)
    unfolding session_step [OF assms(2,4)] assms(3) [symmetric]
    by (auto simp: forwardSessionMessage_def forward_target_def sendError_def sendJson_def)
qed

theorem session_message_routed_witness:
  "sent (onTextMessage demo_json demo_enum 1 ''off1'' demo_state)
     = sent demo_state @ [(2, ''type:offer;id:1;'')]"
proof -
  let ?j = "[(''type'', ''offer''), (''id'', ''1'')]"
  have "qj_parse demo_json ''off1'' = Some ?j" "''1'' = qj_string demo_json ?j ''id''"
    "qj_string demo_json ?j ''type'' \<in> {''offer'', ''answer'', ''candidate'', ''error''}"
    by (simp_all add: demo_json_def)
  from session_message_routed [OF demo_state_exact this demo_state_session(1), of demo_enum 1]
  show ?thesis by (simp add: demo_json_def)
qed

text \<open>One text message makes the server send at most one message, and only to the sender of the
  text, to the other end of a session they share, or to an announced sender that is in no
  session; nobody else hears of it.\<close>
theorem text_message_isolation:
  assumes "server_wf st" "enum_ok enum" "s \<in> sockets st"
  shows "\<exists>out. sent (onTextMessage J enum s m st) = sent st @ out \<and> length out \<le> 1
    \<and> (\<forall>t \<in> fst ` set out. t = s
         \<or> (\<exists>sid b. sessions st sid = Some b \<and> {s, t} = {sb_sender b, sb_receiver b})
         \<or> t \<in> ready_senders st \<and> t \<noteq> s \<and> socket_to_session st t = None)"
proof -
  have err: "\<exists>out. sent (sendError J s e st) = sent st @ out \<and> length out \<le> 1
      \<and> (\<forall>t \<in> fst ` set out. t = s)" for e
    by (simp add: sendError_def sendJson_def)
  show ?thesis
  proof (cases rule: onTextMessage_cases [of J enum s m st])
    case (request j)
    show ?thesis
    proof (cases rule: handleRequest_cases [of J enum s j "qj_string J j ''id''" st])
      case (refused e)
      from err [of e] show ?thesis unfolding request(3) refused by blast
    next
      case (bound x)
      with enum_ready [OF assms(1,2)] request(3) show ?thesis
        by (auto simp: selectable_def)
    qed
  next
    case (session j)
    let ?sid = "qj_string J j ''id''"
    show ?thesis
    proof (cases "if ?sid = [] then None else sessions st ?sid")
      case None
      then have "forwardSessionMessage J s j ?sid st = sendError J s (err_unknown ?sid) st"
        by (simp add: forwardSessionMessage_def)
      with err [of "err_unknown ?sid"] show ?thesis unfolding session(3) by metis
    next
      case (Some b)
      then have b: "sessions st ?sid = Some b" by (auto split: if_splits)
      show ?thesis
      proof (cases "forward_target b s = 0")
        case True
        with Some have "forwardSessionMessage J s j ?sid st = sendError J s (err_peer ?sid) st"
          by (simp add: forwardSessionMessage_def)
        with err [of "err_peer ?sid"] show ?thesis unfolding session(3) by metis
      next
        case False
        then have "{s, forward_target b s} = {sb_sender b, sb_receiver b}"
          by (auto simp: forward_target_def split: if_splits)
        with False Some b session(3) show ?thesis
          by (auto simp: forwardSessionMessage_def)
      qed
    qed
  qed auto
qed

theorem text_message_isolation_witness:
  "\<exists>out. sent (onTextMessage demo_json demo_enum 2 ''req1'' demo_idle) = sent demo_idle @ out
     \<and> length out \<le> 1"
  using text_message_isolation [OF demo_idle_facts(1) demo_enum_ok demo_idle_facts(2),
      of demo_json "''req1''"] by blast

end
