(* ===== verification/Threads.thy ===== *)
theory Threads
  imports Prelude
begin

text \<open>
  \<^verbatim>\<open>std::thread\<close> handles as the sender's classes own them, and the interface of a class that
  starts and stops one worker thread. Assigning to, or destroying, a handle that is still
  joinable calls \<^verbatim>\<open>std::terminate\<close>, which is the value \<open>Inl StdTerminate\<close> here.
\<close>

datatype abort = StdTerminate | UncaughtException | NullDereference

type_synonym 'a outcome = "abort + 'a"

text \<open>
  A handle is not joinable, or it is joinable and its thread still runs or has returned.
\<close>

datatype thread_handle = NotJoinable | Running | Finished

definition joinable :: "thread_handle \<Rightarrow> bool" where
  "joinable h \<longleftrightarrow> h \<noteq> NotJoinable"

text \<open>\<^verbatim>\<open>handle = std::thread(f)\<close>.\<close>

definition thread_assign :: "thread_handle \<Rightarrow> thread_handle outcome" where
  "thread_assign h = (if joinable h then Inl StdTerminate else Inr Running)"

text \<open>\<^verbatim>\<open>~thread()\<close>.\<close>

definition thread_destroy :: "thread_handle \<Rightarrow> unit outcome" where
  "thread_destroy h = (if joinable h then Inl StdTerminate else Inr ())"

text \<open>\<^verbatim>\<open>if (handle.joinable()) handle.join()\<close>, once the thread's body has returned.\<close>

definition join_if_joinable :: "thread_handle \<Rightarrow> thread_handle" where
  "join_if_joinable h = NotJoinable"

lemma joinable_simps [simp]:
  "\<not> joinable NotJoinable" "joinable Running" "joinable Finished"
  by (simp_all add: joinable_def)

lemma thread_simps [simp]:
  "thread_assign NotJoinable = Inr Running" "thread_destroy NotJoinable = Inr ()"
  "thread_assign Running = Inl StdTerminate" "thread_assign Finished = Inl StdTerminate"
  "thread_destroy Running = Inl StdTerminate" "thread_destroy Finished = Inl StdTerminate"
  "join_if_joinable h = NotJoinable"
  by (simp_all add: thread_assign_def thread_destroy_def join_if_joinable_def)

definition bind_outcome :: "'a outcome \<Rightarrow> ('a \<Rightarrow> 'b outcome) \<Rightarrow> 'b outcome" where
  "bind_outcome x f = (case x of Inl e \<Rightarrow> Inl e | Inr a \<Rightarrow> f a)"

lemma bind_outcome_simps [simp]:
  "bind_outcome (Inl e) f = Inl e" "bind_outcome (Inr a) f = f a"
  by (simp_all add: bind_outcome_def)

lemma bind_outcome_Inr:
  "bind_outcome x f = Inr b \<longleftrightarrow> (\<exists>a. x = Inr a \<and> f a = Inr b)"
  by (cases x) auto

subsection \<open>Owners of a worker thread\<close>

datatype owner_call = CallStart | CallStop

definition owner_call :: "('s \<Rightarrow> 's outcome) \<Rightarrow> ('s \<Rightarrow> 's outcome) \<Rightarrow> owner_call \<Rightarrow> 's \<Rightarrow> 's outcome" where
  "owner_call start stop c s = (case c of CallStart \<Rightarrow> start s | CallStop \<Rightarrow> stop s)"

fun owner_calls ::
  "('s \<Rightarrow> 's outcome) \<Rightarrow> ('s \<Rightarrow> 's outcome) \<Rightarrow> owner_call list \<Rightarrow> 's \<Rightarrow> 's outcome" where
  "owner_calls start stop [] s = Inr s"
| "owner_calls start stop (c # cs) s =
     bind_outcome (owner_call start stop c s) (owner_calls start stop cs)"

locale thread_owner =
  fixes start :: "'s \<Rightarrow> 's outcome"
    and stop :: "'s \<Rightarrow> 's outcome"
    and running :: "'s \<Rightarrow> bool"
    and handle :: "'s \<Rightarrow> thread_handle"
    and inv :: "'s \<Rightarrow> bool"
  assumes start_ok: "inv s \<Longrightarrow> \<exists>t. start s = Inr t \<and> inv t \<and> running t"
    and stop_ok: "inv s \<Longrightarrow> \<exists>t. stop s = Inr t \<and> inv t \<and> \<not> running t"
    and idle_handle: "inv s \<Longrightarrow> \<not> running s \<Longrightarrow> handle s = NotJoinable"
begin

lemma call_ok: "inv s \<Longrightarrow> \<exists>t. owner_call start stop c s = Inr t \<and> inv t \<and> (running t \<longleftrightarrow> c = CallStart)"
  using start_ok [of s] stop_ok [of s] by (cases c) (auto simp: owner_call_def)

lemma calls_ok: "inv s \<Longrightarrow> \<exists>t. owner_calls start stop cs s = Inr t \<and> inv t
    \<and> (running t \<longleftrightarrow> (if cs = [] then running s else last cs = CallStart))"
proof (induction cs arbitrary: s)
  case Nil
  then show ?case by simp
next
  case (Cons c cs)
  obtain u where u: "owner_call start stop c s = Inr u" "inv u" "running u \<longleftrightarrow> c = CallStart"
    using call_ok [OF Cons.prems] by blast
  with Cons.IH [OF u(2)] show ?case by auto
qed

lemma stopped_destroyable:
  assumes "inv s"
  shows "\<exists>t. owner_calls start stop (cs @ [CallStop]) s = Inr t \<and> thread_destroy (handle t) = Inr ()"
proof -
  obtain t where "owner_calls start stop (cs @ [CallStop]) s = Inr t" "inv t" "\<not> running t"
    using calls_ok [OF assms, of "cs @ [CallStop]"] by auto
  with idle_handle show ?thesis by auto
qed

end

end
