(* ===== verification/PulseAdm.thy ===== *)
theory PulseAdm
  imports Threads
begin

text \<open>
  The audio device module of \<^verbatim>\<open>module/pulse_loopback_audio_device_module.cpp\<close>: its fields,
  every method of the class, and its capture thread. PulseAudio is outside the repository:
  whether \<^verbatim>\<open>pa_simple_new\<close> opens a stream, what \<^verbatim>\<open>pa_simple_read\<close> and
  \<^verbatim>\<open>pa_simple_get_latency\<close> return, the clock and the audio callback's answers are arguments.

  The control methods are called by one thread; the capture thread's loop is a sequence of
  iterations between them. A stop request that arrives inside an iteration lets that
  iteration finish (the argument \<open>inflight\<close>) before the thread returns and is joined.
\<close>

subsection \<open>State\<close>

text \<open>What \<^verbatim>\<open>CaptureLoop\<close> computes once before its loop.\<close>

record loop_locals =
  ll_samples_per_channel :: nat
  ll_sample_count :: nat
  ll_chunk_duration_ns :: int

text \<open>One call of \<^verbatim>\<open>RecordedDataIsAvailable\<close>.\<close>

record delivery =
  dl_buffer_samples :: nat
  dl_samples :: nat
  dl_bytes_per_sample :: nat
  dl_channels :: nat
  dl_sample_rate :: int
  dl_delay_ms :: int
  dl_capture_time_ns :: int

record pulse_adm =
  ad_audio_callback :: nat
  ad_source_name :: string
  ad_sample_rate_hz :: int
  ad_channels :: nat
  ad_frames_per_buffer :: nat
  ad_stream :: nat
  ad_capture_thread :: thread_handle
  ad_capture_locals :: loop_locals
  ad_initialized :: bool
  ad_recording_initialized :: bool
  ad_recording :: bool
  ad_stereo_recording_enabled :: bool
  ad_current_mic_level :: u32
  ad_delivered :: "delivery list"

subsection \<open>Strings\<close>

definition kAdmMaxDeviceNameSize :: nat where "kAdmMaxDeviceNameSize = 128"
definition kAdmMaxGuidSize :: nat where "kAdmMaxGuidSize = 128"

definition kDefaultDeviceLabel :: string where
  "kDefaultDeviceLabel = ''PulseAudio monitor capture''"

text \<open>
  \<^verbatim>\<open>CopyAdmString\<close> on the destination buffer's bytes; \<open>None\<close> is a null destination.
\<close>

definition CopyAdmString :: "string \<Rightarrow> string option \<Rightarrow> nat \<Rightarrow> string option" where
  "CopyAdmString value dest capacity =
     (case dest of None \<Rightarrow> None
      | Some d \<Rightarrow> if capacity = 0 then Some d
          else let copy_length = min (capacity - 1) (length value) in
               Some (take copy_length value @ CHR 0x00 # drop (Suc copy_length) d))"

definition EffectiveSourceName :: "pulse_adm \<Rightarrow> string" where
  "EffectiveSourceName a = ad_source_name a"

subsection \<open>Construction\<close>

definition adm_new :: "string \<Rightarrow> int \<Rightarrow> nat \<Rightarrow> pulse_adm" where
  "adm_new source_name sample_rate_hz chans =
     (let rate = (if sample_rate_hz > 0 then sample_rate_hz else 48000);
          ch = (if chans > 0 then chans else 2)
      in \<lparr>ad_audio_callback = 0, ad_source_name = source_name, ad_sample_rate_hz = rate,
          ad_channels = ch, ad_frames_per_buffer = nat (c_div rate 100), ad_stream = 0,
          ad_capture_thread = NotJoinable,
          ad_capture_locals = \<lparr>ll_samples_per_channel = 0, ll_sample_count = 0,
            ll_chunk_duration_ns = 0\<rparr>,
          ad_initialized = False, ad_recording_initialized = False, ad_recording = False,
          ad_stereo_recording_enabled = (ch \<ge> 2), ad_current_mic_level = 0, ad_delivered = []\<rparr>)"

definition adm_Create :: "string \<Rightarrow> pulse_adm" where
  "adm_Create source_name = adm_new source_name 48000 2"

subsection \<open>The PulseAudio stream\<close>

text \<open>
  The arguments of \<^verbatim>\<open>pa_simple_new\<close> that depend on the object; the record is what the stream
  is opened with. A null source name asks for the default source.
\<close>

record pulse_open_args =
  po_source :: "string option"
  po_rate :: u32
  po_channels :: u8
  po_fragsize :: u32

definition pulse_open_args_of :: "pulse_adm \<Rightarrow> pulse_open_args" where
  "pulse_open_args_of a =
     \<lparr>po_source = (if EffectiveSourceName a = [] then None else Some (c_str (EffectiveSourceName a))),
      po_rate = word_of_int (ad_sample_rate_hz a),
      po_channels = word_of_nat (ad_channels a),
      po_fragsize = word_of_nat (ad_frames_per_buffer a * ad_channels a * 2)\<rparr>"

text \<open>\<open>pa_simple_new\<close> gives the stream's address, 0 when it fails.\<close>

definition OpenPulseStreamLocked ::
  "(pulse_open_args \<Rightarrow> nat) \<Rightarrow> pulse_adm \<Rightarrow> bool \<times> pulse_adm" where
  "OpenPulseStreamLocked pa_simple_new a =
     (if ad_stream a \<noteq> 0 then (True, a)
      else let s = pa_simple_new (pulse_open_args_of a); a' = a\<lparr>ad_stream := s\<rparr>
           in (s \<noteq> 0, a'))"

definition ClosePulseStreamLocked :: "pulse_adm \<Rightarrow> pulse_adm" where
  "ClosePulseStreamLocked a = (if ad_stream a = 0 then a else a\<lparr>ad_stream := 0\<rparr>)"

subsection \<open>The capture thread\<close>

definition kNumNanosecsPerSec :: int where "kNumNanosecsPerSec = 1000000000"
definition kNumNanosecsPerMillisec :: int where "kNumNanosecsPerMillisec = 1000000"

definition capture_locals_of :: "pulse_adm \<Rightarrow> loop_locals" where
  "capture_locals_of a =
     \<lparr>ll_samples_per_channel = ad_frames_per_buffer a,
      ll_sample_count = ad_frames_per_buffer a * ad_channels a,
      ll_chunk_duration_ns =
        c_div (int (ad_frames_per_buffer a) * kNumNanosecsPerSec) (ad_sample_rate_hz a)\<rparr>"

text \<open>What the outside world answers during one iteration.\<close>

record capture_env =
  ce_read :: int
  ce_latency_us :: u64
  ce_now_ns :: int
  ce_callback_result :: int
  ce_new_mic_level :: u32

text \<open>The capture time reported to WebRTC: now, less the source's latency, less one chunk.\<close>

definition estimated_capture_time :: "capture_env \<Rightarrow> int \<Rightarrow> int" where
  "estimated_capture_time e chunk =
     (if ce_latency_us e \<noteq> - 1
      then ce_now_ns e - sint (ce_latency_us e) * 1000 - chunk
      else ce_now_ns e - chunk)"

definition capture_delivery :: "capture_env \<Rightarrow> pulse_adm \<Rightarrow> delivery" where
  "capture_delivery e a =
     (let l = ad_capture_locals a in
      \<lparr>dl_buffer_samples = ll_sample_count l,
       dl_samples = ll_samples_per_channel l,
       dl_bytes_per_sample = ad_channels a * 2,
       dl_channels = ad_channels a,
       dl_sample_rate = ad_sample_rate_hz a,
       dl_delay_ms = c_div (ll_chunk_duration_ns l) kNumNanosecsPerMillisec,
       dl_capture_time_ns = estimated_capture_time e (ll_chunk_duration_ns l)\<rparr>)"

text \<open>One pass of the loop body; the flag says whether the loop goes on.\<close>

definition capture_iteration :: "capture_env \<Rightarrow> pulse_adm \<Rightarrow> bool \<times> pulse_adm" where
  "capture_iteration e a =
     (if ad_stream a = 0 then (False, a)
      else if ce_read e < 0 then (False, a)
      else if ad_audio_callback a = 0 then (True, a)
      else (True, a\<lparr>ad_current_mic_level := ce_new_mic_level e,
                     ad_delivered := ad_delivered a @ [capture_delivery e a]\<rparr>))"

definition capture_exit :: "pulse_adm \<Rightarrow> pulse_adm" where
  "capture_exit a = a\<lparr>ad_recording := False, ad_capture_thread := Finished\<rparr>"

text \<open>The capture thread tests \<^verbatim>\<open>recording_\<close> and, while it is set, runs one iteration.\<close>

definition capture_tick :: "capture_env \<Rightarrow> pulse_adm \<Rightarrow> pulse_adm" where
  "capture_tick e a =
     (if ad_capture_thread a \<noteq> Running then a
      else if \<not> ad_recording a then capture_exit a
      else case capture_iteration e a of
        (True, a') \<Rightarrow> a'
      | (False, a') \<Rightarrow> capture_exit a')"

fun capture_ticks :: "capture_env list \<Rightarrow> pulse_adm \<Rightarrow> pulse_adm" where
  "capture_ticks [] a = a"
| "capture_ticks (e # es) a = capture_ticks es (capture_tick e a)"

subsection \<open>Recording control\<close>

definition InitRecording :: "(pulse_open_args \<Rightarrow> nat) \<Rightarrow> pulse_adm \<Rightarrow> int \<times> pulse_adm" where
  "InitRecording pa_simple_new a =
     (if \<not> ad_initialized a then (- 1, a)
      else if ad_recording a then (- 1, a)
      else if ad_recording_initialized a then (0, a)
      else case OpenPulseStreamLocked pa_simple_new a of
        (False, a') \<Rightarrow> (- 1, a')
      | (True, a') \<Rightarrow> (0, a'\<lparr>ad_recording_initialized := True\<rparr>))"

definition StartRecording ::
  "(pulse_open_args \<Rightarrow> nat) \<Rightarrow> pulse_adm \<Rightarrow> (int \<times> pulse_adm) outcome" where
  "StartRecording pa_simple_new a =
     (let (rc, a1) = (if ad_recording_initialized a then (0, a) else InitRecording pa_simple_new a) in
      if \<not> ad_recording_initialized a \<and> rc \<noteq> 0 then Inr (- 1, a1)
      else if ad_recording a1 then Inr (0, a1)
      else bind_outcome (thread_assign (ad_capture_thread a1)) (\<lambda>h.
             Inr (0, a1\<lparr>ad_recording := True, ad_capture_thread := h,
                        ad_capture_locals := capture_locals_of a1\<rparr>)))"

text \<open>The iteration in progress when \<^verbatim>\<open>recording_\<close> is cleared, and the thread's return.\<close>

definition drain_capture :: "capture_env option \<Rightarrow> pulse_adm \<Rightarrow> pulse_adm" where
  "drain_capture inflight a =
     (if ad_capture_thread a = Running
      then capture_exit (case inflight of None \<Rightarrow> a | Some e \<Rightarrow> snd (capture_iteration e a))
      else a)"

definition StopRecording :: "capture_env option \<Rightarrow> pulse_adm \<Rightarrow> int \<times> pulse_adm" where
  "StopRecording inflight a =
     (if \<not> ad_recording a then (0, ClosePulseStreamLocked a)
      else let a1 = drain_capture inflight (a\<lparr>ad_recording := False\<rparr>);
               a2 = a1\<lparr>ad_capture_thread := join_if_joinable (ad_capture_thread a1)\<rparr>
           in (0, ClosePulseStreamLocked a2))"

definition adm_Init :: "pulse_adm \<Rightarrow> int \<times> pulse_adm" where
  "adm_Init a = (0, a\<lparr>ad_initialized := True\<rparr>)"

definition Terminate :: "capture_env option \<Rightarrow> pulse_adm \<Rightarrow> int \<times> pulse_adm" where
  "Terminate inflight a =
     (0, (snd (StopRecording inflight a))\<lparr>ad_initialized := False, ad_recording_initialized := False\<rparr>)"

definition Initialized :: "pulse_adm \<Rightarrow> bool" where "Initialized a = ad_initialized a"
definition RecordingIsInitialized :: "pulse_adm \<Rightarrow> bool" where
  "RecordingIsInitialized a = ad_recording_initialized a"
definition Recording :: "pulse_adm \<Rightarrow> bool" where "Recording a = ad_recording a"
definition MicrophoneIsInitialized :: "pulse_adm \<Rightarrow> bool" where
  "MicrophoneIsInitialized a = ad_initialized a"

definition RegisterAudioCallback :: "nat \<Rightarrow> pulse_adm \<Rightarrow> int \<times> pulse_adm" where
  "RegisterAudioCallback audio_callback a = (0, a\<lparr>ad_audio_callback := audio_callback\<rparr>)"

text \<open>\<^verbatim>\<open>Terminate\<close>, then the members are destroyed, the thread handle among them.\<close>

definition adm_destroy :: "capture_env option \<Rightarrow> pulse_adm \<Rightarrow> pulse_adm outcome" where
  "adm_destroy inflight a =
     (let a1 = snd (Terminate inflight a) in
      bind_outcome (thread_destroy (ad_capture_thread a1)) (\<lambda>_. Inr a1))"

definition SetStereoRecording :: "bool \<Rightarrow> pulse_adm \<Rightarrow> int \<times> pulse_adm" where
  "SetStereoRecording enable a =
     (0, a\<lparr>ad_stereo_recording_enabled := enable, ad_channels := (if enable then 2 else 1),
            ad_frames_per_buffer := nat (c_div (ad_sample_rate_hz a) 100)\<rparr>)"

subsection \<open>Queries\<close>

text \<open>
  Methods that answer through an out pointer: \<open>p\<close> says whether the pointer is non-null; the
  result is the return code and what is stored through it.
\<close>

definition out_param :: "bool \<Rightarrow> 'a \<Rightarrow> int \<Rightarrow> int \<times> 'a option" where
  "out_param p v rc = (if \<not> p then (- 1, None) else (rc, Some v))"

datatype audio_layer = kPlatformDefaultAudio | kLinuxAlsaAudio | kLinuxPulseAudio

definition ActiveAudioLayer :: "bool \<Rightarrow> int \<times> audio_layer option" where
  "ActiveAudioLayer p = out_param p kLinuxPulseAudio 0"
definition PlayoutDevices :: int where "PlayoutDevices = 0"
definition RecordingDevices :: int where "RecordingDevices = 1"

definition PlayoutDeviceName :: "string option \<Rightarrow> string option \<Rightarrow> int \<times> string option \<times> string option" where
  "PlayoutDeviceName name guid =
     (- 1, CopyAdmString ''No playout device'' name kAdmMaxDeviceNameSize,
      CopyAdmString ''no-playout'' guid kAdmMaxGuidSize)"

definition RecordingDeviceName ::
  "u16 \<Rightarrow> string option \<Rightarrow> string option \<Rightarrow> pulse_adm \<Rightarrow> int \<times> string option \<times> string option" where
  "RecordingDeviceName index name guid a =
     (if index \<noteq> 0 then (- 1, name, guid)
      else let effective_source = EffectiveSourceName a in
           (0, CopyAdmString (if effective_source = [] then kDefaultDeviceLabel
                              else effective_source @ '' monitor'') name kAdmMaxDeviceNameSize,
            CopyAdmString (if effective_source = [] then ''pulse-monitor'' else effective_source)
              guid kAdmMaxGuidSize))"

definition SetPlayoutDevice :: "u16 \<Rightarrow> int" where "SetPlayoutDevice index = - 1"
definition SetPlayoutDevice_windows :: "'w \<Rightarrow> int" where "SetPlayoutDevice_windows device = - 1"
definition SetRecordingDevice :: "u16 \<Rightarrow> int" where
  "SetRecordingDevice index = (if index = 0 then 0 else - 1)"
definition SetRecordingDevice_windows :: "'w \<Rightarrow> int" where "SetRecordingDevice_windows device = - 1"
definition PlayoutIsAvailable :: "bool \<Rightarrow> int \<times> bool option" where
  "PlayoutIsAvailable p = out_param p False 0"
definition InitPlayout :: int where "InitPlayout = - 1"
definition PlayoutIsInitialized :: bool where "PlayoutIsInitialized = False"
definition RecordingIsAvailable :: "bool \<Rightarrow> int \<times> bool option" where
  "RecordingIsAvailable p = out_param p True 0"
definition StartPlayout :: int where "StartPlayout = - 1"
definition StopPlayout :: int where "StopPlayout = 0"
definition Playing :: bool where "Playing = False"
definition InitSpeaker :: int where "InitSpeaker = - 1"
definition SpeakerIsInitialized :: bool where "SpeakerIsInitialized = False"
definition InitMicrophone :: int where "InitMicrophone = 0"
definition SpeakerVolumeIsAvailable :: "bool \<Rightarrow> int \<times> bool option" where
  "SpeakerVolumeIsAvailable p = out_param p False 0"
definition SetSpeakerVolume :: "u32 \<Rightarrow> int" where "SetSpeakerVolume volume = - 1"
definition SpeakerVolume :: "bool \<Rightarrow> int \<times> u32 option" where
  "SpeakerVolume p = out_param p 0 (- 1)"
definition MaxSpeakerVolume :: "bool \<Rightarrow> int \<times> u32 option" where
  "MaxSpeakerVolume p = out_param p 0 (- 1)"
definition MinSpeakerVolume :: "bool \<Rightarrow> int \<times> u32 option" where
  "MinSpeakerVolume p = out_param p 0 (- 1)"
definition MicrophoneVolumeIsAvailable :: "bool \<Rightarrow> int \<times> bool option" where
  "MicrophoneVolumeIsAvailable p = out_param p False 0"
definition SetMicrophoneVolume :: "u32 \<Rightarrow> int" where "SetMicrophoneVolume volume = - 1"
definition MicrophoneVolume :: "bool \<Rightarrow> int \<times> u32 option" where
  "MicrophoneVolume p = out_param p 0 (- 1)"
definition MaxMicrophoneVolume :: "bool \<Rightarrow> int \<times> u32 option" where
  "MaxMicrophoneVolume p = out_param p 0 (- 1)"
definition MinMicrophoneVolume :: "bool \<Rightarrow> int \<times> u32 option" where
  "MinMicrophoneVolume p = out_param p 0 (- 1)"
definition SpeakerMuteIsAvailable :: "bool \<Rightarrow> int \<times> bool option" where
  "SpeakerMuteIsAvailable p = out_param p False 0"
definition SetSpeakerMute :: "bool \<Rightarrow> int" where "SetSpeakerMute enable = - 1"
definition SpeakerMute :: "bool \<Rightarrow> int \<times> bool option" where
  "SpeakerMute p = out_param p False (- 1)"
definition MicrophoneMuteIsAvailable :: "bool \<Rightarrow> int \<times> bool option" where
  "MicrophoneMuteIsAvailable p = out_param p False 0"
definition SetMicrophoneMute :: "bool \<Rightarrow> int" where "SetMicrophoneMute enable = - 1"
definition MicrophoneMute :: "bool \<Rightarrow> int \<times> bool option" where
  "MicrophoneMute p = out_param p False (- 1)"
definition StereoPlayoutIsAvailable :: "bool \<Rightarrow> int \<times> bool option" where
  "StereoPlayoutIsAvailable p = out_param p False 0"
definition SetStereoPlayout :: "bool \<Rightarrow> int" where "SetStereoPlayout enable = - 1"
definition StereoPlayout :: "bool \<Rightarrow> int \<times> bool option" where
  "StereoPlayout p = out_param p False 0"
definition StereoRecordingIsAvailable :: "bool \<Rightarrow> int \<times> bool option" where
  "StereoRecordingIsAvailable p = out_param p True 0"
definition StereoRecording :: "bool \<Rightarrow> pulse_adm \<Rightarrow> int \<times> bool option" where
  "StereoRecording p a = out_param p (ad_stereo_recording_enabled a) 0"
definition BuiltInAECIsAvailable :: bool where "BuiltInAECIsAvailable = False"
definition BuiltInAGCIsAvailable :: bool where "BuiltInAGCIsAvailable = False"
definition BuiltInNSIsAvailable :: bool where "BuiltInNSIsAvailable = False"
definition EnableBuiltInAEC :: "bool \<Rightarrow> int" where "EnableBuiltInAEC enable = - 1"
definition EnableBuiltInAGC :: "bool \<Rightarrow> int" where "EnableBuiltInAGC enable = - 1"
definition EnableBuiltInNS :: "bool \<Rightarrow> int" where "EnableBuiltInNS enable = - 1"
definition PlayoutDelay :: "bool \<Rightarrow> int \<times> u16 option" where
  "PlayoutDelay p = out_param p 0 0"

subsection \<open>Events\<close>

datatype adm_event =
    AdmInit
  | AdmTerminate "capture_env option"
  | AdmInitRecording nat
  | AdmStartRecording nat
  | AdmStopRecording "capture_env option"
  | AdmRegisterCallback nat
  | AdmSetStereo bool
  | AdmCaptureTick capture_env

fun adm_step :: "adm_event \<Rightarrow> pulse_adm \<Rightarrow> pulse_adm outcome" where
  "adm_step AdmInit a = Inr (snd (adm_Init a))"
| "adm_step (AdmTerminate i) a = Inr (snd (Terminate i a))"
| "adm_step (AdmInitRecording s) a = Inr (snd (InitRecording (\<lambda>_. s) a))"
| "adm_step (AdmStartRecording s) a =
     bind_outcome (StartRecording (\<lambda>_. s) a) (\<lambda>r. Inr (snd r))"
| "adm_step (AdmStopRecording i) a = Inr (snd (StopRecording i a))"
| "adm_step (AdmRegisterCallback c) a = Inr (snd (RegisterAudioCallback c a))"
| "adm_step (AdmSetStereo b) a = Inr (snd (SetStereoRecording b a))"
| "adm_step (AdmCaptureTick e) a = Inr (capture_tick e a)"

text \<open>An aborted process takes no further step; \<open>G\<close> restricts the events.\<close>

definition adm_trans ::
  "(adm_event \<Rightarrow> pulse_adm \<Rightarrow> bool) \<Rightarrow> adm_event \<Rightarrow> pulse_adm outcome \<Rightarrow> pulse_adm outcome option" where
  "adm_trans G ev s = (case s of Inl _ \<Rightarrow> None
     | Inr a \<Rightarrow> if G ev a then Some (adm_step ev a) else None)"

definition any_adm_call :: "adm_event \<Rightarrow> pulse_adm \<Rightarrow> bool" where
  "any_adm_call ev a = True"

text \<open>The channel count is not changed while a capture is running.\<close>

fun stereo_fixed :: "adm_event \<Rightarrow> pulse_adm \<Rightarrow> bool" where
  "stereo_fixed (AdmSetStereo b) a = (\<not> ad_recording a)"
| "stereo_fixed ev a = True"

subsection \<open>Invariant\<close>

text \<open>
  The capture thread runs exactly while \<^verbatim>\<open>recording_\<close> is set, an open stream implies
  \<^verbatim>\<open>recording_initialized_\<close>, and that implies \<^verbatim>\<open>initialized_\<close>; the format fields stay
  positive and consistent.
\<close>

definition adm_wf :: "pulse_adm \<Rightarrow> bool" where
  "adm_wf a \<longleftrightarrow>
     (ad_recording a \<longleftrightarrow> ad_capture_thread a = Running)
     \<and> (ad_stream a \<noteq> 0 \<longrightarrow> ad_recording_initialized a)
     \<and> (ad_recording_initialized a \<longrightarrow> ad_initialized a)
     \<and> (ad_recording a \<longrightarrow> ad_recording_initialized a)
     \<and> 0 < ad_sample_rate_hz a \<and> 0 < ad_channels a
     \<and> ad_frames_per_buffer a = nat (ad_sample_rate_hz a div 100)"

lemmas adm_ops = adm_Init_def Terminate_def InitRecording_def StartRecording_def StopRecording_def
  RegisterAudioCallback_def SetStereoRecording_def OpenPulseStreamLocked_def
  ClosePulseStreamLocked_def drain_capture_def capture_exit_def

lemma capture_iteration_cases:
  obtains (stop) "capture_iteration e a = (False, a)"
  | (skip) "capture_iteration e a = (True, a)" "ad_stream a \<noteq> 0" "ad_audio_callback a = 0"
  | (deliver) "ad_stream a \<noteq> 0" "0 \<le> ce_read e" "ad_audio_callback a \<noteq> 0"
      "capture_iteration e a = (True, a\<lparr>ad_current_mic_level := ce_new_mic_level e,
         ad_delivered := ad_delivered a @ [capture_delivery e a]\<rparr>)"
proof -
  consider "ad_stream a = 0 \<or> ce_read e < 0"
    | "ad_stream a \<noteq> 0" "0 \<le> ce_read e" "ad_audio_callback a = 0"
    | "ad_stream a \<noteq> 0" "0 \<le> ce_read e" "ad_audio_callback a \<noteq> 0"
    by linarith
  then show thesis
  proof cases
    case 1
    then show thesis by (intro stop) (auto simp: capture_iteration_def)
  next
    case 2
    then show thesis by (intro skip) (simp_all add: capture_iteration_def)
  next
    case 3
    then show thesis by (intro deliver) (simp_all add: capture_iteration_def)
  qed
qed

lemma capture_iteration_frame [frame_simps]:
  "ad_recording (snd (capture_iteration e a)) = ad_recording a"
  "ad_capture_thread (snd (capture_iteration e a)) = ad_capture_thread a"
  "ad_stream (snd (capture_iteration e a)) = ad_stream a"
  "ad_recording_initialized (snd (capture_iteration e a)) = ad_recording_initialized a"
  "ad_initialized (snd (capture_iteration e a)) = ad_initialized a"
  "ad_sample_rate_hz (snd (capture_iteration e a)) = ad_sample_rate_hz a"
  "ad_channels (snd (capture_iteration e a)) = ad_channels a"
  "ad_frames_per_buffer (snd (capture_iteration e a)) = ad_frames_per_buffer a"
  "ad_capture_locals (snd (capture_iteration e a)) = ad_capture_locals a"
  "ad_audio_callback (snd (capture_iteration e a)) = ad_audio_callback a"
  by (simp_all add: capture_iteration_def)

lemma wf_adm_new: "adm_wf (adm_new src rate ch)"
  by (simp add: adm_wf_def adm_new_def c_div_nonneg)

lemma wf_capture_tick: "adm_wf a \<Longrightarrow> adm_wf (capture_tick e a)"
  using capture_iteration_frame [of e a]
  by (cases "capture_iteration e a"; cases "fst (capture_iteration e a)")
    (simp_all add: capture_tick_def capture_exit_def adm_wf_def)

lemma wf_StopRecording: "adm_wf a \<Longrightarrow> adm_wf (snd (StopRecording i a))"
  by (auto simp: adm_wf_def adm_ops frame_simps split: option.split)

lemma wf_InitRecording: "adm_wf a \<Longrightarrow> adm_wf (snd (InitRecording f a))"
  by (auto simp: adm_wf_def InitRecording_def OpenPulseStreamLocked_def Let_def split: bool.splits)

lemma StopRecording_effect:
  "ad_recording (snd (StopRecording i a)) = False"
  "ad_stream (snd (StopRecording i a)) = 0"
  "ad_capture_thread (snd (StopRecording i a)) =
     (if ad_recording a then NotJoinable else ad_capture_thread a)"
  "ad_recording_initialized (snd (StopRecording i a)) = ad_recording_initialized a"
  "ad_initialized (snd (StopRecording i a)) = ad_initialized a"
  by (auto simp: adm_ops frame_simps Let_def split: option.split)

lemma wf_Terminate: "adm_wf a \<Longrightarrow> adm_wf (snd (Terminate i a))"
  using wf_StopRecording [of a i] StopRecording_effect [of i a]
  by (auto simp: adm_wf_def Terminate_def)

lemma wf_SetStereo: "adm_wf a \<Longrightarrow> adm_wf (snd (SetStereoRecording b a))"
  by (auto simp: adm_wf_def SetStereoRecording_def c_div_nonneg)

lemma InitRecording_result:
  assumes "adm_wf a" "InitRecording f a = (rc, b)"
  shows "rc = 0 \<or> rc = - 1"
    and "rc = 0 \<Longrightarrow> ad_recording_initialized b \<and> \<not> ad_recording b"
    and "ad_capture_thread b = ad_capture_thread a" "ad_recording b = ad_recording a"
    and "ad_delivered b = ad_delivered a"
  using assms
  by (auto simp: InitRecording_def OpenPulseStreamLocked_def Let_def adm_wf_def
      split: bool.splits if_splits)

lemma wf_StartRecording:
  assumes wf: "adm_wf a" and ok: "StartRecording f a = Inr (rc, b)"
  shows "adm_wf b"
proof -
  obtain rc1 a1 where a1: "(if ad_recording_initialized a then (0, a) else InitRecording f a) = (rc1, a1)"
    by fastforce
  have wf1: "adm_wf a1"
    using a1 wf wf_InitRecording [OF wf, of f] by (auto split: if_splits)
  have init: "rc1 = 0 \<Longrightarrow> ad_recording_initialized a1"
    using a1 InitRecording_result(2) [OF wf, of f] by (auto split: if_splits)
  show ?thesis
    using ok wf1 init a1
    by (auto simp: StartRecording_def bind_outcome_Inr thread_assign_def adm_wf_def split: if_splits)
qed

definition outcome_wf :: "pulse_adm outcome \<Rightarrow> bool" where
  "outcome_wf s \<longleftrightarrow> (case s of Inl e \<Rightarrow> e = StdTerminate | Inr a \<Rightarrow> adm_wf a)"

lemma outcome_wf_Inr [simp]: "outcome_wf (Inr a) = adm_wf a"
  by (simp add: outcome_wf_def)

lemma StartRecording_abort: "StartRecording f a = Inl e \<Longrightarrow> e = StdTerminate"
  by (auto simp: StartRecording_def bind_outcome_def thread_assign_def Let_def
      split: if_splits sum.splits prod.splits)

lemma wf_adm_step: "adm_wf a \<Longrightarrow> outcome_wf (adm_step ev a)"
proof (cases ev)
  case (AdmStartRecording s)
  assume "adm_wf a"
  with AdmStartRecording show ?thesis
    using wf_StartRecording [of a "\<lambda>_. s"] StartRecording_abort [of "\<lambda>_. s" a]
    by (cases "StartRecording (\<lambda>_. s) a") (auto simp: outcome_wf_def)
qed (simp_all add: wf_Terminate wf_InitRecording wf_StopRecording wf_SetStereo wf_capture_tick,
    simp_all add: adm_wf_def adm_Init_def RegisterAudioCallback_def)

interpretation adm: invariant_system "adm_trans G" "Inr (adm_new src rate ch)" outcome_wf
  for G src rate ch
  by unfold_locales
    (auto simp: wf_adm_new adm_trans_def wf_adm_step split: sum.splits if_splits)

subsection \<open>Delivered buffers\<close>

text \<open>
  What a delivery must satisfy: the callback is told no more samples than the buffer holds,
  and the chunk is between 0 and 10 ms long.
\<close>

definition delivery_ok :: "delivery \<Rightarrow> bool" where
  "delivery_ok d \<longleftrightarrow>
     dl_samples d * dl_channels d = dl_buffer_samples d
     \<and> dl_bytes_per_sample d = 2 * dl_channels d
     \<and> 0 \<le> dl_delay_ms d \<and> dl_delay_ms d \<le> 10"

definition stereo_wf :: "pulse_adm \<Rightarrow> bool" where
  "stereo_wf a \<longleftrightarrow> adm_wf a \<and> (\<forall>d \<in> set (ad_delivered a). delivery_ok d)
     \<and> (ad_recording a \<longrightarrow> ad_capture_locals a = capture_locals_of a)"

lemma chunk_duration_bounds:
  assumes "adm_wf a"
  shows "0 \<le> ll_chunk_duration_ns (capture_locals_of a)"
    and "ll_chunk_duration_ns (capture_locals_of a) \<le> 10000000"
proof -
  let ?r = "ad_sample_rate_hz a"
  have r: "0 < ?r" and f: "int (ad_frames_per_buffer a) = ?r div 100"
    using assms by (auto simp: adm_wf_def)
  have c: "ll_chunk_duration_ns (capture_locals_of a) = ?r div 100 * 1000000000 div ?r"
    using r f by (simp add: capture_locals_of_def kNumNanosecsPerSec_def c_div_nonneg)
  have "?r div 100 * 1000000000 \<le> ?r * 10000000" by simp
  then have "?r div 100 * 1000000000 div ?r \<le> ?r * 10000000 div ?r"
    using r by (intro zdiv_mono1)
  with r c show "ll_chunk_duration_ns (capture_locals_of a) \<le> 10000000" by simp
  show "0 \<le> ll_chunk_duration_ns (capture_locals_of a)"
    using r c by (simp add: pos_imp_zdiv_nonneg_iff)
qed

lemma delivery_ok_capture:
  assumes "adm_wf a" "ad_capture_locals a = capture_locals_of a"
  shows "delivery_ok (capture_delivery e a)"
proof -
  let ?c = "ll_chunk_duration_ns (capture_locals_of a)"
  have c: "0 \<le> ?c" "?c \<le> 10000000" by (rule chunk_duration_bounds [OF assms(1)])+
  then have "0 \<le> ?c div 1000000" "?c div 1000000 \<le> 10"
    by (simp_all add: pos_imp_zdiv_nonneg_iff)
  with c assms(2) show ?thesis
    by (simp add: delivery_ok_def capture_delivery_def Let_def kNumNanosecsPerMillisec_def
        c_div_nonneg) (simp add: capture_locals_of_def)
qed

lemma capture_locals_frame [frame_simps]:
  "capture_locals_of (snd (capture_iteration e a)) = capture_locals_of a"
  by (simp add: capture_locals_of_def frame_simps)

lemma delivered_iteration:
  assumes "adm_wf a" "ad_capture_locals a = capture_locals_of a"
    and "\<forall>d \<in> set (ad_delivered a). delivery_ok d"
  shows "\<forall>d \<in> set (ad_delivered (snd (capture_iteration e a))). delivery_ok d"
  using assms delivery_ok_capture [OF assms(1,2)]
  by (cases rule: capture_iteration_cases [of e a]) auto

lemma stereo_capture_tick:
  assumes "stereo_wf a"
  shows "stereo_wf (capture_tick e a)"
proof (cases "ad_capture_thread a = Running \<and> ad_recording a")
  case False
  with assms show ?thesis
    by (auto simp: stereo_wf_def capture_tick_def capture_exit_def adm_wf_def)
next
  case True
  let ?b = "snd (capture_iteration e a)"
  have a: "adm_wf a" "ad_capture_locals a = capture_locals_of a"
    "\<forall>d \<in> set (ad_delivered a). delivery_ok d"
    using assms True by (auto simp: stereo_wf_def)
  have "capture_tick e a = ?b \<or> capture_tick e a = capture_exit ?b"
    using True by (auto simp: capture_tick_def split: prod.splits bool.splits)
  with wf_capture_tick [OF a(1), of e] delivered_iteration [OF a, of e] a(2) show ?thesis
    by (auto simp: stereo_wf_def capture_exit_def frame_simps)
qed

lemma adm_wf_flag: "adm_wf a \<Longrightarrow> adm_wf (a\<lparr>ad_recording := False, ad_capture_thread := Finished\<rparr>)"
  by (simp add: adm_wf_def)

lemma StopRecording_delivered:
  assumes "adm_wf a" "ad_recording a"
  shows "ad_delivered (snd (StopRecording i a)) =
    (case i of None \<Rightarrow> ad_delivered a | Some e \<Rightarrow> ad_delivered (snd (capture_iteration e a)))"
proof -
  have close: "ad_delivered (ClosePulseStreamLocked b) = ad_delivered b" for b
    by (simp add: ClosePulseStreamLocked_def)
  have flag: "ad_delivered (snd (capture_iteration e (a\<lparr>ad_recording := False\<rparr>))) =
      ad_delivered (snd (capture_iteration e a))" for e
    by (simp add: capture_iteration_def capture_delivery_def)
  show ?thesis
    using assms
    by (cases i) (simp_all add: StopRecording_def drain_capture_def capture_exit_def Let_def
        adm_wf_def close flag)
qed

lemma stereo_StopRecording:
  assumes "stereo_wf a"
  shows "stereo_wf (snd (StopRecording i a))"
proof -
  have wf: "adm_wf (snd (StopRecording i a))"
    using assms by (simp add: stereo_wf_def wf_StopRecording)
  have "\<forall>d \<in> set (ad_delivered (snd (StopRecording i a))). delivery_ok d"
  proof (cases "ad_recording a")
    case False
    then have "ad_delivered (snd (StopRecording i a)) = ad_delivered a"
      by (simp add: StopRecording_def ClosePulseStreamLocked_def)
    with assms show ?thesis by (simp add: stereo_wf_def)
  next
    case True
    have "\<forall>d \<in> set (ad_delivered (snd (capture_iteration e a))). delivery_ok d" for e
      using assms True by (intro delivered_iteration) (auto simp: stereo_wf_def)
    with True assms show ?thesis
      by (simp add: stereo_wf_def StopRecording_delivered split: option.split)
  qed
  with wf show ?thesis by (simp add: stereo_wf_def StopRecording_effect)
qed

lemma stereo_Terminate: "stereo_wf a \<Longrightarrow> stereo_wf (snd (Terminate i a))"
  using stereo_StopRecording [of a i] wf_Terminate [of a i] StopRecording_effect(1) [of i a]
  by (auto simp: stereo_wf_def Terminate_def)

lemma stereo_InitRecording:
  assumes "stereo_wf a"
  shows "stereo_wf (snd (InitRecording f a))"
proof (cases "ad_recording a")
  case True
  then have "snd (InitRecording f a) = a" by (simp add: InitRecording_def)
  with assms show ?thesis by simp
next
  case False
  have wf: "adm_wf a" using assms by (simp add: stereo_wf_def)
  obtain rc b where b: "InitRecording f a = (rc, b)" by fastforce
  have "adm_wf b" "ad_recording b = ad_recording a" "ad_delivered b = ad_delivered a"
    using wf_InitRecording [OF wf, of f] InitRecording_result(4,5) [OF wf b] b by auto
  with assms False b show ?thesis by (simp add: stereo_wf_def)
qed

lemma stereo_StartRecording:
  assumes st: "stereo_wf a" and ok: "StartRecording f a = Inr (rc, b)"
  shows "stereo_wf b"
proof -
  obtain rc1 a1 where a1: "(if ad_recording_initialized a then (0, a) else InitRecording f a) = (rc1, a1)"
    by fastforce
  have "stereo_wf a1"
    using a1 st stereo_InitRecording [OF st, of f] by (auto split: if_splits)
  with ok a1 wf_StartRecording [OF _ ok] st show ?thesis
    by (auto simp: StartRecording_def bind_outcome_Inr stereo_wf_def capture_locals_of_def
        split: if_splits)
qed

lemma stereo_adm_step:
  assumes "stereo_wf a" "stereo_fixed ev a" "adm_step ev a = Inr b"
  shows "stereo_wf b"
proof (cases ev)
  case (AdmStartRecording s)
  with assms stereo_StartRecording [OF assms(1), of "\<lambda>_. s"] show ?thesis
    by (auto simp: bind_outcome_Inr)
next
  case (AdmSetStereo st)
  with assms wf_SetStereo [of a st] show ?thesis
    by (auto simp: stereo_wf_def) (auto simp: SetStereoRecording_def)
next
  case AdmInit
  then have b: "b = a\<lparr>ad_initialized := True\<rparr>" using assms(3) by (simp add: adm_Init_def)
  show ?thesis using assms(1) by (simp add: b stereo_wf_def adm_wf_def capture_locals_of_def)
next
  case (AdmRegisterCallback c)
  then have b: "b = a\<lparr>ad_audio_callback := c\<rparr>"
    using assms(3) by (simp add: RegisterAudioCallback_def)
  show ?thesis using assms(1) by (simp add: b stereo_wf_def adm_wf_def capture_locals_of_def)
qed (use assms in \<open>auto simp: stereo_Terminate stereo_InitRecording stereo_StopRecording stereo_capture_tick\<close>)

interpretation adm_stereo: invariant_system "adm_trans stereo_fixed" "Inr (adm_new src rate ch)"
    "\<lambda>s. \<forall>a. s = Inr a \<longrightarrow> stereo_wf a" for src rate ch
proof unfold_locales
  show "\<forall>a. Inr (adm_new src rate ch) = Inr a \<longrightarrow> stereo_wf a"
    by (auto simp: stereo_wf_def wf_adm_new) (simp_all add: adm_new_def Let_def)
next
  fix ev s t
  assume "adm_trans stereo_fixed ev s = Some t" "\<forall>a. s = Inr a \<longrightarrow> stereo_wf a"
  then show "\<forall>a. t = Inr a \<longrightarrow> stereo_wf a"
    by (auto simp: adm_trans_def intro: stereo_adm_step split: sum.splits if_splits)
qed

subsection \<open>Properties of the audio device module\<close>

text \<open>C21. In every reachable state the capture thread runs exactly while recording is set, an open
  stream means recording is initialised, and that means the module is initialised; a process
  that is no longer alive died in \<^verbatim>\<open>std::terminate\<close>.\<close>
theorem adm_states_consistent:
  assumes "reachable (adm_trans any_adm_call) (Inr (adm_new src rate ch)) s"
  shows "case s of Inl e \<Rightarrow> e = StdTerminate
    | Inr a \<Rightarrow> (ad_recording a \<longleftrightarrow> ad_capture_thread a = Running)
        \<and> (ad_stream a \<noteq> 0 \<longrightarrow> ad_recording_initialized a)
        \<and> (ad_recording_initialized a \<longrightarrow> ad_initialized a)
        \<and> (ad_recording a \<longrightarrow> ad_recording_initialized a)
        \<and> 0 < ad_sample_rate_hz a \<and> 0 < ad_channels a"
  using adm.reachable_inv [OF assms]
  by (simp add: outcome_wf_def adm_wf_def split: sum.splits)

definition demo_env :: capture_env where
  "demo_env = \<lparr>ce_read = 0, ce_latency_us = 2000, ce_now_ns = 50000000,
     ce_callback_result = 0, ce_new_mic_level = 0\<rparr>"

definition demo_recording :: pulse_adm where
  "demo_recording = (adm_Create ''out.monitor'')\<lparr>ad_audio_callback := 9, ad_initialized := True,
     ad_recording_initialized := True, ad_stream := 7, ad_recording := True,
     ad_capture_thread := Running,
     ad_capture_locals := \<lparr>ll_samples_per_channel = 480, ll_sample_count = 960,
       ll_chunk_duration_ns = 10000000\<rparr>\<rparr>"

lemma demo_recording_run:
  "run (adm_trans stereo_fixed) [AdmInit, AdmRegisterCallback 9, AdmInitRecording 7, AdmStartRecording 7]
     (Inr (adm_new ''out.monitor'' 48000 2)) = Some (Inr demo_recording)"
  by (simp add: adm_trans_def adm_Init_def RegisterAudioCallback_def InitRecording_def
      OpenPulseStreamLocked_def StartRecording_def adm_new_def capture_locals_of_def
      c_div_nonneg kNumNanosecsPerSec_def demo_recording_def adm_Create_def)

lemma demo_recording_reachable:
  "reachable (adm_trans stereo_fixed) (Inr (adm_new ''out.monitor'' 48000 2)) (Inr demo_recording)"
  by (rule run_reachable [OF demo_recording_run])

lemma demo_recording_wf: "adm_wf demo_recording"
  using adm.run_inv [OF demo_recording_run] by simp

lemma demo_recording_fields [simp]:
  "ad_recording demo_recording" "ad_recording_initialized demo_recording"
  "ad_initialized demo_recording" "ad_capture_thread demo_recording = Running"
  "ad_stream demo_recording = 7" "ad_audio_callback demo_recording = 9"
  by (simp_all add: demo_recording_def)

lemma reachable_any_call:
  assumes "reachable (adm_trans G) i st"
  shows "reachable (adm_trans any_adm_call) i st"
  using assms
proof (induction rule: reachable.induct)
  case reach_init
  show ?case by (rule reachable.reach_init)
next
  case (reach_step s e t)
  then have "adm_trans any_adm_call e s = Some t"
    by (auto simp: adm_trans_def any_adm_call_def split: if_splits sum.splits)
  with reach_step show ?case by (blast intro: reachable.reach_step)
qed

theorem adm_states_consistent_witness:
  "reachable (adm_trans any_adm_call) (Inr (adm_new ''out.monitor'' 48000 2)) (Inr demo_recording)
   \<and> (ad_recording demo_recording \<longleftrightarrow> ad_capture_thread demo_recording = Running)"
  using adm_states_consistent [OF reachable_any_call [OF demo_recording_reachable]]
    reachable_any_call [OF demo_recording_reachable] by simp

text \<open>The first recording session works: on an initialised module with no capture thread,
  \<^verbatim>\<open>StartRecording\<close> opens the stream with the module's own format and starts the thread, and
  \<^verbatim>\<open>StopRecording\<close> then joins it and closes the stream.\<close>
theorem first_recording_session:
  assumes "adm_wf a" "ad_initialized a" "\<not> ad_recording_initialized a"
    and "ad_capture_thread a = NotJoinable" "f (pulse_open_args_of a) \<noteq> 0"
  shows "\<exists>b. StartRecording f a = Inr (0, b)
    \<and> ad_recording b \<and> ad_capture_thread b = Running
    \<and> ad_stream b = f (pulse_open_args_of a)
    \<and> ad_capture_locals b = capture_locals_of a
    \<and> (\<forall>i. ad_stream (snd (StopRecording i b)) = 0
         \<and> ad_capture_thread (snd (StopRecording i b)) = NotJoinable)"
proof -
  have "ad_stream a = 0" "\<not> ad_recording a" using assms by (auto simp: adm_wf_def)
  with assms(2-5) show ?thesis
    by (simp add: StartRecording_def InitRecording_def OpenPulseStreamLocked_def Let_def
        StopRecording_effect capture_locals_of_def)
qed

theorem first_recording_session_witness:
  "\<exists>b. StartRecording (\<lambda>_. 7) ((adm_Create ''out.monitor'')\<lparr>ad_initialized := True\<rparr>) = Inr (0, b)
     \<and> ad_recording b"
proof -
  let ?a = "(adm_Create ''out.monitor'')\<lparr>ad_initialized := True\<rparr>"
  have "adm_wf ?a" "ad_initialized ?a" "\<not> ad_recording_initialized ?a"
    "ad_capture_thread ?a = NotJoinable" "(\<lambda>_. 7) (pulse_open_args_of ?a) \<noteq> (0::nat)"
    by (simp_all add: adm_Create_def adm_new_def adm_wf_def c_div_nonneg)
  from first_recording_session [OF this] show ?thesis by blast
qed

text \<open>C22. Restarting does not work: after \<^verbatim>\<open>StopRecording\<close> the flag \<^verbatim>\<open>recording_initialized_\<close> is
  still set, so \<^verbatim>\<open>StartRecording\<close> reports success without reopening the stream; whatever
  PulseAudio answers, the thread gives up at its first pass, nothing is delivered, and a third
  start kills the process.\<close>
theorem restart_records_nothing:
  assumes "adm_wf a" "ad_recording a"
  shows "\<exists>b. StartRecording f (snd (StopRecording i a)) = Inr (0, b)
    \<and> ad_recording b \<and> ad_stream b = 0
    \<and> (\<forall>e es. \<not> ad_recording (capture_ticks (e # es) b)
         \<and> ad_delivered (capture_ticks (e # es) b) = ad_delivered (snd (StopRecording i a))
         \<and> StartRecording g (capture_ticks (e # es) b) = Inl StdTerminate)"
proof -
  define s where "s = snd (StopRecording i a)"
  have s: "ad_recording_initialized s" "\<not> ad_recording s" "ad_stream s = 0"
    "ad_capture_thread s = NotJoinable"
    using assms by (auto simp: s_def StopRecording_effect adm_wf_def)
  define b where "b = s\<lparr>ad_recording := True, ad_capture_thread := Running,
      ad_capture_locals := capture_locals_of s\<rparr>"
  have start: "StartRecording f s = Inr (0, b)"
    using s by (simp add: StartRecording_def b_def)
  have tick: "capture_tick e b = capture_exit b" for e
    using s by (simp add: capture_tick_def capture_iteration_def b_def)
  have "capture_tick e (capture_exit b) = capture_exit b" for e
    by (simp add: capture_tick_def capture_exit_def)
  then have rest: "capture_ticks es (capture_exit b) = capture_exit b" for es
    by (induction es) simp_all
  have "StartRecording g (capture_exit b) = Inl StdTerminate"
    using s by (simp add: StartRecording_def capture_exit_def b_def)
  with start tick rest s show ?thesis
    by (intro exI [of _ b]) (simp add: s_def [symmetric] b_def capture_exit_def)
qed

theorem restart_records_nothing_witness:
  "\<exists>b. StartRecording (\<lambda>_. 7) (snd (StopRecording None demo_recording)) = Inr (0, b)
     \<and> \<not> ad_recording (capture_ticks [demo_env] b)"
  using restart_records_nothing [OF demo_recording_wf demo_recording_fields(1),
      of "\<lambda>_. 7" None "\<lambda>_. 7"] by blast

text \<open>C27. A failed read ends the capture thread but leaves its handle joinable, so both the next
  \<^verbatim>\<open>StartRecording\<close> and the destructor end in \<^verbatim>\<open>std::terminate\<close>, even after \<^verbatim>\<open>StopRecording\<close>.\<close>
theorem read_error_is_fatal_later:
  assumes "adm_wf a" "ad_recording a" "ce_read e < 0"
  shows "\<not> ad_recording (capture_tick e a)
    \<and> StartRecording f (capture_tick e a) = Inl StdTerminate
    \<and> StartRecording f (snd (StopRecording i (capture_tick e a))) = Inl StdTerminate
    \<and> adm_destroy i (capture_tick e a) = Inl StdTerminate"
proof -
  have "capture_tick e a = capture_exit a"
    using assms by (simp add: capture_tick_def capture_iteration_def adm_wf_def)
  moreover have "ad_recording_initialized a" using assms by (simp add: adm_wf_def)
  ultimately show ?thesis
    by (simp add: capture_exit_def StartRecording_def StopRecording_effect adm_destroy_def
        Terminate_def bind_outcome_def)
qed

theorem read_error_is_fatal_later_witness:
  "adm_destroy None (capture_tick (demo_env\<lparr>ce_read := - 1\<rparr>) demo_recording) = Inl StdTerminate"
  using read_error_is_fatal_later [OF demo_recording_wf demo_recording_fields(1),
      of "demo_env\<lparr>ce_read := - 1\<rparr>"] by simp

text \<open>Destruction aborts exactly when the thread has ended on its own; otherwise it joins the
  thread and leaves no stream open.\<close>
theorem adm_destroy_safe_iff:
  assumes "adm_wf a"
  shows "(adm_destroy i a = Inl StdTerminate \<longleftrightarrow> ad_capture_thread a = Finished)
    \<and> (ad_capture_thread a \<noteq> Finished \<longrightarrow> (\<exists>b. adm_destroy i a = Inr b
         \<and> ad_stream b = 0 \<and> \<not> ad_recording b \<and> \<not> ad_initialized b))"
proof (cases "ad_capture_thread a")
  case NotJoinable
  with assms show ?thesis
    by (simp add: adm_wf_def adm_destroy_def Terminate_def StopRecording_effect bind_outcome_def)
next
  case Running
  with assms show ?thesis
    by (simp add: adm_wf_def adm_destroy_def Terminate_def StopRecording_effect bind_outcome_def)
next
  case Finished
  with assms show ?thesis
    by (simp add: adm_wf_def adm_destroy_def Terminate_def StopRecording_effect bind_outcome_def)
qed

theorem adm_destroy_safe_iff_witness:
  "\<exists>b. adm_destroy (Some demo_env) demo_recording = Inr b \<and> ad_stream b = 0"
  using adm_destroy_safe_iff [OF demo_recording_wf, of "Some demo_env"] by auto

text \<open>As long as the channel count is not changed during a recording, every buffer handed to
  WebRTC holds exactly the samples announced with it, and the announced delay is at most 10 ms.\<close>
theorem deliveries_within_buffer:
  assumes "reachable (adm_trans stereo_fixed) (Inr (adm_new src rate ch)) (Inr a)"
    and "d \<in> set (ad_delivered a)"
  shows "dl_samples d * dl_channels d = dl_buffer_samples d
    \<and> dl_bytes_per_sample d = 2 * dl_channels d
    \<and> 0 \<le> dl_delay_ms d \<and> dl_delay_ms d \<le> 10"
  using adm_stereo.reachable_inv [OF assms(1)] assms(2)
  by (auto simp: stereo_wf_def delivery_ok_def)

theorem deliveries_within_buffer_witness:
  "\<exists>(a::pulse_adm) d. d \<in> set (ad_delivered a) \<and> dl_samples d * dl_channels d = dl_buffer_samples d"
proof -
  let ?a = "capture_tick demo_env demo_recording"
  have "adm_trans stereo_fixed (AdmCaptureTick demo_env) (Inr demo_recording) = Some (Inr ?a)"
    by (simp add: adm_trans_def)
  from reach_step [OF demo_recording_reachable this]
  have r: "reachable (adm_trans stereo_fixed) (Inr (adm_new ''out.monitor'' 48000 2)) (Inr ?a)" .
  have "capture_delivery demo_env demo_recording \<in> set (ad_delivered ?a)"
    by (simp add: capture_tick_def capture_iteration_def demo_env_def)
  from deliveries_within_buffer [OF r this] this show ?thesis by blast
qed

text \<open>C35. Switching a running mono capture to stereo makes WebRTC read past the buffer: the loop
  keeps the buffer it sized before, but announces the new channel count.\<close>
theorem stereo_switch_overreads:
  "\<exists>evs a d. run (adm_trans any_adm_call) evs (Inr (adm_new ''out.monitor'' 48000 1)) = Some (Inr a)
     \<and> d \<in> set (ad_delivered a) \<and> dl_buffer_samples d < dl_samples d * dl_channels d"
proof -
  let ?evs = "[AdmInit, AdmRegisterCallback 9, AdmStartRecording 7, AdmSetStereo True,
    AdmCaptureTick demo_env]"
  let ?d = "\<lparr>dl_buffer_samples = 480, dl_samples = 480, dl_bytes_per_sample = 4, dl_channels = 2,
    dl_sample_rate = 48000, dl_delay_ms = 10, dl_capture_time_ns = 38000000\<rparr>"
  have "\<exists>a. run (adm_trans any_adm_call) ?evs (Inr (adm_new ''out.monitor'' 48000 1)) = Some (Inr a)
      \<and> ad_delivered a = [?d]"
    by (simp add: adm_trans_def any_adm_call_def adm_Init_def RegisterAudioCallback_def
        InitRecording_def OpenPulseStreamLocked_def StartRecording_def adm_new_def
        capture_locals_of_def c_div_nonneg kNumNanosecsPerSec_def SetStereoRecording_def
        capture_tick_def capture_iteration_def capture_delivery_def demo_env_def
        estimated_capture_time_def kNumNanosecsPerMillisec_def)
  then obtain a where "run (adm_trans any_adm_call) ?evs (Inr (adm_new ''out.monitor'' 48000 1))
      = Some (Inr a)" "ad_delivered a = [?d]" by blast
  then show ?thesis
    by (intro exI [of _ ?evs] exI [of _ a] exI [of _ ?d]) (simp del: run.simps)
qed

text \<open>With a latency reading the capture time is now minus the latency minus one chunk, and one
  chunk is exactly 10 ms for the sample rates the sender uses (multiples of 100 Hz).\<close>
theorem capture_time_formula:
  assumes "adm_wf a" "ad_sample_rate_hz a mod 100 = 0"
    and "ce_latency_us e \<noteq> - 1" "ad_capture_locals a = capture_locals_of a"
  shows "dl_capture_time_ns (capture_delivery e a)
      = ce_now_ns e - sint (ce_latency_us e) * 1000 - 10000000
    \<and> dl_delay_ms (capture_delivery e a) = 10"
proof -
  let ?r = "ad_sample_rate_hz a"
  obtain k where k: "?r = 100 * k" using assms(2) by auto
  have "0 < ?r" "ad_frames_per_buffer a = nat (?r div 100)" using assms(1) by (auto simp: adm_wf_def)
  with k have "ll_chunk_duration_ns (capture_locals_of a) = 10000000"
    by (simp add: capture_locals_of_def kNumNanosecsPerSec_def c_div_nonneg)
  with assms(3,4) show ?thesis
    by (simp add: capture_delivery_def Let_def estimated_capture_time_def
        kNumNanosecsPerMillisec_def c_div_nonneg)
qed

theorem capture_time_formula_witness:
  "dl_capture_time_ns (capture_delivery demo_env demo_recording) = 38000000"
proof -
  have "ad_sample_rate_hz demo_recording mod 100 = 0" "ce_latency_us demo_env \<noteq> - 1"
    "ad_capture_locals demo_recording = capture_locals_of demo_recording"
    by (simp_all add: demo_recording_def demo_env_def capture_locals_of_def adm_Create_def
        adm_new_def c_div_nonneg kNumNanosecsPerSec_def)
  from capture_time_formula [OF demo_recording_wf this] show ?thesis
    by (simp add: demo_env_def)
qed

text \<open>\<^verbatim>\<open>CopyAdmString\<close> never writes past the destination, always leaves a terminated string, and
  that string is the source's text cut to one less than the capacity.\<close>
theorem CopyAdmString_bounded:
  assumes "length d = capacity" "0 < capacity"
  shows "\<exists>r. CopyAdmString value (Some d) capacity = Some r \<and> length r = capacity
    \<and> CHR 0x00 \<in> set r \<and> c_str r = c_str (take (capacity - 1) value)"
proof -
  let ?n = "min (capacity - 1) (length value)"
  let ?r = "take ?n value @ CHR 0x00 # drop (Suc ?n) d"
  have "CopyAdmString value (Some d) capacity = Some ?r"
    using assms by (simp add: CopyAdmString_def Let_def)
  moreover have "length ?r = capacity" using assms by (auto simp: min_def)
  moreover have "c_str ?r = c_str (take (capacity - 1) value)"
    by (simp add: c_str_terminated min_def)
  ultimately show ?thesis by (intro exI [of _ ?r]) simp
qed

theorem CopyAdmString_bounded_witness:
  "\<exists>r. CopyAdmString ''monitor'' (Some ''abcd'') 4 = Some r \<and> c_str r = ''mon''"
proof -
  have "length ''abcd'' = 4" "(0::nat) < 4" by simp_all
  from CopyAdmString_bounded [OF this, of "''monitor''"]
  have "\<exists>r. CopyAdmString ''monitor'' (Some ''abcd'') 4 = Some r
      \<and> c_str r = c_str (take (4 - 1) ''monitor'')" by blast
  then show ?thesis by (simp add: c_str_def)
qed

end
