(* ===== verification/Platform.thy ===== *)
theory Platform
  imports Threads
begin

text \<open>
  The platform glue of \<^verbatim>\<open>module/pushclient.cpp\<close> (lines 49-329) and \<^verbatim>\<open>main.cpp\<close>: the
  preprocessor configuration, the process environment, string helpers, the search for a
  PulseAudio monitor source in the output of \<^verbatim>\<open>pactl\<close>, the Wayland test, the choice of
  capture options and capturer, and the start-up sequence. What the operating system and
  WebRTC answer is passed in.
\<close>

subsection \<open>Build configuration and environment\<close>

datatype platform = PlatformLinux | PlatformWindows | PlatformMacos | PlatformUnknown

record build =
  bd_platform :: platform
  bd_use_x11 :: bool
  bd_use_pipewire :: bool
  bd_pulse_simple :: bool
  bd_webrtc_win :: bool
  bd_win_wgc :: bool

type_synonym environment = "string \<rightharpoonup> string"

subsection \<open>Strings\<close>

definition lower_char :: "char \<Rightarrow> char" where
  "lower_char c = (let n = (of_char c :: nat) in
     if 65 \<le> n \<and> n \<le> 90 then char_of (n + 32) else c)"

definition AsciiLower :: "string \<Rightarrow> string" where
  "AsciiLower value = map lower_char value"

definition BoolToFmtpValue :: "bool \<Rightarrow> string" where
  "BoolToFmtpValue enabled = (if enabled then ''1'' else ''0'')"

text \<open>The arguments are C strings, \<open>None\<close> for a null pointer.\<close>

definition LooksLikeSystemLoopbackDevice :: "string option \<Rightarrow> string option \<Rightarrow> bool" where
  "LooksLikeSystemLoopbackDevice name guid =
     (let device_name = AsciiLower (case name of None \<Rightarrow> [] | Some n \<Rightarrow> n);
          device_guid = AsciiLower (case guid of None \<Rightarrow> [] | Some g \<Rightarrow> g)
      in contains_sub ''monitor'' device_name \<or> contains_sub ''loopback'' device_name
         \<or> contains_sub ''monitor'' device_guid \<or> contains_sub ''loopback'' device_guid)"

subsection \<open>The monitor source\<close>

text \<open>
  \<^verbatim>\<open>fgets\<close> with a buffer of \<open>n + 1\<close> bytes: at most \<open>n\<close> bytes, up to and
  including a newline.
\<close>

fun fgets_line :: "nat \<Rightarrow> string \<Rightarrow> string \<times> string" where
  "fgets_line 0 s = ([], s)"
| "fgets_line (Suc n) [] = ([], [])"
| "fgets_line (Suc n) (c # s) =
     (if c = CHR 0x0A then ([c], s)
      else case fgets_line n s of (l, rest) \<Rightarrow> (c # l, rest))"

lemma fgets_line_append: "fgets_line n s = (l, rest) \<Longrightarrow> s = l @ rest"
  by (induction n s arbitrary: l rest rule: fgets_line.induct) (auto split: if_splits prod.splits)

lemma fgets_line_rest: "s \<noteq> [] \<Longrightarrow> length (snd (fgets_line (Suc n) s)) < length s"
  using fgets_line_append [of n "tl s"] by (cases s) (auto split: prod.splits)

lemma fgets_line_shorter:
  "(l, rest) = fgets_line (Suc n) s \<Longrightarrow> s \<noteq> [] \<Longrightarrow> length rest < length s"
  using fgets_line_rest [of s n] by (metis snd_conv)

text \<open>
  The name a line of \<^verbatim>\<open>pactl list short sources\<close> gives: the field between its first two tabs,
  if the line mentions a monitor.
\<close>

definition monitor_field :: "string \<Rightarrow> string option" where
  "monitor_field line =
     (let lowered = AsciiLower line in
      if \<not> contains_sub ''.monitor'' lowered \<and> \<not> contains_sub ''monitor'' lowered then None
      else case find_char (CHR 0x09) line of
        None \<Rightarrow> None
      | Some first_tab \<Rightarrow>
          (case find_char_from (CHR 0x09) (first_tab + 1) line of
             None \<Rightarrow> None
           | Some second_tab \<Rightarrow>
               Some (take (second_tab - first_tab - 1) (drop (first_tab + 1) line))))"

text \<open>The loop over the pipe; the buffer holds 512 bytes.\<close>

function scan_sources :: "string \<Rightarrow> string" where
  "scan_sources pipe =
     (if pipe = [] then []
      else case fgets_line (Suc 510) pipe of (buffer, rest) \<Rightarrow>
        (case monitor_field (c_str buffer) of
           Some src \<Rightarrow> src
         | None \<Rightarrow> scan_sources rest))"
  by pat_completeness auto
termination
  by (relation "measure length") (auto dest: fgets_line_shorter [where n = 510, simplified])

declare scan_sources.simps [simp del]

text \<open>\<open>None\<close>: \<^verbatim>\<open>popen\<close> failed.\<close>

definition DetectPulseMonitorSourceName :: "build \<Rightarrow> string option \<Rightarrow> string" where
  "DetectPulseMonitorSourceName B popen =
     (if bd_platform B = PlatformLinux
      then (case popen of None \<Rightarrow> [] | Some pipe \<Rightarrow> scan_sources pipe)
      else [])"

definition env_nonempty :: "environment \<Rightarrow> string \<Rightarrow> bool" where
  "env_nonempty env k = (case env k of None \<Rightarrow> False | Some v \<Rightarrow> v \<noteq> [])"

definition OverridePulseSourceWithMonitorIfAvailable ::
  "build \<Rightarrow> string option \<Rightarrow> environment \<Rightarrow> environment" where
  "OverridePulseSourceWithMonitorIfAvailable B popen env =
     (if bd_platform B \<noteq> PlatformLinux then env
      else if env_nonempty env ''PULSE_SOURCE'' then env
      else let monitor_source = DetectPulseMonitorSourceName B popen in
           if monitor_source = [] then env
           else env(''PULSE_SOURCE'' \<mapsto> c_str monitor_source))"

text \<open>
  Which audio device module is created: the repository's own with its source name, or one of
  WebRTC's. \<open>pulse_ok\<close> and \<open>default_ok\<close> say whether WebRTC's factory gives one.
\<close>

datatype adm_choice = AdmLoopback string | AdmLinuxPulse | AdmPlatformDefault

definition CreatePlatformAudioDeviceModule ::
  "build \<Rightarrow> string option \<Rightarrow> bool \<Rightarrow> bool \<Rightarrow> environment \<Rightarrow> adm_choice option \<times> environment" where
  "CreatePlatformAudioDeviceModule B popen pulse_ok default_ok env =
     (let platform_default = (if default_ok then Some AdmPlatformDefault else None) in
      if bd_platform B \<noteq> PlatformLinux then (platform_default, env)
      else let env' = OverridePulseSourceWithMonitorIfAvailable B popen env in
        if bd_pulse_simple B
        then (Some (AdmLoopback (case env' ''PULSE_SOURCE'' of None \<Rightarrow> [] | Some s \<Rightarrow> s)), env')
        else if pulse_ok then (Some AdmLinuxPulse, env')
        else (platform_default, env'))"

subsection \<open>Desktop capture\<close>

definition IsWaylandSession :: "build \<Rightarrow> environment \<Rightarrow> bool" where
  "IsWaylandSession B env =
     (if bd_platform B \<noteq> PlatformLinux then False
      else if (case env ''QT_QPA_PLATFORM'' of None \<Rightarrow> False | Some q \<Rightarrow> is_prefix ''xcb'' q) then False
      else if env ''XDG_SESSION_TYPE'' = Some ''x11'' then False
      else if env ''XDG_SESSION_TYPE'' = Some ''wayland'' then True
      else env_nonempty env ''WAYLAND_DISPLAY'')"

record capture_options =
  co_use_update_notifications :: bool
  co_prefer_cursor_embedded :: bool
  co_allow_pipewire :: bool
  co_allow_directx_capturer :: bool
  co_allow_wgc_screen_capturer :: bool
  co_allow_wgc_window_capturer :: bool
  co_allow_wgc_capturer_fallback :: bool

definition ApplyPlatformCaptureOptions ::
  "build \<Rightarrow> environment \<Rightarrow> capture_options \<Rightarrow> capture_options" where
  "ApplyPlatformCaptureOptions B env options =
     (case bd_platform B of
        PlatformLinux \<Rightarrow>
          (let o1 = (if bd_use_x11 B
                     then options\<lparr>co_use_update_notifications := True,
                                  co_prefer_cursor_embedded := True\<rparr>
                     else options)
           in if bd_use_pipewire B then o1\<lparr>co_allow_pipewire := IsWaylandSession B env\<rparr> else o1)
      | PlatformWindows \<Rightarrow>
          (if bd_webrtc_win B
           then let o1 = options\<lparr>co_allow_directx_capturer := True\<rparr>
                in if bd_win_wgc B
                   then o1\<lparr>co_allow_wgc_screen_capturer := True,
                           co_allow_wgc_window_capturer := True,
                           co_allow_wgc_capturer_fallback := True\<rparr>
                   else o1
           else options)
      | PlatformMacos \<Rightarrow> options
      | PlatformUnknown \<Rightarrow> options)"

definition CreateCaptureOptions :: "build \<Rightarrow> environment \<Rightarrow> capture_options \<Rightarrow> capture_options" where
  "CreateCaptureOptions B env CreateDefault = ApplyPlatformCaptureOptions B env CreateDefault"

text \<open>
  What a desktop capturer answers when its sources are listed and one is selected, and
  what WebRTC's factory makes of a set of options (\<open>None\<close>: it returns null).
\<close>

record capturer =
  cp_source_list :: "int list option"
  cp_select_ok :: "int \<Rightarrow> bool"

type_synonym capturer_factory = "capture_options \<Rightarrow> capturer option"

definition CreatePlatformScreenCapturer ::
  "build \<Rightarrow> environment \<Rightarrow> capture_options \<Rightarrow> capturer_factory \<Rightarrow> capturer option" where
  "CreatePlatformScreenCapturer B env CreateDefault CreateScreenCapturer =
     (if IsWaylandSession B env \<and> \<not> bd_use_pipewire B then None
      else CreateScreenCapturer (CreateCaptureOptions B env CreateDefault))"

definition CreatePlatformWindowCapturer ::
  "build \<Rightarrow> environment \<Rightarrow> capture_options \<Rightarrow> capturer_factory \<Rightarrow> capturer option" where
  "CreatePlatformWindowCapturer B env CreateDefault CreateWindowCapturer =
     (if IsWaylandSession B env \<and> \<not> bd_use_pipewire B then None
      else CreateWindowCapturer (CreateCaptureOptions B env CreateDefault))"

text \<open>The result, and the source that was selected, if any.\<close>

definition SelectDefaultSourceIfNeeded :: "capturer option \<Rightarrow> bool \<times> int option" where
  "SelectDefaultSourceIfNeeded capturer =
     (case capturer of
        None \<Rightarrow> (False, None)
      | Some c \<Rightarrow>
          (case cp_source_list c of
             None \<Rightarrow> (True, None)
           | Some [] \<Rightarrow> (True, None)
           | Some (s # _) \<Rightarrow> if cp_select_ok c s then (True, Some s) else (False, None)))"

definition IsDesktopCaptureAvailable ::
  "build \<Rightarrow> environment \<Rightarrow> capture_options \<Rightarrow> capturer_factory \<Rightarrow> bool" where
  "IsDesktopCaptureAvailable B env CreateDefault CreateScreenCapturer =
     (case CreatePlatformScreenCapturer B env CreateDefault CreateScreenCapturer of
        None \<Rightarrow> False
      | Some c \<Rightarrow> fst (SelectDefaultSourceIfNeeded (Some c)))"

subsection \<open>Start-up\<close>

text \<open>
  \<open>plugin_exists\<close> tells whether a file exists, \<open>xinit_ok\<close> whether \<^verbatim>\<open>XInitThreads\<close>
  succeeds.
\<close>

definition env_value :: "environment \<Rightarrow> string \<Rightarrow> string" where
  "env_value env k = (case env k of None \<Rightarrow> [] | Some v \<Rightarrow> v)"

definition InitializePlatformRuntime ::
  "build \<Rightarrow> (string \<Rightarrow> bool) \<Rightarrow> bool \<Rightarrow> bool \<Rightarrow> environment \<Rightarrow> bool \<times> environment" where
  "InitializePlatformRuntime B plugin_exists xinit_ok autostart env =
     (if bd_platform B \<noteq> PlatformLinux then (True, env)
      else
        let env' = (if \<not> autostart \<and> env_value env ''QT_QPA_PLATFORM'' = []
                      \<and> (env_value env ''XDG_SESSION_TYPE'' = ''wayland''
                         \<or> env_value env ''WAYLAND_DISPLAY'' \<noteq> [])
                      \<and> plugin_exists (env_value env ''QT_PLUGIN_PATH''
                          @ ''/platforms/libqwayland-generic.so'')
                    then env(''QT_QPA_PLATFORM'' \<mapsto> ''wayland'') else env);
            useWaylandQt = is_prefix ''wayland'' (env_value env' ''QT_QPA_PLATFORM'')
        in if \<not> useWaylandQt \<and> \<not> xinit_ok then (False, env') else (True, env'))"

text \<open>
  \<^verbatim>\<open>main\<close>: the calls it makes, the destructors of its local objects included, and the exit
  code. The argument list is \<^verbatim>\<open>argv\<close> without the
  program's name; \<open>exec_code\<close> is what the Qt event loop returns.
\<close>

datatype main_call =
    CallInitializeSSL
  | CallCleanupSSL
  | CallConnectToServer string
  | CallShowWindow
  | CallExec
  | CallDestroyClient
  | CallDestroyWindow

definition signaling_url :: string where
  "signaling_url = ''ws://localhost:8000/server''"

definition main_program ::
  "build \<Rightarrow> (string \<Rightarrow> bool) \<Rightarrow> bool \<Rightarrow> bool \<Rightarrow> int \<Rightarrow> string list \<Rightarrow> environment
   \<Rightarrow> int \<times> main_call list" where
  "main_program B plugin_exists ssl_ok xinit_ok exec_code args env =
     (let autostart = (''--autostart'' \<in> set args) in
      if \<not> ssl_ok then (2, [CallInitializeSSL])
      else case InitializePlatformRuntime B plugin_exists xinit_ok autostart env of
        (False, _) \<Rightarrow> (3, [CallInitializeSSL, CallCleanupSSL])
      | (True, _) \<Rightarrow>
          if autostart
          then (exec_code, [CallInitializeSSL, CallConnectToServer signaling_url, CallExec,
                  CallCleanupSSL, CallDestroyClient])
          else (0, [CallInitializeSSL, CallShowWindow, CallExec, CallCleanupSSL,
                  CallDestroyWindow]))"

subsection \<open>The monitor search\<close>

lemma fgets_whole_line:
  assumes "CHR 0x0A \<notin> set l" "length l < n"
  shows "fgets_line n (l @ CHR 0x0A # rest) = (l @ [CHR 0x0A], rest)"
  using assms
proof (induction l arbitrary: n)
  case Nil
  then show ?case by (cases n) auto
next
  case (Cons c l)
  then obtain m where "n = Suc m" by (cases n) auto
  with Cons show ?case by auto
qed

text \<open>A row of the listing: index, name and the remaining columns.\<close>

type_synonym source_row = "string \<times> string \<times> string"

definition row_line :: "source_row \<Rightarrow> string" where
  "row_line r = (case r of (index, name, rest) \<Rightarrow>
     index @ CHR 0x09 # name @ CHR 0x09 # rest @ [CHR 0x0A])"

definition row_name :: "source_row \<Rightarrow> string" where
  "row_name r = (case r of (index, name, rest) \<Rightarrow> name)"

definition row_ok :: "source_row \<Rightarrow> bool" where
  "row_ok r = (case r of (index, name, rest) \<Rightarrow>
     CHR 0x09 \<notin> set index \<and> CHR 0x09 \<notin> set name
     \<and> CHR 0x0A \<notin> set (index @ name @ rest) \<and> CHR 0x00 \<notin> set (index @ name @ rest)
     \<and> length index + length name + length rest < 509)"

definition row_mentions_monitor :: "source_row \<Rightarrow> bool" where
  "row_mentions_monitor r = contains_sub ''monitor'' (AsciiLower (row_line r))"

lemma monitor_dot: "contains_sub ''.monitor'' s \<Longrightarrow> contains_sub ''monitor'' s"
proof -
  assume "contains_sub ''.monitor'' s"
  then obtain as bs where "s = as @ ''.monitor'' @ bs" by (auto simp: contains_sub_iff)
  then have "s = (as @ ''.'') @ ''monitor'' @ bs" by simp
  then show ?thesis unfolding contains_sub_iff by blast
qed

lemma monitor_field_row:
  assumes "row_ok r"
  shows "monitor_field (row_line r) = (if row_mentions_monitor r then Some (row_name r) else None)"
proof -
  obtain index name rest where r: "r = (index, name, rest)" by (cases r)
  let ?s = "row_line r"
  have s: "?s = index @ CHR 0x09 # name @ CHR 0x09 # rest @ [CHR 0x0A]"
    by (simp add: row_line_def r)
  have tabs: "CHR 0x09 \<notin> set index" "CHR 0x09 \<notin> set name"
    using assms by (auto simp: row_ok_def r)
  have first: "find_char (CHR 0x09) ?s = Some (length index)"
    unfolding s by (rule find_char_append) (rule tabs)
  have drop: "drop (length index + 1) ?s = name @ CHR 0x09 # rest @ [CHR 0x0A]"
    unfolding s by simp
  have second: "find_char_from (CHR 0x09) (length index + 1) ?s
      = Some (length index + 1 + length name)"
    unfolding find_char_from_def drop by (simp add: find_char_append [OF tabs(2)])
  have cond: "(\<not> contains_sub ''.monitor'' (AsciiLower ?s) \<and> \<not> contains_sub ''monitor'' (AsciiLower ?s))
      \<longleftrightarrow> \<not> row_mentions_monitor r"
    using monitor_dot unfolding row_mentions_monitor_def by blast
  show ?thesis
    unfolding monitor_field_def Let_def cond first option.case second drop
    by (simp add: row_name_def r)
qed

lemma row_line_read:
  assumes "row_ok r"
  shows "fgets_line (Suc 510) (row_line r @ tl_out) = (row_line r, tl_out)"
    and "c_str (row_line r) = row_line r"
    and "row_line r \<noteq> []"
proof -
  obtain index name rest where r: "r = (index, name, rest)" by (cases r)
  let ?l = "index @ CHR 0x09 # name @ CHR 0x09 # rest"
  have s: "row_line r = ?l @ [CHR 0x0A]" by (simp add: row_line_def r)
  have "CHR 0x0A \<notin> set ?l" "length ?l < Suc 510"
    using assms by (auto simp: row_ok_def r)
  from fgets_whole_line [OF this, of tl_out]
  show "fgets_line (Suc 510) (row_line r @ tl_out) = (row_line r, tl_out)" by (simp add: s)
  show "c_str (row_line r) = row_line r"
    using assms by (intro c_str_id) (auto simp: row_ok_def r row_line_def)
  show "row_line r \<noteq> []" by (simp add: s)
qed

lemma scan_sources_row:
  assumes "row_ok r"
  shows "scan_sources (row_line r @ tl_out)
    = (if row_mentions_monitor r then row_name r else scan_sources tl_out)"
proof -
  note row = row_line_read(1) [OF assms, of tl_out] row_line_read(2,3) [OF assms]
  have "scan_sources (row_line r @ tl_out)
      = (case monitor_field (row_line r) of Some src \<Rightarrow> src | None \<Rightarrow> scan_sources tl_out)"
    by (subst scan_sources.simps) (simp only: row, simp add: row)
  then show ?thesis by (simp add: monitor_field_row [OF assms])
qed

lemma scan_sources_nil [simp]: "scan_sources [] = []"
  by (simp add: scan_sources.simps)

text \<open>
  On the listing \<^verbatim>\<open>pactl list short sources\<close> prints (rows of tab separated columns that
  fit the 512-byte buffer) \<open>DetectPulseMonitorSourceName\<close> returns the name column of the
  first row that mentions a monitor in any letter case, and the empty string if there is
  none; on other platforms, or when \<^verbatim>\<open>popen\<close> fails, it returns the empty string.
\<close>

theorem monitor_source_found:
  assumes "\<forall>r \<in> set rows. row_ok r"
  shows "DetectPulseMonitorSourceName B (Some (concat (map row_line rows)))
      = (if bd_platform B = PlatformLinux
         then (case find row_mentions_monitor rows of None \<Rightarrow> [] | Some r \<Rightarrow> row_name r) else [])
    \<and> DetectPulseMonitorSourceName B None = []"
proof -
  have "scan_sources (concat (map row_line rows))
      = (case find row_mentions_monitor rows of None \<Rightarrow> [] | Some r \<Rightarrow> row_name r)"
    using assms by (induction rows) (auto simp: scan_sources_row)
  then show ?thesis by (simp add: DetectPulseMonitorSourceName_def)
qed

definition linux_build :: build where
  "linux_build = \<lparr>bd_platform = PlatformLinux, bd_use_x11 = True, bd_use_pipewire = True,
     bd_pulse_simple = True, bd_webrtc_win = False, bd_win_wgc = False\<rparr>"

definition demo_rows :: "source_row list" where
  "demo_rows = [(''1'', ''mic'', ''s16le''), (''2'', ''out.Monitor'', ''s16le'')]"

theorem monitor_source_found_witness:
  "DetectPulseMonitorSourceName linux_build (Some (concat (map row_line demo_rows)))
     = ''out.Monitor''"
proof -
  have "\<forall>r \<in> set demo_rows. row_ok r" by code_simp
  note monitor_source_found [OF this, of linux_build]
  moreover have "find row_mentions_monitor demo_rows = Some (''2'', ''out.Monitor'', ''s16le'')"
    by code_simp
  ultimately show ?thesis by (simp add: linux_build_def row_name_def)
qed

subsection \<open>Wayland, X11 and the Qt platform\<close>

lemma env_nonempty_value: "env_nonempty env k \<longleftrightarrow> env_value env k \<noteq> []"
  by (simp add: env_nonempty_def env_value_def split: option.split)

lemma runtime_env_changed:
  assumes "InitializePlatformRuntime B plugin_exists xinit_ok autostart env = (ok, env')" "env' \<noteq> env"
  shows "bd_platform B = PlatformLinux" "\<not> autostart" "env' = env(''QT_QPA_PLATFORM'' \<mapsto> ''wayland'')"
    "env_value env ''QT_QPA_PLATFORM'' = []" "ok"
    "env_value env ''XDG_SESSION_TYPE'' = ''wayland'' \<or> env_value env ''WAYLAND_DISPLAY'' \<noteq> []"
  using assms
  by (auto simp: InitializePlatformRuntime_def Let_def env_value_def split: if_splits)

text \<open>
  When the start-up code switches Qt to the Wayland plugin, the capture code afterwards
  agrees that this is a Wayland session unless \<^verbatim>\<open>XDG_SESSION_TYPE\<close> is \<^verbatim>\<open>x11\<close>: then Qt runs on
  Wayland, \<^verbatim>\<open>XInitThreads\<close> is not required, and the capturer still takes the X11 path,
  with PipeWire switched off.
\<close>

theorem wayland_plugin_vs_capture:
  assumes "InitializePlatformRuntime B plugin_exists xinit_ok autostart env = (ok, env')"
    and "env' \<noteq> env"
  shows "ok \<and> \<not> autostart \<and> env' ''QT_QPA_PLATFORM'' = Some ''wayland''
    \<and> (IsWaylandSession B env' \<longleftrightarrow> env ''XDG_SESSION_TYPE'' \<noteq> Some ''x11'')
    \<and> (bd_use_pipewire B \<longrightarrow> (co_allow_pipewire (CreateCaptureOptions B env' opts)
         \<longleftrightarrow> env ''XDG_SESSION_TYPE'' \<noteq> Some ''x11''))"
proof -
  note changed = runtime_env_changed [OF assms]
  have wayland: "IsWaylandSession B env' \<longleftrightarrow> env ''XDG_SESSION_TYPE'' \<noteq> Some ''x11''"
    using changed(6)
    by (auto simp: IsWaylandSession_def changed(1,3) env_nonempty_value env_value_def
        split: option.splits)
  then show ?thesis
    using changed(1,2,5)
    by (simp add: changed(3) CreateCaptureOptions_def ApplyPlatformCaptureOptions_def Let_def)
qed

definition mixed_session :: environment where
  "mixed_session = [''XDG_SESSION_TYPE'' \<mapsto> ''x11'', ''WAYLAND_DISPLAY'' \<mapsto> ''wayland-0'']"

theorem wayland_plugin_vs_capture_witness:
  "\<exists>env'. InitializePlatformRuntime linux_build (\<lambda>_. True) False False mixed_session = (True, env')
     \<and> \<not> IsWaylandSession linux_build env'"
proof -
  let ?env = "mixed_session(''QT_QPA_PLATFORM'' \<mapsto> ''wayland'')"
  have init: "InitializePlatformRuntime linux_build (\<lambda>_. True) False False mixed_session = (True, ?env)"
    by (simp add: InitializePlatformRuntime_def linux_build_def env_value_def mixed_session_def)
  have "mixed_session ''QT_QPA_PLATFORM'' = None" by (simp add: mixed_session_def)
  then have "?env \<noteq> mixed_session" by (metis fun_upd_same option.distinct(1))
  from wayland_plugin_vs_capture [OF init this] init show ?thesis
    by (intro exI [of _ ?env]) (simp add: mixed_session_def)
qed

subsection \<open>The audio source\<close>

lemma env_value_update [simp]: "env_value (env(k \<mapsto> v)) k = v"
  by (simp add: env_value_def)

lemma override_source:
  assumes "bd_platform B = PlatformLinux"
  shows "env_value (OverridePulseSourceWithMonitorIfAvailable B popen env) ''PULSE_SOURCE''
      = (if env_value env ''PULSE_SOURCE'' \<noteq> [] then env_value env ''PULSE_SOURCE''
         else c_str (DetectPulseMonitorSourceName B popen))"
    and "k \<noteq> ''PULSE_SOURCE'' \<Longrightarrow> OverridePulseSourceWithMonitorIfAvailable B popen env k = env k"
  using assms
  by (auto simp: OverridePulseSourceWithMonitorIfAvailable_def Let_def env_nonempty_value c_str_def)

subsection \<open>Capturers\<close>

text \<open>
  Desktop capture is reported available exactly when the factory is reached (not a Wayland
  session in a build without PipeWire), gives a capturer for the options the platform asks
  for, and that capturer has no sources to choose from or accepts its first one; no other
  source is ever selected.
\<close>

theorem desktop_capture_available_iff:
  "IsDesktopCaptureAvailable B env opts factory \<longleftrightarrow>
     (IsWaylandSession B env \<longrightarrow> bd_use_pipewire B)
     \<and> (\<exists>c. factory (CreateCaptureOptions B env opts) = Some c
          \<and> (\<forall>s rest. cp_source_list c = Some (s # rest) \<longrightarrow>
               cp_select_ok c s \<and> SelectDefaultSourceIfNeeded (Some c) = (True, Some s)))"
proof (cases "IsWaylandSession B env \<and> \<not> bd_use_pipewire B")
  case True
  then show ?thesis
    by (simp add: IsDesktopCaptureAvailable_def CreatePlatformScreenCapturer_def)
next
  case False
  then show ?thesis
    by (auto simp: IsDesktopCaptureAvailable_def CreatePlatformScreenCapturer_def
        SelectDefaultSourceIfNeeded_def split: option.splits list.splits)
qed

definition no_options :: capture_options where
  "no_options = \<lparr>co_use_update_notifications = False, co_prefer_cursor_embedded = False,
     co_allow_pipewire = False, co_allow_directx_capturer = False,
     co_allow_wgc_screen_capturer = False, co_allow_wgc_window_capturer = False,
     co_allow_wgc_capturer_fallback = False\<rparr>"

theorem desktop_capture_available_iff_witness:
  "IsDesktopCaptureAvailable linux_build (\<lambda>_. None) no_options
     (\<lambda>_. Some \<lparr>cp_source_list = Some [4, 9], cp_select_ok = (\<lambda>s. s = 4)\<rparr>)"
  by (subst desktop_capture_available_iff)
    (simp add: linux_build_def IsWaylandSession_def SelectDefaultSourceIfNeeded_def)

subsection \<open>The program's entry point\<close>

text \<open>
  \<^verbatim>\<open>main\<close> initialises SSL first, cleans it up exactly once if that succeeded and never
  otherwise, and connects to the signaling server by itself only with \<^verbatim>\<open>--autostart\<close>; the objects
  that own the WebRTC client are destroyed after SSL has been cleaned up, in either mode.
\<close>

theorem main_ssl_lifecycle:
  "case main_program B plugin_exists ssl_ok xinit_ok exec_code args env of (code, calls) \<Rightarrow>
     hd calls = CallInitializeSSL
     \<and> count_list calls CallCleanupSSL = (if ssl_ok then 1 else 0)
     \<and> (\<not> ssl_ok \<longrightarrow> code = 2)
     \<and> (CallConnectToServer url \<in> set calls \<longleftrightarrow>
          CallExec \<in> set calls \<and> ''--autostart'' \<in> set args \<and> url = signaling_url)
     \<and> (CallExec \<in> set calls \<longrightarrow>
          (\<exists>pre owner. calls = pre @ [CallExec, CallCleanupSSL, owner]
             \<and> owner \<in> {CallDestroyClient, CallDestroyWindow}))"
proof -
  define auto where "auto = (''--autostart'' \<in> set args)"
  define rt where "rt = fst (InitializePlatformRuntime B plugin_exists xinit_ok auto env)"
  obtain env' where r: "InitializePlatformRuntime B plugin_exists xinit_ok auto env = (rt, env')"
    unfolding rt_def by (metis prod.collapse)
  consider "\<not> ssl_ok" | "ssl_ok" "\<not> rt" | "ssl_ok" rt auto | "ssl_ok" rt "\<not> auto" by blast
  then show ?thesis
  proof cases
    case 3
    then have m: "main_program B plugin_exists ssl_ok xinit_ok exec_code args env = (exec_code,
        [CallInitializeSSL, CallConnectToServer signaling_url, CallExec, CallCleanupSSL, CallDestroyClient])"
      using r by (simp add: main_program_def auto_def)
    show ?thesis unfolding m using 3 by (auto simp: auto_def)
  next
    case 4
    then have m: "main_program B plugin_exists ssl_ok xinit_ok exec_code args env = (0,
        [CallInitializeSSL, CallShowWindow, CallExec, CallCleanupSSL, CallDestroyWindow])"
      using r by (simp add: main_program_def auto_def)
    show ?thesis unfolding m using 4 by (auto simp: auto_def)
  qed (use r in \<open>simp_all add: main_program_def auto_def\<close>)
qed

theorem main_ssl_lifecycle_witness:
  "fst (main_program linux_build (\<lambda>_. False) False True 0 [] (\<lambda>_. None)) = 2"
  using main_ssl_lifecycle [where B = linux_build and plugin_exists = "\<lambda>_. False" and ssl_ok = False
      and xinit_ok = True and exec_code = 0 and args = "[]" and env = "\<lambda>_. None"
      and url = "[]"]
  by (auto split: prod.splits)

end
