(* ===== verification/AudioConfig.thy ===== *)
theory AudioConfig
  imports Platform PulseAdm "HOL-Library.Multiset"
begin

text \<open>
  The audio configuration of \<^verbatim>\<open>module/pushclient.cpp\<close> (lines 891-1169): the choice of the
  recording device, the codec order, the capture-time header extension and the sender's
  parameters. The audio device module is an interface here, a record of the operations the
  code calls; the laws a backend must satisfy are the locale \<open>recording_backend\<close>, and the
  repository's own module (theory \<open>PulseAdm\<close>) is shown to satisfy them.
\<close>

subsection \<open>The device module as the sender sees it\<close>

text \<open>
  The name query gets the two buffers and returns them as it leaves them; the availability
  query returns the code and the flag behind the pointer.
\<close>

record 's adm_ops =
  op_Init :: "'s \<Rightarrow> int \<times> 's"
  op_RecordingDevices :: "'s \<Rightarrow> int \<times> 's"
  op_RecordingDeviceName :: "u16 \<Rightarrow> string \<Rightarrow> string \<Rightarrow> 's \<Rightarrow> int \<times> string \<times> string \<times> 's"
  op_SetRecordingDevice :: "u16 \<Rightarrow> 's \<Rightarrow> int \<times> 's"
  op_RecordingIsAvailable :: "'s \<Rightarrow> int \<times> bool \<times> 's"
  op_InitRecording :: "'s \<Rightarrow> int \<times> 's"

definition zero_buffer :: string where
  "zero_buffer = replicate kAdmMaxDeviceNameSize (CHR 0x00)"

text \<open>
  What one pass of the probing loop finds out about a device: skipped, or available with
  the answer of the loopback test.
\<close>

datatype probe_result = ProbeSkip | ProbeFound bool

definition probe_device :: "'s adm_ops \<Rightarrow> nat \<Rightarrow> 's \<Rightarrow> probe_result \<times> 's" where
  "probe_device ops index s =
     (case op_RecordingDeviceName ops (word_of_nat index) zero_buffer zero_buffer s of
        (rc, name, guid, s1) \<Rightarrow>
          if rc \<noteq> 0 then (ProbeSkip, s1)
          else case op_SetRecordingDevice ops (word_of_nat index) s1 of
            (rc2, s2) \<Rightarrow>
              if rc2 \<noteq> 0 then (ProbeSkip, s2)
              else case op_RecordingIsAvailable ops s2 of
                (rc3, flag, s3) \<Rightarrow>
                  if rc3 \<noteq> 0 \<or> \<not> flag then (ProbeSkip, s3)
                  else (ProbeFound (LooksLikeSystemLoopbackDevice (Some (c_str name)) (Some (c_str guid))),
                        s3))"

text \<open>The loop: \<open>(selected_index, fallback_index)\<close>, with -1 for none.\<close>

fun probe_loop :: "'s adm_ops \<Rightarrow> nat list \<Rightarrow> int \<Rightarrow> 's \<Rightarrow> int \<times> int \<times> 's" where
  "probe_loop ops [] fallback_index s = (- 1, fallback_index, s)"
| "probe_loop ops (index # rest) fallback_index s =
     (case probe_device ops index s of
        (ProbeSkip, s') \<Rightarrow> probe_loop ops rest fallback_index s'
      | (ProbeFound loopback, s') \<Rightarrow>
          let fallback' = (if fallback_index < 0 then int index else fallback_index) in
          if loopback then (int index, fallback', s')
          else probe_loop ops rest fallback' s')"

text \<open>
  The result, whether the warning about a missing loopback source was logged, and the state.
  A null \<^verbatim>\<open>adm_\<close> is \<open>None\<close>.
\<close>

definition ConfigureAudioCaptureDevice ::
  "build \<Rightarrow> 's adm_ops option \<Rightarrow> 's \<Rightarrow> bool \<times> bool \<times> 's" where
  "ConfigureAudioCaptureDevice B adm s =
     (case adm of None \<Rightarrow> (False, False, s)
      | Some ops \<Rightarrow>
        (case op_Init ops s of (rc, s1) \<Rightarrow>
          if rc \<noteq> 0 then (False, False, s1)
          else
            let finish = (\<lambda>warned st.
                  (case op_RecordingIsAvailable ops st of (rc2, flag, st2) \<Rightarrow>
                     if rc2 \<noteq> 0 \<or> \<not> flag then (False, warned, st2)
                     else case op_InitRecording ops st2 of (rc3, st3) \<Rightarrow>
                       (rc3 = 0, warned, st3)))
            in if bd_platform B \<noteq> PlatformLinux then finish False s1
            else case op_RecordingDevices ops s1 of (recording_devices, s2) \<Rightarrow>
              if recording_devices \<le> 0 then (False, False, s2)
              else case probe_loop ops [0..<nat recording_devices] (- 1) s2 of
                (selected, fallback_index, s3) \<Rightarrow>
                  let selected_index = (if selected < 0 then fallback_index else selected) in
                  if selected_index < 0 then (False, False, s3)
                  else case op_SetRecordingDevice ops (word_of_int selected_index) s3 of
                    (rc4, s4) \<Rightarrow>
                      if rc4 \<noteq> 0 then (False, False, s4)
                      else finish (selected_index = fallback_index) s4))"

subsection \<open>The contract of a recording backend\<close>

text \<open>
  \<open>devices\<close> is the table a backend answers from: for every device its name and guid (if the
  query succeeds), whether it can be selected and whether it is then available. \<open>current\<close> is the
  selected device.
\<close>

record device_info =
  dv_labels :: "(string \<times> string) option"
  dv_settable :: bool
  dv_available :: bool

definition dv_usable :: "device_info \<Rightarrow> bool" where
  "dv_usable d \<longleftrightarrow> dv_labels d \<noteq> None \<and> dv_settable d \<and> dv_available d"

definition dv_loopback :: "device_info \<Rightarrow> bool" where
  "dv_loopback d = (case dv_labels d of None \<Rightarrow> False
     | Some (n, g) \<Rightarrow> LooksLikeSystemLoopbackDevice (Some n) (Some g))"

definition first_index :: "(device_info \<Rightarrow> bool) \<Rightarrow> device_info list \<Rightarrow> nat option" where
  "first_index P ds = find (\<lambda>i. P (ds ! i)) [0..<length ds]"

text \<open>The device the code is meant to choose.\<close>

definition preferred_device :: "device_info list \<Rightarrow> nat option" where
  "preferred_device ds = (case first_index (\<lambda>d. dv_usable d \<and> dv_loopback d) ds of
       Some i \<Rightarrow> Some i | None \<Rightarrow> first_index dv_usable ds)"

locale recording_backend =
  fixes ops :: "'s adm_ops"
    and inv :: "'s \<Rightarrow> bool"
    and devices :: "device_info list"
    and current :: "'s \<Rightarrow> nat"
  assumes init_law: "inv s \<Longrightarrow> \<exists>rc t. op_Init ops s = (rc, t) \<and> inv t"
    and count_law: "inv s \<Longrightarrow> \<exists>t. op_RecordingDevices ops s = (int (length devices), t) \<and> inv t"
    and count_bound: "length devices < 2 ^ 15"
    and name_law: "inv s \<Longrightarrow> i < length devices \<Longrightarrow>
      \<exists>rc name guid t. op_RecordingDeviceName ops (word_of_nat i) zero_buffer zero_buffer s
          = (rc, name, guid, t) \<and> inv t
        \<and> (rc = 0 \<longleftrightarrow> dv_labels (devices ! i) \<noteq> None)
        \<and> (rc = 0 \<longrightarrow> dv_labels (devices ! i) = Some (c_str name, c_str guid))"
    and set_law: "inv s \<Longrightarrow> i < length devices \<Longrightarrow>
      \<exists>rc t. op_SetRecordingDevice ops (word_of_nat i) s = (rc, t) \<and> inv t
        \<and> (rc = 0 \<longleftrightarrow> dv_settable (devices ! i)) \<and> (rc = 0 \<longrightarrow> current t = i)"
    and avail_law: "inv s \<Longrightarrow> current s < length devices \<Longrightarrow>
      \<exists>rc flag t. op_RecordingIsAvailable ops s = (rc, flag, t) \<and> inv t \<and> current t = current s
        \<and> (rc = 0 \<and> flag \<longleftrightarrow> dv_available (devices ! current s))"
begin

lemma probe_device_spec:
  assumes "inv s" "i < length devices"
  shows "\<exists>t. inv t \<and> probe_device ops i s =
    (if dv_usable (devices ! i) then ProbeFound (dv_loopback (devices ! i)) else ProbeSkip, t)"
proof -
  obtain rc name guid s1 where n: "op_RecordingDeviceName ops (word_of_nat i) zero_buffer zero_buffer s
      = (rc, name, guid, s1)" "inv s1" "rc = 0 \<longleftrightarrow> dv_labels (devices ! i) \<noteq> None"
    "rc = 0 \<longrightarrow> dv_labels (devices ! i) = Some (c_str name, c_str guid)"
    using name_law [OF assms] by blast
  obtain rc2 s2 where s: "op_SetRecordingDevice ops (word_of_nat i) s1 = (rc2, s2)" "inv s2"
    "rc2 = 0 \<longleftrightarrow> dv_settable (devices ! i)" "rc2 = 0 \<longrightarrow> current s2 = i"
    using set_law [OF n(2) assms(2)] by blast
  show ?thesis
  proof (cases "rc = 0 \<and> rc2 = 0")
    case False
    then have "\<not> dv_usable (devices ! i)" using n(3) s(3) by (auto simp: dv_usable_def)
    moreover have "\<exists>t. inv t \<and> probe_device ops i s = (ProbeSkip, t)"
      using False n(1,2) s(1,2) by (cases "rc = 0") (simp_all add: probe_device_def)
    ultimately show ?thesis by simp
  next
    case True
    then have c: "current s2 = i" "current s2 < length devices" using s(4) assms(2) by simp_all
    obtain rc3 flag s3 where a: "op_RecordingIsAvailable ops s2 = (rc3, flag, s3)" "inv s3"
      "rc3 = 0 \<and> flag \<longleftrightarrow> dv_available (devices ! i)"
      using avail_law [OF s(2) c(2)] unfolding c(1) by metis
    have l: "dv_labels (devices ! i) = Some (c_str name, c_str guid)" using n(4) True by simp
    have u: "dv_usable (devices ! i) \<longleftrightarrow> rc3 = 0 \<and> flag"
      using l s(3) True a(3) by (simp add: dv_usable_def)
    have "dv_loopback (devices ! i)
        = LooksLikeSystemLoopbackDevice (Some (c_str name)) (Some (c_str guid))"
      by (simp add: dv_loopback_def l)
    then have "probe_device ops i s
        = (if rc3 = 0 \<and> flag then ProbeFound (dv_loopback (devices ! i)) else ProbeSkip, s3)"
      using True n(1) s(1) a(1) by (simp add: probe_device_def)
    with a(2) u show ?thesis by auto
  qed
qed

lemma probe_loop_spec:
  assumes "inv s" "\<forall>i \<in> set is. i < length devices" "fb = - 1 \<or> 0 \<le> fb"
  shows "\<exists>t. inv t \<and> probe_loop ops is fb s =
    (case find (\<lambda>i. dv_usable (devices ! i) \<and> dv_loopback (devices ! i)) is of
       None \<Rightarrow> - 1 | Some i \<Rightarrow> int i,
     if 0 \<le> fb then fb
     else case find (\<lambda>i. dv_usable (devices ! i)) is of None \<Rightarrow> - 1 | Some i \<Rightarrow> int i,
     t)"
  using assms
proof (induction "is" arbitrary: s fb)
  case Nil
  then show ?case by auto
next
  case (Cons i "is")
  obtain t where t: "inv t" "probe_device ops i s =
    (if dv_usable (devices ! i) then ProbeFound (dv_loopback (devices ! i)) else ProbeSkip, t)"
    using probe_device_spec [of s i] Cons.prems by auto
  let ?fb = "if fb < 0 then int i else fb"
  have rest: "\<forall>j \<in> set is. j < length devices" using Cons.prems by simp
  consider "\<not> dv_usable (devices ! i)" | "dv_usable (devices ! i)" "dv_loopback (devices ! i)"
    | "dv_usable (devices ! i)" "\<not> dv_loopback (devices ! i)" by blast
  then show ?case
  proof cases
    case 1
    then show ?thesis using Cons.IH [OF t(1) rest Cons.prems(3)] t(2) by auto
  next
    case 2
    with t show ?thesis by (auto simp: Let_def)
  next
    case 3
    have "?fb = - 1 \<or> 0 \<le> ?fb" by auto
    from Cons.IH [OF t(1) rest this] 3 t(2) Cons.prems(3) show ?thesis by (auto simp: Let_def)
  qed
qed

lemma find_index_Some:
  "find P [0..<n] = Some i \<Longrightarrow> i < n \<and> P i"
  by (auto dest: find_Some_mem)

lemma choice_spec:
  assumes "inv s"
  shows "\<exists>t. inv t \<and>
    probe_loop ops [0..<length devices] (- 1) s =
      (case first_index (\<lambda>d. dv_usable d \<and> dv_loopback d) devices of None \<Rightarrow> - 1 | Some i \<Rightarrow> int i,
       case first_index dv_usable devices of None \<Rightarrow> - 1 | Some i \<Rightarrow> int i, t)"
  using probe_loop_spec [OF assms, of "[0..<length devices]" "- 1"] by (auto simp: first_index_def)

lemma preferred_device_usable:
  "preferred_device devices = Some i \<Longrightarrow> i < length devices \<and> dv_usable (devices ! i)"
  by (auto simp: preferred_device_def first_index_def dest!: find_index_Some split: option.splits)

lemma finish_spec:
  assumes "inv s" "i < length devices" "dv_usable (devices ! i)"
  shows "\<exists>t u. op_SetRecordingDevice ops (word_of_int (int i)) s = (0, t)
    \<and> inv u \<and> current u = i \<and> (\<exists>rc. op_RecordingIsAvailable ops t = (rc, True, u) \<and> rc = 0)"
proof -
  obtain rc t where t: "op_SetRecordingDevice ops (word_of_nat i) s = (rc, t)" "inv t"
    "rc = 0" "current t = i"
    using set_law [OF assms(1,2)] assms(3) by (auto simp: dv_usable_def)
  then have c: "current t < length devices" using assms(2) by simp
  obtain rc2 flag u where u: "op_RecordingIsAvailable ops t = (rc2, flag, u)" "inv u" "current u = i"
    "rc2 = 0 \<and> flag"
    using avail_law [OF t(2) c] assms(3) unfolding t(4) by (auto simp: dv_usable_def)
  then show ?thesis using t(1,3) by auto
qed

lemma configure_spec:
  assumes linux: "bd_platform B = PlatformLinux" and inv: "inv s" and init: "fst (op_Init ops s) = 0"
  shows "case preferred_device devices of
      None \<Rightarrow> \<exists>t. ConfigureAudioCaptureDevice B (Some ops) s = (False, False, t)
    | Some i \<Rightarrow> \<exists>t. inv t \<and> current t = i
        \<and> ConfigureAudioCaptureDevice B (Some ops) s =
            (fst (op_InitRecording ops t) = 0, first_index dv_usable devices = Some i,
             snd (op_InitRecording ops t))"
proof -
  obtain s1 where s1: "op_Init ops s = (0, s1)" "inv s1"
    using init_law [OF inv] init by auto
  obtain s2 where s2: "op_RecordingDevices ops s1 = (int (length devices), s2)" "inv s2"
    using count_law [OF s1(2)] by blast
  obtain s3 where s3: "inv s3" "probe_loop ops [0..<length devices] (- 1) s2 =
      (case first_index (\<lambda>d. dv_usable d \<and> dv_loopback d) devices of None \<Rightarrow> - 1 | Some i \<Rightarrow> int i,
       case first_index dv_usable devices of None \<Rightarrow> - 1 | Some i \<Rightarrow> int i, s3)"
    using choice_spec [OF s2(2)] by blast
  let ?l = "first_index (\<lambda>d. dv_usable d \<and> dv_loopback d) devices"
  let ?u = "first_index dv_usable devices"
  show ?thesis
  proof (cases "preferred_device devices")
    case None
    then have lu: "?l = None" "?u = None" by (auto simp: preferred_device_def split: option.splits)
    have "\<exists>t. ConfigureAudioCaptureDevice B (Some ops) s = (False, False, t)"
      using s3(2) by (simp add: ConfigureAudioCaptureDevice_def s1 s2 linux lu Let_def)
    with None show ?thesis by simp
  next
    case (Some i)
    note usable = preferred_device_usable [OF Some]
    obtain t u where tu: "op_SetRecordingDevice ops (word_of_int (int i)) s3 = (0, t)"
      "inv u" "current u = i" "op_RecordingIsAvailable ops t = (0, True, u)"
      using finish_spec [OF s3(1)] usable by blast
    have pos: "0 < length devices" using usable by auto
    let ?sel = "case ?l of None \<Rightarrow> - 1 | Some i \<Rightarrow> int i"
    let ?fb = "case ?u of None \<Rightarrow> - 1 | Some i \<Rightarrow> int i"
    have sel: "(if ?sel < 0 then ?fb else ?sel) = int i"
      using Some by (auto simp: preferred_device_def split: option.splits)
    have warn: "int i = ?fb \<longleftrightarrow> ?u = Some i" by (auto split: option.splits)
    have "ConfigureAudioCaptureDevice B (Some ops) s =
        (fst (op_InitRecording ops u) = 0, ?u = Some i, snd (op_InitRecording ops u))"
      using pos tu(1,4)
      by (simp add: ConfigureAudioCaptureDevice_def s1 s2 linux s3(2) Let_def sel warn
          split: prod.split)
    with tu Some show ?thesis by auto
  qed
qed

end

subsection \<open>The repository's module is a backend\<close>

definition pulse_ops :: "(pulse_open_args \<Rightarrow> nat) \<Rightarrow> pulse_adm adm_ops" where
  "pulse_ops pa_simple_new =
     \<lparr>op_Init = adm_Init,
      op_RecordingDevices = (\<lambda>a. (RecordingDevices, a)),
      op_RecordingDeviceName = (\<lambda>index name guid a.
        case RecordingDeviceName index (Some name) (Some guid) a of (rc, name', guid') \<Rightarrow>
          (rc, the name', the guid', a)),
      op_SetRecordingDevice = (\<lambda>index a. (SetRecordingDevice index, a)),
      op_RecordingIsAvailable = (\<lambda>a. case RecordingIsAvailable True of (rc, flag) \<Rightarrow> (rc, the flag, a)),
      op_InitRecording = InitRecording pa_simple_new\<rparr>"

definition pulse_label :: "string \<Rightarrow> string" where
  "pulse_label src = (if src = [] then kDefaultDeviceLabel else src @ '' monitor'')"

definition pulse_guid :: "string \<Rightarrow> string" where
  "pulse_guid src = (if src = [] then ''pulse-monitor'' else src)"

definition pulse_device :: "string \<Rightarrow> device_info" where
  "pulse_device src = \<lparr>dv_labels = Some (c_str (take 127 (pulse_label src)), c_str (take 127 (pulse_guid src))),
     dv_settable = True, dv_available = True\<rparr>"

lemma CopyAdmString_c_str:
  "0 < n \<Longrightarrow> c_str (the (CopyAdmString v (Some d) n)) = c_str (take (n - 1) v)"
  by (simp add: CopyAdmString_def Let_def c_str_terminated min_def)

interpretation pulse: recording_backend "pulse_ops pa_simple_new" "\<lambda>a. ad_source_name a = src"
  "[pulse_device src]" "\<lambda>a. 0" for pa_simple_new src
proof unfold_locales
  fix s :: pulse_adm and i
  assume s: "ad_source_name s = src" and "i < length [pulse_device src]"
  then have i: "i = 0" by simp
  let ?n = "the (CopyAdmString (pulse_label src) (Some zero_buffer) 128)"
  let ?g = "the (CopyAdmString (pulse_guid src) (Some zero_buffer) 128)"
  have "op_RecordingDeviceName (pulse_ops pa_simple_new) (word_of_nat i) zero_buffer zero_buffer s
      = (0, ?n, ?g, s)"
    using s i by (simp add: pulse_ops_def RecordingDeviceName_def Let_def EffectiveSourceName_def
        pulse_label_def pulse_guid_def kAdmMaxDeviceNameSize_def kAdmMaxGuidSize_def)
  moreover have "dv_labels ([pulse_device src] ! i) = Some (c_str ?n, c_str ?g)"
    by (simp add: i pulse_device_def CopyAdmString_c_str)
  ultimately show "\<exists>rc name guid t. op_RecordingDeviceName (pulse_ops pa_simple_new) (word_of_nat i)
        zero_buffer zero_buffer s = (rc, name, guid, t) \<and> ad_source_name t = src
      \<and> (rc = 0 \<longleftrightarrow> dv_labels ([pulse_device src] ! i) \<noteq> None)
      \<and> (rc = 0 \<longrightarrow> dv_labels ([pulse_device src] ! i) = Some (c_str name, c_str guid))"
    using s by auto
qed (auto simp: pulse_ops_def adm_Init_def RecordingDevices_def SetRecordingDevice_def
    RecordingIsAvailable_def out_param_def pulse_device_def)

text \<open>A backend that answers from its table, to run the choice on more than one device.\<close>

definition table_ops :: "device_info list \<Rightarrow> nat adm_ops" where
  "table_ops ds =
     \<lparr>op_Init = (\<lambda>s. (0, s)),
      op_RecordingDevices = (\<lambda>s. (int (length ds), s)),
      op_RecordingDeviceName = (\<lambda>index name guid s.
        case dv_labels (ds ! unat index) of None \<Rightarrow> (- 1, name, guid, s)
        | Some (n, g) \<Rightarrow> (0, n @ [CHR 0x00], g @ [CHR 0x00], s)),
      op_SetRecordingDevice = (\<lambda>index s.
        if dv_settable (ds ! unat index) then (0, unat index) else (- 1, s)),
      op_RecordingIsAvailable = (\<lambda>s. (0, dv_available (ds ! s), s)),
      op_InitRecording = (\<lambda>s. (0, s))\<rparr>"

definition demo_devices :: "device_info list" where
  "demo_devices = [\<lparr>dv_labels = Some (''Mic'', ''in''), dv_settable = True, dv_available = True\<rparr>,
     \<lparr>dv_labels = None, dv_settable = True, dv_available = True\<rparr>,
     \<lparr>dv_labels = Some (''HDMI Monitor'', ''out''), dv_settable = True, dv_available = True\<rparr>]"

lemma u16_small: "i < 65536 \<Longrightarrow> unat (word_of_nat i :: u16) = i"
  by (simp add: unat_of_nat take_bit_nat_eq_self)

interpretation table: recording_backend "table_ops demo_devices" "\<lambda>_. True" demo_devices id
proof unfold_locales
  fix s i :: nat
  assume "i < length demo_devices"
  then have i: "i = 0 \<or> i = 1 \<or> i = 2" by (auto simp: demo_devices_def)
  have u: "unat (word_of_nat i :: u16) = i" using i by auto
  have labels: "c_str (''Mic'' @ [CHR 0x00]) = ''Mic''" "c_str (''in'' @ [CHR 0x00]) = ''in''"
    "c_str (''HDMI Monitor'' @ [CHR 0x00]) = ''HDMI Monitor''" "c_str (''out'' @ [CHR 0x00]) = ''out''"
    by (simp_all add: c_str_def)
  show "\<exists>rc name guid t. op_RecordingDeviceName (table_ops demo_devices) (word_of_nat i)
        zero_buffer zero_buffer s = (rc, name, guid, t) \<and> True
      \<and> (rc = 0 \<longleftrightarrow> dv_labels (demo_devices ! i) \<noteq> None)
      \<and> (rc = 0 \<longrightarrow> dv_labels (demo_devices ! i) = Some (c_str name, c_str guid))"
    using i labels by (auto simp: table_ops_def u demo_devices_def simp del: append.simps)
  show "\<exists>rc t. op_SetRecordingDevice (table_ops demo_devices) (word_of_nat i) s = (rc, t) \<and> True
      \<and> (rc = 0 \<longleftrightarrow> dv_settable (demo_devices ! i)) \<and> (rc = 0 \<longrightarrow> id t = i)"
    by (auto simp: table_ops_def u)
qed (auto simp: table_ops_def demo_devices_def)

text \<open>
  C31. On Linux, with any device module that keeps its contract, the device chosen is the first
  available one whose labels look like a loopback source, or else the first available one; it is
  the selected device when recording is initialised, the function's result is that call's
  success, and without an available device the function fails.
\<close>

theorem recording_device_choice:
  assumes "recording_backend ops I devices current"
    and "bd_platform B = PlatformLinux" "I s" "fst (op_Init ops s) = 0"
  shows "case preferred_device devices of
      None \<Rightarrow> \<exists>t. ConfigureAudioCaptureDevice B (Some ops) s = (False, False, t)
    | Some i \<Rightarrow> \<exists>t. I t \<and> current t = i
        \<and> ConfigureAudioCaptureDevice B (Some ops) s =
            (fst (op_InitRecording ops t) = 0, first_index dv_usable devices = Some i,
             snd (op_InitRecording ops t))"
  by (rule recording_backend.configure_spec [OF assms])

theorem recording_device_choice_witness:
  "ConfigureAudioCaptureDevice linux_build (Some (table_ops demo_devices)) 0 = (True, False, 2)"
proof -
  have p: "preferred_device demo_devices = Some 2" "first_index dv_usable demo_devices = Some 0"
    by code_simp+
  have "bd_platform linux_build = PlatformLinux" "fst (op_Init (table_ops demo_devices) 0) = 0"
    by (simp_all add: linux_build_def table_ops_def)
  from recording_device_choice [OF table.recording_backend_axioms this(1) TrueI this(2)]
  show ?thesis by (simp add: p table_ops_def)
qed

lemma contains_sub_map: "contains_sub n s \<Longrightarrow> contains_sub (map f n) (map f s)"
  unfolding contains_sub_iff by (metis map_append)

lemma AsciiLower_monitor: "contains_sub ''monitor'' s \<Longrightarrow> contains_sub ''monitor'' (AsciiLower s)"
proof -
  assume "contains_sub ''monitor'' s"
  then have "contains_sub (map lower_char ''monitor'') (map lower_char s)" by (rule contains_sub_map)
  moreover have "map lower_char ''monitor'' = ''monitor''" by code_simp
  ultimately show ?thesis by (simp only: AsciiLower_def)
qed

lemma pulse_label_monitor:
  assumes "CHR 0x00 \<notin> set src" "length src \<le> 119"
  shows "contains_sub ''monitor'' (c_str (take 127 (pulse_label src)))"
proof -
  have "length (pulse_label src) \<le> 127" "CHR 0x00 \<notin> set (pulse_label src)"
    using assms by (auto simp: pulse_label_def kDefaultDeviceLabel_def)
  then have "c_str (take 127 (pulse_label src)) = pulse_label src" by (simp add: c_str_id)
  moreover have "contains_sub ''monitor'' (pulse_label src)"
  proof (cases "src = []")
    case True
    then have "pulse_label src = kDefaultDeviceLabel" by (simp add: pulse_label_def)
    moreover have "contains_sub ''monitor'' kDefaultDeviceLabel" by code_simp
    ultimately show ?thesis by simp
  next
    case False
    then have "pulse_label src = (src @ '' '') @ ''monitor'' @ []" by (simp add: pulse_label_def)
    then show ?thesis unfolding contains_sub_iff by blast
  qed
  ultimately show ?thesis by simp
qed

lemma pulse_configure:
  "ConfigureAudioCaptureDevice B (Some (pulse_ops f)) a
    = (fst (InitRecording f (snd (adm_Init a))) = 0, bd_platform B = PlatformLinux,
       snd (InitRecording f (snd (adm_Init a))))"
proof -
  have "nat RecordingDevices = Suc 0" by (simp add: RecordingDevices_def)
  then show ?thesis
    by (simp add: ConfigureAudioCaptureDevice_def pulse_ops_def adm_Init_def probe_device_def
        RecordingDevices_def RecordingDeviceName_def SetRecordingDevice_def RecordingIsAvailable_def
        out_param_def Let_def split: prod.split)
qed

text \<open>
  With the repository's own module the configuration always succeeds as far as
  \<^verbatim>\<open>InitRecording\<close> does, and it always logs that no monitor source was found and that it falls
  back to another device, although the module's single device is reported as a monitor (for
  every source name of at most 119 characters): the loopback device is also the first available
  one, and the code tests only for that.
\<close>

theorem loopback_choice_logged_as_fallback:
  assumes "bd_platform B = PlatformLinux"
  shows "ConfigureAudioCaptureDevice B (Some (pulse_ops f)) a
      = (fst (InitRecording f (snd (adm_Init a))) = 0, True, snd (InitRecording f (snd (adm_Init a))))
    \<and> (CHR 0x00 \<notin> set (ad_source_name a) \<and> length (ad_source_name a) \<le> 119
        \<longrightarrow> preferred_device [pulse_device (ad_source_name a)] = Some 0
            \<and> dv_loopback (pulse_device (ad_source_name a)))"
proof -
  have "ConfigureAudioCaptureDevice B (Some (pulse_ops f)) a
      = (fst (InitRecording f (snd (adm_Init a))) = 0, True, snd (InitRecording f (snd (adm_Init a))))"
    by (simp add: pulse_configure assms)
  moreover have "dv_loopback (pulse_device src)" if "CHR 0x00 \<notin> set src" "length src \<le> 119" for src
    using AsciiLower_monitor [OF pulse_label_monitor [OF that]]
    by (simp add: dv_loopback_def pulse_device_def LooksLikeSystemLoopbackDevice_def Let_def)
  moreover have "preferred_device [pulse_device src] = Some 0" for src
    by (simp add: preferred_device_def first_index_def dv_usable_def pulse_device_def)
  ultimately show ?thesis by blast
qed

theorem loopback_choice_logged_as_fallback_witness:
  "fst (snd (ConfigureAudioCaptureDevice linux_build (Some (pulse_ops (\<lambda>_. 7))) (adm_Create ''out''))) = True"
proof -
  have "bd_platform linux_build = PlatformLinux" by (simp add: linux_build_def)
  from loopback_choice_logged_as_fallback [OF this, of "\<lambda>_. 7" "adm_Create ''out''"]
  show ?thesis by simp
qed

subsection \<open>Codec preferences\<close>

record rtp_codec =
  rc_name :: string
  rc_clock_rate :: "int option"
  rc_num_channels :: "int option"

fun prefer_opus :: "rtp_codec list \<Rightarrow> rtp_codec list \<Rightarrow> rtp_codec list" where
  "prefer_opus [] preferred_codecs = preferred_codecs"
| "prefer_opus (codec # rest) preferred_codecs =
     (if AsciiLower (rc_name codec) = ''opus'' then prefer_opus rest (codec # preferred_codecs)
      else prefer_opus rest (preferred_codecs @ [codec]))"

text \<open>
  \<open>capabilities\<close> and \<open>set_ok\<close> are WebRTC's answers, the flags say whether the two pointers are
  non-null; the second component is the list the transceiver is given, if any.
\<close>

definition ConfigureAudioCodecPreferences ::
  "bool \<Rightarrow> bool \<Rightarrow> rtp_codec list \<Rightarrow> (rtp_codec list \<Rightarrow> bool) \<Rightarrow> bool \<times> rtp_codec list option" where
  "ConfigureAudioCodecPreferences has_factory has_transceiver capabilities set_ok =
     (if \<not> has_factory \<or> \<not> has_transceiver then (False, None)
      else if capabilities = [] then (True, None)
      else let preferred_codecs = prefer_opus capabilities [] in
           (set_ok preferred_codecs, Some preferred_codecs))"

definition is_opus :: "rtp_codec \<Rightarrow> bool" where
  "is_opus c \<longleftrightarrow> AsciiLower (rc_name c) = ''opus''"

lemma prefer_opus_acc:
  "prefer_opus cs (os @ acc) = rev (filter is_opus cs) @ os @ acc @ filter (\<lambda>c. \<not> is_opus c) cs"
proof (induction cs arbitrary: os acc)
  case Nil
  then show ?case by simp
next
  case (Cons c cs)
  show ?case
    using Cons.IH [of "c # os" acc] Cons.IH [of os "acc @ [c]"] by (simp add: is_opus_def)
qed

text \<open>
  The preference list given to the transceiver is a permutation of the sender's capabilities in
  which every Opus entry, in any letter case, precedes every other codec; the others keep their
  order and the Opus entries are reversed.
\<close>

theorem codec_preferences_order:
  assumes "capabilities \<noteq> []"
  shows "\<exists>codecs. ConfigureAudioCodecPreferences True True capabilities set_ok = (set_ok codecs, Some codecs)
    \<and> codecs = rev (filter is_opus capabilities) @ filter (\<lambda>c. \<not> is_opus c) capabilities
    \<and> mset codecs = mset capabilities
    \<and> (\<forall>i j. i < j \<and> j < length codecs \<and> is_opus (codecs ! j) \<longrightarrow> is_opus (codecs ! i))"
proof -
  let ?o = "rev (filter is_opus capabilities)" and ?n = "filter (\<lambda>c. \<not> is_opus c) capabilities"
  have eq: "prefer_opus capabilities [] = ?o @ ?n" using prefer_opus_acc [of capabilities "[]" "[]"] by simp
  have m: "mset (?o @ ?n) = mset capabilities" by (simp add: mset_filter)
  have "is_opus ((?o @ ?n) ! i)" if "i < j" "j < length (?o @ ?n)" "is_opus ((?o @ ?n) ! j)" for i j
  proof -
    have "j < length ?o"
    proof (rule ccontr)
      assume *: "\<not> j < length ?o"
      then have "(?o @ ?n) ! j = ?n ! (j - length ?o)" by (simp add: nth_append)
      moreover have "?n ! (j - length ?o) \<in> set ?n" using * that(2) by (intro nth_mem) simp
      ultimately show False using that(3) by auto
    qed
    then have i: "i < length ?o" using that(1) by simp
    then have "(?o @ ?n) ! i \<in> set ?o" by (simp add: nth_append del: set_rev rev_filter)
    then show ?thesis by auto
  qed
  then have order: "\<forall>i j. i < j \<and> j < length (?o @ ?n) \<and> is_opus ((?o @ ?n) ! j)
      \<longrightarrow> is_opus ((?o @ ?n) ! i)" by blast
  have "ConfigureAudioCodecPreferences True True capabilities set_ok = (set_ok (?o @ ?n), Some (?o @ ?n))"
    using assms by (simp add: ConfigureAudioCodecPreferences_def Let_def eq)
  with m order show ?thesis by (intro exI [of _ "?o @ ?n"] conjI) (rule refl | assumption)+
qed

definition demo_codecs :: "rtp_codec list" where
  "demo_codecs = [\<lparr>rc_name = ''PCMU'', rc_clock_rate = Some 8000, rc_num_channels = Some 1\<rparr>,
     \<lparr>rc_name = ''Opus'', rc_clock_rate = Some 48000, rc_num_channels = Some 2\<rparr>]"

theorem codec_preferences_order_witness:
  "\<exists>codecs. ConfigureAudioCodecPreferences True True demo_codecs (\<lambda>_. True) = (True, Some codecs)
     \<and> map rc_name codecs = [''Opus'', ''PCMU'']"
proof -
  have "demo_codecs \<noteq> []" by (simp add: demo_codecs_def)
  note codec_preferences_order [OF this, of "\<lambda>_. True"]
  moreover have "map rc_name (rev (filter is_opus demo_codecs) @ filter (\<lambda>c. \<not> is_opus c) demo_codecs)
      = [''Opus'', ''PCMU'']" by code_simp
  ultimately show ?thesis by metis
qed

subsection \<open>The capture-time header extension\<close>

datatype rtp_direction = kSendRecv | kSendOnly | kRecvOnly | kInactive | kStopped

record header_extension =
  he_uri :: string
  he_direction :: rtp_direction

definition kAbsoluteCaptureTimeUri :: string where
  "kAbsoluteCaptureTimeUri = ''http://www.webrtc.org/experiments/rtp-hdrext/abs-capture-time''"

text \<open>The loop: \<open>(supported, changed, extensions)\<close>; it stops at the first match.\<close>

fun enable_extension :: "header_extension list \<Rightarrow> bool \<times> bool \<times> header_extension list" where
  "enable_extension [] = (False, False, [])"
| "enable_extension (extension # rest) =
     (if he_uri extension \<noteq> kAbsoluteCaptureTimeUri
      then (case enable_extension rest of (s, c, rest') \<Rightarrow> (s, c, extension # rest'))
      else if he_direction extension = kStopped
      then (True, True, extension\<lparr>he_direction := kSendOnly\<rparr> # rest)
      else (True, False, extension # rest))"

definition ConfigureAbsoluteCaptureTimeHeaderExtension ::
  "bool \<Rightarrow> header_extension list \<Rightarrow> (header_extension list \<Rightarrow> bool)
   \<Rightarrow> bool \<times> header_extension list option" where
  "ConfigureAbsoluteCaptureTimeHeaderExtension has_transceiver header_extensions set_ok =
     (if \<not> has_transceiver then (False, None)
      else case enable_extension header_extensions of (supported, changed, extensions') \<Rightarrow>
        if \<not> supported then (True, None)
        else if \<not> changed then (True, None)
        else (set_ok extensions', Some extensions'))"

definition is_capture_time :: "header_extension \<Rightarrow> bool" where
  "is_capture_time e \<longleftrightarrow> he_uri e = kAbsoluteCaptureTimeUri"

lemma enable_extension_spec:
  assumes "enable_extension es = (s, c, es')"
  shows "(s \<longleftrightarrow> (\<exists>e \<in> set es. is_capture_time e)) \<and> map he_uri es' = map he_uri es
    \<and> (\<not> c \<longrightarrow> es' = es)
    \<and> (s \<longrightarrow> (\<exists>e. find is_capture_time es' = Some e \<and> he_direction e \<noteq> kStopped))
    \<and> filter (\<lambda>e. \<not> is_capture_time e) es' = filter (\<lambda>e. \<not> is_capture_time e) es"
  using assms
proof (induction es arbitrary: s c es')
  case Nil
  then show ?case by simp
next
  case (Cons e es)
  obtain s1 c1 es1 where r: "enable_extension es = (s1, c1, es1)" by (cases "enable_extension es")
  show ?case
    using Cons.IH [OF r] Cons.prems r by (auto simp: is_capture_time_def split: if_splits)
qed

text \<open>
  Whenever the list can be set, the extension list that is in force afterwards has the
  absolute-capture-time extension enabled if WebRTC offers it at all, and every other extension
  is as before; the function reports failure only for a null transceiver or a rejected list.
\<close>

theorem capture_time_extension_enabled:
  assumes "ConfigureAbsoluteCaptureTimeHeaderExtension True es set_ok = (r, new)"
    and "final = (case new of None \<Rightarrow> es | Some es' \<Rightarrow> es')"
  shows "(r \<longleftrightarrow> (\<forall>es'. new = Some es' \<longrightarrow> set_ok es'))
    \<and> map he_uri final = map he_uri es
    \<and> filter (\<lambda>e. \<not> is_capture_time e) final = filter (\<lambda>e. \<not> is_capture_time e) es
    \<and> ((\<exists>e \<in> set es. is_capture_time e) \<longrightarrow>
         (\<exists>e. find is_capture_time final = Some e \<and> he_direction e \<noteq> kStopped))"
proof -
  obtain s c es' where e: "enable_extension es = (s, c, es')" by (cases "enable_extension es")
  note spec = enable_extension_spec [OF e]
  consider "\<not> s" | "s" "\<not> c" | "s" "c" by blast
  then show ?thesis
  proof cases
    case 1
    then have "r" "new = None" using assms(1) e by (auto simp: ConfigureAbsoluteCaptureTimeHeaderExtension_def)
    with 1 spec assms(2) show ?thesis by simp
  next
    case 2
    then have "r" "new = None" using assms(1) e by (auto simp: ConfigureAbsoluteCaptureTimeHeaderExtension_def)
    moreover have "es' = es" using spec 2 by blast
    moreover have "\<exists>e. find is_capture_time es' = Some e \<and> he_direction e \<noteq> kStopped"
      using spec 2 by blast
    ultimately show ?thesis using assms(2) by simp
  next
    case 3
    then have "r = set_ok es'" "new = Some es'"
      using assms(1) e by (auto simp: ConfigureAbsoluteCaptureTimeHeaderExtension_def)
    with 3 spec assms(2) show ?thesis by simp
  qed
qed

definition demo_extensions :: "header_extension list" where
  "demo_extensions = [\<lparr>he_uri = ''urn:x'', he_direction = kSendRecv\<rparr>,
     \<lparr>he_uri = kAbsoluteCaptureTimeUri, he_direction = kStopped\<rparr>]"

theorem capture_time_extension_enabled_witness:
  "\<exists>es'. ConfigureAbsoluteCaptureTimeHeaderExtension True demo_extensions (\<lambda>_. True) = (True, Some es')
     \<and> (\<exists>e. find is_capture_time es' = Some e \<and> he_direction e \<noteq> kStopped)"
proof -
  let ?es = "[\<lparr>he_uri = ''urn:x'', he_direction = kSendRecv\<rparr>,
     \<lparr>he_uri = kAbsoluteCaptureTimeUri, he_direction = kSendOnly\<rparr>]"
  have r: "ConfigureAbsoluteCaptureTimeHeaderExtension True demo_extensions (\<lambda>_. True) = (True, Some ?es)"
    by code_simp
  have "\<exists>e \<in> set demo_extensions. is_capture_time e"
    by (simp add: demo_extensions_def is_capture_time_def)
  with capture_time_extension_enabled [OF r refl] r show ?thesis by auto
qed

subsection \<open>Sender parameters\<close>

text \<open>The fields of WebRTC's parameters the sender touches, with WebRTC's defaults.\<close>

record rtp_encoding =
  en_max_bitrate_bps :: "int option"
  en_adaptive_ptime :: bool
  en_scale_resolution_down_to :: "(int \<times> int) option"

datatype degradation_preference = DegradationUnset | MAINTAIN_RESOLUTION | DegradationOther

record rtp_parameters =
  rp_encodings :: "rtp_encoding list"
  rp_degradation_preference :: degradation_preference

definition new_encoding :: rtp_encoding where
  "new_encoding = \<lparr>en_max_bitrate_bps = None, en_adaptive_ptime = False,
     en_scale_resolution_down_to = None\<rparr>"

definition update_first :: "('a \<Rightarrow> 'a) \<Rightarrow> 'a list \<Rightarrow> 'a list" where
  "update_first f xs = (case xs of [] \<Rightarrow> [] | x # rest \<Rightarrow> f x # rest)"

record AudioEncodingConfig =
  ac_channels :: int
  ac_max_playback_rate_hz :: int
  ac_max_bitrate_bps :: int
  ac_enable_fec :: bool
  ac_enable_dtx :: bool
  ac_adaptive_ptime :: bool

definition default_audio_config :: AudioEncodingConfig where
  "default_audio_config = \<lparr>ac_channels = 2, ac_max_playback_rate_hz = 48000,
     ac_max_bitrate_bps = 128000, ac_enable_fec = True, ac_enable_dtx = False,
     ac_adaptive_ptime = True\<rparr>"

definition audio_parameters :: "AudioEncodingConfig \<Rightarrow> rtp_parameters \<Rightarrow> rtp_parameters" where
  "audio_parameters cfg params =
     (let encodings = (if rp_encodings params = [] then [new_encoding] else rp_encodings params);
          set = (\<lambda>e. (if ac_max_bitrate_bps cfg > 0
                       then e\<lparr>en_max_bitrate_bps := Some (ac_max_bitrate_bps cfg)\<rparr> else e)
                     \<lparr>en_adaptive_ptime := ac_adaptive_ptime cfg\<rparr>)
      in params\<lparr>rp_encodings := update_first set encodings\<rparr>)"

definition ConfigureAudioSenderParameters ::
  "bool \<Rightarrow> AudioEncodingConfig \<Rightarrow> rtp_parameters \<Rightarrow> (rtp_parameters \<Rightarrow> bool)
   \<Rightarrow> bool \<times> rtp_parameters option" where
  "ConfigureAudioSenderParameters has_sender cfg params set_ok =
     (if \<not> has_sender then (False, None)
      else let params' = audio_parameters cfg params in (set_ok params', Some params'))"

text \<open>
  The parameters given to the audio sender carry the configured bitrate cap (if positive) and
  packet-time mode in their first encoding, which is created if WebRTC reports none, and leave the
  other encodings alone; the channel count, playback rate, FEC and DTX settings of
  \<^verbatim>\<open>AudioEncodingConfig\<close> have no influence.
\<close>

theorem audio_sender_parameters:
  assumes "ConfigureAudioSenderParameters True cfg params set_ok = (r, Some p)"
  shows "r = set_ok p
    \<and> (\<exists>e rest. rp_encodings p = e # rest \<and> rest = tl (rp_encodings params)
         \<and> en_adaptive_ptime e = ac_adaptive_ptime cfg
         \<and> (0 < ac_max_bitrate_bps cfg \<longrightarrow> en_max_bitrate_bps e = Some (ac_max_bitrate_bps cfg)))
    \<and> rp_degradation_preference p = rp_degradation_preference params
    \<and> ConfigureAudioSenderParameters True
        (cfg\<lparr>ac_channels := ch, ac_max_playback_rate_hz := hz, ac_enable_fec := fec, ac_enable_dtx := dtx\<rparr>)
        params set_ok = (r, Some p)"
  using assms
  by (cases "rp_encodings params")
    (auto simp: ConfigureAudioSenderParameters_def audio_parameters_def update_first_def Let_def)

theorem audio_sender_parameters_witness:
  "\<exists>p. ConfigureAudioSenderParameters True default_audio_config
      \<lparr>rp_encodings = [], rp_degradation_preference = DegradationUnset\<rparr> (\<lambda>_. True) = (True, Some p)
    \<and> (\<exists>e. rp_encodings p = [e])"
proof -
  let ?params = "\<lparr>rp_encodings = [], rp_degradation_preference = DegradationUnset\<rparr>"
  let ?p = "audio_parameters default_audio_config ?params"
  have r: "ConfigureAudioSenderParameters True default_audio_config ?params (\<lambda>_. True) = (True, Some ?p)"
    by (simp add: ConfigureAudioSenderParameters_def)
  obtain e rest where "rp_encodings ?p = e # rest" "rest = tl (rp_encodings ?params)"
    using audio_sender_parameters [OF r] by blast
  with r show ?thesis by (intro exI [of _ ?p]) simp
qed

end
