(* ===== verification/VideoSources.thy ===== *)
theory VideoSources
  imports Platform
begin

text \<open>
  The three video sources of \<^verbatim>\<open>module/pushclient.cpp\<close> (lines 357-691): the desktop source that
  converts and scales captured frames, the synthetic source with its frame generator and pacing,
  and the polling source. Pixel conversion and scaling (libyuv), capturers and clocks are
  arguments; a loop that runs while a flag is set is given the flag's successive readings.
\<close>

subsection \<open>Clock samples and frames\<close>

record CaptureClockSample =
  monotonic_time_us :: int
  utc_time_ms :: int

definition SampleCaptureClock :: "int \<Rightarrow> int \<Rightarrow> CaptureClockSample" where
  "SampleCaptureClock TimeMicros TimeUTCMillis =
     \<lparr>monotonic_time_us = TimeMicros, utc_time_ms = TimeUTCMillis\<rparr>"

record 'b video_frame =
  vf_buffer :: 'b
  vf_width :: int
  vf_height :: int
  vf_timestamp_us :: int
  vf_ntp_time_ms :: int

record 'd desktop_frame =
  df_width :: int
  df_height :: int
  df_data :: 'd

text \<open>
  The pixel routines: \<open>argb_to_i420\<close> converts a desktop frame, \<open>i420_scale\<close> maps a buffer of the
  first size to one of the second.
\<close>

record ('d, 'b) pixel_ops =
  argb_to_i420 :: "'d desktop_frame \<Rightarrow> 'b"
  i420_scale :: "'b \<Rightarrow> int \<times> int \<Rightarrow> int \<times> int \<Rightarrow> 'b"

subsection \<open>The desktop source\<close>

record capturer_source =
  cs_capturer :: "capturer option"
  cs_running :: bool
  cs_cap_thread :: thread_handle
  cs_target_fps :: int
  cs_capture_width :: int
  cs_capture_height :: int
  cs_output_width :: int
  cs_output_height :: int

definition new_capturer_source :: capturer_source where
  "new_capturer_source = \<lparr>cs_capturer = None, cs_running = False, cs_cap_thread = NotJoinable,
     cs_target_fps = 25, cs_capture_width = 0, cs_capture_height = 0, cs_output_width = 0,
     cs_output_height = 0\<rparr>"

definition SetCaptureResolution :: "int \<Rightarrow> int \<Rightarrow> capturer_source \<Rightarrow> capturer_source" where
  "SetCaptureResolution width height s = s\<lparr>cs_capture_width := width, cs_capture_height := height\<rparr>"

definition SetOutputResolution :: "int \<Rightarrow> int \<Rightarrow> capturer_source \<Rightarrow> capturer_source" where
  "SetOutputResolution width height s = s\<lparr>cs_output_width := width, cs_output_height := height\<rparr>"

text \<open>\<open>screen_capturer\<close> is the result of \<^verbatim>\<open>CreatePlatformScreenCapturer\<close>.\<close>

definition CapturerTrackSource_Create ::
  "capturer option \<Rightarrow> int \<Rightarrow> bool \<Rightarrow> int \<Rightarrow> int \<Rightarrow> capturer_source option" where
  "CapturerTrackSource_Create screen_capturer target_fps capture_cursor output_width output_height =
     (let src = SetOutputResolution output_width output_height
                  (new_capturer_source\<lparr>cs_target_fps := target_fps\<rparr>)\<lparr>cs_capturer := screen_capturer\<rparr>
      in if cs_capturer src = None then None
         else if \<not> fst (SelectDefaultSourceIfNeeded (cs_capturer src)) then None
         else Some src)"

definition capturer_Start :: "capturer_source \<Rightarrow> capturer_source outcome" where
  "capturer_Start s = bind_outcome (thread_assign (cs_cap_thread s)) (\<lambda>h.
     Inr (s\<lparr>cs_running := True, cs_cap_thread := h\<rparr>))"

definition capturer_destroy :: "capturer_source \<Rightarrow> unit outcome" where
  "capturer_destroy s =
     (let s' = s\<lparr>cs_running := False, cs_cap_thread := join_if_joinable (cs_cap_thread s)\<rparr>
      in thread_destroy (cs_cap_thread s'))"

definition capturer_state_live :: bool where "capturer_state_live = True"

definition configured_or :: "int \<Rightarrow> int \<Rightarrow> int" where
  "configured_or configured actual = (if configured > 0 then configured else actual)"

definition scale_if_needed ::
  "('d, 'b) pixel_ops \<Rightarrow> 'b \<Rightarrow> int \<times> int \<Rightarrow> int \<times> int \<Rightarrow> 'b" where
  "scale_if_needed px buffer from to =
     (if fst to \<noteq> fst from \<or> snd to \<noteq> snd from then i420_scale px buffer from to else buffer)"

text \<open>\<^verbatim>\<open>OnCaptureResult\<close>: the frame handed to the broadcaster, if any.\<close>

definition OnCaptureResult ::
  "('d, 'b) pixel_ops \<Rightarrow> capturer_source \<Rightarrow> bool \<Rightarrow> 'd desktop_frame option
   \<Rightarrow> CaptureClockSample \<Rightarrow> 'b video_frame option" where
  "OnCaptureResult px s success frame capture_clock =
     (if \<not> success then None
      else case frame of None \<Rightarrow> None
      | Some f \<Rightarrow>
        (let size = (df_width f, df_height f);
             i420 = argb_to_i420 px f;
             capture_size = (configured_or (cs_capture_width s) (fst size),
                             configured_or (cs_capture_height s) (snd size));
             capture_buffer = scale_if_needed px i420 size capture_size;
             output_size = (configured_or (cs_output_width s) (fst capture_size),
                            configured_or (cs_output_height s) (snd capture_size));
             output_buffer = scale_if_needed px capture_buffer capture_size output_size
         in Some \<lparr>vf_buffer = output_buffer, vf_width = fst output_size, vf_height = snd output_size,
              vf_timestamp_us = monotonic_time_us capture_clock,
              vf_ntp_time_ms = utc_time_ms capture_clock\<rparr>))"

definition capture_interval_ms :: "int \<Rightarrow> int" where
  "capture_interval_ms target_fps = c_div 1000 (max 1 target_fps)"

datatype loop_action = CapStart | CaptureFrame | SleepMs int

fun polling_loop :: "loop_action list \<Rightarrow> bool list \<Rightarrow> loop_action list" where
  "polling_loop body [] = []"
| "polling_loop body (running # rest) =
     (if running then body @ polling_loop body rest else [])"

definition StartCaptureLoop :: "capturer_source \<Rightarrow> bool list \<Rightarrow> loop_action list" where
  "StartCaptureLoop s running_reads =
     (if cs_capturer s = None then []
      else CapStart # polling_loop [CaptureFrame, SleepMs (capture_interval_ms (cs_target_fps s))]
             running_reads)"

subsection \<open>The synthetic frame\<close>

text \<open>An I420 buffer: plane sizes, strides and the bytes of the three planes.\<close>

record i420_buffer =
  bf_width :: nat
  bf_height :: nat
  bf_chroma_width :: nat
  bf_chroma_height :: nat
  bf_stride_y :: nat
  bf_stride_u :: nat
  bf_stride_v :: nat
  bf_y :: "u8 list"
  bf_u :: "u8 list"
  bf_v :: "u8 list"

definition write_row :: "nat \<Rightarrow> (nat \<Rightarrow> u8) \<Rightarrow> nat \<Rightarrow> u8 list \<Rightarrow> u8 list" where
  "write_row off f n data = fold (\<lambda>x d. d[off + x := f x]) [0..<n] data"

definition write_plane :: "nat \<Rightarrow> (nat \<Rightarrow> u8) \<Rightarrow> nat \<Rightarrow> nat \<Rightarrow> u8 list \<Rightarrow> u8 list" where
  "write_plane stride f w h data = fold (\<lambda>y d. write_row (y * stride) f w d) [0..<h] data"

definition luma_value :: "int \<Rightarrow> nat \<Rightarrow> u8" where
  "luma_value frame_index x = word_of_int (c_mod (int x + frame_index * 3) 256)"

definition FillSyntheticI420Frame :: "i420_buffer \<Rightarrow> int \<Rightarrow> i420_buffer" where
  "FillSyntheticI420Frame b frame_index =
     (let u_value = word_of_int (96 + c_mod frame_index 64);
          v_value = word_of_int (160 - c_mod frame_index 64)
      in b\<lparr>bf_y := write_plane (bf_stride_y b) (luma_value frame_index) (bf_width b) (bf_height b) (bf_y b),
           bf_u := write_plane (bf_stride_u b) (\<lambda>_. u_value) (bf_chroma_width b) (bf_chroma_height b) (bf_u b),
           bf_v := write_plane (bf_stride_v b) (\<lambda>_. v_value) (bf_chroma_width b) (bf_chroma_height b) (bf_v b)\<rparr>)"
subsection \<open>The synthetic source\<close>

type_synonym frame_generator = "int \<Rightarrow> i420_buffer \<Rightarrow> bool \<times> i420_buffer"

record file_source =
  fs_width :: int
  fs_height :: int
  fs_target_fps :: int
  fs_running :: bool
  fs_frame_thread :: thread_handle
  fs_generator :: "frame_generator option"

definition FileVideoTrackSource_Create :: "int \<Rightarrow> int \<Rightarrow> int \<Rightarrow> file_source option" where
  "FileVideoTrackSource_Create width height target_fps =
     (if width \<le> 0 \<or> height \<le> 0 then None
      else Some \<lparr>fs_width = width, fs_height = height, fs_target_fps = max 1 target_fps,
             fs_running = False, fs_frame_thread = NotJoinable, fs_generator = None\<rparr>)"

definition SetFrameGenerator :: "frame_generator option \<Rightarrow> file_source \<Rightarrow> file_source" where
  "SetFrameGenerator g s = s\<lparr>fs_generator := g\<rparr>"

definition file_Start :: "file_source \<Rightarrow> file_source outcome" where
  "file_Start s =
     (if fs_running s then Inr s
      else bind_outcome (thread_assign (fs_frame_thread s)) (\<lambda>h.
             Inr (s\<lparr>fs_running := True, fs_frame_thread := h\<rparr>)))"

definition file_Stop :: "file_source \<Rightarrow> file_source outcome" where
  "file_Stop s =
     (if \<not> fs_running s then Inr s
      else Inr (s\<lparr>fs_running := False, fs_frame_thread := join_if_joinable (fs_frame_thread s)\<rparr>))"

definition file_destroy :: "file_source \<Rightarrow> unit outcome" where
  "file_destroy s = bind_outcome (file_Stop s) (\<lambda>t. thread_destroy (fs_frame_thread t))"

definition frame_interval_us :: "file_source \<Rightarrow> int" where
  "frame_interval_us s = c_div 1000000 (fs_target_fps s)"

text \<open>
  One pass of \<^verbatim>\<open>RunFrameLoop\<close>: the frame that is broadcast and the time it sleeps until.
  \<open>create\<close> is \<^verbatim>\<open>I420Buffer::Create\<close>.
\<close>

definition frame_content :: "(int \<Rightarrow> int \<Rightarrow> i420_buffer) \<Rightarrow> file_source \<Rightarrow> int \<Rightarrow> i420_buffer" where
  "frame_content create s frame_index =
     (let buffer = create (fs_width s) (fs_height s);
          (has_frame, buffer') = (case fs_generator s of None \<Rightarrow> (False, buffer)
                                  | Some g \<Rightarrow> g frame_index buffer)
      in if has_frame then buffer' else FillSyntheticI420Frame buffer' frame_index)"

text \<open>
  The loop over the readings of \<^verbatim>\<open>running_\<close>, each with the clock sample of its pass; the result
  lists the frames with the deadline slept for after each.
\<close>

fun frame_loop ::
  "(int \<Rightarrow> int \<Rightarrow> i420_buffer) \<Rightarrow> file_source \<Rightarrow> int \<Rightarrow> int \<Rightarrow> CaptureClockSample list
   \<Rightarrow> (i420_buffer video_frame \<times> int) list" where
  "frame_loop create s frame_index next_tick [] = []"
| "frame_loop create s frame_index next_tick (clk # rest) =
     (let next = next_tick + frame_interval_us s in
      (\<lparr>vf_buffer = frame_content create s frame_index, vf_width = fs_width s,
         vf_height = fs_height s, vf_timestamp_us = monotonic_time_us clk,
         vf_ntp_time_ms = utc_time_ms clk\<rparr>, next)
      # frame_loop create s (frame_index + 1) next rest)"

definition RunFrameLoop ::
  "(int \<Rightarrow> int \<Rightarrow> i420_buffer) \<Rightarrow> file_source \<Rightarrow> int \<Rightarrow> CaptureClockSample list
   \<Rightarrow> (i420_buffer video_frame \<times> int) list" where
  "RunFrameLoop create s now clocks = frame_loop create s 0 now clocks"

subsection \<open>The polling source\<close>

text \<open>\<open>ds_capture_thread\<close> is the \<^verbatim>\<open>unique_ptr\<close>: \<open>None\<close> for null.\<close>

record desktop_source =
  ds_capturer :: "capturer option"
  ds_capturer_started :: bool
  ds_capture_thread :: "thread_handle option"
  ds_is_running :: bool
  ds_fps :: int

definition DesktopCapturerSource_new :: "bool \<Rightarrow> capturer option \<Rightarrow> capturer option \<Rightarrow> desktop_source" where
  "DesktopCapturerSource_new is_screen screen_capturer window_capturer =
     (let c = (if is_screen then screen_capturer else window_capturer) in
      \<lparr>ds_capturer = c, ds_capturer_started = (c \<noteq> None), ds_capture_thread = None,
       ds_is_running = False, ds_fps = 30\<rparr>)"

definition DesktopCapturerSource_Create ::
  "bool \<Rightarrow> capturer option \<Rightarrow> capturer option \<Rightarrow> desktop_source option" where
  "DesktopCapturerSource_Create is_screen screen_capturer window_capturer =
     Some (DesktopCapturerSource_new is_screen screen_capturer window_capturer)"

definition pointer_handle :: "thread_handle option \<Rightarrow> thread_handle" where
  "pointer_handle p = (case p of None \<Rightarrow> NotJoinable | Some h \<Rightarrow> h)"

definition desktop_Start :: "desktop_source \<Rightarrow> desktop_source outcome" where
  "desktop_Start s =
     (if ds_is_running s then Inr s
      else bind_outcome (thread_destroy (pointer_handle (ds_capture_thread s))) (\<lambda>_.
             Inr (s\<lparr>ds_is_running := True, ds_capture_thread := Some Running\<rparr>)))"

definition desktop_Stop :: "desktop_source \<Rightarrow> desktop_source outcome" where
  "desktop_Stop s =
     (let s' = s\<lparr>ds_is_running := False\<rparr> in
      Inr (case ds_capture_thread s' of None \<Rightarrow> s'
           | Some h \<Rightarrow> s'\<lparr>ds_capture_thread := Some (join_if_joinable h)\<rparr>))"

definition desktop_destroy :: "desktop_source \<Rightarrow> unit outcome" where
  "desktop_destroy s =
     bind_outcome (desktop_Stop s) (\<lambda>t. thread_destroy (pointer_handle (ds_capture_thread t)))"

definition desktop_CaptureLoop :: "desktop_source \<Rightarrow> bool list \<Rightarrow> loop_action list" where
  "desktop_CaptureLoop s running_reads =
     polling_loop ((if ds_capturer s = None then [] else [CaptureFrame]) @ [SleepMs (c_div 1000 (ds_fps s))])
       running_reads"

subsection \<open>Thread ownership\<close>

definition file_inv :: "file_source \<Rightarrow> bool" where
  "file_inv s \<longleftrightarrow> fs_frame_thread s = (if fs_running s then Running else NotJoinable)"

definition desktop_inv :: "desktop_source \<Rightarrow> bool" where
  "desktop_inv s \<longleftrightarrow> pointer_handle (ds_capture_thread s) = (if ds_is_running s then Running else NotJoinable)"

interpretation file_thread: thread_owner file_Start file_Stop fs_running fs_frame_thread file_inv
  by unfold_locales (auto simp: file_Start_def file_Stop_def file_inv_def)

interpretation desktop_thread: thread_owner desktop_Start desktop_Stop ds_is_running
  "\<lambda>s. pointer_handle (ds_capture_thread s)" desktop_inv
  by unfold_locales
    (auto simp: desktop_Start_def desktop_Stop_def desktop_inv_def pointer_handle_def Let_def
      split: option.splits)

lemma file_Create_inv: "FileVideoTrackSource_Create w h fps = Some s \<Longrightarrow> file_inv s \<and> \<not> fs_running s"
  by (auto simp: FileVideoTrackSource_Create_def file_inv_def split: if_splits)

text \<open>
  C39. Any sequence of \<^verbatim>\<open>Start\<close> and \<^verbatim>\<open>Stop\<close> calls on the synthetic or the polling source ends
  normally, leaves it running exactly if the last call was \<^verbatim>\<open>Start\<close>, and the destructor
  afterwards joins the thread without aborting.
\<close>

theorem source_threads_safe:
  assumes "FileVideoTrackSource_Create w h fps = Some f"
    and "d = DesktopCapturerSource_new is_screen screen_capturer window_capturer"
  shows "(\<exists>t. owner_calls file_Start file_Stop cs f = Inr t
      \<and> (fs_running t \<longleftrightarrow> cs \<noteq> [] \<and> last cs = CallStart) \<and> file_destroy t = Inr ())
    \<and> (\<exists>u. owner_calls desktop_Start desktop_Stop cs d = Inr u
      \<and> (ds_is_running u \<longleftrightarrow> cs \<noteq> [] \<and> last cs = CallStart) \<and> desktop_destroy u = Inr ())"
proof -
  have f: "file_inv f" "\<not> fs_running f" using file_Create_inv [OF assms(1)] by simp_all
  have d: "desktop_inv d" "\<not> ds_is_running d"
    by (simp_all add: assms(2) DesktopCapturerSource_new_def desktop_inv_def pointer_handle_def Let_def)
  obtain t where t: "owner_calls file_Start file_Stop cs f = Inr t" "file_inv t"
    "fs_running t \<longleftrightarrow> (if cs = [] then fs_running f else last cs = CallStart)"
    using file_thread.calls_ok [OF f(1)] by blast
  obtain u where u: "owner_calls desktop_Start desktop_Stop cs d = Inr u" "desktop_inv u"
    "ds_is_running u \<longleftrightarrow> (if cs = [] then ds_is_running d else last cs = CallStart)"
    using desktop_thread.calls_ok [OF d(1)] by blast
  have "file_destroy t = Inr ()"
    using t(2) by (auto simp: file_destroy_def file_Stop_def file_inv_def)
  moreover have "desktop_destroy u = Inr ()"
    using u(2) by (auto simp: desktop_destroy_def desktop_Stop_def desktop_inv_def pointer_handle_def
        Let_def split: option.splits)
  ultimately show ?thesis using t u f(2) d(2) by auto
qed

theorem source_threads_safe_witness:
  "\<exists>s t. FileVideoTrackSource_Create 640 480 30 = Some s
     \<and> owner_calls file_Start file_Stop [CallStart, CallStart, CallStop, CallStart] s = Inr t
     \<and> fs_running t \<and> file_destroy t = Inr ()"
proof -
  obtain s where s: "FileVideoTrackSource_Create 640 480 30 = Some s"
    by (simp add: FileVideoTrackSource_Create_def)
  from source_threads_safe [OF s refl, of "[CallStart, CallStart, CallStop, CallStart]" True None None] s
  show ?thesis by auto
qed

subsection \<open>What the frames contain\<close>

lemma write_row_length [simp]: "length (write_row off f n d) = length d"
  by (induction n) (simp_all add: write_row_def)

lemma write_row_nth:
  "i < length d \<Longrightarrow> write_row off f n d ! i = (if off \<le> i \<and> i < off + n then f (i - off) else d ! i)"
proof (induction n)
  case 0
  then show ?case by (auto simp: write_row_def)
next
  case (Suc n)
  have "write_row off f (Suc n) d = (write_row off f n d)[off + n := f n]" by (simp add: write_row_def)
  with Suc show ?case by (cases "i = off + n") (auto simp: less_Suc_eq)
qed

lemma write_plane_Suc:
  "write_plane stride f w (Suc h) d = write_row (h * stride) f w (write_plane stride f w h d)"
  by (simp add: write_plane_def)

lemma write_plane_length [simp]: "length (write_plane stride f w h d) = length d"
  by (induction h) (simp_all add: write_plane_Suc, simp add: write_plane_def)

lemma div_row:
  assumes "w \<le> stride" "0 < (stride::nat)"
  shows "h * stride \<le> i \<and> i < h * stride + w \<longleftrightarrow> i div stride = h \<and> i mod stride < w"
proof
  assume a: "h * stride \<le> i \<and> i < h * stride + w"
  then obtain k where k: "i = h * stride + k" "k < w" by (metis add_less_cancel_left le_Suc_ex)
  then show "i div stride = h \<and> i mod stride < w" using assms by simp
next
  assume a: "i div stride = h \<and> i mod stride < w"
  have "i = i div stride * stride + i mod stride" by simp
  with a show "h * stride \<le> i \<and> i < h * stride + w" by (metis add_less_cancel_left le_add1)
qed

lemma write_plane_nth:
  assumes "w \<le> stride" "0 < stride" "i < length d"
  shows "write_plane stride f w h d ! i =
    (if i div stride < h \<and> i mod stride < w then f (i mod stride) else d ! i)"
proof (induction h)
  case 0
  then show ?case by (simp add: write_plane_def)
next
  case (Suc h)
  have m: "i - h * stride = i mod stride" if "i div stride = h"
    using that by (metis minus_div_mult_eq_mod)
  have "write_plane stride f w (Suc h) d ! i =
      (if i div stride = h \<and> i mod stride < w then f (i - h * stride)
       else write_plane stride f w h d ! i)"
    using assms(3) by (simp add: write_plane_Suc write_row_nth div_row [OF assms(1,2)])
  also have "\<dots> = (if i div stride < Suc h \<and> i mod stride < w then f (i mod stride) else d ! i)"
    using m by (auto simp: Suc.IH less_Suc_eq)
  finally show ?case .
qed

text \<open>The planes are large enough for their rows.\<close>

definition i420_ok :: "i420_buffer \<Rightarrow> bool" where
  "i420_ok b \<longleftrightarrow>
     0 < bf_stride_y b \<and> bf_width b \<le> bf_stride_y b \<and> length (bf_y b) = bf_stride_y b * bf_height b
     \<and> 0 < bf_stride_u b \<and> bf_chroma_width b \<le> bf_stride_u b
     \<and> length (bf_u b) = bf_stride_u b * bf_chroma_height b
     \<and> 0 < bf_stride_v b \<and> bf_chroma_width b \<le> bf_stride_v b
     \<and> length (bf_v b) = bf_stride_v b * bf_chroma_height b"

lemma plane_index:
  assumes "x < w" "w \<le> stride" "y < (h::nat)"
  shows "y * stride + x < stride * h" "(y * stride + x) div stride = y" "(y * stride + x) mod stride = x"
proof -
  have "y * stride + x < Suc y * stride" using assms(1,2) by simp
  also have "\<dots> \<le> h * stride" using assms(3) by (intro mult_le_mono1) simp
  finally show "y * stride + x < stride * h" by (simp add: mult.commute)
qed (use assms in simp_all)

text \<open>
  The synthetic frame writes every luma byte of the picture as \<open>(x + 3 * index) mod 256\<close>, U as
  \<open>96 + index mod 64\<close> and V as \<open>160 - index mod 64\<close>, all in byte range; the padding beyond the
  row width keeps its content and no plane changes its length. The signed arithmetic does not
  overflow up to the stated frame index.
\<close>

theorem synthetic_frame_content:
  assumes ok: "i420_ok b" and idx: "0 \<le> frame_index" "frame_index * 3 + int (bf_width b) < 2 ^ 31"
    and r: "r = FillSyntheticI420Frame b frame_index"
  shows "(\<forall>x y. x < bf_width b \<and> y < bf_height b \<longrightarrow>
        bf_y r ! (y * bf_stride_y b + x) = word_of_int ((int x + 3 * frame_index) mod 256)
        \<and> int32_range (int x + frame_index * 3))
    \<and> (\<forall>x y. x < bf_chroma_width b \<and> y < bf_chroma_height b \<longrightarrow>
        uint (bf_u r ! (y * bf_stride_u b + x)) = 96 + frame_index mod 64
        \<and> uint (bf_v r ! (y * bf_stride_v b + x)) = 160 - frame_index mod 64)
    \<and> (\<forall>i < length (bf_y b). bf_width b \<le> i mod bf_stride_y b \<longrightarrow> bf_y r ! i = bf_y b ! i)
    \<and> length (bf_y r) = length (bf_y b) \<and> length (bf_u r) = length (bf_u b)
    \<and> length (bf_v r) = length (bf_v b)"
proof -
  let ?u = "word_of_int (96 + frame_index mod 64) :: u8"
  let ?v = "word_of_int (160 - frame_index mod 64) :: u8"
  have m: "c_mod frame_index 64 = frame_index mod 64" using idx(1) by (simp add: c_mod_nonneg)
  have planes: "bf_y r = write_plane (bf_stride_y b) (luma_value frame_index) (bf_width b) (bf_height b) (bf_y b)"
    "bf_u r = write_plane (bf_stride_u b) (\<lambda>_. ?u) (bf_chroma_width b) (bf_chroma_height b) (bf_u b)"
    "bf_v r = write_plane (bf_stride_v b) (\<lambda>_. ?v) (bf_chroma_width b) (bf_chroma_height b) (bf_v b)"
    by (simp_all add: r FillSyntheticI420Frame_def m Let_def)
  have b: "0 < bf_stride_y b" "bf_width b \<le> bf_stride_y b" "length (bf_y b) = bf_stride_y b * bf_height b"
    "0 < bf_stride_u b" "bf_chroma_width b \<le> bf_stride_u b" "length (bf_u b) = bf_stride_u b * bf_chroma_height b"
    "0 < bf_stride_v b" "bf_chroma_width b \<le> bf_stride_v b" "length (bf_v b) = bf_stride_v b * bf_chroma_height b"
    using ok by (simp_all add: i420_ok_def)
  have luma: "bf_y r ! (y * bf_stride_y b + x) = word_of_int ((int x + 3 * frame_index) mod 256)
      \<and> int32_range (int x + frame_index * 3)" if "x < bf_width b" "y < bf_height b" for x y
    using plane_index [OF that(1) b(2) that(2)] that idx b(3)
    by (simp add: planes write_plane_nth b luma_value_def c_mod_nonneg int32_range_def mult.commute)
  have u: "bf_u r ! (y * bf_stride_u b + x) = ?u" and v: "bf_v r ! (y * bf_stride_v b + x) = ?v"
    if "x < bf_chroma_width b" "y < bf_chroma_height b" for x y
    using plane_index [OF that(1) b(5) that(2)] plane_index [OF that(1) b(8) that(2)] that b(6,9)
    by (simp_all add: planes write_plane_nth b)
  have "uint ?u = 96 + frame_index mod 64" "uint ?v = 160 - frame_index mod 64"
    by (rule u8_of_int; simp)+
  with luma u v show ?thesis by (auto simp: planes write_plane_nth b(1,2))
qed

definition demo_buffer :: i420_buffer where
  "demo_buffer = \<lparr>bf_width = 3, bf_height = 2, bf_chroma_width = 2, bf_chroma_height = 1,
     bf_stride_y = 4, bf_stride_u = 2, bf_stride_v = 2, bf_y = replicate 8 7, bf_u = [0, 0],
     bf_v = [0, 0]\<rparr>"

lemma demo_buffer_sizes [simp]:
  "bf_width demo_buffer = 3" "bf_height demo_buffer = 2" "bf_chroma_width demo_buffer = 2"
  "bf_chroma_height demo_buffer = 1" "bf_stride_y demo_buffer = 4" "bf_stride_u demo_buffer = 2"
  "length (bf_y demo_buffer) = 8" "bf_y demo_buffer ! 7 = 7"
  by (simp_all add: demo_buffer_def)

theorem synthetic_frame_content_witness:
  "bf_y (FillSyntheticI420Frame demo_buffer 100) ! 6 = 46
   \<and> bf_y (FillSyntheticI420Frame demo_buffer 100) ! 7 = 7
   \<and> uint (bf_u (FillSyntheticI420Frame demo_buffer 100) ! 1) = 132"
proof -
  have ok: "i420_ok demo_buffer" by (simp add: i420_ok_def demo_buffer_def)
  have idx: "(0::int) \<le> 100" "(100::int) * 3 + int (bf_width demo_buffer) < 2 ^ 31" by simp_all
  note content = synthetic_frame_content [OF ok idx refl]
  have "bf_y (FillSyntheticI420Frame demo_buffer 100) ! (1 * 4 + 2) = word_of_int ((int 2 + 3 * 100) mod 256)"
    using content [THEN conjunct1, rule_format, of 2 1] by simp
  moreover have "uint (bf_u (FillSyntheticI420Frame demo_buffer 100) ! (0 * 2 + 1)) = 96 + 100 mod 64"
    using content [THEN conjunct2, THEN conjunct1, rule_format, of 1 0] by simp
  moreover have "bf_y (FillSyntheticI420Frame demo_buffer 100) ! 7 = 7"
    using content [THEN conjunct2, THEN conjunct2, THEN conjunct1, rule_format, of 7] by simp
  ultimately show ?thesis by simp
qed

subsection \<open>Sizes, pacing and starting\<close>

text \<open>
  A captured frame leaves the source in the output size, or the capture size, or its own size,
  whichever is configured first, carrying the clock sample of its capture; it is rescaled once per
  configured size that differs, so with the sizes \<^verbatim>\<open>PrepareDesktopVideoSource\<close> sets every frame
  is 3840x2160 and, unless it is 1920x1080 already, has been reduced or enlarged to 1920x1080 on
  the way, although the comment at the conversion promises the original size.
\<close>

theorem captured_frame_size:
  assumes "OnCaptureResult px s True (Some f) clk = Some vf"
  shows "vf_width vf = configured_or (cs_output_width s) (configured_or (cs_capture_width s) (df_width f))
    \<and> vf_height vf = configured_or (cs_output_height s) (configured_or (cs_capture_height s) (df_height f))
    \<and> vf_timestamp_us vf = monotonic_time_us clk \<and> vf_ntp_time_ms vf = utc_time_ms clk
    \<and> (cs_capture_width s = 1920 \<and> cs_capture_height s = 1080 \<and> cs_output_width s = 3840
        \<and> cs_output_height s = 2160 \<longrightarrow>
         vf_width vf = 3840 \<and> vf_height vf = 2160
         \<and> vf_buffer vf = i420_scale px
             (if df_width f = 1920 \<and> df_height f = 1080 then argb_to_i420 px f
              else i420_scale px (argb_to_i420 px f) (df_width f, df_height f) (1920, 1080))
             (1920, 1080) (3840, 2160))"
proof -
  let ?cap = "(configured_or (cs_capture_width s) (df_width f), configured_or (cs_capture_height s) (df_height f))"
  let ?out = "(configured_or (cs_output_width s) (fst ?cap), configured_or (cs_output_height s) (snd ?cap))"
  have vf: "vf = \<lparr>vf_buffer = scale_if_needed px
      (scale_if_needed px (argb_to_i420 px f) (df_width f, df_height f) ?cap) ?cap ?out,
    vf_width = fst ?out, vf_height = snd ?out, vf_timestamp_us = monotonic_time_us clk,
    vf_ntp_time_ms = utc_time_ms clk\<rparr>"
    using assms by (simp add: OnCaptureResult_def Let_def)
  have pos: "0 < k \<Longrightarrow> configured_or k i = k" for k i by (simp add: configured_or_def)
  show ?thesis by (simp add: vf scale_if_needed_def pos)
qed

theorem captured_frame_size_witness:
  "\<exists>vf. OnCaptureResult \<lparr>argb_to_i420 = (\<lambda>f. [(df_width f, df_height f)]), i420_scale = (\<lambda>b _ t. t # b)\<rparr>
      (SetCaptureResolution 1920 1080 (SetOutputResolution 3840 2160 new_capturer_source)) True
      (Some \<lparr>df_width = 2560, df_height = 1440, df_data = ()\<rparr>) (SampleCaptureClock 5 6) = Some vf
    \<and> vf_buffer vf = [(3840, 2160), (1920, 1080), (2560, 1440)] \<and> vf_width vf = 3840"
proof -
  let ?px = "\<lparr>argb_to_i420 = (\<lambda>f :: unit desktop_frame. [(df_width f, df_height f)]),
    i420_scale = (\<lambda>b _ t. t # b)\<rparr>"
  let ?s = "SetCaptureResolution 1920 1080 (SetOutputResolution 3840 2160 new_capturer_source)"
  let ?f = "\<lparr>df_width = 2560, df_height = 1440, df_data = ()\<rparr>"
  obtain vf where r: "OnCaptureResult ?px ?s True (Some ?f) (SampleCaptureClock 5 6) = Some vf"
    by (simp add: OnCaptureResult_def Let_def)
  from captured_frame_size [OF r] r show ?thesis
    by (intro exI [of _ vf]) (simp add: SetCaptureResolution_def SetOutputResolution_def)
qed

lemma frame_loop_nth:
  "k < length clocks \<Longrightarrow> frame_loop create s i t clocks ! k =
     (\<lparr>vf_buffer = frame_content create s (i + int k), vf_width = fs_width s, vf_height = fs_height s,
        vf_timestamp_us = monotonic_time_us (clocks ! k), vf_ntp_time_ms = utc_time_ms (clocks ! k)\<rparr>,
      t + (int k + 1) * frame_interval_us s)"
proof (induction clocks arbitrary: k i t)
  case Nil
  then show ?case by simp
next
  case (Cons clk rest)
  show ?case
  proof (cases k)
    case 0
    then show ?thesis by (simp add: Let_def)
  next
    case (Suc j)
    with Cons show ?thesis by (simp add: Let_def algebra_simps)
  qed
qed

lemma frame_loop_length [simp]: "length (frame_loop create s i t clocks) = length clocks"
  by (induction clocks arbitrary: i t) (simp_all add: Let_def)

text \<open>
  The synthetic source broadcasts one frame per pass, numbered from 0, and after frame \<open>k\<close> sleeps
  until the start time plus \<open>(k + 1)\<close> intervals whatever the generator does, so delays do not
  accumulate; one second's worth of frames falls short of a second by less than one microsecond
  per frame, and the interval is positive for every rate up to a million.
\<close>

theorem synthetic_pacing:
  assumes "FileVideoTrackSource_Create w h fps = Some s0" "s = SetFrameGenerator g s0"
    and "k < length clocks"
  shows "length (RunFrameLoop create s now clocks) = length clocks
    \<and> snd (RunFrameLoop create s now clocks ! k) = now + (int k + 1) * frame_interval_us s
    \<and> vf_buffer (fst (RunFrameLoop create s now clocks ! k)) = frame_content create s (int k)
    \<and> vf_width (fst (RunFrameLoop create s now clocks ! k)) = w
    \<and> 1000000 - fs_target_fps s < fs_target_fps s * frame_interval_us s
    \<and> fs_target_fps s * frame_interval_us s \<le> 1000000
    \<and> (fps \<le> 1000000 \<longrightarrow> 0 < frame_interval_us s)"
proof -
  let ?n = "max 1 fps"
  have s: "fs_target_fps s = ?n" "fs_width s = w"
    using assms(1,2) by (auto simp: FileVideoTrackSource_Create_def SetFrameGenerator_def split: if_splits)
  have n: "0 < ?n" by simp
  have i: "frame_interval_us s = 1000000 div ?n" using n by (simp add: frame_interval_us_def s c_div_nonneg)
  have eq: "?n * (1000000 div ?n) + 1000000 mod ?n = 1000000" by (rule mult_div_mod_eq)
  have mod: "0 \<le> 1000000 mod ?n" "1000000 mod ?n < ?n" using n by simp_all
  have pos: "0 < 1000000 div ?n" if "fps \<le> 1000000"
    using that n by (simp add: pos_imp_zdiv_pos_iff)
  have "1000000 - ?n < ?n * (1000000 div ?n)" "?n * (1000000 div ?n) \<le> 1000000"
    using eq mod by linarith+
  then show ?thesis
    using pos assms(3) unfolding i s by (simp add: RunFrameLoop_def frame_loop_nth s i)
qed

theorem synthetic_pacing_witness:
  "\<exists>s. FileVideoTrackSource_Create 640 480 30 = Some s
     \<and> snd (RunFrameLoop (\<lambda>_ _. demo_buffer) (SetFrameGenerator None s) 0
          (replicate 3 (SampleCaptureClock 0 0)) ! 2) = 99999"
proof -
  obtain s where s: "FileVideoTrackSource_Create 640 480 30 = Some s" "fs_target_fps s = 30"
    by (simp add: FileVideoTrackSource_Create_def)
  have "2 < length (replicate 3 (SampleCaptureClock 0 0))" by simp
  from synthetic_pacing [OF s(1) refl this, where g = None and create = "\<lambda>_ _. demo_buffer" and now = 0] s
  show ?thesis by (simp add: frame_interval_us_def SetFrameGenerator_def c_div_nonneg)
qed

text \<open>
  The desktop source is created exactly when a screen capturer exists and its default source
  can be selected; the first \<^verbatim>\<open>Start\<close> runs the capture loop, which alternates one capture with one
  sleep of at most a second (none above 1000 frames per second), the destructor then joins it, and
  a second \<^verbatim>\<open>Start\<close> aborts the process.
\<close>

theorem desktop_source_lifecycle:
  assumes "CapturerTrackSource_Create sc fps cursor ow oh = Some s"
  shows "sc \<noteq> None \<and> fst (SelectDefaultSourceIfNeeded sc)
    \<and> (\<exists>t. capturer_Start s = Inr t \<and> cs_running t \<and> capturer_destroy t = Inr ()
         \<and> capturer_Start t = Inl StdTerminate)
    \<and> (\<forall>n. StartCaptureLoop s (replicate n True @ [False]) =
         CapStart # concat (replicate n [CaptureFrame, SleepMs (capture_interval_ms fps)]))
    \<and> 0 \<le> capture_interval_ms fps \<and> capture_interval_ms fps \<le> 1000
    \<and> (capture_interval_ms fps = 0 \<longleftrightarrow> 1000 < fps)"
proof -
  have s: "cs_capturer s = sc" "cs_cap_thread s = NotJoinable" "cs_target_fps s = fps" "sc \<noteq> None"
    "fst (SelectDefaultSourceIfNeeded sc)"
    using assms by (auto simp: CapturerTrackSource_Create_def SetOutputResolution_def
        new_capturer_source_def Let_def split: if_splits)
  have loop: "polling_loop body (replicate n True @ [False]) = concat (replicate n body)" for n and body
    by (induction n) simp_all
  have n: "0 < max 1 fps" by simp
  have i: "capture_interval_ms fps = 1000 div max 1 fps"
    by (simp add: capture_interval_ms_def c_div_nonneg)
  have "1000 div max 1 fps \<le> 1000 div 1" by (rule zdiv_mono2) simp_all
  moreover have "1000 div max 1 fps = 0 \<longleftrightarrow> 1000 < fps"
    using n by (auto simp: div_pos_pos_trivial pos_imp_zdiv_nonneg_iff zdiv_eq_0_iff)
  ultimately show ?thesis
    using s by (simp add: capturer_Start_def capturer_destroy_def StartCaptureLoop_def loop i
        pos_imp_zdiv_nonneg_iff)
qed

theorem desktop_source_lifecycle_witness:
  "\<exists>s t. CapturerTrackSource_Create (Some \<lparr>cp_source_list = None, cp_select_ok = (\<lambda>_. False)\<rparr>)
       30 True 3840 2160 = Some s \<and> capturer_Start s = Inr t \<and> capturer_Start t = Inl StdTerminate"
proof -
  obtain s where s: "CapturerTrackSource_Create (Some \<lparr>cp_source_list = None, cp_select_ok = (\<lambda>_. False)\<rparr>)
       30 True 3840 2160 = Some s"
    by (simp add: CapturerTrackSource_Create_def SelectDefaultSourceIfNeeded_def SetOutputResolution_def)
  from desktop_source_lifecycle [OF s] s show ?thesis by blast
qed

end
