(* ===== verification/RtpStats.thy ===== *)
theory RtpStats
  imports Threads
begin

text \<open>
  The diagnosis of outgoing RTP in \<^verbatim>\<open>module/pushclient.cpp\<close> (lines 1338-1456): starting and
  stopping the polling thread, one poll, the statistics callback, and the connection observer
  that starts and stops the polling. The second half is the concurrency of it: the observer runs
  on WebRTC's signaling thread, and every call the polling thread makes on the connection is
  marshalled to that thread and waited for (\<^verbatim>\<open>pc/proxy.h\<close>, \<^verbatim>\<open>pc/peer_connection_proxy.h\<close>).
\<close>

subsection \<open>State\<close>

text \<open>\<open>st_thread\<close> is the \<^verbatim>\<open>unique_ptr\<close>, \<open>None\<close> for null.\<close>

record stats_state =
  st_polling :: bool
  st_thread :: "thread_handle option"
  st_sending :: bool
  st_last_bytes :: u64
  st_last_packets :: u64

definition init_stats :: stats_state where
  "init_stats = \<lparr>st_polling = False, st_thread = None, st_sending = False, st_last_bytes = 0,
     st_last_packets = 0\<rparr>"

definition stats_handle :: "stats_state \<Rightarrow> thread_handle" where
  "stats_handle s = (case st_thread s of None \<Rightarrow> NotJoinable | Some h \<Rightarrow> h)"

text \<open>Assigning the pointer destroys the old handle.\<close>

definition StartRtpSendStatsPolling :: "stats_state \<Rightarrow> stats_state outcome" where
  "StartRtpSendStatsPolling s =
     (if st_polling s then Inr s
      else bind_outcome (thread_destroy (stats_handle s)) (\<lambda>_.
             Inr (s\<lparr>st_polling := True, st_sending := False, st_last_bytes := 0,
                    st_last_packets := 0, st_thread := Some Running\<rparr>)))"

definition StopRtpSendStatsPolling :: "stats_state \<Rightarrow> stats_state outcome" where
  "StopRtpSendStatsPolling s =
     (let s' = s\<lparr>st_polling := False\<rparr>;
          h = (case st_thread s' of None \<Rightarrow> None | Some h \<Rightarrow> Some (join_if_joinable h))
      in bind_outcome (thread_destroy (case h of None \<Rightarrow> NotJoinable | Some x \<Rightarrow> x)) (\<lambda>_.
           Inr (s'\<lparr>st_thread := None\<rparr>)))"

definition IsSendingRtpVideo :: "stats_state \<Rightarrow> bool" where
  "IsSendingRtpVideo s = st_sending s"

definition poll_sleep_ms :: "int \<Rightarrow> int" where
  "poll_sleep_ms interval_ms = max 100 interval_ms"

subsection \<open>The statistics callback\<close>

record outbound_stats =
  ob_kind :: "string option"
  ob_bytes_sent :: "u64 option"
  ob_packets_sent :: "u64 option"

text \<open>One pass of the loop over the report; a list element is a pointer that may be null.\<close>

definition consider_stream ::
  "outbound_stats option \<Rightarrow> bool \<times> u64 \<times> u64 \<Rightarrow> bool \<times> u64 \<times> u64" where
  "consider_stream p acc =
     (case acc of (found, best_bytes, best_packets) \<Rightarrow>
        (case p of None \<Rightarrow> acc
         | Some s \<Rightarrow>
           if ob_kind s \<noteq> Some ''video'' then acc
           else (case ob_bytes_sent s of None \<Rightarrow> acc
                 | Some b \<Rightarrow>
                   if b \<ge> best_bytes
                   then (True, b, (case ob_packets_sent s of None \<Rightarrow> best_packets | Some n \<Rightarrow> n))
                   else (True, best_bytes, best_packets))))"

definition OnStatsDelivered :: "outbound_stats option list \<Rightarrow> stats_state \<Rightarrow> stats_state" where
  "OnStatsDelivered report s =
     (case fold consider_stream report (False, 0, 0) of (found, best_bytes, best_packets) \<Rightarrow>
        if \<not> found then s\<lparr>st_sending := False\<rparr>
        else s\<lparr>st_last_bytes := best_bytes, st_last_packets := best_packets,
               st_sending := (best_bytes > st_last_bytes s)\<rparr>)"

datatype connection_state = kNew | kConnecting | kConnected | kDisconnected | kFailed | kClosed

text \<open>
  One poll. \<open>pc_state\<close> is \<open>None\<close> for a null connection; the flag says whether statistics were
  requested (they arrive through \<open>OnStatsDelivered\<close>).
\<close>

definition PollRtpSendStatsOnce :: "connection_state option \<Rightarrow> stats_state \<Rightarrow> bool \<times> stats_state" where
  "PollRtpSendStatsOnce pc_state s =
     (case pc_state of None \<Rightarrow> (False, s)
      | Some c \<Rightarrow> if c \<noteq> kConnected then (False, s\<lparr>st_sending := False\<rparr>) else (True, s))"

text \<open>A null owner is \<open>has_owner = False\<close>.\<close>

definition OnConnectionChange ::
  "bool \<Rightarrow> connection_state \<Rightarrow> stats_state \<Rightarrow> stats_state outcome" where
  "OnConnectionChange has_owner new_state s =
     (if \<not> has_owner then Inr s
      else if new_state = kConnected then StartRtpSendStatsPolling s
      else if new_state \<in> {kDisconnected, kFailed, kClosed} then StopRtpSendStatsPolling s
      else Inr s)"

subsection \<open>Starting and stopping\<close>

definition stats_inv :: "stats_state \<Rightarrow> bool" where
  "stats_inv s \<longleftrightarrow> st_thread s = (if st_polling s then Some Running else None)"

interpretation stats_thread: thread_owner StartRtpSendStatsPolling StopRtpSendStatsPolling
  st_polling stats_handle stats_inv
  by unfold_locales
    (auto simp: StartRtpSendStatsPolling_def StopRtpSendStatsPolling_def stats_inv_def
      stats_handle_def Let_def)

definition polls :: "connection_state \<Rightarrow> bool option" where
  "polls c = (if c = kConnected then Some True
     else if c \<in> {kDisconnected, kFailed, kClosed} then Some False else None)"

fun connection_changes :: "connection_state list \<Rightarrow> stats_state \<Rightarrow> stats_state outcome" where
  "connection_changes [] s = Inr s"
| "connection_changes (c # cs) s = bind_outcome (OnConnectionChange True c s) (connection_changes cs)"

lemma OnConnectionChange_spec:
  assumes "stats_inv s"
  shows "\<exists>t. OnConnectionChange True c s = Inr t \<and> stats_inv t
    \<and> st_polling t = (case polls c of None \<Rightarrow> st_polling s | Some b \<Rightarrow> b)"
  using stats_thread.start_ok [OF assms] stats_thread.stop_ok [OF assms] assms
  by (cases c) (auto simp: OnConnectionChange_def polls_def)

text \<open>
  Whatever connection states WebRTC reports, and however often, the observer never starts a
  second polling thread nor destroys a running one: after the sequence the thread runs exactly if
  the last decisive state was \<^verbatim>\<open>kConnected\<close>.
\<close>

theorem connection_changes_safe:
  assumes "stats_inv s"
  shows "\<exists>t. connection_changes cs s = Inr t \<and> stats_inv t
    \<and> st_polling t = (case List.map_filter polls cs of [] \<Rightarrow> st_polling s | b # bs \<Rightarrow> last (b # bs))"
  using assms
proof (induction cs arbitrary: s)
  case Nil
  then show ?case by (simp add: map_filter_simps)
next
  case (Cons c cs)
  obtain u where u: "OnConnectionChange True c s = Inr u" "stats_inv u"
    "st_polling u = (case polls c of None \<Rightarrow> st_polling s | Some b \<Rightarrow> b)"
    using OnConnectionChange_spec [OF Cons.prems] by blast
  from Cons.IH [OF u(2)] u(1,3) show ?case
    by (cases "List.map_filter polls cs") (auto simp: map_filter_simps split: option.splits)
qed

theorem connection_changes_safe_witness:
  "\<exists>t. connection_changes [kConnecting, kConnected, kConnected, kDisconnected, kConnected] init_stats = Inr t
     \<and> st_polling t \<and> stats_handle t = Running"
proof -
  have "stats_inv init_stats" by (simp add: stats_inv_def init_stats_def)
  from connection_changes_safe [OF this, of "[kConnecting, kConnected, kConnected, kDisconnected, kConnected]"]
  show ?thesis by (auto simp: map_filter_simps polls_def stats_inv_def stats_handle_def)
qed

subsection \<open>The chosen stream\<close>

definition video_bytes :: "outbound_stats option list \<Rightarrow> u64 list" where
  "video_bytes report = List.map_filter (\<lambda>p. case p of None \<Rightarrow> None
     | Some s \<Rightarrow> if ob_kind s = Some ''video'' then ob_bytes_sent s else None) report"

lemma fold_consider:
  "fst (fold consider_stream report (f, b, n)) = (f \<or> video_bytes report \<noteq> [])
   \<and> fst (snd (fold consider_stream report (f, b, n))) = foldl max b (video_bytes report)"
proof (induction report arbitrary: f b n)
  case Nil
  then show ?case by (simp add: video_bytes_def map_filter_simps)
next
  case (Cons p ps)
  show ?case
    using Cons.IH
    by (auto simp: consider_stream_def video_bytes_def map_filter_simps max_def
        split: option.splits)
qed

lemma foldl_max_Max: "foldl max (b::u64) xs = Max (set (b # xs))"
proof (induction xs arbitrary: b)
  case Nil
  then show ?case by simp
next
  case (Cons x xs)
  have "Max (set (max b x # xs)) = Max (set (b # x # xs))"
    by (cases "xs = []") (simp_all add: max.assoc)
  with Cons show ?case by simp
qed

definition counted :: "outbound_stats option list \<Rightarrow> outbound_stats set" where
  "counted report = {s. Some s \<in> set report \<and> ob_kind s = Some ''video'' \<and> ob_bytes_sent s \<noteq> None}"

lemma fold_consider_source:
  assumes "\<forall>s \<in> counted report. ob_packets_sent s \<noteq> None"
    and "fold consider_stream report (False, 0, 0) = (True, b, n)"
  shows "\<exists>s \<in> counted report. ob_bytes_sent s = Some b \<and> ob_packets_sent s = Some n"
  using assms
proof (induction report arbitrary: b n rule: rev_induct)
  case Nil
  then show ?case by simp
next
  case (snoc p ps)
  obtain f b1 n1 where acc: "fold consider_stream ps (False, 0, 0) = (f, b1, n1)"
    by (metis prod_cases3)
  have sub: "counted ps \<subseteq> counted (ps @ [p])" by (auto simp: counted_def)
  have step: "consider_stream p (f, b1, n1) = (True, b, n)" using snoc.prems(2) acc by simp
  have keep: "\<exists>s \<in> counted (ps @ [p]). ob_bytes_sent s = Some b \<and> ob_packets_sent s = Some n"
    if "f" "b1 = b" "n1 = n"
    using snoc.IH [of b n] snoc.prems(1) acc that sub by auto
  show ?case
  proof (cases "\<exists>s. p = Some s \<and> ob_kind s = Some ''video'' \<and> ob_bytes_sent s \<noteq> None")
    case False
    then have "consider_stream p (f, b1, n1) = (f, b1, n1)"
      by (auto simp: consider_stream_def split: option.splits)
    with step keep show ?thesis by simp
  next
    case True
    then obtain s c where s: "p = Some s" "ob_kind s = Some ''video''" "ob_bytes_sent s = Some c" by auto
    then have m: "s \<in> counted (ps @ [p])" by (simp add: counted_def)
    then obtain k where k: "ob_packets_sent s = Some k" using snoc.prems(1) by blast
    show ?thesis
    proof (cases "c \<ge> b1")
      case True
      with step s k have "b = c" "n = k" by (simp_all add: consider_stream_def)
      with m s k show ?thesis by auto
    next
      case False
      with step s have "b1 = b" "n1 = n" by (simp_all add: consider_stream_def)
      moreover have "f"
      proof (rule ccontr)
        assume "\<not> f"
        then have "video_bytes ps = []" "b1 = foldl max 0 (video_bytes ps)"
          using fold_consider [of ps False 0 0] acc by auto
        with False show False by simp
      qed
      ultimately show ?thesis using keep by simp
    qed
  qed
qed

text \<open>
  A delivered report with no usable video stream marks the sender as not sending and leaves the
  counters; otherwise the byte counter becomes the largest byte count of the video streams, the
  sender counts as sending exactly if that is more than at the previous report, and the packet
  counter is that of a stream with this byte count whenever all of them report packets.
\<close>

theorem stats_delivery:
  assumes "t = OnStatsDelivered report s"
  shows "(video_bytes report = [] \<longrightarrow> t = s\<lparr>st_sending := False\<rparr>)
    \<and> (video_bytes report \<noteq> [] \<longrightarrow>
         st_last_bytes t = Max (set (video_bytes report))
         \<and> (IsSendingRtpVideo t \<longleftrightarrow> st_last_bytes s < Max (set (video_bytes report)))
         \<and> ((\<forall>x \<in> counted report. ob_packets_sent x \<noteq> None) \<longrightarrow>
              (\<exists>x \<in> counted report. ob_bytes_sent x = Some (st_last_bytes t)
                 \<and> ob_packets_sent x = Some (st_last_packets t))))
    \<and> st_polling t = st_polling s \<and> st_thread t = st_thread s"
proof -
  obtain f b n where acc: "fold consider_stream report (False, 0, 0) = (f, b, n)"
    by (metis prod_cases3)
  have f: "f \<longleftrightarrow> video_bytes report \<noteq> []" and b: "b = foldl max 0 (video_bytes report)"
    using fold_consider [of report False 0 0] acc by auto
  have m: "b = Max (set (video_bytes report))" if "video_bytes report \<noteq> []"
    using that by (simp add: b foldl_max_Max)
  show ?thesis
  proof (cases "video_bytes report = []")
    case True
    with assms acc f show ?thesis by (simp add: OnStatsDelivered_def)
  next
    case False
    then have "fold consider_stream report (False, 0, 0) = (True, b, n)" using acc f by simp
    with fold_consider_source [OF _ this] assms m [OF False] False show ?thesis
      by (simp add: OnStatsDelivered_def IsSendingRtpVideo_def)
  qed
qed

definition demo_report :: "outbound_stats option list" where
  "demo_report = [None,
     Some \<lparr>ob_kind = Some ''audio'', ob_bytes_sent = Some 900, ob_packets_sent = Some 9\<rparr>,
     Some \<lparr>ob_kind = Some ''video'', ob_bytes_sent = Some 500, ob_packets_sent = Some 5\<rparr>,
     Some \<lparr>ob_kind = Some ''video'', ob_bytes_sent = Some 300, ob_packets_sent = Some 3\<rparr>]"

theorem stats_delivery_witness:
  "IsSendingRtpVideo (OnStatsDelivered demo_report init_stats)
   \<and> \<not> IsSendingRtpVideo (OnStatsDelivered demo_report (OnStatsDelivered demo_report init_stats))"
proof -
  have v: "video_bytes demo_report = [500, 300]"
    by (simp add: demo_report_def video_bytes_def map_filter_simps)
  have z: "st_last_bytes init_stats = 0" by (simp add: init_stats_def)
  let ?t = "OnStatsDelivered demo_report init_stats"
  have t: "st_last_bytes ?t = 500" "IsSendingRtpVideo ?t"
    using stats_delivery [OF refl, of demo_report init_stats] by (simp_all add: v z)
  have "\<not> IsSendingRtpVideo (OnStatsDelivered demo_report ?t)"
    using stats_delivery [OF refl, of demo_report ?t] by (simp add: v t)
  with t show ?thesis by simp
qed

subsection \<open>The signaling thread and the polling thread\<close>

text \<open>
  Where the polling thread is: testing the flag, waiting for the signaling thread to answer
  \<^verbatim>\<open>peer_connection_state\<close> or \<^verbatim>\<open>GetStats\<close>, sleeping, or returned. A stop in progress is
  waiting to join it, on the signaling thread (called by the observer) or on another one
  (called by the destructor). The signaling thread serves calls unless it is the one waiting.
\<close>

datatype poll_pc = PollNone | PollTest | PollAskState | PollAskStats | PollSleep | PollDone

datatype stopper = OnSignalingThread | OnOtherThread

record poll_sys =
  ps_polling :: bool
  ps_pc :: poll_pc
  ps_connected :: bool
  ps_stopper :: "stopper option"

definition init_poll :: poll_sys where
  "init_poll = \<lparr>ps_polling = False, ps_pc = PollNone, ps_connected = False, ps_stopper = None\<rparr>"

inductive poll_step :: "poll_sys \<Rightarrow> poll_sys \<Rightarrow> bool" where
  connect: "ps_stopper s = None \<Longrightarrow>
     poll_step s (if ps_polling s then s\<lparr>ps_connected := True\<rparr>
                  else s\<lparr>ps_connected := True, ps_polling := True, ps_pc := PollTest\<rparr>)"
| disconnect: "ps_stopper s = None \<Longrightarrow>
     poll_step s (if ps_pc s = PollNone then s\<lparr>ps_connected := False, ps_polling := False\<rparr>
                  else s\<lparr>ps_connected := False, ps_polling := False,
                         ps_stopper := Some OnSignalingThread\<rparr>)"
| client_stop: "ps_stopper s = None \<Longrightarrow> ps_pc s \<noteq> PollNone \<Longrightarrow>
     poll_step s (s\<lparr>ps_polling := False, ps_stopper := Some OnOtherThread\<rparr>)"
| test_on: "ps_pc s = PollTest \<Longrightarrow> ps_polling s \<Longrightarrow> poll_step s (s\<lparr>ps_pc := PollAskState\<rparr>)"
| test_off: "ps_pc s = PollTest \<Longrightarrow> \<not> ps_polling s \<Longrightarrow> poll_step s (s\<lparr>ps_pc := PollDone\<rparr>)"
| serve_state: "ps_pc s = PollAskState \<Longrightarrow> ps_stopper s \<noteq> Some OnSignalingThread \<Longrightarrow>
     poll_step s (s\<lparr>ps_pc := (if ps_connected s then PollAskStats else PollSleep)\<rparr>)"
| serve_stats: "ps_pc s = PollAskStats \<Longrightarrow> ps_stopper s \<noteq> Some OnSignalingThread \<Longrightarrow>
     poll_step s (s\<lparr>ps_pc := PollSleep\<rparr>)"
| wake: "ps_pc s = PollSleep \<Longrightarrow> poll_step s (s\<lparr>ps_pc := PollTest\<rparr>)"
| joined: "ps_stopper s = Some w \<Longrightarrow> ps_pc s = PollDone \<Longrightarrow>
     poll_step s (s\<lparr>ps_pc := PollNone, ps_stopper := None\<rparr>)"

inductive poll_path :: "poll_sys \<Rightarrow> poll_sys list \<Rightarrow> bool" where
  path_nil: "poll_path s []"
| path_cons: "poll_step s t \<Longrightarrow> poll_path t ts \<Longrightarrow> poll_path s (t # ts)"

inductive_cases poll_path_consE: "poll_path s (t # ts)"

inductive poll_reachable :: "poll_sys \<Rightarrow> bool" where
  poll_init: "poll_reachable init_poll"
| poll_more: "poll_reachable s \<Longrightarrow> poll_step s t \<Longrightarrow> poll_reachable t"

definition poll_wf :: "poll_sys \<Rightarrow> bool" where
  "poll_wf s \<longleftrightarrow>
     (ps_stopper s \<noteq> None \<longrightarrow> \<not> ps_polling s \<and> ps_pc s \<noteq> PollNone)
     \<and> (ps_stopper s = None \<longrightarrow> (ps_polling s \<longleftrightarrow> ps_pc s \<noteq> PollNone) \<and> ps_pc s \<noteq> PollDone)"

lemma poll_step_wf: "poll_step s t \<Longrightarrow> poll_wf s \<Longrightarrow> poll_wf t"
  by (induction rule: poll_step.induct) (auto simp: poll_wf_def)

lemma poll_reachable_wf: "poll_reachable s \<Longrightarrow> poll_wf s"
  by (induction rule: poll_reachable.induct) (auto simp: poll_step_wf, simp add: poll_wf_def init_poll_def)

definition deadlocked :: "poll_sys \<Rightarrow> bool" where
  "deadlocked s \<longleftrightarrow> ps_stopper s = Some OnSignalingThread \<and> ps_pc s \<in> {PollAskState, PollAskStats}"

lemma deadlocked_stuck: "deadlocked s \<Longrightarrow> \<not> poll_step s t"
  by (auto simp: deadlocked_def elim: poll_step.cases)

lemma progress:
  assumes "poll_wf s" "\<not> deadlocked s"
  shows "\<exists>t. poll_step s t"
proof (cases "ps_stopper s")
  case None
  then show ?thesis by (blast intro: connect)
next
  case (Some w)
  then have p: "\<not> ps_polling s" "ps_pc s \<noteq> PollNone" using assms(1) by (auto simp: poll_wf_def)
  have serve: "ps_stopper s \<noteq> Some OnSignalingThread" if "ps_pc s \<in> {PollAskState, PollAskStats}"
    using that assms(2) by (auto simp: deadlocked_def)
  show ?thesis
  proof (cases "ps_pc s")
    case PollNone
    with p show ?thesis by simp
  next
    case PollTest
    with p test_off show ?thesis by blast
  next
    case PollAskState
    with serve serve_state show ?thesis by blast
  next
    case PollAskStats
    with serve serve_stats show ?thesis by blast
  next
    case PollSleep
    with wake show ?thesis by blast
  next
    case PollDone
    with Some joined show ?thesis by blast
  qed
qed


text \<open>
  C28. A reachable state has no successor exactly when the observer waits on the signaling thread for
  the polling thread to return while that thread waits for the signaling thread to answer; such
  a state is reachable: the connection is lost between the flag's test and the state query.
\<close>

theorem observer_stop_deadlock:
  "(\<forall>s. poll_reachable s \<longrightarrow> ((\<nexists>t. poll_step s t) \<longleftrightarrow>
      ps_stopper s = Some OnSignalingThread \<and> ps_pc s \<in> {PollAskState, PollAskStats}))
   \<and> (\<exists>s. poll_reachable s \<and> (\<nexists>t. poll_step s t))"
proof -
  let ?s1 = "\<lparr>ps_polling = True, ps_pc = PollTest, ps_connected = True, ps_stopper = None\<rparr>"
  let ?s2 = "\<lparr>ps_polling = True, ps_pc = PollAskState, ps_connected = True, ps_stopper = None\<rparr>"
  let ?s3 = "\<lparr>ps_polling = False, ps_pc = PollAskState, ps_connected = False,
    ps_stopper = Some OnSignalingThread\<rparr>"
  have "poll_step init_poll ?s1" using connect [of init_poll] by (simp add: init_poll_def)
  moreover have "poll_step ?s1 ?s2" using test_on [of ?s1] by simp
  moreover have "poll_step ?s2 ?s3" using disconnect [of ?s2] by simp
  ultimately have "poll_reachable ?s3" by (blast intro: poll_init poll_more)
  moreover have "deadlocked ?s3" by (simp add: deadlocked_def)
  ultimately have "\<exists>s. poll_reachable s \<and> (\<nexists>t. poll_step s t)" using deadlocked_stuck by blast
  moreover have "(\<nexists>t. poll_step s t) \<longleftrightarrow> deadlocked s" if "poll_reachable s" for s
    using progress [OF poll_reachable_wf [OF that]] deadlocked_stuck by blast
  ultimately show ?thesis unfolding deadlocked_def by blast
qed

theorem observer_stop_deadlock_witness:
  "\<exists>s. poll_reachable s \<and> ps_stopper s = Some OnSignalingThread"
  using observer_stop_deadlock by blast

fun poll_rank :: "poll_pc \<Rightarrow> nat" where
  "poll_rank PollAskState = 5"
| "poll_rank PollAskStats = 4"
| "poll_rank PollSleep = 3"
| "poll_rank PollTest = 2"
| "poll_rank PollDone = 1"
| "poll_rank PollNone = 0"

lemma stop_step:
  assumes "poll_step s t" "poll_wf s" "ps_stopper s = Some OnOtherThread"
  shows "ps_stopper t = None \<or> ps_stopper t = Some OnOtherThread \<and> poll_rank (ps_pc t) < poll_rank (ps_pc s)"
  using assms by (induction rule: poll_step.induct) (auto simp: poll_wf_def)

lemma stop_path:
  assumes "poll_wf s" "ps_stopper s = Some OnOtherThread" "poll_path s ts"
    and "poll_rank (ps_pc s) \<le> length ts"
  shows "\<exists>t \<in> set (take (poll_rank (ps_pc s)) ts). ps_stopper t = None"
  using assms
proof (induction ts arbitrary: s)
  case Nil
  then have "ps_pc s = PollNone" by (cases "ps_pc s") auto
  with Nil show ?case by (simp add: poll_wf_def)
next
  case (Cons t ts)
  from Cons.prems(3) have st: "poll_step s t" "poll_path t ts" by (auto elim: poll_path_consE)
  have pos: "0 < poll_rank (ps_pc s)" using Cons.prems(1,2) by (cases "ps_pc s") (auto simp: poll_wf_def)
  then obtain n where n: "poll_rank (ps_pc s) = Suc n" by (cases "poll_rank (ps_pc s)") auto
  from stop_step [OF st(1) Cons.prems(1,2)] show ?case
  proof
    assume "ps_stopper t = None"
    with n show ?thesis by simp
  next
    assume t: "ps_stopper t = Some OnOtherThread \<and> poll_rank (ps_pc t) < poll_rank (ps_pc s)"
    with Cons.prems(4) n have le: "poll_rank (ps_pc t) \<le> n" "n \<le> length ts" by auto
    obtain u where "u \<in> set (take (poll_rank (ps_pc t)) ts)" "ps_stopper u = None"
      using Cons.IH [OF poll_step_wf [OF st(1) Cons.prems(1)] _ st(2)] t le by auto
    moreover have "set (take (poll_rank (ps_pc t)) ts) \<subseteq> set (take n ts)"
      by (rule set_take_subset_set_take) (rule le)
    ultimately show ?thesis using n by auto
  qed
qed

text \<open>
  Stopping from any other thread, as the destructor does, always ends: on every path of at least
  five steps the join completes within the first five, and no state on the way is stuck.
\<close>

theorem other_thread_stop_completes:
  assumes "poll_reachable s" "ps_stopper s = Some OnOtherThread"
  shows "(\<exists>t. poll_step s t)
    \<and> (\<forall>ts. poll_path s ts \<and> 5 \<le> length ts \<longrightarrow> (\<exists>t \<in> set (take 5 ts). ps_stopper t = None))"
proof -
  have wf: "poll_wf s" using assms(1) by (rule poll_reachable_wf)
  have le: "poll_rank (ps_pc s) \<le> 5" by (cases "ps_pc s") auto
  have "\<exists>t \<in> set (take 5 ts). ps_stopper t = None" if "poll_path s ts" "5 \<le> length ts" for ts
  proof -
    have "poll_rank (ps_pc s) \<le> length ts" using le that(2) by simp
    from stop_path [OF wf assms(2) that(1) this] set_take_subset_set_take [OF le, of ts]
    show ?thesis by blast
  qed
  moreover have "\<exists>t. poll_step s t"
    using progress [OF wf] assms(2) by (auto simp: deadlocked_def)
  ultimately show ?thesis by blast
qed

theorem other_thread_stop_completes_witness:
  "\<exists>t. poll_step \<lparr>ps_polling = False, ps_pc = PollTest, ps_connected = True,
     ps_stopper = Some OnOtherThread\<rparr> t"
proof -
  let ?s1 = "\<lparr>ps_polling = True, ps_pc = PollTest, ps_connected = True, ps_stopper = None\<rparr>"
  let ?s2 = "\<lparr>ps_polling = False, ps_pc = PollTest, ps_connected = True,
    ps_stopper = Some OnOtherThread\<rparr>"
  have "poll_step init_poll ?s1" using connect [of init_poll] by (simp add: init_poll_def)
  moreover have "poll_step ?s1 ?s2" using client_stop [of ?s1] by simp
  ultimately have "poll_reachable ?s2" by (blast intro: poll_init poll_more)
  from other_thread_stop_completes [OF this] show ?thesis by simp
qed

end
