(* ===== verification/PushClient.thy ===== *)
theory PushClient
  imports AudioConfig VideoSources RtpStats
begin

text \<open>
  The push client of \<^verbatim>\<open>module/pushclient.cpp\<close> (lines 705-1336): initialisation, the video and
  audio tracks, the offer, the remote answer and candidates, the bitrate, the observer's
  candidates and the destructor, over the components of the other theories, and what WebRTC's
  threads do to a client in between. The answers of WebRTC are the fields of a record; the calls
  made on the connection and the messages handed to the signaling callbacks are recorded in order.
\<close>

subsection \<open>State\<close>

record IceServerConfig =
  is_uri :: string
  is_username :: string
  is_password :: string

record SdpBundle =
  sb_type :: string
  sb_sdp :: string

record IceCandidateBundle =
  ic_candidate :: string
  ic_sdp_mid :: string
  ic_sdp_mline_index :: int
  ic_id :: string

datatype media = VideoMedia | AudioMedia

text \<open>The fields of the connection's configuration that the code sets.\<close>

datatype sdp_semantics = kPlanB | kUnifiedPlan
datatype transports_type = kNone | kRelay | kNoHost | kAll
datatype gathering_policy = GATHER_ONCE | GATHER_CONTINUALLY

record rtc_configuration =
  rc_sdp_semantics :: sdp_semantics
  rc_servers :: "IceServerConfig list"
  rc_type :: transports_type
  rc_continual_gathering_policy :: gathering_policy
  rc_disable_ipv6_on_wifi :: bool

text \<open>The calls on the factory and the connection; a transceiver is added for a track with its label.\<close>

datatype rtc_call =
    CreatePeerConnection rtc_configuration
  | AddTransceiver media string rtp_direction
  | SetHeaderExtensions media "header_extension list"
  | SetCodecPreferences "rtp_codec list"
  | SetParameters media rtp_parameters
  | CreateOffer bool
  | SetLocalDescription string
  | SetRemoteDescription string
  | AddIceCandidate string int string
  | OnLocalSdp SdpBundle string
  | OnLocalIce IceCandidateBundle

text \<open>The device module the client holds: the repository's own, or one of WebRTC's.\<close>

datatype adm_object = LoopbackAdm pulse_adm | BuiltinAdm

record push_client =
  pc_id :: string
  pc_connection :: bool
  pc_factory :: bool
  pc_adm :: "adm_object option"
  pc_video_track :: bool
  pc_video_sender :: bool
  pc_audio_track :: bool
  pc_audio_sender :: bool
  pc_capture_source :: "capturer_source option"
  pc_file_source :: "file_source option"
  pc_observer :: bool
  pc_audio_encoding_config :: AudioEncodingConfig
  pc_stats :: stats_state
  pc_environment :: environment
  pc_calls :: "rtc_call list"

record rtc_answers =
  ra_build :: build
  ra_popen :: "string option"
  ra_screen_capturer :: "capturer option"
  ra_pulse_adm_ok :: bool
  ra_default_adm_ok :: bool
  ra_pa_simple_new :: "pulse_open_args \<Rightarrow> nat"
  ra_builtin_audio_ready :: bool
  ra_connection_ok :: bool
  ra_video_track_ok :: bool
  ra_audio_source_ok :: bool
  ra_audio_track_ok :: bool
  ra_transceiver_ok :: "media \<Rightarrow> bool"
  ra_header_extensions :: "media \<Rightarrow> header_extension list"
  ra_set_extensions_ok :: "header_extension list \<Rightarrow> bool"
  ra_audio_codecs :: "rtp_codec list"
  ra_set_codecs_ok :: "rtp_codec list \<Rightarrow> bool"
  ra_parameters :: "media \<Rightarrow> rtp_parameters"
  ra_set_parameters_ok :: "media \<Rightarrow> rtp_parameters \<Rightarrow> bool"

definition new_push_client :: "string \<Rightarrow> environment \<Rightarrow> push_client" where
  "new_push_client cid env =
     \<lparr>pc_id = cid, pc_connection = False, pc_factory = False, pc_adm = None, pc_video_track = False,
      pc_video_sender = False, pc_audio_track = False, pc_audio_sender = False,
      pc_capture_source = None, pc_file_source = None, pc_observer = False,
      pc_audio_encoding_config = default_audio_config, pc_stats = init_stats,
      pc_environment = env, pc_calls = []\<rparr>"

definition getId :: "push_client \<Rightarrow> string" where
  "getId c = pc_id c"

definition SetAudioEncodingConfig :: "AudioEncodingConfig \<Rightarrow> push_client \<Rightarrow> push_client" where
  "SetAudioEncodingConfig config c = c\<lparr>pc_audio_encoding_config := config\<rparr>"

definition call :: "rtc_call \<Rightarrow> push_client \<Rightarrow> push_client" where
  "call x c = c\<lparr>pc_calls := pc_calls c @ [x]\<rparr>"

definition call_opt :: "rtc_call option \<Rightarrow> push_client \<Rightarrow> push_client" where
  "call_opt x c = (case x of None \<Rightarrow> c | Some y \<Rightarrow> call y c)"

text \<open>Steps that report success; \<open>and_then\<close> is the early return on failure.\<close>

type_synonym client_result = "(bool \<times> push_client) outcome"

definition and_then :: "client_result \<Rightarrow> (push_client \<Rightarrow> client_result) \<Rightarrow> client_result" where
  "and_then r f = bind_outcome r (\<lambda>(ok, c). if ok then f c else Inr (False, c))"

subsection \<open>Media\<close>

definition PrepareDesktopVideoSource :: "rtc_answers \<Rightarrow> int \<Rightarrow> push_client \<Rightarrow> bool \<times> push_client" where
  "PrepareDesktopVideoSource R fps c =
     (if pc_capture_source c \<noteq> None \<or> pc_file_source c \<noteq> None then (True, c)
      else case CapturerTrackSource_Create (ra_screen_capturer R) fps True 3840 2160 of
        None \<Rightarrow> (False, c)
      | Some src \<Rightarrow>
        let c1 = c\<lparr>pc_capture_source := Some (SetCaptureResolution 1920 1080 src)\<rparr> in
        (case FileVideoTrackSource_Create 640 480 fps of
           None \<Rightarrow> (False, c1)
         | Some f \<Rightarrow> (True, c1\<lparr>pc_file_source := Some f\<rparr>)))"

definition kRecommended4kBitrateBps :: int where "kRecommended4kBitrateBps = 12000000"

definition video_parameters :: "int \<Rightarrow> rtp_parameters \<Rightarrow> rtp_parameters" where
  "video_parameters effective_max_bitrate_bps params =
     params\<lparr>rp_encodings := update_first (\<lambda>e. e\<lparr>en_max_bitrate_bps := Some effective_max_bitrate_bps,
                en_scale_resolution_down_to := Some (3840, 2160)\<rparr>) (rp_encodings params),
            rp_degradation_preference := MAINTAIN_RESOLUTION\<rparr>"

definition AddDesktopVideo :: "rtc_answers \<Rightarrow> int \<Rightarrow> int \<Rightarrow> push_client \<Rightarrow> client_result" where
  "AddDesktopVideo R fps max_bitrate_bps c =
     (if \<not> pc_factory c \<or> \<not> pc_connection c then Inr (False, c)
      else let effective_max_bitrate_bps = max max_bitrate_bps kRecommended4kBitrateBps in
      case PrepareDesktopVideoSource R fps c of
        (False, c1) \<Rightarrow> Inr (False, c1)
      | (True, c1) \<Rightarrow>
        if \<not> ra_video_track_ok R then Inr (False, c1\<lparr>pc_video_track := False\<rparr>)
        else let c2 = call (AddTransceiver VideoMedia ''ffmpeg'' kSendOnly) (c1\<lparr>pc_video_track := True\<rparr>) in
          if \<not> ra_transceiver_ok R VideoMedia then Inr (False, c2)
          else
            let ext = snd (ConfigureAbsoluteCaptureTimeHeaderExtension True
                             (ra_header_extensions R VideoMedia) (ra_set_extensions_ok R));
                c3 = (call_opt (map_option (SetHeaderExtensions VideoMedia) ext) c2)\<lparr>pc_video_sender := True\<rparr>;
                params = video_parameters effective_max_bitrate_bps (ra_parameters R VideoMedia);
                c4 = (if effective_max_bitrate_bps > 0 then call (SetParameters VideoMedia params) c3 else c3)
            in if effective_max_bitrate_bps > 0 \<and> \<not> ra_set_parameters_ok R VideoMedia params
               then Inr (False, c4)
               else case pc_capture_source c4 of
                 None \<Rightarrow> Inl NullDereference
               | Some src \<Rightarrow> bind_outcome (capturer_Start src) (\<lambda>src'.
                   Inr (True, c4\<lparr>pc_capture_source := Some src'\<rparr>)))"

definition AddLocalAudio :: "rtc_answers \<Rightarrow> push_client \<Rightarrow> bool \<times> push_client" where
  "AddLocalAudio R c =
     (if \<not> pc_factory c \<or> \<not> pc_connection c then (False, c)
      else if \<not> ra_audio_source_ok R then (False, c)
      else if \<not> ra_audio_track_ok R then (False, c\<lparr>pc_audio_track := False\<rparr>)
      else let c1 = call (AddTransceiver AudioMedia ''screen-audio'' kSendOnly) (c\<lparr>pc_audio_track := True\<rparr>) in
        if \<not> ra_transceiver_ok R AudioMedia then (False, c1\<lparr>pc_audio_track := False\<rparr>)
        else
          let ext = snd (ConfigureAbsoluteCaptureTimeHeaderExtension True
                           (ra_header_extensions R AudioMedia) (ra_set_extensions_ok R));
              c2 = call_opt (map_option (SetHeaderExtensions AudioMedia) ext) c1;
              (codecs_ok, codecs) = ConfigureAudioCodecPreferences (pc_factory c2) True
                                      (ra_audio_codecs R) (ra_set_codecs_ok R);
              c3 = call_opt (map_option SetCodecPreferences codecs) c2
          in if \<not> codecs_ok then (False, c3\<lparr>pc_audio_track := False\<rparr>)
             else
               let (params_ok, params) = ConfigureAudioSenderParameters True
                     (pc_audio_encoding_config c3) (ra_parameters R AudioMedia)
                     (ra_set_parameters_ok R AudioMedia);
                   c4 = call_opt (map_option (SetParameters AudioMedia) params)
                          (c3\<lparr>pc_audio_sender := True\<rparr>)
               in if \<not> params_ok
                  then (False, c4\<lparr>pc_audio_track := False, pc_audio_sender := False\<rparr>)
                  else (True, c4))"

definition SetMaxBitrate :: "rtc_answers \<Rightarrow> int \<Rightarrow> push_client \<Rightarrow> bool \<times> push_client" where
  "SetMaxBitrate R bps c =
     (if \<not> pc_video_sender c then (False, c)
      else let params = ra_parameters R VideoMedia;
               encodings = (if rp_encodings params = [] then [new_encoding] else rp_encodings params);
               params' = params\<lparr>rp_encodings := update_first (\<lambda>e. e\<lparr>en_max_bitrate_bps := Some bps\<rparr>) encodings\<rparr>
           in (ra_set_parameters_ok R VideoMedia params', call (SetParameters VideoMedia params') c))"

subsection \<open>Negotiation\<close>

definition CreateAndSendOffer :: "bool \<Rightarrow> push_client \<Rightarrow> bool \<times> push_client" where
  "CreateAndSendOffer ice_restart c =
     (if \<not> pc_connection c then (False, c) else (True, call (CreateOffer ice_restart) c))"

text \<open>The success callback of the offer; \<open>bound\<close>: \<^verbatim>\<open>onLocalSdp\<close> is set.\<close>

definition OnOfferCreated :: "bool \<Rightarrow> string \<Rightarrow> push_client \<Rightarrow> push_client" where
  "OnOfferCreated bound sdp c =
     (let c1 = call (SetLocalDescription sdp) c in
      if bound then call (OnLocalSdp \<lparr>sb_type = ''offer'', sb_sdp = sdp\<rparr> (pc_id c)) c1 else c1)"

definition SetRemoteAnswer :: "(string \<Rightarrow> bool) \<Rightarrow> string \<Rightarrow> push_client \<Rightarrow> bool \<times> push_client" where
  "SetRemoteAnswer parse_ok sdp_answer c =
     (if \<not> pc_connection c then (False, c)
      else if \<not> parse_ok sdp_answer then (False, c)
      else (True, call (SetRemoteDescription sdp_answer) c))"

definition normalized_candidate :: "string \<Rightarrow> string" where
  "normalized_candidate candidate_sdp =
     (if is_prefix ''a='' candidate_sdp then drop 2 candidate_sdp else candidate_sdp)"

definition AddRemoteIce ::
  "(string \<Rightarrow> bool) \<Rightarrow> (string \<Rightarrow> int \<Rightarrow> string \<Rightarrow> bool) \<Rightarrow> string \<Rightarrow> int \<Rightarrow> string \<Rightarrow> push_client
   \<Rightarrow> bool \<times> push_client" where
  "AddRemoteIce parse_ok accept candidate_sdp sdp_mline_index sdp_mid c =
     (if \<not> pc_connection c then (False, c)
      else let cand = normalized_candidate candidate_sdp in
        if \<not> parse_ok cand then (False, c)
        else (accept sdp_mid sdp_mline_index cand, call (AddIceCandidate sdp_mid sdp_mline_index cand) c))"

text \<open>The observer's candidate event.\<close>

definition OnIceCandidate :: "bool \<Rightarrow> string \<Rightarrow> string \<Rightarrow> int \<Rightarrow> push_client \<Rightarrow> push_client" where
  "OnIceCandidate bound s mid mline_index c =
     (if bound
      then call (OnLocalIce \<lparr>ic_candidate = s, ic_sdp_mid = mid, ic_sdp_mline_index = mline_index,
                              ic_id = pc_id c\<rparr>) c
      else c)"

subsection \<open>Initialisation and destruction\<close>

definition default_stun :: IceServerConfig where
  "default_stun = \<lparr>is_uri = ''stun:stun.l.google.com:19302'', is_username = [], is_password = []\<rparr>"

definition configured_ice_servers :: "IceServerConfig list \<Rightarrow> IceServerConfig list" where
  "configured_ice_servers ice_servers =
     (let servers = filter (\<lambda>s. is_uri s \<noteq> []) ice_servers
      in if servers = [] then [default_stun] else servers)"

definition connection_config :: "IceServerConfig list \<Rightarrow> rtc_configuration" where
  "connection_config ice_servers =
     \<lparr>rc_sdp_semantics = kUnifiedPlan, rc_servers = configured_ice_servers ice_servers, rc_type = kAll,
      rc_continual_gathering_policy = GATHER_CONTINUALLY, rc_disable_ipv6_on_wifi = False\<rparr>"

text \<open>The device module is created and configured on the worker thread.\<close>

definition create_audio_device :: "rtc_answers \<Rightarrow> push_client \<Rightarrow> bool \<times> push_client" where
  "create_audio_device R c =
     (case CreatePlatformAudioDeviceModule (ra_build R) (ra_popen R) (ra_pulse_adm_ok R)
             (ra_default_adm_ok R) (pc_environment c) of
        (choice, env') \<Rightarrow>
          let c1 = c\<lparr>pc_environment := env'\<rparr> in
          (case choice of
             None \<Rightarrow> (False, c1\<lparr>pc_adm := None\<rparr>)
           | Some (AdmLoopback src) \<Rightarrow>
               (case ConfigureAudioCaptureDevice (ra_build R) (Some (pulse_ops (ra_pa_simple_new R)))
                       (adm_Create src) of
                  (ok, _, a) \<Rightarrow> (ok, c1\<lparr>pc_adm := Some (LoopbackAdm a)\<rparr>))
           | Some AdmLinuxPulse \<Rightarrow> (ra_builtin_audio_ready R, c1\<lparr>pc_adm := Some BuiltinAdm\<rparr>)
           | Some AdmPlatformDefault \<Rightarrow> (ra_builtin_audio_ready R, c1\<lparr>pc_adm := Some BuiltinAdm\<rparr>)))"

definition create_connection ::
  "rtc_answers \<Rightarrow> IceServerConfig list \<Rightarrow> push_client \<Rightarrow> bool \<times> push_client" where
  "create_connection R ice_servers c =
     (let c1 = call (CreatePeerConnection (connection_config ice_servers))
                 (c\<lparr>pc_factory := True, pc_observer := True\<rparr>)
      in if ra_connection_ok R then (True, c1\<lparr>pc_connection := True\<rparr>) else (False, c1))"

definition Init :: "rtc_answers \<Rightarrow> IceServerConfig list \<Rightarrow> push_client \<Rightarrow> client_result" where
  "Init R ice_servers c =
     and_then (Inr (PrepareDesktopVideoSource R 30 c)) (\<lambda>c1.
     and_then (Inr (create_audio_device R c1)) (\<lambda>c2.
     and_then (Inr (create_connection R ice_servers c2)) (\<lambda>c3.
     and_then (AddDesktopVideo R 30 2000000 c3) (\<lambda>c4.
     and_then (Inr (AddLocalAudio R c4)) (\<lambda>c5.
     Inr (CreateAndSendOffer False c5))))))"

text \<open>
  The destructor's body and the destruction of the members it leaves; \<open>inflight\<close> is the capture
  pass the device module may be in.
\<close>

definition destroy_adm :: "capture_env option \<Rightarrow> adm_object option \<Rightarrow> unit outcome" where
  "destroy_adm inflight a =
     (case a of Some (LoopbackAdm m) \<Rightarrow> bind_outcome (adm_destroy inflight m) (\<lambda>_. Inr ())
      | Some BuiltinAdm \<Rightarrow> Inr () | None \<Rightarrow> Inr ())"

definition client_destroy :: "capture_env option \<Rightarrow> push_client \<Rightarrow> unit outcome" where
  "client_destroy inflight c =
     bind_outcome (StopRtpSendStatsPolling (pc_stats c)) (\<lambda>_.
     bind_outcome (destroy_adm inflight (pc_adm c)) (\<lambda>_.
     bind_outcome (case pc_file_source c of None \<Rightarrow> Inr () | Some f \<Rightarrow> file_destroy f) (\<lambda>_.
     (case pc_capture_source c of None \<Rightarrow> Inr () | Some s \<Rightarrow> capturer_destroy s))))"

subsection \<open>What happens to a client after Init\<close>

text \<open>
  Besides the calls of its owner a client undergoes what WebRTC's threads do: its observer is told
  of a connection state, and the device module it created is driven through its interface
  (initialised, started, stopped, reconfigured, terminated) while the module's capture thread makes
  its passes. Only the repository's own module has states here; one of WebRTC's is outside.
\<close>

datatype client_event = ClientConnection connection_state | ClientAudio adm_event

definition client_audio :: "adm_event \<Rightarrow> push_client \<Rightarrow> push_client outcome" where
  "client_audio ev c =
     (case pc_adm c of
        Some (LoopbackAdm a) \<Rightarrow>
          bind_outcome (adm_step ev a) (\<lambda>b. Inr (c\<lparr>pc_adm := Some (LoopbackAdm b)\<rparr>))
      | Some BuiltinAdm \<Rightarrow> Inr c
      | None \<Rightarrow> Inr c)"

fun client_step :: "client_event \<Rightarrow> push_client \<Rightarrow> push_client outcome" where
  "client_step (ClientConnection s) c =
     bind_outcome (OnConnectionChange (pc_observer c) s (pc_stats c)) (\<lambda>st. Inr (c\<lparr>pc_stats := st\<rparr>))"
| "client_step (ClientAudio ev) c = client_audio ev c"

fun client_events :: "client_event list \<Rightarrow> push_client \<Rightarrow> push_client outcome" where
  "client_events [] c = Inr c"
| "client_events (ev # evs) c = bind_outcome (client_step ev c) (client_events evs)"

text \<open>The module's capture thread has ended on its own and was not joined.\<close>

fun adm_lost :: "adm_object option \<Rightarrow> bool" where
  "adm_lost (Some (LoopbackAdm a)) = (ad_capture_thread a = Finished)"
| "adm_lost x = False"

definition audio_lost :: "push_client \<Rightarrow> bool" where
  "audio_lost c \<longleftrightarrow> adm_lost (pc_adm c)"

subsection \<open>What the steps do\<close>

lemma and_then_Inr: "and_then (Inr p) f = (if fst p then f (snd p) else Inr (False, snd p))"
  by (cases p) (simp add: and_then_def)

lemma and_then_True:
  "and_then r f = Inr (True, d) \<longleftrightarrow> (\<exists>c. r = Inr (True, c) \<and> f c = Inr (True, d))"
  by (cases r) (auto simp: and_then_def split: if_splits)

lemma call_fields [frame_simps]:
  "pc_calls (call x c) = pc_calls c @ [x]"
  "pc_id (call x c) = pc_id c" "pc_connection (call x c) = pc_connection c"
  "pc_factory (call x c) = pc_factory c" "pc_adm (call x c) = pc_adm c"
  "pc_video_track (call x c) = pc_video_track c" "pc_video_sender (call x c) = pc_video_sender c"
  "pc_audio_track (call x c) = pc_audio_track c" "pc_audio_sender (call x c) = pc_audio_sender c"
  "pc_capture_source (call x c) = pc_capture_source c" "pc_file_source (call x c) = pc_file_source c"
  "pc_audio_encoding_config (call x c) = pc_audio_encoding_config c" "pc_stats (call x c) = pc_stats c"
  by (simp_all add: call_def)

definition opt_list :: "'a option \<Rightarrow> 'a list" where
  "opt_list x = (case x of None \<Rightarrow> [] | Some a \<Rightarrow> [a])"

lemma call_opt_fields [frame_simps]:
  "pc_calls (call_opt x c) = pc_calls c @ opt_list x"
  "pc_id (call_opt x c) = pc_id c" "pc_connection (call_opt x c) = pc_connection c"
  "pc_factory (call_opt x c) = pc_factory c" "pc_adm (call_opt x c) = pc_adm c"
  "pc_video_track (call_opt x c) = pc_video_track c" "pc_video_sender (call_opt x c) = pc_video_sender c"
  "pc_audio_track (call_opt x c) = pc_audio_track c" "pc_audio_sender (call_opt x c) = pc_audio_sender c"
  "pc_capture_source (call_opt x c) = pc_capture_source c"
  "pc_file_source (call_opt x c) = pc_file_source c"
  "pc_audio_encoding_config (call_opt x c) = pc_audio_encoding_config c"
  "pc_stats (call_opt x c) = pc_stats c"
  by (simp_all add: call_opt_def opt_list_def call_def split: option.split)

text \<open>The source as \<^verbatim>\<open>PrepareDesktopVideoSource\<close> leaves it.\<close>

definition prepared_source :: "capturer_source \<Rightarrow> bool" where
  "prepared_source s \<longleftrightarrow> cs_capture_width s = 1920 \<and> cs_capture_height s = 1080
     \<and> cs_output_width s = 3840 \<and> cs_output_height s = 2160 \<and> cs_capturer s \<noteq> None"

lemma Create_prepared:
  "CapturerTrackSource_Create sc fps cur 3840 2160 = Some src \<Longrightarrow>
     prepared_source (SetCaptureResolution 1920 1080 src)
     \<and> cs_cap_thread (SetCaptureResolution 1920 1080 src) = NotJoinable
     \<and> cs_target_fps (SetCaptureResolution 1920 1080 src) = fps"
  by (auto simp: CapturerTrackSource_Create_def prepared_source_def SetOutputResolution_def
      SetCaptureResolution_def new_capturer_source_def Let_def split: if_splits)

lemma Prepare_fresh:
  assumes "PrepareDesktopVideoSource R fps c = (True, d)"
    and "pc_capture_source c = None" "pc_file_source c = None"
  shows "\<exists>s f. d = c\<lparr>pc_capture_source := Some s, pc_file_source := Some f\<rparr> \<and> prepared_source s
    \<and> cs_cap_thread s = NotJoinable \<and> cs_target_fps s = fps \<and> file_inv f"
proof -
  obtain src where src: "CapturerTrackSource_Create (ra_screen_capturer R) fps True 3840 2160 = Some src"
    using assms by (auto simp: PrepareDesktopVideoSource_def split: option.splits)
  obtain f where f: "FileVideoTrackSource_Create 640 480 fps = Some f"
    by (simp add: FileVideoTrackSource_Create_def)
  have "d = c\<lparr>pc_capture_source := Some (SetCaptureResolution 1920 1080 src), pc_file_source := Some f\<rparr>"
    using assms src f by (simp add: PrepareDesktopVideoSource_def Let_def)
  with Create_prepared [OF src] file_Create_inv [OF f] show ?thesis by blast
qed

lemma Prepare_again:
  "pc_capture_source c \<noteq> None \<Longrightarrow> PrepareDesktopVideoSource R fps c = (True, c)"
  by (simp add: PrepareDesktopVideoSource_def)

lemma create_audio_device_fields:
  "create_audio_device R c = (ok, d) \<Longrightarrow>
     \<exists>a env. d = c\<lparr>pc_environment := env, pc_adm := a\<rparr> \<and> (ok \<longrightarrow> a \<noteq> None)"
  by (auto simp: create_audio_device_def Let_def split: prod.splits option.splits adm_choice.splits)

definition video_calls :: "rtc_answers \<Rightarrow> int \<Rightarrow> rtc_call list" where
  "video_calls R bps =
     AddTransceiver VideoMedia ''ffmpeg'' kSendOnly
     # opt_list (map_option (SetHeaderExtensions VideoMedia)
         (snd (ConfigureAbsoluteCaptureTimeHeaderExtension True (ra_header_extensions R VideoMedia)
           (ra_set_extensions_ok R))))
     @ [SetParameters VideoMedia (video_parameters bps (ra_parameters R VideoMedia))]"

lemma AddDesktopVideo_ok:
  assumes "AddDesktopVideo R fps br c = Inr (True, d)" "pc_capture_source c = Some s"
  shows "cs_cap_thread s = NotJoinable
    \<and> (\<exists>t. capturer_Start s = Inr t \<and> pc_capture_source d = Some t)
    \<and> pc_calls d = pc_calls c @ video_calls R (max br kRecommended4kBitrateBps)
    \<and> pc_video_track d \<and> pc_video_sender d
    \<and> pc_factory d = pc_factory c \<and> pc_connection d = pc_connection c \<and> pc_adm d = pc_adm c
    \<and> pc_file_source d = pc_file_source c \<and> pc_audio_encoding_config d = pc_audio_encoding_config c
    \<and> pc_id d = pc_id c \<and> pc_stats d = pc_stats c"
proof -
  let ?bps = "max br kRecommended4kBitrateBps"
  have pos: "0 < ?bps" by (simp add: kRecommended4kBitrateBps_def)
  have "thread_assign (cs_cap_thread s) = Inr h \<Longrightarrow> cs_cap_thread s = NotJoinable" for h
    by (cases "cs_cap_thread s") (auto simp: thread_assign_def joinable_def)
  then have start: "capturer_Start s = Inr t \<Longrightarrow> cs_cap_thread s = NotJoinable" for t
    by (auto simp: capturer_Start_def bind_outcome_Inr)
  have prep: "PrepareDesktopVideoSource R fps c = (True, c)"
    using assms(2) by (intro Prepare_again) simp
  show ?thesis
    using assms(1) pos start unfolding AddDesktopVideo_def prep Let_def
    by (auto simp: frame_simps assms(2) bind_outcome_Inr video_calls_def split: if_splits)
qed

definition audio_calls :: "rtc_answers \<Rightarrow> AudioEncodingConfig \<Rightarrow> rtc_call list" where
  "audio_calls R cfg =
     AddTransceiver AudioMedia ''screen-audio'' kSendOnly
     # opt_list (map_option (SetHeaderExtensions AudioMedia)
         (snd (ConfigureAbsoluteCaptureTimeHeaderExtension True (ra_header_extensions R AudioMedia)
           (ra_set_extensions_ok R))))
     @ opt_list (map_option SetCodecPreferences
         (snd (ConfigureAudioCodecPreferences True True (ra_audio_codecs R) (ra_set_codecs_ok R))))
     @ [SetParameters AudioMedia (audio_parameters cfg (ra_parameters R AudioMedia))]"

lemma AddLocalAudio_ok:
  assumes "AddLocalAudio R c = (True, d)"
  shows "pc_calls d = pc_calls c @ audio_calls R (pc_audio_encoding_config c)
    \<and> pc_audio_track d \<and> pc_audio_sender d \<and> pc_connection d
    \<and> pc_video_track d = pc_video_track c \<and> pc_video_sender d = pc_video_sender c
    \<and> pc_capture_source d = pc_capture_source c \<and> pc_id d = pc_id c"
proof -
  obtain ok codecs where cp: "ConfigureAudioCodecPreferences True True (ra_audio_codecs R)
      (ra_set_codecs_ok R) = (ok, codecs)" by (metis surj_pair)
  show ?thesis
    using assms unfolding AddLocalAudio_def Let_def
    by (auto simp: frame_simps cp audio_calls_def ConfigureAudioSenderParameters_def opt_list_def
        Let_def split: if_splits)
qed

lemma create_connection_ok:
  "create_connection R ice c = (True, d) \<Longrightarrow>
     d = (call (CreatePeerConnection (connection_config ice))
           (c\<lparr>pc_factory := True, pc_observer := True\<rparr>))\<lparr>pc_connection := True\<rparr>"
  by (auto simp: create_connection_def Let_def split: if_splits)

lemma capturer_Start_fields:
  "capturer_Start s = Inr t \<Longrightarrow> t = s\<lparr>cs_running := True, cs_cap_thread := Running\<rparr>"
  by (auto simp: capturer_Start_def bind_outcome_Inr thread_assign_def split: if_splits)

lemma Init_ok:
  assumes "Init R ice_servers c = Inr (True, d)"
    and "pc_capture_source c = None" "pc_file_source c = None"
  shows "pc_calls d = pc_calls c @ CreatePeerConnection (connection_config ice_servers)
        # video_calls R 12000000 @ audio_calls R (pc_audio_encoding_config c) @ [CreateOffer False]
    \<and> pc_connection d \<and> pc_video_sender d \<and> pc_audio_sender d \<and> pc_id d = pc_id c
    \<and> (\<exists>s. pc_capture_source d = Some s \<and> prepared_source s \<and> cs_running s \<and> cs_cap_thread s = Running)
    \<and> (\<forall>e rest. rp_encodings (ra_parameters R VideoMedia) = e # rest \<longrightarrow>
         (\<exists>p. SetParameters VideoMedia p \<in> set (pc_calls d)
            \<and> en_max_bitrate_bps (hd (rp_encodings p)) = Some 12000000))"
proof -
  obtain c1 c2 c3 c4 c5 where steps: "PrepareDesktopVideoSource R 30 c = (True, c1)"
    "create_audio_device R c1 = (True, c2)" "create_connection R ice_servers c2 = (True, c3)"
    "AddDesktopVideo R 30 2000000 c3 = Inr (True, c4)" "AddLocalAudio R c4 = (True, c5)"
    "CreateAndSendOffer False c5 = (True, d)"
    using assms(1) unfolding Init_def by (auto simp: and_then_True)
  obtain s f where c1: "c1 = c\<lparr>pc_capture_source := Some s, pc_file_source := Some f\<rparr>" "prepared_source s"
    using Prepare_fresh [OF steps(1) assms(2,3)] by blast
  obtain a env where c2: "c2 = c1\<lparr>pc_environment := env, pc_adm := a\<rparr>"
    using create_audio_device_fields [OF steps(2)] by blast
  note c3 = create_connection_ok [OF steps(3)]
  have src: "pc_capture_source c3 = Some s" by (simp add: c3 c2 c1 frame_simps)
  have bps: "max 2000000 kRecommended4kBitrateBps = 12000000" by (simp add: kRecommended4kBitrateBps_def)
  note v = AddDesktopVideo_ok [OF steps(4) src, unfolded bps] and l = AddLocalAudio_ok [OF steps(5)]
  have d: "d = call (CreateOffer False) c5"
    using steps(6) by (auto simp: CreateAndSendOffer_def split: if_splits)
  obtain t where t: "capturer_Start s = Inr t" "pc_capture_source c4 = Some t" using v by blast
  have calls: "pc_calls d = pc_calls c @ CreatePeerConnection (connection_config ice_servers)
      # video_calls R 12000000 @ audio_calls R (pc_audio_encoding_config c) @ [CreateOffer False]"
    using v l by (simp add: d frame_simps c3 c2 c1)
  have source: "\<exists>s. pc_capture_source d = Some s \<and> prepared_source s \<and> cs_running s \<and> cs_cap_thread s = Running"
    using capturer_Start_fields [OF t(1)] t(2) l c1(2) by (simp add: d frame_simps prepared_source_def)
  have "\<exists>p. SetParameters VideoMedia p \<in> set (pc_calls d)
      \<and> en_max_bitrate_bps (hd (rp_encodings p)) = Some 12000000"
    if "rp_encodings (ra_parameters R VideoMedia) = e # rest" for e rest
    using that by (intro exI [of _ "video_parameters 12000000 (ra_parameters R VideoMedia)"])
      (simp add: calls video_calls_def video_parameters_def update_first_def)
  with calls source v l show ?thesis by (simp add: d frame_simps c3 c2 c1)
qed

text \<open>
  C29. When \<^verbatim>\<open>Init\<close> succeeds on a new client, the calls on the connection are, in this order: its
  creation with the configuration and the usable ICE servers, the video transceiver and its
  parameters, the audio transceiver with its codecs and parameters, and the offer, exactly once; the desktop source runs
  with the 1920x1080 and 3840x2160 sizes, and the first video encoding is capped at 12 Mbit/s
  although the call asks for 2 Mbit/s.
\<close>

theorem init_call_sequence:
  assumes "Init R ice_servers c = Inr (True, d)"
    and "pc_capture_source c = None" "pc_file_source c = None"
  shows "pc_calls d = pc_calls c @ CreatePeerConnection (connection_config ice_servers)
        # video_calls R 12000000 @ audio_calls R (pc_audio_encoding_config c) @ [CreateOffer False]
    \<and> pc_connection d \<and> pc_video_sender d \<and> pc_audio_sender d \<and> pc_id d = pc_id c
    \<and> (\<exists>s. pc_capture_source d = Some s \<and> prepared_source s \<and> cs_running s \<and> cs_cap_thread s = Running)
    \<and> (\<forall>e rest. rp_encodings (ra_parameters R VideoMedia) = e # rest \<longrightarrow>
         (\<exists>p. SetParameters VideoMedia p \<in> set (pc_calls d)
            \<and> en_max_bitrate_bps (hd (rp_encodings p)) = Some 12000000))"
  using assms by (rule Init_ok)

definition demo_answers :: rtc_answers where
  "demo_answers = \<lparr>ra_build = linux_build, ra_popen = None,
     ra_screen_capturer = Some \<lparr>cp_source_list = None, cp_select_ok = (\<lambda>_. True)\<rparr>,
     ra_pulse_adm_ok = True, ra_default_adm_ok = True, ra_pa_simple_new = (\<lambda>_. 7),
     ra_builtin_audio_ready = True, ra_connection_ok = True, ra_video_track_ok = True,
     ra_audio_source_ok = True, ra_audio_track_ok = True, ra_transceiver_ok = (\<lambda>_. True),
     ra_header_extensions = (\<lambda>_. []), ra_set_extensions_ok = (\<lambda>_. True), ra_audio_codecs = [],
     ra_set_codecs_ok = (\<lambda>_. True),
     ra_parameters = (\<lambda>_. \<lparr>rp_encodings = [new_encoding], rp_degradation_preference = DegradationUnset\<rparr>),
     ra_set_parameters_ok = (\<lambda>_ _. True)\<rparr>"

definition demo_client :: push_client where
  "demo_client = new_push_client ''s1'' (\<lambda>_. None)"

lemma demo_init_ok: "\<exists>d. Init demo_answers [] demo_client = Inr (True, d)"
proof -
  have fields: "ra_build demo_answers = linux_build" "ra_popen demo_answers = None"
    "ra_connection_ok demo_answers" "ra_video_track_ok demo_answers" "ra_audio_source_ok demo_answers"
    "ra_audio_track_ok demo_answers" "ra_transceiver_ok demo_answers = (\<lambda>_. True)"
    "ra_header_extensions demo_answers = (\<lambda>_. [])" "ra_audio_codecs demo_answers = []"
    "ra_set_parameters_ok demo_answers = (\<lambda>_ _. True)" "ra_pa_simple_new demo_answers = (\<lambda>_. 7)"
    "ra_screen_capturer demo_answers = Some \<lparr>cp_source_list = None, cp_select_ok = (\<lambda>_. True)\<rparr>"
    by (simp_all add: demo_answers_def)
  obtain c1 where c1: "PrepareDesktopVideoSource demo_answers 30 demo_client = (True, c1)"
    by (simp add: PrepareDesktopVideoSource_def demo_client_def new_push_client_def fields
        CapturerTrackSource_Create_def SelectDefaultSourceIfNeeded_def SetOutputResolution_def
        FileVideoTrackSource_Create_def Let_def)
  have none: "pc_capture_source demo_client = None" "pc_file_source demo_client = None"
    "pc_environment demo_client = (\<lambda>_. None)"
    by (simp_all add: demo_client_def new_push_client_def)
  obtain s f where s: "c1 = demo_client\<lparr>pc_capture_source := Some s, pc_file_source := Some f\<rparr>"
    "cs_cap_thread s = NotJoinable"
    using Prepare_fresh [OF c1 none(1,2)] by blast
  obtain c2 where c2: "create_audio_device demo_answers c1 = (True, c2)"
    by (simp add: create_audio_device_def s none fields CreatePlatformAudioDeviceModule_def
        linux_build_def OverridePulseSourceWithMonitorIfAvailable_def env_nonempty_def
        DetectPulseMonitorSourceName_def pulse_configure adm_Create_def adm_new_def adm_Init_def
        InitRecording_def OpenPulseStreamLocked_def)
  obtain a env where c2': "c2 = c1\<lparr>pc_environment := env, pc_adm := a\<rparr>"
    using create_audio_device_fields [OF c2] by blast
  obtain c3 where c3: "create_connection demo_answers [] c2 = (True, c3)"
    by (simp add: create_connection_def fields)
  note c3' = create_connection_ok [OF c3]
  have c3s: "pc_capture_source c3 = Some s" "pc_factory c3" "pc_connection c3"
    by (simp_all add: c3' c2' s frame_simps)
  have prep: "PrepareDesktopVideoSource demo_answers 30 c3 = (True, c3)"
    by (rule Prepare_again) (simp add: c3s)
  obtain c4 where c4: "AddDesktopVideo demo_answers 30 2000000 c3 = Inr (True, c4)"
    by (simp add: AddDesktopVideo_def c3s prep fields Let_def frame_simps capturer_Start_def s(2)
        kRecommended4kBitrateBps_def)
  have c4s: "pc_factory c4" "pc_connection c4" using AddDesktopVideo_ok [OF c4 c3s(1)] c3s by auto
  obtain c5 where c5: "AddLocalAudio demo_answers c4 = (True, c5)"
    by (simp add: AddLocalAudio_def c4s fields Let_def frame_simps ConfigureAudioCodecPreferences_def
        ConfigureAudioSenderParameters_def split: prod.split)
  have "pc_connection c5" using AddLocalAudio_ok [OF c5] by simp
  then show ?thesis
    by (simp add: Init_def and_then_def c1 c2 c3 c4 c5 CreateAndSendOffer_def)
qed

theorem init_call_sequence_witness:
  "\<exists>d. Init demo_answers [] demo_client = Inr (True, d)
     \<and> last (pc_calls d) = CreateOffer False \<and> hd (pc_calls d) = CreatePeerConnection (connection_config [])
     \<and> rc_servers (connection_config []) = [default_stun]"
proof -
  obtain d where d: "Init demo_answers [] demo_client = Inr (True, d)" using demo_init_ok by blast
  have "pc_capture_source demo_client = None" "pc_file_source demo_client = None" "pc_calls demo_client = []"
    by (simp_all add: demo_client_def new_push_client_def)
  with init_call_sequence [OF d] d show ?thesis by (simp add: connection_config_def configured_ice_servers_def)
qed

subsection \<open>Failure and destruction\<close>

text \<open>
  What holds of a client in every state, and what holds in addition until WebRTC starts the device
  module: there is no capture thread.
\<close>

definition client_inv :: "push_client \<Rightarrow> bool" where
  "client_inv c \<longleftrightarrow> stats_inv (pc_stats c)
     \<and> (\<forall>f. pc_file_source c = Some f \<longrightarrow> file_inv f)
     \<and> (\<forall>a. pc_adm c = Some (LoopbackAdm a) \<longrightarrow> adm_wf a)"

definition client_idle :: "push_client \<Rightarrow> bool" where
  "client_idle c \<longleftrightarrow> client_inv c
     \<and> (\<forall>a. pc_adm c = Some (LoopbackAdm a) \<longrightarrow> ad_capture_thread a = NotJoinable)"

lemma idle_inv: "client_idle c \<Longrightarrow> client_inv c"
  by (simp add: client_idle_def)

lemma idle_not_lost: "client_idle c \<Longrightarrow> \<not> audio_lost c"
  by (cases "pc_adm c" rule: adm_lost.cases) (auto simp: client_idle_def audio_lost_def)

lemma destroy_adm_result:
  assumes "\<And>a. m = Some (LoopbackAdm a) \<Longrightarrow> adm_wf a"
  shows "destroy_adm i m = (if adm_lost m then Inl StdTerminate else Inr ())"
proof (cases m rule: adm_lost.cases)
  case (1 a)
  have wf: "adm_wf a" by (rule assms [OF 1])
  from adm_destroy_safe_iff [OF wf, of i] 1 show ?thesis by (auto simp: destroy_adm_def)
qed (simp_all add: destroy_adm_def)

lemma client_inv_destroy:
  assumes inv: "client_inv c"
  shows "client_destroy i c = (if audio_lost c then Inl StdTerminate else Inr ())"
proof -
  obtain st where "StopRtpSendStatsPolling (pc_stats c) = Inr st"
    using inv stats_thread.stop_ok [of "pc_stats c"] by (auto simp: client_inv_def)
  moreover have "destroy_adm i (pc_adm c) = (if audio_lost c then Inl StdTerminate else Inr ())"
    unfolding audio_lost_def using inv by (intro destroy_adm_result) (simp add: client_inv_def)
  moreover have "(case pc_file_source c of None \<Rightarrow> Inr () | Some f \<Rightarrow> file_destroy f) = Inr ()"
    using inv by (auto simp: client_inv_def file_destroy_def file_Stop_def file_inv_def split: option.split)
  moreover have "(case pc_capture_source c of None \<Rightarrow> Inr () | Some s \<Rightarrow> capturer_destroy s) = Inr ()"
    by (simp add: capturer_destroy_def Let_def split: option.split)
  ultimately show ?thesis by (simp add: client_destroy_def)
qed

lemma client_idle_destroy: "client_idle c \<Longrightarrow> client_destroy i c = Inr ()"
  using client_inv_destroy [OF idle_inv, of c i] idle_not_lost [of c] by simp

definition result_idle :: "client_result \<Rightarrow> bool" where
  "result_idle r \<longleftrightarrow> (\<forall>ok c. r = Inr (ok, c) \<longrightarrow> client_idle c)"

lemma result_idle_and_then:
  "result_idle r \<Longrightarrow> (\<And>c. client_idle c \<Longrightarrow> r = Inr (True, c) \<Longrightarrow> result_idle (f c)) \<Longrightarrow> result_idle (and_then r f)"
  by (cases r) (auto simp: result_idle_def and_then_def split: if_splits)

lemmas idle_defs = client_idle_def client_inv_def

lemma inv_call [simp]: "client_inv (call x c) = client_inv c" "client_inv (call_opt y c) = client_inv c"
  by (simp_all add: client_inv_def frame_simps)

lemma idle_call [simp]: "client_idle (call x c) = client_idle c" "client_idle (call_opt y c) = client_idle c"
  by (simp_all add: idle_defs frame_simps)

lemma idle_Prepare: "client_idle c \<Longrightarrow> client_idle (snd (PrepareDesktopVideoSource R fps c))"
  by (auto simp: idle_defs PrepareDesktopVideoSource_def Let_def file_inv_def
      FileVideoTrackSource_Create_def split: option.split)

lemma configured_adm:
  "adm_wf (snd (InitRecording g (snd (adm_Init (adm_Create src)))))"
  "ad_capture_thread (snd (InitRecording g (snd (adm_Init (adm_Create src))))) = NotJoinable"
proof -
  have "adm_wf (snd (adm_Init (adm_Create src)))"
    using wf_adm_step [OF wf_adm_new [of src 48000 2], of AdmInit] by (simp add: adm_Create_def)
  then show "adm_wf (snd (InitRecording g (snd (adm_Init (adm_Create src)))))" by (rule wf_InitRecording)
  show "ad_capture_thread (snd (InitRecording g (snd (adm_Init (adm_Create src))))) = NotJoinable"
    by (simp add: InitRecording_def adm_Init_def adm_Create_def adm_new_def OpenPulseStreamLocked_def Let_def
        split: bool.split)
qed

lemma idle_audio_device: "client_idle c \<Longrightarrow> client_idle (snd (create_audio_device R c))"
  by (auto simp: idle_defs create_audio_device_def pulse_configure configured_adm Let_def
      split: prod.split option.split adm_choice.split)

lemma idle_connection: "client_idle c \<Longrightarrow> client_idle (snd (create_connection R ice c))"
  by (simp add: create_connection_def Let_def idle_defs frame_simps)

lemma idle_AddDesktopVideo: "client_idle c \<Longrightarrow> result_idle (AddDesktopVideo R fps br c)"
proof -
  assume idle: "client_idle c"
  obtain ok c1 where p: "PrepareDesktopVideoSource R fps c = (ok, c1)" by (metis surj_pair)
  with idle_Prepare [OF idle, of R fps] have c1: "client_idle c1" by simp
  show ?thesis
    using idle c1
    by (auto simp: result_idle_def AddDesktopVideo_def p Let_def bind_outcome_Inr idle_defs frame_simps
        split: bool.splits if_splits option.splits)
qed

lemma idle_AddLocalAudio: "client_idle c \<Longrightarrow> client_idle (snd (AddLocalAudio R c))"
  by (auto simp: AddLocalAudio_def Let_def idle_defs frame_simps split: prod.split)

lemma result_idle_Inr: "result_idle (Inr p) = client_idle (snd p)"
  by (cases p) (simp add: result_idle_def)

lemma idle_Init: "client_idle c \<Longrightarrow> result_idle (Init R ice c)"
  unfolding Init_def
  by (intro result_idle_and_then)
    (auto simp: result_idle_Inr CreateAndSendOffer_def
      intro: idle_Prepare idle_audio_device idle_connection idle_AddDesktopVideo idle_AddLocalAudio)

lemma idle_new_client: "client_idle (new_push_client cid env)"
  by (simp add: idle_defs new_push_client_def stats_inv_def init_stats_def)

lemma Init_idle: "Init R ice (new_push_client cid env) = Inr (ok, c) \<Longrightarrow> client_idle c"
  using idle_Init [OF idle_new_client, of R ice cid env] by (simp add: result_idle_def)

text \<open>The events keep the invariant; the only abort is the second start of a module that was lost.\<close>

lemma client_connection_inv:
  assumes "client_inv c"
  shows "\<exists>st. client_step (ClientConnection s) c = Inr (c\<lparr>pc_stats := st\<rparr>) \<and> client_inv (c\<lparr>pc_stats := st\<rparr>)"
proof -
  have "stats_inv (pc_stats c)" using assms by (simp add: client_inv_def)
  then obtain st where "OnConnectionChange (pc_observer c) s (pc_stats c) = Inr st" "stats_inv st"
    using OnConnectionChange_spec [of "pc_stats c" s] by (cases "pc_observer c") (auto simp: OnConnectionChange_def)
  with assms show ?thesis by (auto simp: client_inv_def)
qed

lemma adm_step_abort:
  assumes "adm_wf a" "adm_step ev a = Inl e"
  shows "e = StdTerminate \<and> ad_capture_thread a = Finished \<and> (\<exists>s. ev = AdmStartRecording s)"
proof -
  obtain s where s: "ev = AdmStartRecording s" using assms(2) by (cases ev) auto
  with assms(2) have start: "StartRecording (\<lambda>_. s) a = Inl e" by (auto simp: bind_outcome_def split: sum.splits)
  obtain rc b where b: "(if ad_recording_initialized a then (0, a) else InitRecording (\<lambda>_. s) a) = (rc, b)"
    by fastforce
  have same: "ad_capture_thread b = ad_capture_thread a" "ad_recording b = ad_recording a"
    using b InitRecording_result(3,4) [OF assms(1)] by (auto split: if_splits)
  from start b have "\<not> ad_recording b" "joinable (ad_capture_thread b)"
    by (auto simp: StartRecording_def bind_outcome_def thread_assign_def Let_def split: if_splits sum.splits)
  with same assms(1) have "ad_capture_thread a = Finished"
    by (cases "ad_capture_thread a") (simp_all add: adm_wf_def)
  with s StartRecording_abort [OF start] show ?thesis by blast
qed

lemma capture_exit_only:
  assumes "adm_wf a" "adm_step ev a = Inr b" "ad_capture_thread b = Finished"
  shows "ad_capture_thread a = Finished \<or> (\<exists>e. ev = AdmCaptureTick e)"
  using assms
  by (cases ev)
    (auto simp: adm_Init_def Terminate_def StopRecording_effect RegisterAudioCallback_def SetStereoRecording_def
      bind_outcome_Inr StartRecording_def Let_def InitRecording_def OpenPulseStreamLocked_def thread_assign_def
      split: if_splits prod.splits bool.splits)

lemma client_step_inv:
  assumes "client_inv c"
  shows "case client_step ev c of
      Inl e \<Rightarrow> e = StdTerminate \<and> audio_lost c \<and> (\<exists>s. ev = ClientAudio (AdmStartRecording s))
    | Inr d \<Rightarrow> client_inv d \<and> pc_id d = pc_id c \<and> pc_connection d = pc_connection c
        \<and> (audio_lost d \<longrightarrow> audio_lost c \<or> (\<exists>e. ev = ClientAudio (AdmCaptureTick e)))"
proof (cases ev)
  case (ClientConnection s)
  with client_connection_inv [OF assms, of s] show ?thesis by (auto simp: audio_lost_def)
next
  case (ClientAudio x)
  show ?thesis
  proof (cases "pc_adm c" rule: adm_lost.cases)
    case (1 a)
    have wf: "adm_wf a" using assms 1 by (simp add: client_inv_def)
    show ?thesis
    proof (cases "adm_step x a")
      case (Inl e)
      with ClientAudio 1 adm_step_abort [OF wf Inl] show ?thesis by (simp add: client_audio_def audio_lost_def)
    next
      case (Inr b)
      have "adm_wf b" using wf_adm_step [OF wf, of x] Inr by simp
      with assms ClientAudio 1 Inr capture_exit_only [OF wf Inr] show ?thesis
        by (auto simp: client_audio_def client_inv_def audio_lost_def)
    qed
  qed (use assms ClientAudio in \<open>simp_all add: client_audio_def\<close>)
qed

lemma client_events_inv:
  assumes "client_inv c"
  shows "case client_events evs c of
      Inl e \<Rightarrow> e = StdTerminate \<and> (\<exists>xs s ys d. evs = xs @ ClientAudio (AdmStartRecording s) # ys
        \<and> client_events xs c = Inr d \<and> audio_lost d)
    | Inr d \<Rightarrow> client_inv d \<and> (audio_lost d \<longrightarrow> audio_lost c \<or> (\<exists>e. ClientAudio (AdmCaptureTick e) \<in> set evs))"
  using assms
proof (induction evs arbitrary: c)
  case Nil
  then show ?case by simp
next
  case (Cons ev evs)
  note step = client_step_inv [OF Cons.prems, of ev]
  show ?case
  proof (cases "client_step ev c")
    case (Inl e)
    with step obtain s where "ev = ClientAudio (AdmStartRecording s)" "e = StdTerminate" "audio_lost c" by auto
    with Inl show ?thesis by (auto intro!: exI [of _ "[]"])
  next
    case (Inr d)
    with step have d: "client_inv d" "audio_lost d \<longrightarrow> audio_lost c \<or> (\<exists>e. ev = ClientAudio (AdmCaptureTick e))"
      by simp_all
    note rest = Cons.IH [OF d(1)]
    show ?thesis
    proof (cases "client_events evs d")
      case (Inl e)
      with rest obtain xs s ys u where "e = StdTerminate" "evs = xs @ ClientAudio (AdmStartRecording s) # ys"
        "client_events xs d = Inr u" "audio_lost u" by auto
      then show ?thesis using Inr Inl by (auto intro!: exI [of _ "ev # xs"])
    next
      case (Inr u)
      with rest d(2) \<open>client_step ev c = Inr d\<close> show ?thesis by auto
    qed
  qed
qed

text \<open>
  C30. Take a new client, however \<^verbatim>\<open>Init\<close> ended on it, and let WebRTC report any connection states
  and drive the device module in any way. If that aborts the process, WebRTC started a module again
  whose capture thread had ended on its own. Otherwise the destructor joins and releases the polling
  thread, the sources and the module, and ends in \<^verbatim>\<open>std::terminate\<close> exactly when the capture thread
  has ended on its own; before the first capture pass that cannot be.
\<close>

theorem init_then_destroy_safe:
  assumes "Init R ice_servers (new_push_client cid env) = Inr (ok, c)"
  shows "case client_events evs c of
      Inl e \<Rightarrow> e = StdTerminate \<and> (\<exists>xs s ys d. evs = xs @ ClientAudio (AdmStartRecording s) # ys
        \<and> client_events xs c = Inr d \<and> audio_lost d)
    | Inr d \<Rightarrow> client_destroy inflight d = (if audio_lost d then Inl StdTerminate else Inr ())
        \<and> (audio_lost d \<longrightarrow> (\<exists>e. ClientAudio (AdmCaptureTick e) \<in> set evs))"
proof -
  have idle: "client_idle c" by (rule Init_idle [OF assms])
  from client_events_inv [OF idle_inv [OF idle], of evs] idle_not_lost [OF idle] client_inv_destroy
  show ?thesis by (auto split: sum.splits)
qed

text \<open>A read error in the first capture pass of a client whose module was started.\<close>

definition lossy_events :: "client_event list" where
  "lossy_events = [ClientConnection kConnected, ClientAudio (AdmRegisterCallback 9),
     ClientAudio (AdmStartRecording 7), ClientAudio (AdmCaptureTick (demo_env\<lparr>ce_read := - 1\<rparr>))]"

lemma demo_lossy:
  "case Init demo_answers [] demo_client of
     Inl e \<Rightarrow> False
   | Inr (ok, c) \<Rightarrow> ok \<and> (case client_events lossy_events c of Inl e \<Rightarrow> False | Inr d \<Rightarrow> audio_lost d)"
  by code_simp

theorem init_then_destroy_safe_witness:
  "\<exists>c d. Init demo_answers [] demo_client = Inr (True, c) \<and> client_events lossy_events c = Inr d
     \<and> client_destroy None d = Inl StdTerminate"
proof -
  obtain c d where c: "Init demo_answers [] demo_client = Inr (True, c)" "client_events lossy_events c = Inr d"
    "audio_lost d"
    using demo_lossy by (cases "Init demo_answers [] demo_client")
      (auto simp del: client_events.simps split: sum.splits prod.splits, metis sum.exhaust)
  from init_then_destroy_safe [OF c(1) [unfolded demo_client_def], of lossy_events None] c show ?thesis by auto
qed

text \<open>
  A client cannot be initialised twice: after a successful \<^verbatim>\<open>Init\<close> no further one succeeds, and
  once it gets as far as starting the desktop source again it aborts the process, because the
  source's running thread is assigned over.
\<close>

theorem second_init_aborts:
  assumes "Init R ice_servers (new_push_client cid env) = Inr (True, c)"
  shows "(\<nexists>d. Init R2 ice_servers2 c = Inr (True, d))
    \<and> (0 < br \<and> br \<le> kRecommended4kBitrateBps \<longrightarrow> AddDesktopVideo R fps br c = Inl StdTerminate)"
proof -
  have fresh: "pc_capture_source (new_push_client cid env) = None"
    "pc_file_source (new_push_client cid env) = None"
    by (simp_all add: new_push_client_def)
  obtain c1 c2 c3 c4 c5 where steps: "PrepareDesktopVideoSource R 30 (new_push_client cid env) = (True, c1)"
    "create_audio_device R c1 = (True, c2)" "create_connection R ice_servers c2 = (True, c3)"
    "AddDesktopVideo R 30 2000000 c3 = Inr (True, c4)" "AddLocalAudio R c4 = (True, c5)"
    "CreateAndSendOffer False c5 = (True, c)"
    using assms unfolding Init_def by (auto simp: and_then_True)
  obtain s f where c1: "c1 = (new_push_client cid env)\<lparr>pc_capture_source := Some s, pc_file_source := Some f\<rparr>"
    using Prepare_fresh [OF steps(1) fresh] by blast
  obtain a e where c2: "c2 = c1\<lparr>pc_environment := e, pc_adm := a\<rparr>"
    using create_audio_device_fields [OF steps(2)] by blast
  have src3: "pc_capture_source c3 = Some s"
    by (simp add: create_connection_ok [OF steps(3)] c2 c1 frame_simps)
  obtain t where t: "capturer_Start s = Inr t" "pc_capture_source c4 = Some t"
    using AddDesktopVideo_ok [OF steps(4) src3] by blast
  have c: "c = call (CreateOffer False) c5"
    using steps(6) by (auto simp: CreateAndSendOffer_def split: if_splits)
  have src: "pc_capture_source c = Some t" "cs_cap_thread t = Running"
    using AddLocalAudio_ok [OF steps(5)] t capturer_Start_fields [OF t(1)] by (simp_all add: c frame_simps)
  have "Init R2 ice_servers2 c \<noteq> Inr (True, d)" for d
  proof
    assume "Init R2 ice_servers2 c = Inr (True, d)"
    then obtain d1 d2 d3 d4 where d: "PrepareDesktopVideoSource R2 30 c = (True, d1)"
      "create_audio_device R2 d1 = (True, d2)" "create_connection R2 ice_servers2 d2 = (True, d3)"
      "AddDesktopVideo R2 30 2000000 d3 = Inr (True, d4)"
      unfolding Init_def by (auto simp: and_then_True)
    have "d1 = c" using d(1) Prepare_again [of c R2 30] src(1) by simp
    moreover obtain a e where "d2 = d1\<lparr>pc_environment := e, pc_adm := a\<rparr>"
      using create_audio_device_fields [OF d(2)] by blast
    ultimately have "pc_capture_source d3 = Some t"
      by (simp add: create_connection_ok [OF d(3)] src(1) frame_simps)
    from AddDesktopVideo_ok [OF d(4) this] src(2) show False by simp
  qed
  moreover have "AddDesktopVideo R fps br c = Inl StdTerminate"
    if "0 < br" "br \<le> kRecommended4kBitrateBps"
  proof -
    have m: "max br kRecommended4kBitrateBps = max 2000000 kRecommended4kBitrateBps"
      using that by (simp add: kRecommended4kBitrateBps_def)
    have ok: "ra_video_track_ok R" "ra_transceiver_ok R VideoMedia"
      "ra_set_parameters_ok R VideoMedia (video_parameters (max 2000000 kRecommended4kBitrateBps)
         (ra_parameters R VideoMedia))"
      using steps(4) Prepare_again [of c3 R 30] src3
      by (auto simp: AddDesktopVideo_def Let_def kRecommended4kBitrateBps_def split: if_splits)
    have flags: "pc_factory c" "pc_connection c"
      using AddLocalAudio_ok [OF steps(5)] steps(5)
      by (auto simp: c frame_simps AddLocalAudio_def Let_def split: if_splits prod.splits)
    show ?thesis
      using Prepare_again [of c R fps] src flags ok unfolding AddDesktopVideo_def m
      by (simp add: Let_def frame_simps capturer_Start_def)
  qed
  ultimately show ?thesis by blast
qed

theorem second_init_aborts_witness:
  "\<exists>c. Init demo_answers [] demo_client = Inr (True, c)
     \<and> AddDesktopVideo demo_answers 30 2000000 c = Inl StdTerminate"
proof -
  obtain c where c: "Init demo_answers [] demo_client = Inr (True, c)" using demo_init_ok by blast
  have "(0::int) < 2000000 \<and> 2000000 \<le> kRecommended4kBitrateBps" by (simp add: kRecommended4kBitrateBps_def)
  with second_init_aborts [OF c [unfolded demo_client_def], where br = 2000000 and fps = 30] c
  show ?thesis by blast
qed

text \<open>
  A remote candidate is accepted with or without the \<^verbatim>\<open>a=\<close> prefix, which is removed once; it
  reaches the connection only if it parses, with its index and mid unchanged, and nothing reaches
  a client without a connection. An answer is applied only if it parses.
\<close>

theorem remote_negotiation:
  "(\<not> is_prefix ''a='' cand \<longrightarrow>
      AddRemoteIce parse_ok accept (''a='' @ cand) idx mid c = AddRemoteIce parse_ok accept cand idx mid c)
   \<and> (pc_connection c \<and> parse_ok (normalized_candidate cand) \<longrightarrow>
        AddRemoteIce parse_ok accept cand idx mid c =
          (accept mid idx (normalized_candidate cand),
           call (AddIceCandidate mid idx (normalized_candidate cand)) c))
   \<and> (\<not> (pc_connection c \<and> parse_ok (normalized_candidate cand)) \<longrightarrow>
        AddRemoteIce parse_ok accept cand idx mid c = (False, c))
   \<and> SetRemoteAnswer sdp_ok sdp c =
        (if pc_connection c \<and> sdp_ok sdp then (True, call (SetRemoteDescription sdp) c) else (False, c))"
proof -
  have "normalized_candidate (''a='' @ cand) = normalized_candidate cand" if "\<not> is_prefix ''a='' cand"
    using that by (simp add: normalized_candidate_def)
  then show ?thesis by (auto simp: AddRemoteIce_def SetRemoteAnswer_def Let_def)
qed

theorem remote_negotiation_witness:
  "AddRemoteIce (\<lambda>s. s = ''candidate:1'') (\<lambda>_ _ _. True) ''a=candidate:1'' 0 ''0''
       (demo_client\<lparr>pc_connection := True\<rparr>)
     = (True, call (AddIceCandidate ''0'' 0 ''candidate:1'') (demo_client\<lparr>pc_connection := True\<rparr>))"
  using remote_negotiation [where cand = "''candidate:1''" and parse_ok = "\<lambda>s. s = ''candidate:1''"
      and accept = "\<lambda>_ _ _. True" and idx = 0 and mid = "''0''" and c = "demo_client\<lparr>pc_connection := True\<rparr>"]
  by (simp add: normalized_candidate_def)

end
