(* ===== verification/NJson.thy ===== *)
theory NJson
  imports Threads "HOL-Library.AList"
begin

text \<open>
  The part of the bundled JSON library (\<^verbatim>\<open>3rd/include/nlohmann\<close>) the sender reads messages with:
  the value type, lookup of a key, the typed access \<^verbatim>\<open>value(key, default)\<close> and the conversions it
  calls, with their exceptions as values. A floating-point number is kept as the text it was
  read from; its truncation to an integer is an argument.
\<close>

subsection \<open>Values\<close>

text \<open>
  \<open>JInteger\<close> holds the two's complement pattern of the signed 64-bit number. An object is the
  association list of a \<^verbatim>\<open>std::map\<close>.
\<close>

datatype json =
    JNull
  | JBool bool
  | JUnsigned u64
  | JInteger u64
  | JFloat string
  | JString string
  | JArray "json list"
  | JObject "(string \<times> json) list"

fun type_name :: "json \<Rightarrow> string" where
  "type_name JNull = ''null''"
| "type_name (JObject m) = ''object''"
| "type_name (JArray a) = ''array''"
| "type_name (JString s) = ''string''"
| "type_name (JBool b) = ''boolean''"
| "type_name (JInteger i) = ''number''"
| "type_name (JUnsigned u) = ''number''"
| "type_name (JFloat f) = ''number''"

fun is_object :: "json \<Rightarrow> bool" where
  "is_object (JObject m) = True"
| "is_object j = False"

fun json_find :: "string \<Rightarrow> json \<Rightarrow> json option" where
  "json_find key (JObject m) = map_of m key"
| "json_find key j = None"

subsection \<open>Conversions\<close>

text \<open>Exceptions carry the library's number and text.\<close>

datatype json_error = type_error nat string | parse_error nat | out_of_range nat | other_error nat

fun from_json_string :: "json \<Rightarrow> json_error + string" where
  "from_json_string (JString s) = Inr s"
| "from_json_string j = Inl (type_error 302 (''type must be string, but is '' @ type_name j))"

definition to_int32 :: "int \<Rightarrow> int" where
  "to_int32 i = signed_take_bit 31 i"

fun from_json_int :: "(string \<Rightarrow> int) \<Rightarrow> json \<Rightarrow> json_error + int" where
  "from_json_int trunc (JUnsigned u) = Inr (to_int32 (uint u))"
| "from_json_int trunc (JInteger i) = Inr (to_int32 (sint i))"
| "from_json_int trunc (JFloat f) = Inr (trunc f)"
| "from_json_int trunc (JBool b) = Inr (if b then 1 else 0)"
| "from_json_int trunc j = Inl (type_error 302 (''type must be number, but is '' @ type_name j))"

text \<open>\<^verbatim>\<open>j.value(key, default)\<close>, with the conversion to the default's type.\<close>

definition json_value :: "(json \<Rightarrow> json_error + 'a) \<Rightarrow> json \<Rightarrow> string \<Rightarrow> 'a \<Rightarrow> json_error + 'a" where
  "json_value conv j key default_value =
     (if is_object j
      then (case json_find key j of Some v \<Rightarrow> conv v | None \<Rightarrow> Inr default_value)
      else Inl (type_error 306 (''cannot use value() with '' @ type_name j)))"

subsection \<open>When the typed access throws\<close>

definition field_is :: "(json \<Rightarrow> bool) \<Rightarrow> json \<Rightarrow> string \<Rightarrow> bool" where
  "field_is P j key \<longleftrightarrow> (case json_find key j of None \<Rightarrow> True | Some v \<Rightarrow> P v)"

fun is_string :: "json \<Rightarrow> bool" where
  "is_string (JString s) = True"
| "is_string j = False"

fun is_numeric :: "json \<Rightarrow> bool" where
  "is_numeric (JUnsigned u) = True"
| "is_numeric (JInteger i) = True"
| "is_numeric (JFloat f) = True"
| "is_numeric (JBool b) = True"
| "is_numeric j = False"

lemma from_json_string_ok: "(\<exists>s. from_json_string j = Inr s) \<longleftrightarrow> is_string j"
  by (cases j) auto

lemma from_json_int_ok: "(\<exists>i. from_json_int trunc j = Inr i) \<longleftrightarrow> is_numeric j"
  by (cases j) auto

lemma json_value_string_ok:
  "(\<exists>s. json_value from_json_string j key d = Inr s) \<longleftrightarrow> is_object j \<and> field_is is_string j key"
  using from_json_string_ok by (auto simp: json_value_def field_is_def split: option.splits)

lemma json_value_int_ok:
  "(\<exists>i. json_value (from_json_int trunc) j key d = Inr i) \<longleftrightarrow> is_object j \<and> field_is is_numeric j key"
  using from_json_int_ok [of trunc] by (auto simp: json_value_def field_is_def split: option.splits)

lemma to_int32_range: "int32_range (to_int32 i)"
proof -
  have "signed_take_bit 31 i < 2 ^ 31" by (rule signed_take_bit_int_less_exp)
  moreover have "- (2 ^ 31) \<le> signed_take_bit 31 i" by (rule signed_take_bit_int_greater_eq_minus_exp)
  ultimately show ?thesis by (simp add: to_int32_def int32_range_def)
qed

lemma to_int32_id: "int32_range i \<Longrightarrow> to_int32 i = i"
  by (simp add: to_int32_def int32_range_def signed_take_bit_int_eq_self)

end
