(* ===== verification/NLexer.thy ===== *)
theory NLexer
  imports NJson "HOL-Library.List_Lexorder" "HOL-Library.Char_ord"
begin

text \<open>
  The lexer of the bundled JSON library (\<^verbatim>\<open>3rd/include/nlohmann/detail/input/lexer.hpp\<close>), on an
  input that is a list of bytes. Every scanning function takes the input that is left and
  returns what it read and the input left behind it, so \<open>[]\<close> is the end of the file and a
  character that the code reads and then ungets is simply not consumed. An error carries the
  lexer's message. Positions, which only enter the text of the exceptions, are not kept.
\<close>

subsection \<open>Tokens\<close>

text \<open>The token types, with the value the lexer keeps for the parser.\<close>

datatype token =
    LiteralTrue | LiteralFalse | LiteralNull
  | ValueString string
  | ValueUnsigned u64
  | ValueInteger u64
  | ValueFloat string
  | BeginArray | BeginObject | EndArray | EndObject
  | NameSeparator | ValueSeparator
  | ParseError string
  | EndOfInput

abbreviation byte :: "char \<Rightarrow> int" where
  "byte c \<equiv> of_char c"

abbreviation byte_char :: "int \<Rightarrow> char" where
  "byte_char n \<equiv> char_of n"

subsection \<open>Unicode escapes\<close>

text \<open>\<^verbatim>\<open>get_codepoint\<close>: four hexadecimal digits, added up from the most significant one.\<close>

definition hex_digit :: "char \<Rightarrow> int option" where
  "hex_digit c =
     (if byte c \<ge> byte (CHR ''0'') \<and> byte c \<le> byte (CHR ''9'') then Some (byte c - 0x30)
      else if byte c \<ge> byte (CHR ''A'') \<and> byte c \<le> byte (CHR ''F'') then Some (byte c - 0x37)
      else if byte c \<ge> byte (CHR ''a'') \<and> byte c \<le> byte (CHR ''f'') then Some (byte c - 0x57)
      else None)"

fun codepoint_digits :: "nat list \<Rightarrow> int \<Rightarrow> string \<Rightarrow> (int \<times> string) option" where
  "codepoint_digits [] codepoint s = Some (codepoint, s)"
| "codepoint_digits (factor # factors) codepoint [] = None"
| "codepoint_digits (factor # factors) codepoint (c # s) =
     (case hex_digit c of
        None \<Rightarrow> None
      | Some d \<Rightarrow> codepoint_digits factors (codepoint + push_bit factor d) s)"

definition get_codepoint :: "string \<Rightarrow> (int \<times> string) option" where
  "get_codepoint s = codepoint_digits [12, 8, 4, 0] 0 s"

text \<open>The code point of a surrogate pair, in the code's unsigned 32-bit arithmetic.\<close>

definition surrogate_pair :: "int \<Rightarrow> int \<Rightarrow> int" where
  "surrogate_pair codepoint1 codepoint2 =
     uint (push_bit 10 (word_of_int codepoint1) + word_of_int codepoint2 - (0x35FDC00 :: u32))"

text \<open>The translation of a code point into bytes.\<close>

unbundle bit_operations_syntax

definition utf8_bytes :: "int \<Rightarrow> int list" where
  "utf8_bytes codepoint =
     (if codepoint < 0x80 then [codepoint]
      else if codepoint \<le> 0x7FF
      then [0xC0 OR drop_bit 6 codepoint, 0x80 OR (codepoint AND 0x3F)]
      else if codepoint \<le> 0xFFFF
      then [0xE0 OR drop_bit 12 codepoint, 0x80 OR (drop_bit 6 codepoint AND 0x3F),
            0x80 OR (codepoint AND 0x3F)]
      else [0xF0 OR drop_bit 18 codepoint, 0x80 OR (drop_bit 12 codepoint AND 0x3F),
            0x80 OR (drop_bit 6 codepoint AND 0x3F), 0x80 OR (codepoint AND 0x3F)])"

definition add_codepoint :: "int \<Rightarrow> string" where
  "add_codepoint codepoint = map byte_char (utf8_bytes codepoint)"

text \<open>The messages of \<^verbatim>\<open>scan_string\<close>.\<close>

definition text_hex_digits :: string where
  "text_hex_digits = ''invalid string: '' @ CHR 0x27 # CHR 0x5C # ''u'' @ CHR 0x27 # '' must be followed by 4 hex digits''"

definition text_high_surrogate :: string where
  "text_high_surrogate = ''invalid string: surrogate U+D800..U+DBFF must be followed by U+DC00..U+DFFF''"

definition text_low_surrogate :: string where
  "text_low_surrogate = ''invalid string: surrogate U+DC00..U+DFFF must follow U+D800..U+DBFF''"

text \<open>The case for \<^verbatim>\<open>u\<close> after a backslash: the bytes added, and the input left.\<close>

fun low_surrogate :: "int \<Rightarrow> string \<Rightarrow> string + (int \<times> string)" where
  "low_surrogate codepoint1 (a # b # s) =
     (if a = CHR 0x5C \<and> b = CHR ''u''
      then (case get_codepoint s of
              None \<Rightarrow> Inl text_hex_digits
            | Some (codepoint2, t) \<Rightarrow>
                if 0xDC00 \<le> codepoint2 \<and> codepoint2 \<le> 0xDFFF
                then Inr (surrogate_pair codepoint1 codepoint2, t)
                else Inl text_high_surrogate)
      else Inl text_high_surrogate)"
| "low_surrogate codepoint1 s = Inl text_high_surrogate"

definition scan_unicode :: "string \<Rightarrow> string + (string \<times> string)" where
  "scan_unicode s =
     (case get_codepoint s of
        None \<Rightarrow> Inl text_hex_digits
      | Some (codepoint1, t) \<Rightarrow>
          if 0xD800 \<le> codepoint1 \<and> codepoint1 \<le> 0xDBFF
          then (case low_surrogate codepoint1 t of
                  Inl e \<Rightarrow> Inl e
                | Inr (codepoint, u) \<Rightarrow> Inr (add_codepoint codepoint, u))
          else if 0xDC00 \<le> codepoint1 \<and> codepoint1 \<le> 0xDFFF then Inl text_low_surrogate
          else Inr (add_codepoint codepoint1, t))"

subsection \<open>Strings\<close>

definition text_forbidden :: string where
  "text_forbidden = ''invalid string: forbidden character after backslash''"

text \<open>The inner switch, after a backslash: the escapes of one character, as a table.\<close>

definition escapes :: "(char \<times> char) list" where
  "escapes =
     [(CHR 0x22, CHR 0x22), (CHR 0x5C, CHR 0x5C), (CHR ''/'', CHR ''/''), (CHR ''b'', CHR 0x08),
      (CHR ''f'', CHR 0x0C), (CHR ''n'', CHR 0x0A), (CHR ''r'', CHR 0x0D), (CHR ''t'', CHR 0x09)]"

fun scan_escape :: "string \<Rightarrow> string + (string \<times> string)" where
  "scan_escape [] = Inl text_forbidden"
| "scan_escape (c # s) =
     (case map_of escapes c of
        Some d \<Rightarrow> Inr ([d], s)
      | None \<Rightarrow> if c = CHR ''u'' then scan_unicode s else Inl text_forbidden)"

text \<open>
  The ranges the bytes after a lead byte must lie in, by the cases of the outer switch:
  \<open>Some []\<close> is a single ASCII byte, \<open>None\<close> an ill-formed lead byte.
\<close>

definition lead_ranges :: "int \<Rightarrow> (int \<times> int) list option" where
  "lead_ranges b =
     (if b \<le> 0x7F then Some []
      else if 0xC2 \<le> b \<and> b \<le> 0xDF then Some [(0x80, 0xBF)]
      else if b = 0xE0 then Some [(0xA0, 0xBF), (0x80, 0xBF)]
      else if b = 0xED then Some [(0x80, 0x9F), (0x80, 0xBF)]
      else if 0xE1 \<le> b \<and> b \<le> 0xEF then Some [(0x80, 0xBF), (0x80, 0xBF)]
      else if b = 0xF0 then Some [(0x90, 0xBF), (0x80, 0xBF), (0x80, 0xBF)]
      else if 0xF1 \<le> b \<and> b \<le> 0xF3 then Some [(0x80, 0xBF), (0x80, 0xBF), (0x80, 0xBF)]
      else if b = 0xF4 then Some [(0x80, 0x8F), (0x80, 0xBF), (0x80, 0xBF)]
      else None)"

fun next_byte_in_range :: "(int \<times> int) list \<Rightarrow> string \<Rightarrow> (string \<times> string) option" where
  "next_byte_in_range [] s = Some ([], s)"
| "next_byte_in_range ((lo, hi) # ranges) [] = None"
| "next_byte_in_range ((lo, hi) # ranges) (c # s) =
     (if lo \<le> byte c \<and> byte c \<le> hi
      then map_option (\<lambda>(bs, t). (c # bs, t)) (next_byte_in_range ranges s)
      else None)"

definition text_ill_formed :: string where
  "text_ill_formed = ''invalid string: ill-formed UTF-8 byte''"

text \<open>The bytes that stand for themselves, by the outer switch.\<close>

definition scan_char :: "char \<Rightarrow> string \<Rightarrow> string + (string \<times> string)" where
  "scan_char c s =
     (case lead_ranges (byte c) of
        None \<Rightarrow> Inl text_ill_formed
      | Some ranges \<Rightarrow>
          (case next_byte_in_range ranges s of
             None \<Rightarrow> Inl text_ill_formed
           | Some (bs, t) \<Rightarrow> Inr (c # bs, t)))"

text \<open>The case for each control character.\<close>

definition control_names :: "string list" where
  "control_names =
     [''NUL'', ''SOH'', ''STX'', ''ETX'', ''EOT'', ''ENQ'', ''ACK'', ''BEL'', ''BS'', ''HT'', ''LF'', ''VT'',
      ''FF'', ''CR'', ''SO'', ''SI'', ''DLE'', ''DC1'', ''DC2'', ''DC3'', ''DC4'', ''NAK'', ''SYN'', ''ETB'',
      ''CAN'', ''EM'', ''SUB'', ''ESC'', ''FS'', ''GS'', ''RS'', ''US'']"

definition hex_upper :: "int \<Rightarrow> char" where
  "hex_upper d = byte_char (if d < 10 then 0x30 + d else 0x37 + d)"

definition hex4 :: "int \<Rightarrow> string" where
  "hex4 n = map hex_upper [n div 4096 mod 16, n div 256 mod 16, n div 16 mod 16, n mod 16]"

definition control_shorthand :: "int \<Rightarrow> string" where
  "control_shorthand b =
     (if b = 0x08 then '' or '' @ CHR 0x5C # ''b''
      else if b = 0x09 then '' or '' @ CHR 0x5C # ''t''
      else if b = 0x0A then '' or '' @ CHR 0x5C # ''n''
      else if b = 0x0C then '' or '' @ CHR 0x5C # ''f''
      else if b = 0x0D then '' or '' @ CHR 0x5C # ''r''
      else [])"

definition text_control :: "int \<Rightarrow> string" where
  "text_control b =
     ''invalid string: control character U+'' @ hex4 b @ '' ('' @ control_names ! nat b
     @ '') must be escaped to '' @ CHR 0x5C # ''u'' @ hex4 b @ control_shorthand b"

definition text_no_quote :: string where
  "text_no_quote = ''invalid string: missing closing quote''"

text \<open>What one round of the loop of \<^verbatim>\<open>scan_string\<close> adds, after a byte that is not a quote.\<close>

definition scan_item :: "char \<Rightarrow> string \<Rightarrow> string + (string \<times> string)" where
  "scan_item c s =
     (if c = CHR 0x5C then scan_escape s
      else if byte c \<le> 0x1F then Inl (text_control (byte c))
      else scan_char c s)"

text \<open>Every round leaves less input than it was given.\<close>

lemma codepoint_digits_length:
  "codepoint_digits fs cp s = Some (cp', t) \<Longrightarrow> length s = length t + length fs"
  by (induction fs cp s rule: codepoint_digits.induct) (auto split: option.splits)

lemma get_codepoint_length: "get_codepoint s = Some (cp, t) \<Longrightarrow> length s = length t + 4"
  unfolding get_codepoint_def by (drule codepoint_digits_length) simp

lemma low_surrogate_length: "low_surrogate cp s = Inr (cp', t) \<Longrightarrow> length t < length s"
  by (cases "(cp, s)" rule: low_surrogate.cases)
    (auto split: if_splits option.splits dest!: get_codepoint_length)

lemma scan_unicode_length: "scan_unicode s = Inr (bs, t) \<Longrightarrow> length t < length s"
  unfolding scan_unicode_def
  by (auto split: option.splits if_splits sum.splits
      dest!: get_codepoint_length low_surrogate_length)

lemma scan_escape_length: "scan_escape s = Inr (bs, t) \<Longrightarrow> length t < length s"
  by (cases s) (auto split: if_splits option.splits dest: scan_unicode_length)

lemma next_byte_length: "next_byte_in_range rs s = Some (bs, t) \<Longrightarrow> length s = length t + length rs"
  by (induction rs s arbitrary: bs rule: next_byte_in_range.induct) (auto split: if_splits)

lemma scan_char_length: "scan_char c s = Inr (bs, t) \<Longrightarrow> length t \<le> length s"
  unfolding scan_char_def by (auto split: option.splits dest: next_byte_length)

lemma scan_item_length: "scan_item c s = Inr (bs, t) \<Longrightarrow> length t \<le> length s"
  unfolding scan_item_def by (auto split: if_splits dest: scan_escape_length scan_char_length)

function scan_string :: "string \<Rightarrow> string \<Rightarrow> string + (string \<times> string)" where
  "scan_string buffer [] = Inl text_no_quote"
| "scan_string buffer (c # s) =
     (if c = CHR 0x22 then Inr (buffer, s)
      else (case scan_item c s of
              Inl e \<Rightarrow> Inl e
            | Inr (bs, t) \<Rightarrow> scan_string (buffer @ bs) t))"
  by pat_completeness auto
termination scan_string
  by (relation "measure (\<lambda>(buffer, s). length s)") (auto dest!: scan_item_length)

lemma scan_string_length: "scan_string buffer s = Inr (text, t) \<Longrightarrow> length t < length s"
proof (induction buffer s rule: scan_string.induct)
  case (2 buffer c s)
  then show ?case
    by (fastforce split: if_splits sum.splits prod.splits dest: scan_item_length)
qed simp

subsection \<open>Numbers\<close>

text \<open>The labels of \<^verbatim>\<open>scan_number\<close>, and the type of the number read so far.\<close>

datatype number_state = NMinus | NZero | NAny1 | NDecimal1 | NDecimal2 | NExponent | NSign | NAny2

datatype number_type = TUnsigned | TInteger | TFloat

definition is_digit :: "char \<Rightarrow> bool" where
  "is_digit c \<longleftrightarrow> byte (CHR ''0'') \<le> byte c \<and> byte c \<le> byte (CHR ''9'')"

definition is_exponent :: "char \<Rightarrow> bool" where
  "is_exponent c \<longleftrightarrow> c = CHR ''e'' \<or> c = CHR ''E''"

text \<open>
  The switch at each label: go on with another label after adding the character, finish
  and unget it, or fail. The end of the file is \<open>None\<close>.
\<close>

datatype number_move = NumberGoto number_state | NumberDone | NumberError string

definition text_after_minus :: string where
  "text_after_minus = ''invalid number; expected digit after '' @ CHR 0x27 # ''-'' @ [CHR 0x27]"

definition text_after_point :: string where
  "text_after_point = ''invalid number; expected digit after '' @ CHR 0x27 # ''.'' @ [CHR 0x27]"

definition text_after_exponent :: string where
  "text_after_exponent =
     ''invalid number; expected '' @ CHR 0x27 # ''+'' @ CHR 0x27 # '', '' @ CHR 0x27 # ''-'' @ CHR 0x27
     # '', or digit after exponent''"

definition text_after_sign :: string where
  "text_after_sign = ''invalid number; expected digit after exponent sign''"

fun number_step :: "number_state \<Rightarrow> char option \<Rightarrow> number_move" where
  "number_step NMinus (Some c) =
     (if c = CHR ''0'' then NumberGoto NZero
      else if is_digit c then NumberGoto NAny1
      else NumberError text_after_minus)"
| "number_step NMinus None = NumberError text_after_minus"
| "number_step NZero (Some c) =
     (if c = CHR ''.'' then NumberGoto NDecimal1
      else if is_exponent c then NumberGoto NExponent
      else NumberDone)"
| "number_step NAny1 (Some c) =
     (if is_digit c then NumberGoto NAny1
      else if c = CHR ''.'' then NumberGoto NDecimal1
      else if is_exponent c then NumberGoto NExponent
      else NumberDone)"
| "number_step NDecimal1 (Some c) =
     (if is_digit c then NumberGoto NDecimal2 else NumberError text_after_point)"
| "number_step NDecimal1 None = NumberError text_after_point"
| "number_step NDecimal2 (Some c) =
     (if is_digit c then NumberGoto NDecimal2
      else if is_exponent c then NumberGoto NExponent
      else NumberDone)"
| "number_step NExponent (Some c) =
     (if c = CHR ''+'' \<or> c = CHR ''-'' then NumberGoto NSign
      else if is_digit c then NumberGoto NAny2
      else NumberError text_after_exponent)"
| "number_step NExponent None = NumberError text_after_exponent"
| "number_step NSign (Some c) =
     (if is_digit c then NumberGoto NAny2 else NumberError text_after_sign)"
| "number_step NSign None = NumberError text_after_sign"
| "number_step NAny2 (Some c) = (if is_digit c then NumberGoto NAny2 else NumberDone)"
| "number_step NZero None = NumberDone"
| "number_step NAny1 None = NumberDone"
| "number_step NDecimal2 None = NumberDone"
| "number_step NAny2 None = NumberDone"

text \<open>The assignments to \<^verbatim>\<open>number_type\<close> behind the labels.\<close>

fun number_type_at :: "number_state \<Rightarrow> number_type \<Rightarrow> number_type" where
  "number_type_at NMinus ty = TInteger"
| "number_type_at NDecimal1 ty = TFloat"
| "number_type_at NExponent ty = TFloat"
| "number_type_at q ty = ty"

fun number_loop :: "number_state \<Rightarrow> number_type \<Rightarrow> string \<Rightarrow> string
    \<Rightarrow> string + (number_type \<times> string \<times> string)" where
  "number_loop q ty buffer [] =
     (case number_step q None of
        NumberError e \<Rightarrow> Inl e
      | _ \<Rightarrow> Inr (number_type_at q ty, buffer, []))"
| "number_loop q ty buffer (c # s) =
     (case number_step q (Some c) of
        NumberError e \<Rightarrow> Inl e
      | NumberDone \<Rightarrow> Inr (number_type_at q ty, buffer, c # s)
      | NumberGoto q' \<Rightarrow> number_loop q' (number_type_at q ty) (buffer @ [c]) s)"

text \<open>The first character, by which \<^verbatim>\<open>scan\<close> chose to scan a number.\<close>

definition number_start :: "char \<Rightarrow> number_state" where
  "number_start c = (if c = CHR ''-'' then NMinus else if c = CHR ''0'' then NZero else NAny1)"

text \<open>
  The conversions \<^verbatim>\<open>strtoull\<close> and \<^verbatim>\<open>strtoll\<close> of a text of that form; \<open>None\<close> is \<^verbatim>\<open>ERANGE\<close>,
  after which the number is read as a floating-point number.
\<close>

definition digit_value :: "char \<Rightarrow> int" where
  "digit_value c = byte c - 0x30"

definition digits_value :: "string \<Rightarrow> int" where
  "digits_value s = foldl (\<lambda>n c. 10 * n + digit_value c) 0 s"

definition strtoull :: "string \<Rightarrow> u64 option" where
  "strtoull s = (if digits_value s < 2 ^ 64 then Some (word_of_int (digits_value s)) else None)"

definition strtoll :: "string \<Rightarrow> u64 option" where
  "strtoll s =
     (if digits_value (tl s) \<le> 2 ^ 63 then Some (word_of_int (- digits_value (tl s))) else None)"

definition number_token :: "number_type \<Rightarrow> string \<Rightarrow> token" where
  "number_token ty buffer =
     (case ty of
        TUnsigned \<Rightarrow> (case strtoull buffer of Some u \<Rightarrow> ValueUnsigned u | None \<Rightarrow> ValueFloat buffer)
      | TInteger \<Rightarrow> (case strtoll buffer of Some i \<Rightarrow> ValueInteger i | None \<Rightarrow> ValueFloat buffer)
      | TFloat \<Rightarrow> ValueFloat buffer)"

definition scan_number :: "char \<Rightarrow> string \<Rightarrow> token \<times> string" where
  "scan_number c s =
     (case number_loop (number_start c) TUnsigned [c] s of
        Inl e \<Rightarrow> (ParseError e, s)
      | Inr (ty, buffer, t) \<Rightarrow> (number_token ty buffer, t))"

lemma number_loop_length: "number_loop q ty buffer s = Inr (ty', text, t) \<Longrightarrow> length t \<le> length s"
proof (induction s arbitrary: q ty buffer)
  case Nil
  then show ?case by (auto split: number_move.splits)
next
  case (Cons c s)
  then show ?case by (force split: number_move.splits)
qed

subsection \<open>The scanner\<close>

definition text_literal :: string where
  "text_literal = ''invalid literal''"

fun scan_literal :: "string \<Rightarrow> token \<Rightarrow> string \<Rightarrow> token \<times> string" where
  "scan_literal [] return_type s = (return_type, s)"
| "scan_literal (l # ls) return_type [] = (ParseError text_literal, [])"
| "scan_literal (l # ls) return_type (c # s) =
     (if c = l then scan_literal ls return_type s else (ParseError text_literal, s))"

fun skip_bom :: "string \<Rightarrow> string option" where
  "skip_bom [] = Some []"
| "skip_bom (c # s) =
     (if byte c = 0xEF
      then (case s of
              b1 # b2 # t \<Rightarrow> if byte b1 = 0xBB \<and> byte b2 = 0xBF then Some t else None
            | _ \<Rightarrow> None)
      else Some (c # s))"

definition is_whitespace :: "char \<Rightarrow> bool" where
  "is_whitespace c \<longleftrightarrow> c = CHR '' '' \<or> c = CHR 0x09 \<or> c = CHR 0x0A \<or> c = CHR 0x0D"

text \<open>The input from the character at which \<^verbatim>\<open>skip_whitespace\<close> stops.\<close>

definition skip_whitespace :: "string \<Rightarrow> string" where
  "skip_whitespace s = dropWhile is_whitespace s"

text \<open>Comments, when they are ignored: the input after one, or an error.\<close>

fun line_comment :: "string \<Rightarrow> string" where
  "line_comment [] = []"
| "line_comment (c # s) =
     (if c = CHR 0x0A \<or> c = CHR 0x0D \<or> c = CHR 0x00 then s else line_comment s)"

definition text_comment_end :: string where
  "text_comment_end = ''invalid comment; missing closing '' @ CHR 0x27 # ''*/'' @ [CHR 0x27]"

definition text_comment_start :: string where
  "text_comment_start =
     ''invalid comment; expecting '' @ CHR 0x27 # ''/'' @ CHR 0x27 # '' or '' @ CHR 0x27 # ''*'' @ CHR 0x27
     # '' after '' @ CHR 0x27 # ''/'' @ [CHR 0x27]"

fun block_comment :: "string \<Rightarrow> string + string" where
  "block_comment [] = Inl text_comment_end"
| "block_comment (c # s) =
     (if c = CHR 0x00 then Inl text_comment_end
      else if c = CHR ''*''
      then (case s of
              [] \<Rightarrow> block_comment s
            | d # t \<Rightarrow> if d = CHR ''/'' then Inr t else block_comment s)
      else block_comment s)"

fun scan_comment :: "string \<Rightarrow> string + string" where
  "scan_comment [] = Inl text_comment_start"
| "scan_comment (c # s) =
     (if c = CHR ''/'' then Inr (line_comment s)
      else if c = CHR ''*'' then block_comment s
      else Inl text_comment_start)"

lemma skip_whitespace_length: "length (skip_whitespace s) \<le> length s"
  unfolding skip_whitespace_def by (rule length_dropWhile_le)

lemma line_comment_length: "length (line_comment s) \<le> length s"
  by (induction s) auto

lemma block_comment_star:
  "block_comment (CHR ''*'' # []) = Inl text_comment_end"
  "block_comment (CHR ''*'' # d # t) = (if d = CHR ''/'' then Inr t else block_comment (d # t))"
  by simp_all

lemma block_comment_other:
  "c \<noteq> CHR ''*'' \<Longrightarrow> block_comment (c # s) = (if c = CHR 0x00 then Inl text_comment_end else block_comment s)"
  by simp

lemma block_comment_length: "block_comment s = Inr t \<Longrightarrow> length t < length s"
proof (induction s)
  case (Cons c s)
  note step = Cons.prems
  show ?case
  proof (cases "c = CHR ''*''")
    case False
    have "block_comment s = Inr t"
      using step unfolding block_comment_other [OF False] by (simp split: if_split_asm)
    with Cons.IH show ?thesis by simp
  next
    case True
    show ?thesis
    proof (cases s)
      case Nil
      with step True show ?thesis by (simp only: block_comment_star) simp
    next
      case (Cons d u)
      with step True have "d = CHR ''/'' \<and> u = t \<or> block_comment s = Inr t"
        by (simp only: block_comment_star split: if_split_asm) simp_all
      with Cons.IH Cons show ?thesis by auto
    qed
  qed
qed simp

lemma scan_comment_length: "scan_comment s = Inr t \<Longrightarrow> length t < length s"
  by (cases s) (auto split: if_splits dest: block_comment_length intro: le_imp_less_Suc line_comment_length)

text \<open>The loop over comments and the whitespace behind them.\<close>

function skip_comments :: "bool \<Rightarrow> string \<Rightarrow> string + string" where
  "skip_comments ignore_comments [] = Inr []"
| "skip_comments ignore_comments (c # s) =
     (if ignore_comments \<and> c = CHR ''/''
      then (case scan_comment s of
              Inl e \<Rightarrow> Inl e
            | Inr t \<Rightarrow> skip_comments ignore_comments (skip_whitespace t))
      else Inr (c # s))"
  by pat_completeness auto
termination skip_comments
proof (relation "measure (\<lambda>(i, s). length s)")
  fix ignore_comments c s t
  assume "scan_comment s = Inr t"
  then have "length t < length s" by (rule scan_comment_length)
  with skip_whitespace_length [of t]
  show "((ignore_comments, skip_whitespace t), ignore_comments, c # s) \<in> measure (\<lambda>(i, s). length s)"
    by simp
qed simp

text \<open>The switch of \<^verbatim>\<open>scan\<close> on the current character: its constant cases, as tables.\<close>

definition structural :: "(char \<times> token) list" where
  "structural =
     [(CHR ''['', BeginArray), (CHR '']'', EndArray), (CHR ''{'', BeginObject), (CHR ''}'', EndObject),
      (CHR '':'', NameSeparator), (CHR '','', ValueSeparator)]"

definition literals :: "(char \<times> string \<times> token) list" where
  "literals =
     [(CHR ''t'', ''rue'', LiteralTrue), (CHR ''f'', ''alse'', LiteralFalse), (CHR ''n'', ''ull'', LiteralNull)]"

definition string_token :: "string \<Rightarrow> token \<times> string" where
  "string_token s =
     (case scan_string [] s of
        Inl e \<Rightarrow> (ParseError e, s)
      | Inr (text, t) \<Rightarrow> (ValueString text, t))"

definition scan_at :: "char \<Rightarrow> string \<Rightarrow> token \<times> string" where
  "scan_at c s =
     (case map_of structural c of
        Some t \<Rightarrow> (t, s)
      | None \<Rightarrow>
     (case map_of literals c of
        Some (text, t) \<Rightarrow> scan_literal text t s
      | None \<Rightarrow>
     (if c = CHR 0x22 then string_token s
      else if c = CHR ''-'' \<or> is_digit c then scan_number c s
      else if c = CHR 0x00 then (EndOfInput, s)
      else (ParseError text_literal, s))))"

definition scan_token :: "bool \<Rightarrow> string \<Rightarrow> token \<times> string" where
  "scan_token ignore_comments s =
     (case skip_comments ignore_comments (skip_whitespace s) of
        Inl e \<Rightarrow> (ParseError e, s)
      | Inr [] \<Rightarrow> (EndOfInput, [])
      | Inr (c # t) \<Rightarrow> scan_at c t)"

definition text_bom :: string where
  "text_bom = ''invalid BOM; must be 0xEF 0xBB 0xBF if given''"

text \<open>\<^verbatim>\<open>scan\<close>: \<open>first\<close> says that nothing was read yet, the only time a byte order mark is skipped.\<close>

definition scan :: "bool \<Rightarrow> bool \<Rightarrow> string \<Rightarrow> token \<times> string" where
  "scan ignore_comments first s =
     (if first
      then (case skip_bom s of
              None \<Rightarrow> (ParseError text_bom, s)
            | Some t \<Rightarrow> scan_token ignore_comments t)
      else scan_token ignore_comments s)"

subsection \<open>Every token uses input\<close>

text \<open>A final token ends the parse: nothing is read after it.\<close>

fun final_token :: "token \<Rightarrow> bool" where
  "final_token EndOfInput = True"
| "final_token (ParseError e) = True"
| "final_token t = False"

lemma scan_literal_length:
  assumes "scan_literal ls tok s = (t, s')"
  shows "length s' \<le> length s"
  using assms by (induction ls tok s rule: scan_literal.induct) (auto split: if_splits)

lemma scan_number_length: "scan_number c s = (t, s') \<Longrightarrow> length s' \<le> length s"
  unfolding scan_number_def by (auto split: sum.splits dest: number_loop_length)

lemma string_token_length: "string_token s = (t, s') \<Longrightarrow> length s' \<le> length s"
  unfolding string_token_def by (auto split: sum.splits dest: scan_string_length)

lemma scan_at_length:
  assumes "scan_at c s = (t, s')"
  shows "length s' \<le> length s"
  using assms unfolding scan_at_def
  by (auto split: option.splits if_splits
      dest: scan_literal_length scan_number_length string_token_length)

lemma skip_comments_length: "skip_comments ic s = Inr t \<Longrightarrow> length t \<le> length s"
proof (induction ic s rule: skip_comments.induct)
  case (2 ic c s)
  show ?case
  proof (cases "ic \<and> c = CHR ''/''")
    case True
    then obtain u where u: "scan_comment s = Inr u" "skip_comments ic (skip_whitespace u) = Inr t"
      using "2.prems" by (auto split: sum.splits)
    with "2.IH" [OF True u(1)] scan_comment_length [OF u(1)] skip_whitespace_length [of u]
    show ?thesis by simp
  next
    case False
    with "2.prems" show ?thesis by auto
  qed
qed simp

lemma scan_token_shorter:
  assumes "scan_token ic s = (t, s')" and "\<not> final_token t"
  shows "length s' < length s"
proof -
  obtain c u where u: "skip_comments ic (skip_whitespace s) = Inr (c # u)" "scan_at c u = (t, s')"
    using assms by (auto simp: scan_token_def split: sum.splits list.splits)
  have "length (c # u) \<le> length s"
    using skip_comments_length [OF u(1)] skip_whitespace_length [of s] by simp
  with scan_at_length [OF u(2)] show ?thesis by simp
qed

lemma scan_token_length:
  assumes "scan_token ic s = (t, s')"
  shows "length s' \<le> length s"
proof (cases "skip_comments ic (skip_whitespace s)")
  case (Inl e)
  with assms show ?thesis by (simp add: scan_token_def)
next
  case (Inr u)
  have "length u \<le> length s"
    using skip_comments_length [OF Inr] skip_whitespace_length [of s] by simp
  with assms Inr show ?thesis
    by (cases u) (auto simp: scan_token_def dest: scan_at_length)
qed

subsection \<open>Scanned strings are UTF-8\<close>

text \<open>The Unicode scalar values, and the texts that are the encoding of a sequence of them.\<close>

definition unicode_scalar :: "int \<Rightarrow> bool" where
  "unicode_scalar cp \<longleftrightarrow> 0 \<le> cp \<and> cp < 0xD800 \<or> 0xE000 \<le> cp \<and> cp \<le> 0x10FFFF"

definition utf8_encode :: "int list \<Rightarrow> string" where
  "utf8_encode cps = concat (map add_codepoint cps)"

definition utf8_text :: "string \<Rightarrow> bool" where
  "utf8_text s \<longleftrightarrow> (\<exists>cps. list_all unicode_scalar cps \<and> s = utf8_encode cps)"

lemma utf8_encode_simps [simp]:
  "utf8_encode [] = []" "utf8_encode (cp # cps) = add_codepoint cp @ utf8_encode cps"
  "utf8_encode (cps @ dps) = utf8_encode cps @ utf8_encode dps"
  by (simp_all add: utf8_encode_def)

lemma lead_or:
  "0 \<le> x \<Longrightarrow> x < 32 \<Longrightarrow> 192 OR x = 192 + (x :: int)"
  "0 \<le> x \<Longrightarrow> x < 16 \<Longrightarrow> 224 OR x = 224 + (x :: int)"
  "0 \<le> x \<Longrightarrow> x < 8 \<Longrightarrow> 240 OR x = 240 + (x :: int)"
  "0 \<le> x \<Longrightarrow> x < 64 \<Longrightarrow> 128 OR x = 128 + (x :: int)"
proof -
  have "list_all (\<lambda>x. 192 OR x = 192 + (x :: int)) [0..31]" by code_simp
  then show "0 \<le> x \<Longrightarrow> x < 32 \<Longrightarrow> 192 OR x = 192 + (x :: int)" by (simp only: list_all_iff) auto
  have "list_all (\<lambda>x. 224 OR x = 224 + (x :: int)) [0..15]" by code_simp
  then show "0 \<le> x \<Longrightarrow> x < 16 \<Longrightarrow> 224 OR x = 224 + (x :: int)" by (simp only: list_all_iff) auto
  have "list_all (\<lambda>x. 240 OR x = 240 + (x :: int)) [0..7]" by code_simp
  then show "0 \<le> x \<Longrightarrow> x < 8 \<Longrightarrow> 240 OR x = 240 + (x :: int)" by (simp only: list_all_iff) auto
  have "list_all (\<lambda>x. 128 OR x = 128 + (x :: int)) [0..63]" by code_simp
  then show "0 \<le> x \<Longrightarrow> x < 64 \<Longrightarrow> 128 OR x = 128 + (x :: int)" by (simp only: list_all_iff) auto
qed

lemma and_63: "x AND 63 = x mod (64 :: int)"
  using take_bit_eq_mask [of 6 x] by (simp add: take_bit_eq_mod mask_eq_exp_minus_1)

lemma low_six:
  assumes "0 \<le> z" "z < (64 :: int)"
  shows "(a * 64 + z) mod 64 = z" "drop_bit 6 (a * 64 + z) = a"
  using assms by (simp_all add: drop_bit_eq_div)

lemma utf8_bytes_2:
  assumes "2 \<le> x" "x < 32" "0 \<le> y" "y < 64"
  shows "utf8_bytes (x * 64 + y) = [192 + x, 128 + y]"
proof -
  have "\<not> x * 64 + y < 0x80" "x * 64 + y \<le> 0x7FF" using assms by simp_all
  then show ?thesis
    unfolding utf8_bytes_def and_63 low_six [OF assms(3,4)] using assms by (simp add: lead_or)
qed

lemma utf8_bytes_3:
  assumes "0 \<le> x" "x < 16" "0 \<le> y" "y < 64" "0 \<le> z" "z < 64" "32 \<le> x * 64 + y"
  shows "utf8_bytes ((x * 64 + y) * 64 + z) = [224 + x, 128 + y, 128 + z]"
proof -
  let ?cp = "(x * 64 + y) * 64 + z"
  have "drop_bit 12 ?cp = drop_bit 6 (drop_bit 6 ?cp)" by (simp add: drop_bit_drop_bit)
  then have b: "drop_bit 12 ?cp = x" unfolding low_six [OF assms(5,6)] low_six [OF assms(3,4)] .
  have "\<not> ?cp < 0x80" "\<not> ?cp \<le> 0x7FF" "?cp \<le> 0xFFFF" using assms by simp_all
  then show ?thesis
    unfolding utf8_bytes_def and_63 b low_six [OF assms(5,6)] low_six [OF assms(3,4)]
    using assms by (simp add: lead_or)
qed

lemma utf8_bytes_4:
  assumes "0 \<le> x" "x < 8" "0 \<le> y" "y < 64" "0 \<le> z" "z < 64" "0 \<le> w" "w < 64" "16 \<le> x * 64 + y"
  shows "utf8_bytes (((x * 64 + y) * 64 + z) * 64 + w) = [240 + x, 128 + y, 128 + z, 128 + w]"
proof -
  let ?cp = "((x * 64 + y) * 64 + z) * 64 + w"
  have "drop_bit 12 ?cp = drop_bit 6 (drop_bit 6 ?cp)" by (simp add: drop_bit_drop_bit)
  then have b: "drop_bit 12 ?cp = x * 64 + y"
    unfolding low_six [OF assms(7,8)] low_six [OF assms(5,6)] .
  have "drop_bit 18 ?cp = drop_bit 6 (drop_bit 12 ?cp)" by (simp add: drop_bit_drop_bit)
  then have c: "drop_bit 18 ?cp = x" unfolding b low_six [OF assms(3,4)] .
  have "\<not> ?cp < 0x80" "\<not> ?cp \<le> 0x7FF" "\<not> ?cp \<le> 0xFFFF" using assms by simp_all
  then show ?thesis
    unfolding utf8_bytes_def and_63 b c low_six [OF assms(7,8)] low_six [OF assms(5,6)]
      low_six [OF assms(3,4)]
    using assms by (simp add: lead_or)
qed

lemma byte_range [simp]: "0 \<le> byte c" "byte c < 256"
proof -
  have c: "byte c = int (of_char c)" by (simp only: of_nat_of_char)
  show "0 \<le> byte c" unfolding c by simp
  show "byte c < 256" unfolding c using nat_of_char_less_256 [of c] by linarith
qed

lemma add_codepoint_bytes: "utf8_bytes cp = map byte bs \<Longrightarrow> add_codepoint cp = bs"
  by (simp add: add_codepoint_def comp_def)

lemma shifted:
  fixes b :: int
  assumes "base \<le> b" "b \<le> hi"
  obtains x where "b = base + x" "0 \<le> x" "x \<le> hi - base"
  using that [of "b - base"] assms by simp

definition one_scalar :: "string \<Rightarrow> bool" where
  "one_scalar bs \<longleftrightarrow> (\<exists>cp. unicode_scalar cp \<and> add_codepoint cp = bs)"

lemma one_scalarI: "unicode_scalar cp \<Longrightarrow> utf8_bytes cp = map byte bs \<Longrightarrow> one_scalar bs"
  unfolding one_scalar_def by (blast intro: add_codepoint_bytes)

lemma one_scalar_1: "byte c \<le> 0x7F \<Longrightarrow> one_scalar [c]"
  by (rule one_scalarI [of "byte c"]) (simp_all add: unicode_scalar_def utf8_bytes_def)

lemma one_scalar_2:
  assumes "0xC2 \<le> byte c" "byte c \<le> 0xDF" "0x80 \<le> byte d" "byte d \<le> 0xBF"
  shows "one_scalar [c, d]"
proof -
  have c: "192 \<le> byte c" using assms by simp
  obtain x where x: "byte c = 192 + x" "0 \<le> x" "x \<le> 31" using shifted [OF c assms(2)] by auto
  obtain y where y: "byte d = 128 + y" "0 \<le> y" "y \<le> 63" using shifted [OF assms(3,4)] by auto
  have "utf8_bytes (x * 64 + y) = [192 + x, 128 + y]"
    by (rule utf8_bytes_2) (use assms x y in simp_all)
  moreover have "unicode_scalar (x * 64 + y)" using x y by (simp add: unicode_scalar_def)
  ultimately show ?thesis using x y by (intro one_scalarI [of "x * 64 + y"]) simp_all
qed

lemma one_scalar_3:
  assumes "0xE0 \<le> byte c" "byte c \<le> 0xEF" "0x80 \<le> byte d" "byte d \<le> 0xBF"
    and "0x80 \<le> byte e" "byte e \<le> 0xBF"
    and "byte c = 0xE0 \<Longrightarrow> 0xA0 \<le> byte d" "byte c = 0xED \<Longrightarrow> byte d \<le> 0x9F"
  shows "one_scalar [c, d, e]"
proof -
  obtain x where x: "byte c = 224 + x" "0 \<le> x" "x \<le> 15" using shifted [OF assms(1,2)] by auto
  obtain y where y: "byte d = 128 + y" "0 \<le> y" "y \<le> 63" using shifted [OF assms(3,4)] by auto
  obtain z where z: "byte e = 128 + z" "0 \<le> z" "z \<le> 63" using shifted [OF assms(5,6)] by auto
  let ?cp = "(x * 64 + y) * 64 + z"
  have low: "32 \<le> x * 64 + y"
  proof (cases "x = 0")
    case True
    with assms(7) x y show ?thesis by simp
  qed (use x y in linarith)
  have "utf8_bytes ?cp = [224 + x, 128 + y, 128 + z]"
    by (rule utf8_bytes_3) (use x y z low in simp_all)
  moreover have "unicode_scalar ?cp"
  proof -
    consider "x \<le> 12" | "x = 13" | "14 \<le> x" by linarith
    then show ?thesis
    proof cases
      case 2
      with assms(8) x y have "y \<le> 31" by simp
      with 2 y z show ?thesis by (simp add: unicode_scalar_def)
    qed (use x y z in \<open>simp_all add: unicode_scalar_def\<close>)
  qed
  ultimately show ?thesis using x y z by (intro one_scalarI [of ?cp]) simp_all
qed

lemma one_scalar_4:
  assumes "0xF0 \<le> byte c" "byte c \<le> 0xF4" "0x80 \<le> byte d" "byte d \<le> 0xBF"
    and "0x80 \<le> byte e" "byte e \<le> 0xBF" "0x80 \<le> byte f" "byte f \<le> 0xBF"
    and "byte c = 0xF0 \<Longrightarrow> 0x90 \<le> byte d" "byte c = 0xF4 \<Longrightarrow> byte d \<le> 0x8F"
  shows "one_scalar [c, d, e, f]"
proof -
  obtain x where x: "byte c = 240 + x" "0 \<le> x" "x \<le> 4" using shifted [OF assms(1,2)] by auto
  obtain y where y: "byte d = 128 + y" "0 \<le> y" "y \<le> 63" using shifted [OF assms(3,4)] by auto
  obtain z where z: "byte e = 128 + z" "0 \<le> z" "z \<le> 63" using shifted [OF assms(5,6)] by auto
  obtain w where w: "byte f = 128 + w" "0 \<le> w" "w \<le> 63" using shifted [OF assms(7,8)] by auto
  let ?cp = "((x * 64 + y) * 64 + z) * 64 + w"
  have low: "16 \<le> x * 64 + y"
  proof (cases "x = 0")
    case True
    with assms(9) x y show ?thesis by simp
  qed (use x y in linarith)
  have high: "x * 64 + y \<le> 271"
  proof (cases "x = 4")
    case True
    with assms(10) x y show ?thesis by simp
  qed (use x y in simp)
  have "utf8_bytes ?cp = [240 + x, 128 + y, 128 + z, 128 + w]"
    by (rule utf8_bytes_4) (use x y z w low in simp_all)
  moreover have "unicode_scalar ?cp" using low high z w by (simp add: unicode_scalar_def)
  ultimately show ?thesis using x y z w by (intro one_scalarI [of ?cp]) simp_all
qed

text \<open>Both ways of adding to the buffer add one code point.\<close>

lemma next_byte_ranges:
  "next_byte_in_range rs s = Some (bs, t)
   \<Longrightarrow> list_all2 (\<lambda>(lo, hi) c. lo \<le> byte c \<and> byte c \<le> hi) rs bs"
  by (induction rs s arbitrary: bs rule: next_byte_in_range.induct) (auto split: if_splits)

lemma lead_ranges_cases:
  assumes "lead_ranges b = Some ranges"
  obtains "b \<le> 0x7F" "ranges = []"
  | "0xC2 \<le> b" "b \<le> 0xDF" "ranges = [(0x80, 0xBF)]"
  | lo hi where "0xE0 \<le> b" "b \<le> 0xEF" "ranges = [(lo, hi), (0x80, 0xBF)]" "0x80 \<le> lo" "hi \<le> 0xBF"
      "b = 0xE0 \<Longrightarrow> lo = 0xA0" "b = 0xED \<Longrightarrow> hi = 0x9F"
  | lo hi where "0xF0 \<le> b" "b \<le> 0xF4" "ranges = [(lo, hi), (0x80, 0xBF), (0x80, 0xBF)]"
      "0x80 \<le> lo" "hi \<le> 0xBF" "b = 0xF0 \<Longrightarrow> lo = 0x90" "b = 0xF4 \<Longrightarrow> hi = 0x8F"
  using assms unfolding lead_ranges_def by (auto split: if_splits)

lemma scan_char_scalar:
  assumes "scan_char c s = Inr (bs, t)"
  shows "one_scalar bs"
proof -
  obtain ranges cs where r: "lead_ranges (byte c) = Some ranges"
    and n: "next_byte_in_range ranges s = Some (cs, t)" and bs: "bs = c # cs"
    using assms by (auto simp: scan_char_def split: option.splits)
  note range = next_byte_ranges [OF n]
  from r show ?thesis
  proof (cases rule: lead_ranges_cases)
    case 1
    with range bs show ?thesis by (simp add: one_scalar_1)
  next
    case 2
    with range obtain d where "cs = [d]" "0x80 \<le> byte d" "byte d \<le> 0xBF"
      by (auto simp: list_all2_Cons1)
    with 2 bs show ?thesis by (simp add: one_scalar_2)
  next
    case (3 lo hi)
    with range obtain d e where d: "cs = [d, e]" "lo \<le> byte d" "byte d \<le> hi"
      "0x80 \<le> byte e" "byte e \<le> 0xBF"
      by (auto simp: list_all2_Cons1)
    show ?thesis unfolding bs d(1)
      by (rule one_scalar_3) (use 3 d in auto)
  next
    case (4 lo hi)
    with range obtain d e f where d: "cs = [d, e, f]" "lo \<le> byte d" "byte d \<le> hi"
      "0x80 \<le> byte e" "byte e \<le> 0xBF" "0x80 \<le> byte f" "byte f \<le> 0xBF"
      by (auto simp: list_all2_Cons1)
    show ?thesis unfolding bs d(1)
      by (rule one_scalar_4) (use 4 d in auto)
  qed
qed

lemma hex_digit_bound: "hex_digit c = Some d \<Longrightarrow> 0 \<le> d \<and> d < 16"
  unfolding hex_digit_def by (auto split: if_splits)

lemma codepoint_digits_Cons:
  "codepoint_digits (f # fs) cp s = Some r \<longleftrightarrow>
   (\<exists>c u d. s = c # u \<and> hex_digit c = Some d \<and> codepoint_digits fs (cp + push_bit f d) u = Some r)"
  by (cases s) (auto split: option.splits)

lemma codepoint_digits_4:
  assumes "get_codepoint s = Some (cp, t)"
  obtains d3 d2 d1 d0 where "0 \<le> d3" "d3 < 16" "0 \<le> d2" "d2 < 16" "0 \<le> d1" "d1 < 16" "0 \<le> d0" "d0 < 16"
    "cp = d3 * 4096 + d2 * 256 + d1 * 16 + d0"
proof -
  obtain c3 c2 c1 c0 u d3 d2 d1 d0 where
    "s = c3 # c2 # c1 # c0 # u" "hex_digit c3 = Some d3" "hex_digit c2 = Some d2"
    "hex_digit c1 = Some d1" "hex_digit c0 = Some d0"
    "cp = push_bit 12 d3 + push_bit 8 d2 + push_bit 4 d1 + push_bit 0 d0"
    using assms unfolding get_codepoint_def
    by (auto simp: codepoint_digits_Cons)
  then show ?thesis
    by (intro that [of d3 d2 d1 d0]) (auto simp: push_bit_eq_mult dest: hex_digit_bound)
qed

lemma get_codepoint_bound: "get_codepoint s = Some (cp, t) \<Longrightarrow> 0 \<le> cp \<and> cp \<le> 0xFFFF"
  by (erule codepoint_digits_4) simp

lemma u32_of_int: "0 \<le> n \<Longrightarrow> n < 2 ^ 32 \<Longrightarrow> uint (word_of_int n :: u32) = n"
  by (simp add: unsigned_of_int take_bit_int_eq_self)

lemma surrogate_pair_value:
  assumes "0xD800 \<le> c1" "c1 \<le> 0xDBFF" "0xDC00 \<le> c2" "c2 \<le> 0xDFFF"
  shows "surrogate_pair c1 c2 = 0x10000 + (c1 - 0xD800) * 0x400 + (c2 - 0xDC00)"
proof -
  obtain x where x: "c1 = 0xD800 + x" "0 \<le> x" "x \<le> 0x3FF" using shifted [OF assms(1,2)] by auto
  obtain y where y: "c2 = 0xDC00 + y" "0 \<le> y" "y \<le> 0x3FF" using shifted [OF assms(3,4)] by auto
  have "push_bit 10 (word_of_int c1) + word_of_int c2 - (0x35FDC00 :: u32)
        = word_of_int (0x10000 + x * 0x400 + y)"
    unfolding x y by (simp add: push_bit_eq_mult algebra_simps)
  moreover have "uint (word_of_int (0x10000 + x * 0x400 + y) :: u32) = 0x10000 + x * 0x400 + y"
    by (rule u32_of_int) (use x y in simp_all)
  ultimately have "surrogate_pair c1 c2 = 0x10000 + x * 0x400 + y"
    unfolding surrogate_pair_def by (simp only:)
  with x y show ?thesis by simp
qed

lemma low_surrogate_cases:
  assumes "low_surrogate cp1 s = Inr (cp, t)"
  obtains u cp2 where "s = CHR 0x5C # CHR ''u'' # u" "get_codepoint u = Some (cp2, t)"
    "0xDC00 \<le> cp2" "cp2 \<le> 0xDFFF" "cp = surrogate_pair cp1 cp2"
  using assms by (cases "(cp1, s)" rule: low_surrogate.cases) (auto split: if_splits option.splits)

lemma scan_unicode_scalar:
  assumes "scan_unicode s = Inr (bs, t)"
  shows "one_scalar bs"
proof -
  obtain cp1 u where cp1: "get_codepoint s = Some (cp1, u)"
    using assms by (auto simp: scan_unicode_def split: option.splits)
  show ?thesis
  proof (cases "0xD800 \<le> cp1 \<and> cp1 \<le> 0xDBFF")
    case True
    then obtain cp where cp: "low_surrogate cp1 u = Inr (cp, t)" "bs = add_codepoint cp"
      using assms cp1 by (auto simp: scan_unicode_def split: sum.splits)
    from cp(1) obtain cp2 where "0xDC00 \<le> cp2" "cp2 \<le> 0xDFFF" "cp = surrogate_pair cp1 cp2"
      by (rule low_surrogate_cases) blast
    moreover have "cp1 - 0xD800 \<le> 0x3FF" "cp2 - 0xDC00 \<le> 0x3FF"
      using True calculation(1,2) by linarith+
    ultimately have "unicode_scalar cp"
      using True by (simp add: surrogate_pair_value unicode_scalar_def)
    with cp(2) show ?thesis unfolding one_scalar_def by blast
  next
    case False
    then have "bs = add_codepoint cp1" "\<not> (0xDC00 \<le> cp1 \<and> cp1 \<le> 0xDFFF)"
      using assms cp1 by (auto simp: scan_unicode_def split: if_splits)
    moreover have "unicode_scalar cp1"
      using False calculation(2) get_codepoint_bound [OF cp1] by (auto simp: unicode_scalar_def)
    ultimately show ?thesis unfolding one_scalar_def by blast
  qed
qed

lemma escapes_ascii: "map_of escapes c = Some d \<Longrightarrow> byte d \<le> 0x7F"
proof -
  have "list_all (\<lambda>(k, v). byte v \<le> 0x7F) escapes" by code_simp
  then show "map_of escapes c = Some d \<Longrightarrow> byte d \<le> 0x7F"
    by (auto simp: list_all_iff dest: map_of_SomeD)
qed

lemma scan_escape_scalar: "scan_escape s = Inr (bs, t) \<Longrightarrow> one_scalar bs"
  by (cases s) (auto split: option.splits if_splits dest: escapes_ascii
      intro: one_scalar_1 scan_unicode_scalar)

lemma scan_item_scalar: "scan_item c s = Inr (bs, t) \<Longrightarrow> one_scalar bs"
  unfolding scan_item_def by (auto split: if_splits intro: scan_escape_scalar scan_char_scalar)

lemma utf8_text_append: "utf8_text s \<Longrightarrow> one_scalar bs \<Longrightarrow> utf8_text (s @ bs)"
  unfolding utf8_text_def one_scalar_def
proof (elim exE conjE)
  fix cps cp
  assume "list_all unicode_scalar cps" "s = utf8_encode cps" "unicode_scalar cp" "add_codepoint cp = bs"
  then show "\<exists>cps. list_all unicode_scalar cps \<and> s @ bs = utf8_encode cps"
    by (intro exI [of _ "cps @ [cp]"]) simp
qed

lemma utf8_text_Nil [simp]: "utf8_text []"
  unfolding utf8_text_def by (rule exI [of _ "[]"]) simp

lemma scan_string_utf8:
  "scan_string buffer s = Inr (text, t) \<Longrightarrow> utf8_text buffer \<Longrightarrow> utf8_text text"
proof (induction buffer s rule: scan_string.induct)
  case (2 buffer c s)
  show ?case
  proof (cases "c = CHR 0x22")
    case True
    with "2.prems" show ?thesis by simp
  next
    case False
    with "2.prems"(1) obtain bs u where
      u: "scan_item c s = Inr (bs, u)" "scan_string (buffer @ bs) u = Inr (text, t)"
      by (auto split: sum.splits)
    from u(1) "2.prems"(2) have "utf8_text (buffer @ bs)"
      by (intro utf8_text_append scan_item_scalar)
    with "2.IH" [OF False u(1) _ u(2)] show ?thesis by blast
  qed
qed simp

end
