(* ===== verification/NParser.thy ===== *)
theory NParser
  imports NLexer
begin

text \<open>
  The parser of the bundled JSON library (\<^verbatim>\<open>3rd/include/nlohmann/detail/input/parser.hpp\<close>). It is
  the loop of \<^verbatim>\<open>sax_parse_internal\<close> over the lexer, with its stack of open containers, and it is
  generic in the handler that receives the events, as the C++ template is. Every round of the
  loop uses input, which is why it ends.
\<close>

subsection \<open>Handlers\<close>

text \<open>
  The member functions of a handler are the events; each returns whether to go on, and the
  handler's new state.
\<close>

datatype sax_event =
    SaxNull | SaxBoolean bool | SaxInteger u64 | SaxUnsigned u64 | SaxFloat string | SaxString string
  | SaxStartObject | SaxKey string | SaxEndObject | SaxStartArray | SaxEndArray

type_synonym 's sax_handler = "sax_event \<Rightarrow> 's \<Rightarrow> bool \<times> 's"

record parse_options =
  opt_ignore_comments :: bool
  opt_ignore_trailing_commas :: bool

definition default_options :: parse_options where
  "default_options = \<lparr>opt_ignore_comments = False, opt_ignore_trailing_commas = False\<rparr>"

subsection \<open>The state of the loop\<close>

text \<open>
  \<open>p_states\<close> is the vector \<^verbatim>\<open>states\<close> with its back as the head: true for an array, false for
  an object. \<open>p_skip\<close> is \<^verbatim>\<open>skip_to_state_evaluation\<close>, \<open>p_input\<close> what the lexer has left.
\<close>

record 's json_parser =
  p_last :: token
  p_input :: string
  p_states :: "bool list"
  p_skip :: bool
  p_sax :: 's

text \<open>
  How the loop ends: it returns true, it returns the handler's false, or it reports an error to
  the handler.
\<close>

datatype 's parse_end =
    ParseDone "'s json_parser" | ParseStopped 's | ParseFailed json_error 's

datatype 's parse_step = ParseContinue "'s json_parser" | ParseReturn "'s parse_end"

definition get_token :: "parse_options \<Rightarrow> 's json_parser \<Rightarrow> 's json_parser" where
  "get_token opts p =
     (case scan (opt_ignore_comments opts) False (p_input p) of
        (t, s) \<Rightarrow> p\<lparr>p_last := t, p_input := s\<rparr>)"

text \<open>A call of the handler: \<^verbatim>\<open>if (!sax->event()) return false;\<close> and the code behind it.\<close>

definition emit ::
  "'s sax_handler \<Rightarrow> sax_event \<Rightarrow> 's json_parser \<Rightarrow> ('s json_parser \<Rightarrow> 's parse_step) \<Rightarrow> 's parse_step" where
  "emit h e p k =
     (case h e (p_sax p) of
        (ok, s) \<Rightarrow> if ok then k (p\<lparr>p_sax := s\<rparr>) else ParseReturn (ParseStopped s))"

definition syntax_error :: "'s json_parser \<Rightarrow> 's parse_step" where
  "syntax_error p = ParseReturn (ParseFailed (parse_error 101) (p_sax p))"

subsection \<open>Floating-point numbers\<close>

text \<open>
  Whether \<^verbatim>\<open>strtod\<close> of a number's text is finite: its value is below the bound from which the
  nearest double is infinite.
\<close>

definition exponent_value :: "string \<Rightarrow> int" where
  "exponent_value s =
     (case s of
        [] \<Rightarrow> 0
      | c # t \<Rightarrow> if c = CHR ''-'' then - digits_value t
                else if c = CHR ''+'' then digits_value t
                else digits_value s)"

definition number_finite :: "string \<Rightarrow> bool" where
  "number_finite s =
     (let mantissa = dropWhile (\<lambda>c. c = CHR ''-'') (takeWhile (\<lambda>c. \<not> is_exponent c) s);
          exponent = exponent_value (drop 1 (dropWhile (\<lambda>c. \<not> is_exponent c) s));
          whole = takeWhile (\<lambda>c. c \<noteq> CHR ''.'') mantissa;
          fraction = drop 1 (dropWhile (\<lambda>c. c \<noteq> CHR ''.'') mantissa);
          scale = exponent - int (length fraction)
      in digits_value (whole @ fraction) * 10 ^ nat scale
         < (2 ^ 1024 - 2 ^ 970) * 10 ^ nat (- scale))"

subsection \<open>One round of the loop\<close>

text \<open>The events of the tokens that are a value of their own.\<close>

fun scalar_event :: "token \<Rightarrow> sax_event option" where
  "scalar_event LiteralTrue = Some (SaxBoolean True)"
| "scalar_event LiteralFalse = Some (SaxBoolean False)"
| "scalar_event LiteralNull = Some SaxNull"
| "scalar_event (ValueString s) = Some (SaxString s)"
| "scalar_event (ValueUnsigned u) = Some (SaxUnsigned u)"
| "scalar_event (ValueInteger i) = Some (SaxInteger i)"
| "scalar_event (ValueFloat s) = Some (SaxFloat s)"
| "scalar_event t = None"

text \<open>An object key and its separator, which the code parses in two places.\<close>

definition parse_key ::
  "'s sax_handler \<Rightarrow> parse_options \<Rightarrow> 's json_parser \<Rightarrow> ('s json_parser \<Rightarrow> 's parse_step) \<Rightarrow> 's parse_step" where
  "parse_key h opts p k =
     (case p_last p of
        ValueString key \<Rightarrow>
          emit h (SaxKey key) p (\<lambda>p.
            let p = get_token opts p in
            if p_last p = NameSeparator then k p else syntax_error p)
      | _ \<Rightarrow> syntax_error p)"

text \<open>The code behind the switch, once a value is complete.\<close>

definition close_container :: "'s sax_handler \<Rightarrow> sax_event \<Rightarrow> 's json_parser \<Rightarrow> 's parse_step" where
  "close_container h e p =
     emit h e p (\<lambda>p. ParseContinue (p\<lparr>p_states := tl (p_states p), p_skip := True\<rparr>))"

definition evaluate_array :: "'s sax_handler \<Rightarrow> parse_options \<Rightarrow> 's json_parser \<Rightarrow> 's parse_step" where
  "evaluate_array h opts p =
     (let p1 = get_token opts p in
      if p_last p1 = ValueSeparator
      then (let p2 = get_token opts p1 in
            if opt_ignore_trailing_commas opts \<and> p_last p2 = EndArray
            then close_container h SaxEndArray p2
            else ParseContinue p2)
      else if p_last p1 = EndArray then close_container h SaxEndArray p1
      else syntax_error p1)"

definition evaluate_object :: "'s sax_handler \<Rightarrow> parse_options \<Rightarrow> 's json_parser \<Rightarrow> 's parse_step" where
  "evaluate_object h opts p =
     (let p1 = get_token opts p in
      if p_last p1 = ValueSeparator
      then (let p2 = get_token opts p1 in
            if opt_ignore_trailing_commas opts \<and> p_last p2 = EndObject
            then close_container h SaxEndObject p2
            else parse_key h opts p2 (\<lambda>p. ParseContinue (get_token opts p)))
      else if p_last p1 = EndObject then close_container h SaxEndObject p1
      else syntax_error p1)"

definition evaluate_state :: "'s sax_handler \<Rightarrow> parse_options \<Rightarrow> 's json_parser \<Rightarrow> 's parse_step" where
  "evaluate_state h opts p =
     (case p_states p of
        [] \<Rightarrow> ParseReturn (ParseDone p)
      | True # ss \<Rightarrow> evaluate_array h opts p
      | False # ss \<Rightarrow> evaluate_object h opts p)"

text \<open>The switch on the last token.\<close>

definition begin_object :: "'s sax_handler \<Rightarrow> parse_options \<Rightarrow> 's json_parser \<Rightarrow> 's parse_step" where
  "begin_object h opts p =
     emit h SaxStartObject p (\<lambda>p.
       let p = get_token opts p in
       if p_last p = EndObject then emit h SaxEndObject p (evaluate_state h opts)
       else parse_key h opts p (\<lambda>p.
         ParseContinue (get_token opts (p\<lparr>p_states := False # p_states p\<rparr>))))"

definition begin_array :: "'s sax_handler \<Rightarrow> parse_options \<Rightarrow> 's json_parser \<Rightarrow> 's parse_step" where
  "begin_array h opts p =
     emit h SaxStartArray p (\<lambda>p.
       let p = get_token opts p in
       if p_last p = EndArray then emit h SaxEndArray p (evaluate_state h opts)
       else ParseContinue (p\<lparr>p_states := True # p_states p\<rparr>))"

definition parse_value :: "'s sax_handler \<Rightarrow> parse_options \<Rightarrow> 's json_parser \<Rightarrow> 's parse_step" where
  "parse_value h opts p =
     (case p_last p of
        BeginObject \<Rightarrow> begin_object h opts p
      | BeginArray \<Rightarrow> begin_array h opts p
      | ValueFloat s \<Rightarrow>
          if number_finite s then emit h (SaxFloat s) p (evaluate_state h opts)
          else ParseReturn (ParseFailed (out_of_range 406) (p_sax p))
      | t \<Rightarrow> (case scalar_event t of
               Some e \<Rightarrow> emit h e p (evaluate_state h opts)
             | None \<Rightarrow> syntax_error p))"

definition parse_round :: "'s sax_handler \<Rightarrow> parse_options \<Rightarrow> 's json_parser \<Rightarrow> 's parse_step" where
  "parse_round h opts p =
     (if p_skip p then evaluate_state h opts (p\<lparr>p_skip := False\<rparr>) else parse_value h opts p)"

subsection \<open>The loop ends\<close>

text \<open>
  Every round reads a token, except when an array opens on a final token, which the next round
  rejects. The measure counts the input left, and whether the last token is a final one.
\<close>

definition parse_size :: "'s json_parser \<Rightarrow> nat" where
  "parse_size p = 2 * length (p_input p) + (if final_token (p_last p) then 0 else 1)"

lemma parse_size_update [simp]:
  "parse_size (p\<lparr>p_sax := s\<rparr>) = parse_size p" "parse_size (p\<lparr>p_states := ss\<rparr>) = parse_size p"
  "parse_size (p\<lparr>p_skip := b\<rparr>) = parse_size p"
  by (simp_all add: parse_size_def)

lemma get_token_fields [simp]:
  "p_states (get_token opts p) = p_states p" "p_skip (get_token opts p) = p_skip p"
  "p_sax (get_token opts p) = p_sax p"
  by (simp_all add: get_token_def split: prod.split)

lemma get_token_size:
  "parse_size (get_token opts p) \<le> 2 * length (p_input p)"
  "\<not> final_token (p_last (get_token opts p)) \<Longrightarrow> parse_size (get_token opts p) < 2 * length (p_input p)"
proof -
  obtain t s where s: "scan_token (opt_ignore_comments opts) (p_input p) = (t, s)" by force
  have le: "length s \<le> length (p_input p)" by (rule scan_token_length [OF s])
  have lt: "\<not> final_token t \<Longrightarrow> length s < length (p_input p)" by (rule scan_token_shorter [OF s])
  show "parse_size (get_token opts p) \<le> 2 * length (p_input p)"
    using le lt s by (auto simp: get_token_def scan_def parse_size_def)
  show "\<not> final_token (p_last (get_token opts p)) \<Longrightarrow> parse_size (get_token opts p) < 2 * length (p_input p)"
    using lt s by (auto simp: get_token_def scan_def parse_size_def)
qed

lemma parse_size_input: "2 * length (p_input p) \<le> parse_size p"
  by (simp add: parse_size_def)

lemma get_token_smaller:
  "p_last (get_token opts p) = t \<Longrightarrow> \<not> final_token t \<Longrightarrow> parse_size (get_token opts p) < parse_size p"
  using get_token_size(2) [of opts p] parse_size_input [of p] by simp

lemma get_token_smaller':
  "p_last p = t \<Longrightarrow> \<not> final_token t \<Longrightarrow> parse_size (get_token opts p) < parse_size p"
  using get_token_size(1) [of opts p] by (simp add: parse_size_def)

lemma get_token_size_le: "parse_size (get_token opts p) \<le> parse_size p"
  using get_token_size(1) [of opts p] parse_size_input [of p] by simp

lemma emit_continue:
  "emit h e p k = ParseContinue q \<Longrightarrow> \<exists>s. k (p\<lparr>p_sax := s\<rparr>) = ParseContinue q"
  by (auto simp: emit_def split: prod.splits if_splits)

lemma close_container_size: "close_container h e p = ParseContinue q \<Longrightarrow> parse_size q = parse_size p"
  unfolding close_container_def by (auto dest!: emit_continue)

lemma parse_key_size:
  assumes "parse_key h opts p (\<lambda>p. ParseContinue (get_token opts (f p))) = ParseContinue q"
    and f: "\<And>p. parse_size (f p) = parse_size p"
  shows "parse_size q < parse_size p"
proof -
  obtain key where "p_last p = ValueString key"
    using assms(1) by (auto simp: parse_key_def syntax_error_def split: token.splits)
  then obtain s where "p_last (get_token opts (p\<lparr>p_sax := s\<rparr>)) = NameSeparator"
    "q = get_token opts (f (get_token opts (p\<lparr>p_sax := s\<rparr>)))"
    using assms(1) by (auto simp: parse_key_def syntax_error_def Let_def dest!: emit_continue split: if_splits)
  with get_token_smaller [of opts "p\<lparr>p_sax := s\<rparr>" NameSeparator]
    get_token_size_le [of opts "f (get_token opts (p\<lparr>p_sax := s\<rparr>))"] f
  show ?thesis by simp
qed

lemma evaluate_array_size:
  assumes "evaluate_array h opts p = ParseContinue q"
  shows "parse_size q < parse_size p"
proof -
  let ?p1 = "get_token opts p"
  have le: "parse_size (get_token opts ?p1) \<le> parse_size ?p1" by (rule get_token_size_le)
  show ?thesis
  proof (cases "p_last ?p1 = ValueSeparator")
    case True
    then have "parse_size q = parse_size (get_token opts ?p1)"
      using assms by (auto simp: evaluate_array_def Let_def dest: close_container_size split: if_splits)
    with le get_token_smaller [OF True] show ?thesis by simp
  next
    case False
    then have "p_last ?p1 = EndArray" "parse_size q = parse_size ?p1"
      using assms by (auto simp: evaluate_array_def syntax_error_def Let_def dest: close_container_size split: if_splits)
    with get_token_smaller [of opts p EndArray] show ?thesis by simp
  qed
qed

lemma evaluate_object_size:
  assumes "evaluate_object h opts p = ParseContinue q"
  shows "parse_size q < parse_size p"
proof -
  let ?p1 = "get_token opts p"
  have le: "parse_size (get_token opts ?p1) \<le> parse_size ?p1" by (rule get_token_size_le)
  show ?thesis
  proof (cases "p_last ?p1 = ValueSeparator")
    case True
    then have "parse_size q \<le> parse_size (get_token opts ?p1)"
      using assms parse_key_size [where f = "\<lambda>p. p"]
      by (fastforce simp: evaluate_object_def Let_def dest: close_container_size split: if_splits)
    with le get_token_smaller [OF True] show ?thesis by simp
  next
    case False
    then have "p_last ?p1 = EndObject" "parse_size q = parse_size ?p1"
      using assms by (auto simp: evaluate_object_def syntax_error_def Let_def dest: close_container_size split: if_splits)
    with get_token_smaller [of opts p EndObject] show ?thesis by simp
  qed
qed

lemma evaluate_state_size: "evaluate_state h opts p = ParseContinue q \<Longrightarrow> parse_size q < parse_size p"
  unfolding evaluate_state_def
  by (auto split: list.splits bool.splits dest: evaluate_array_size evaluate_object_size)

lemma emit_evaluate_size:
  "emit h e p (evaluate_state h opts) = ParseContinue q \<Longrightarrow> parse_size q < parse_size p"
  by (auto dest!: emit_continue evaluate_state_size)

lemma begin_object_size:
  assumes "begin_object h opts p = ParseContinue q"
  shows "parse_size q < parse_size p"
proof -
  obtain s where s: "(let p = get_token opts (p\<lparr>p_sax := s\<rparr>) in
       if p_last p = EndObject then emit h SaxEndObject p (evaluate_state h opts)
       else parse_key h opts p (\<lambda>p.
         ParseContinue (get_token opts (p\<lparr>p_states := False # p_states p\<rparr>)))) = ParseContinue q"
    using assms unfolding begin_object_def by (blast dest: emit_continue)
  let ?p1 = "get_token opts (p\<lparr>p_sax := s\<rparr>)"
  have le: "parse_size ?p1 \<le> parse_size p"
    using get_token_size_le [of opts "p\<lparr>p_sax := s\<rparr>"] by simp
  have "parse_size q < parse_size ?p1"
  proof (cases "p_last ?p1 = EndObject")
    case True
    with s have "emit h SaxEndObject ?p1 (evaluate_state h opts) = ParseContinue q"
      by (simp add: Let_def)
    then show ?thesis by (rule emit_evaluate_size)
  next
    case False
    with s have "parse_key h opts ?p1 (\<lambda>p.
        ParseContinue (get_token opts (p\<lparr>p_states := False # p_states p\<rparr>))) = ParseContinue q"
      by (simp add: Let_def)
    then show ?thesis by (rule parse_key_size) simp
  qed
  with le show ?thesis by simp
qed

lemma begin_array_size:
  assumes "begin_array h opts p = ParseContinue q" and "p_last p = BeginArray"
  shows "parse_size q < parse_size p"
proof -
  obtain s where s: "(let p = get_token opts (p\<lparr>p_sax := s\<rparr>) in
       if p_last p = EndArray then emit h SaxEndArray p (evaluate_state h opts)
       else ParseContinue (p\<lparr>p_states := True # p_states p\<rparr>)) = ParseContinue q"
    using assms(1) unfolding begin_array_def by (blast dest: emit_continue)
  let ?p1 = "get_token opts (p\<lparr>p_sax := s\<rparr>)"
  have lt: "parse_size ?p1 < parse_size p"
    using get_token_smaller' [of "p\<lparr>p_sax := s\<rparr>" BeginArray opts] assms(2) by simp
  show ?thesis
  proof (cases "p_last ?p1 = EndArray")
    case True
    with s have "emit h SaxEndArray ?p1 (evaluate_state h opts) = ParseContinue q"
      by (simp add: Let_def)
    then have "parse_size q < parse_size ?p1" by (rule emit_evaluate_size)
    with lt show ?thesis by simp
  next
    case False
    with s have "parse_size q = parse_size ?p1" by (auto simp: Let_def)
    with lt show ?thesis by simp
  qed
qed

lemma parse_value_size: "parse_value h opts p = ParseContinue q \<Longrightarrow> parse_size q < parse_size p"
  unfolding parse_value_def
  by (auto split: token.splits option.splits if_splits simp: syntax_error_def
      dest: emit_evaluate_size begin_array_size begin_object_size)

lemma parse_round_size:
  assumes "parse_round h opts p = ParseContinue q"
  shows "parse_size q < parse_size p"
proof (cases "p_skip p")
  case True
  then show ?thesis using evaluate_state_size [of h opts "p\<lparr>p_skip := False\<rparr>" q] assms
    by (simp add: parse_round_def)
next
  case False
  then show ?thesis using parse_value_size assms by (simp add: parse_round_def)
qed

function parse_loop :: "'s sax_handler \<Rightarrow> parse_options \<Rightarrow> 's json_parser \<Rightarrow> 's parse_end" where
  "parse_loop h opts p =
     (case parse_round h opts p of
        ParseContinue q \<Rightarrow> parse_loop h opts q
      | ParseReturn r \<Rightarrow> r)"
  by pat_completeness auto
termination parse_loop
  by (relation "measure (\<lambda>(h, opts, p). parse_size p)") (auto dest: parse_round_size)

declare parse_loop.simps [simp del]

text \<open>
  The constructor reads the first token; \<^verbatim>\<open>sax_parse\<close> and \<^verbatim>\<open>parse\<close> are strict: behind the value
  the input must end.
\<close>

definition start_parser :: "parse_options \<Rightarrow> string \<Rightarrow> 's \<Rightarrow> 's json_parser" where
  "start_parser opts s init =
     (case scan (opt_ignore_comments opts) True s of
        (t, u) \<Rightarrow> \<lparr>p_last = t, p_input = u, p_states = [], p_skip = False, p_sax = init\<rparr>)"

definition strict_end :: "parse_options \<Rightarrow> 's parse_end \<Rightarrow> 's parse_end" where
  "strict_end opts r =
     (case r of
        ParseDone p \<Rightarrow>
          (if p_last (get_token opts p) = EndOfInput then ParseDone p
           else ParseFailed (parse_error 101) (p_sax p))
      | _ \<Rightarrow> r)"

definition sax_parse :: "'s sax_handler \<Rightarrow> parse_options \<Rightarrow> string \<Rightarrow> 's \<Rightarrow> 's parse_end" where
  "sax_parse h opts s init = strict_end opts (parse_loop h opts (start_parser opts s init))"

text \<open>\<^verbatim>\<open>accept\<close>: the handler of \<^verbatim>\<open>json_sax_acceptor\<close> agrees to everything.\<close>

definition acceptor :: "unit sax_handler" where
  "acceptor e s = (True, ())"

definition accept :: "string \<Rightarrow> bool" where
  "accept s = (case sax_parse acceptor default_options s () of ParseDone p \<Rightarrow> True | _ \<Rightarrow> False)"

end
