(* ===== verification/NGrammar.thy ===== *)
theory NGrammar
  imports NParser
begin

text \<open>
  The grammar of JSON texts over the lexer's tokens, as syntax trees, and its equivalence with
  the parser's loop: for every handler that always agrees to go on, the loop accepts exactly the
  token sequences of the grammar and emits exactly the events of their syntax trees.
\<close>

subsection \<open>The grammar of JSON texts\<close>

text \<open>
  Syntax trees, with the tokens they are written with and the events they stand for. A
  scalar is any token that is a value of its own, other than a float out of range.
\<close>

datatype json_syntax =
    ScalarText token
  | ArrayText "json_syntax list"
  | ObjectText "(string \<times> json_syntax) list"

fun separated :: "token list list \<Rightarrow> token list" where
  "separated [] = []"
| "separated [x] = x"
| "separated (x # xs) = x @ ValueSeparator # separated xs"

fun syntax_tokens :: "json_syntax \<Rightarrow> token list" where
  "syntax_tokens (ScalarText t) = [t]"
| "syntax_tokens (ArrayText ts) = BeginArray # separated (map syntax_tokens ts) @ [EndArray]"
| "syntax_tokens (ObjectText ms) =
     BeginObject
     # separated (map (\<lambda>(k, t). ValueString k # NameSeparator # syntax_tokens t) ms) @ [EndObject]"

fun member_tokens :: "string \<times> json_syntax \<Rightarrow> token list" where
  "member_tokens (k, t) = ValueString k # NameSeparator # syntax_tokens t"

definition scalar_events :: "token \<Rightarrow> sax_event list" where
  "scalar_events t = (case scalar_event t of Some e \<Rightarrow> [e] | None \<Rightarrow> [])"

fun syntax_events :: "json_syntax \<Rightarrow> sax_event list" where
  "syntax_events (ScalarText t) = scalar_events t"
| "syntax_events (ArrayText ts) = SaxStartArray # concat (map syntax_events ts) @ [SaxEndArray]"
| "syntax_events (ObjectText ms) =
     SaxStartObject # concat (map (\<lambda>(k, t). SaxKey k # syntax_events t) ms) @ [SaxEndObject]"

fun member_events :: "string \<times> json_syntax \<Rightarrow> sax_event list" where
  "member_events (k, t) = SaxKey k # syntax_events t"

lemma syntax_object:
  "syntax_tokens (ObjectText ms) = BeginObject # separated (map member_tokens ms) @ [EndObject]"
  "syntax_events (ObjectText ms) = SaxStartObject # concat (map member_events ms) @ [SaxEndObject]"
proof -
  have "(\<lambda>(k, t). ValueString k # NameSeparator # syntax_tokens t) = member_tokens"
    "(\<lambda>(k, t). SaxKey k # syntax_events t) = member_events"
    by (auto simp: fun_eq_iff)
  then show
    "syntax_tokens (ObjectText ms) = BeginObject # separated (map member_tokens ms) @ [EndObject]"
    "syntax_events (ObjectText ms) = SaxStartObject # concat (map member_events ms) @ [SaxEndObject]"
    by simp_all
qed

definition scalar_token :: "token \<Rightarrow> bool" where
  "scalar_token t \<longleftrightarrow>
     scalar_event t \<noteq> None \<and> (case t of ValueFloat s \<Rightarrow> number_finite s | _ \<Rightarrow> True)"

fun syntax_ok :: "json_syntax \<Rightarrow> bool" where
  "syntax_ok (ScalarText t) = scalar_token t"
| "syntax_ok (ArrayText ts) = list_all syntax_ok ts"
| "syntax_ok (ObjectText ms) = list_all (\<lambda>(k, t). syntax_ok t) ms"

text \<open>The tokens the lexer reads from an input, and the input left behind them.\<close>

inductive reads :: "('s \<Rightarrow> token \<times> 's) \<Rightarrow> 's \<Rightarrow> token list \<Rightarrow> 's \<Rightarrow> bool"
  for read :: "'s \<Rightarrow> token \<times> 's" where
  reads_Nil: "reads read s [] s"
| reads_Cons: "read s = (t, u) \<Longrightarrow> reads read u ts v \<Longrightarrow> reads read s (t # ts) v"

inductive_simps reads_Nil_iff [simp]: "reads read s [] u"
inductive_simps reads_Cons_iff: "reads read s (t # ts) u"

abbreviation lexes :: "bool \<Rightarrow> string \<Rightarrow> token list \<Rightarrow> string \<Rightarrow> bool" where
  "lexes ic \<equiv> reads (scan ic False)"

lemmas lexes_Cons_iff = reads_Cons_iff [where read = "scan ic False" for ic]

text \<open>What the parser relies on: tokens use up input, all but the final ones.\<close>

locale token_source =
  fixes read :: "'s \<Rightarrow> token \<times> 's"
    and left :: "'s \<Rightarrow> nat"
  assumes shorter: "read s = (t, u) \<Longrightarrow> \<not> final_token t \<Longrightarrow> left u < left s"
    and not_longer: "read s = (t, u) \<Longrightarrow> left u \<le> left s"
begin

lemma reads_left: "reads read s ts u \<Longrightarrow> left u \<le> left s"
  by (induction rule: reads.induct) (auto dest: not_longer)

lemma reads_to_final:
  "\<exists>ts t u. reads read s (ts @ [t]) u \<and> final_token t \<and> list_all (\<lambda>x. \<not> final_token x) ts
     \<and> length ts \<le> left s"
proof (induction "left s" arbitrary: s rule: less_induct)
  case less
  obtain t u where r: "read s = (t, u)" by force
  show ?case
  proof (cases "final_token t")
    case True
    with r have "reads read s ([] @ [t]) u" by (simp add: reads_Cons_iff)
    with True show ?thesis
      by (intro exI [of _ "[]"] exI [of _ t] exI [of _ u]) simp
  next
    case False
    then have lt: "left u < left s" by (rule shorter [OF r])
    then obtain ts f v where "reads read u (ts @ [f]) v" "final_token f"
      "list_all (\<lambda>x. \<not> final_token x) ts" "length ts \<le> left u"
      using less by blast
    with lt r False show ?thesis
      by (intro exI [of _ "t # ts"] exI [of _ f] exI [of _ v]) (simp add: reads_Cons_iff)
  qed
qed

lemma reads_functional:
  "reads read s (ts @ [t]) u \<Longrightarrow> final_token t \<Longrightarrow> list_all (\<lambda>x. \<not> final_token x) ts \<Longrightarrow>
   reads read s (ts' @ [t']) u' \<Longrightarrow> final_token t' \<Longrightarrow> list_all (\<lambda>x. \<not> final_token x) ts' \<Longrightarrow>
   ts = ts' \<and> t = t'"
proof (induction ts arbitrary: s ts')
  case Nil
  then show ?case by (cases ts') (auto simp: reads_Cons_iff)
next
  case (Cons x xs)
  then obtain y ys where ts': "ts' = y # ys" by (cases ts') (auto simp: reads_Cons_iff)
  with Cons show ?case by (auto simp: reads_Cons_iff)
qed

end

text \<open>The lexer is such a source, with or without comments.\<close>

interpretation lexer: token_source "scan ic False" "length :: string \<Rightarrow> nat" for ic
  by unfold_locales (auto simp: scan_def dest: scan_token_shorter scan_token_length)

lemma lexes_append: "lexes ic s (xs @ ys) v \<longleftrightarrow> (\<exists>u. lexes ic s xs u \<and> lexes ic u ys v)"
  by (induction xs arbitrary: s) (auto simp: lexes_Cons_iff)

lemma syntax_tokens_nonempty [simp]: "syntax_tokens t \<noteq> []"
  by (cases t) auto

lemma syntax_tokens_split: "syntax_tokens t = hd (syntax_tokens t) # tl (syntax_tokens t)"
  by simp

lemma separated_Cons: "xs \<noteq> [] \<Longrightarrow> separated (x # xs) = x @ ValueSeparator # separated xs"
  by (cases xs) auto

lemma separated_nonempty: "ts \<noteq> [] \<Longrightarrow> (\<And>t. g t \<noteq> []) \<Longrightarrow> separated (map g ts) \<noteq> []"
  by (cases "map g ts" rule: separated.cases) (auto simp: Cons_eq_map_conv)

lemma separated_append:
  assumes "ts \<noteq> []" "\<And>t. g t \<noteq> []"
  shows "separated (map g ts) @ ys = hd (separated (map g ts)) # tl (separated (map g ts) @ ys)"
  using separated_nonempty [of ts g] assms by (cases "separated (map g ts)") auto

lemma array_first:
  assumes "ts \<noteq> []" "\<And>t. t \<in> set ts \<Longrightarrow> syntax_ok t"
  shows "hd (separated (map syntax_tokens ts)) \<noteq> EndArray"
proof -
  obtain t us where ts: "ts = t # us" using assms(1) by (cases ts) auto
  have "hd (syntax_tokens t) \<noteq> EndArray"
    using assms(2) [of t] ts by (cases t) (auto simp: scalar_token_def)
  with ts show ?thesis by (cases "us = []") (simp_all add: separated_Cons)
qed

lemma object_first:
  assumes "ms \<noteq> []"
  shows "\<exists>k. hd (separated (map member_tokens ms)) = ValueString k"
  using assms by (cases ms; cases "tl ms = []") (auto simp: separated_Cons)

text \<open>Reading a token that the lexer is known to read.\<close>

lemma get_token_lexes:
  "lexes (opt_ignore_comments opts) (p_input p) (t # ts) v \<Longrightarrow>
   \<exists>u. get_token opts p = p\<lparr>p_last := t, p_input := u\<rparr> \<and> lexes (opt_ignore_comments opts) u ts v"
  by (auto simp: lexes_Cons_iff get_token_def)

lemma lexes_get_token:
  "lexes (opt_ignore_comments opts) (p_input p) (p_last (get_token opts p) # ts) v
   \<longleftrightarrow> lexes (opt_ignore_comments opts) (p_input (get_token opts p)) ts v"
  by (auto simp: lexes_Cons_iff get_token_def split: prod.splits)

definition finish_round :: "'s sax_handler \<Rightarrow> parse_options \<Rightarrow> 's parse_step \<Rightarrow> 's parse_end" where
  "finish_round h opts r = (case r of ParseContinue q \<Rightarrow> parse_loop h opts q | ParseReturn e \<Rightarrow> e)"

lemma finish_round_simps [simp]:
  "finish_round h opts (ParseContinue q) = parse_loop h opts q"
  "finish_round h opts (ParseReturn e) = e"
  by (simp_all add: finish_round_def)

lemma parse_loop_round: "parse_loop h opts p = finish_round h opts (parse_round h opts p)"
  by (subst parse_loop.simps) (simp add: finish_round_def)

lemma parse_loop_value: "\<not> p_skip p \<Longrightarrow> parse_loop h opts p = finish_round h opts (parse_value h opts p)"
  by (subst parse_loop_round) (simp add: parse_round_def)

lemma parse_loop_skip:
  "p_skip p \<Longrightarrow> parse_loop h opts p = finish_round h opts (evaluate_state h opts (p\<lparr>p_skip := False\<rparr>))"
  by (subst parse_loop_round) (simp add: parse_round_def)

text \<open>The rounds from a key of an object on.\<close>

abbreviation key_position :: "'s sax_handler \<Rightarrow> parse_options \<Rightarrow> 's json_parser \<Rightarrow> 's parse_end" where
  "key_position h opts p \<equiv>
     finish_round h opts (parse_key h opts p (\<lambda>p. ParseContinue (get_token opts p)))"

text \<open>
  What the input holds from a value, from an element of an array and from a key of an object
  on; and how the loop ends when it does not.
\<close>

definition value_at :: "parse_options \<Rightarrow> 's json_parser \<Rightarrow> bool" where
  "value_at opts p \<longleftrightarrow> (\<exists>t u. syntax_ok t \<and> p_last p = hd (syntax_tokens t)
     \<and> lexes (opt_ignore_comments opts) (p_input p) (tl (syntax_tokens t)) u)"

definition elements_at :: "parse_options \<Rightarrow> 's json_parser \<Rightarrow> bool" where
  "elements_at opts p \<longleftrightarrow> (\<exists>ts u. ts \<noteq> [] \<and> list_all syntax_ok ts
     \<and> p_last p = hd (separated (map syntax_tokens ts))
     \<and> lexes (opt_ignore_comments opts) (p_input p)
         (tl (separated (map syntax_tokens ts) @ [EndArray])) u)"

definition members_at :: "parse_options \<Rightarrow> 's json_parser \<Rightarrow> bool" where
  "members_at opts p \<longleftrightarrow> (\<exists>ms u. ms \<noteq> [] \<and> list_all (\<lambda>(k, t). syntax_ok t) ms
     \<and> p_last p = hd (separated (map member_tokens ms))
     \<and> lexes (opt_ignore_comments opts) (p_input p)
         (tl (separated (map member_tokens ms) @ [EndObject])) u)"

text \<open>An input that is, to its end, the text of a syntax tree.\<close>

definition json_text :: "parse_options \<Rightarrow> string \<Rightarrow> json_syntax \<Rightarrow> bool" where
  "json_text opts s t \<longleftrightarrow> syntax_ok t
     \<and> (\<exists>u v. scan (opt_ignore_comments opts) True s = (hd (syntax_tokens t), u)
            \<and> lexes (opt_ignore_comments opts) u (tl (syntax_tokens t) @ [EndOfInput]) v)"

fun parse_failed :: "'s parse_end \<Rightarrow> bool" where
  "parse_failed (ParseFailed e s) = True"
| "parse_failed r = False"

lemma lexes_length: "lexes ic s ts u \<Longrightarrow> length u \<le> length s"
  by (rule lexer.reads_left)

lemma syntax_first_nonfinal: "syntax_ok t \<Longrightarrow> \<not> final_token (hd (syntax_tokens t))"
  by (cases t) (auto simp: scalar_token_def elim: final_token.elims)

subsection \<open>The loop accepts the grammar\<close>

locale agreeing_handler =
  fixes h :: "'s sax_handler"
    and f :: "sax_event \<Rightarrow> 's \<Rightarrow> 's"
    and opts :: parse_options
  assumes agrees: "h e s = (True, f e s)"
    and no_trailing_commas: "\<not> opt_ignore_trailing_commas opts"
begin

lemma emit_agrees: "emit h e p k = k (p\<lparr>p_sax := f e (p_sax p)\<rparr>)"
  by (simp add: emit_def agrees)

lemma scalar_value:
  assumes "scalar_token t" "p_last p = t" "\<not> p_skip p"
  shows "parse_loop h opts p
    = finish_round h opts (evaluate_state h opts (p\<lparr>p_sax := fold f (scalar_events t) (p_sax p)\<rparr>))"
  using assms unfolding parse_loop_value [OF assms(3)] parse_value_def scalar_token_def
  by (cases t) (auto simp: emit_agrees scalar_events_def)

lemma close_agrees:
  "close_container h e p
   = ParseContinue (p\<lparr>p_sax := f e (p_sax p), p_states := tl (p_states p), p_skip := True\<rparr>)"
  by (simp add: close_container_def emit_agrees)

lemma array_elements:
  assumes "\<And>t p u. t \<in> set ts \<Longrightarrow> p_last p = hd (syntax_tokens t) \<Longrightarrow> \<not> p_skip p
      \<Longrightarrow> lexes (opt_ignore_comments opts) (p_input p) (tl (syntax_tokens t)) u
      \<Longrightarrow> parse_loop h opts p = finish_round h opts (evaluate_state h opts
            (p\<lparr>p_last := last (syntax_tokens t), p_input := u,
               p_sax := fold f (syntax_events t) (p_sax p)\<rparr>))"
    and "ts \<noteq> []" "\<not> p_skip p" "p_states p = True # ss"
    and "lexes (opt_ignore_comments opts) (p_input p)
           (tl (separated (map syntax_tokens ts) @ [EndArray])) u"
    and "p_last p = hd (separated (map syntax_tokens ts))"
  shows "parse_loop h opts p
    = parse_loop h opts (p\<lparr>p_last := EndArray, p_input := u, p_states := ss, p_skip := True,
        p_sax := fold f (concat (map syntax_events ts) @ [SaxEndArray]) (p_sax p)\<rparr>)"
  using assms
proof (induction ts arbitrary: p)
  case Nil
  then show ?case by simp
next
  case (Cons t ts)
  let ?ic = "opt_ignore_comments opts"
  show ?case
  proof (cases "ts = []")
    case True
    with Cons.prems(5) obtain v where v: "lexes ?ic (p_input p) (tl (syntax_tokens t)) v"
      "lexes ?ic v [EndArray] u"
      by (auto simp: lexes_append)
    let ?p = "p\<lparr>p_last := last (syntax_tokens t), p_input := v,
               p_sax := fold f (syntax_events t) (p_sax p)\<rparr>"
    have "get_token opts ?p = ?p\<lparr>p_last := EndArray, p_input := u\<rparr>"
      using get_token_lexes [of opts ?p EndArray "[]" u] v(2) by simp
    then have "evaluate_state h opts ?p = ParseContinue (p\<lparr>p_last := EndArray, p_input := u,
        p_states := ss, p_skip := True, p_sax := f SaxEndArray (fold f (syntax_events t) (p_sax p))\<rparr>)"
      using Cons.prems(4) by (simp add: evaluate_state_def evaluate_array_def close_agrees)
    with Cons.prems(1) [of t p v] Cons.prems(3,6) v(1) True show ?thesis by simp
  next
    case False
    let ?rest = "separated (map syntax_tokens ts) @ [EndArray]"
    have sep: "separated (map syntax_tokens (t # ts))
        = syntax_tokens t @ ValueSeparator # separated (map syntax_tokens ts)"
      using False by (simp add: separated_Cons)
    have rest: "?rest = hd (separated (map syntax_tokens ts)) # tl ?rest"
      by (rule separated_append) (use False in simp_all)
    obtain v where v: "lexes ?ic (p_input p) (tl (syntax_tokens t)) v"
      "lexes ?ic v (ValueSeparator # ?rest) u"
      using Cons.prems(5) unfolding sep by (auto simp: lexes_append)
    let ?p = "p\<lparr>p_last := last (syntax_tokens t), p_input := v,
               p_sax := fold f (syntax_events t) (p_sax p)\<rparr>"
    obtain w where w: "get_token opts ?p = ?p\<lparr>p_last := ValueSeparator, p_input := w\<rparr>"
      "lexes ?ic w (hd (separated (map syntax_tokens ts)) # tl ?rest) u"
      using get_token_lexes [of opts ?p ValueSeparator ?rest u] v(2) rest by auto
    obtain x where x: "get_token opts (?p\<lparr>p_last := ValueSeparator, p_input := w\<rparr>)
        = ?p\<lparr>p_last := hd (separated (map syntax_tokens ts)), p_input := x\<rparr>"
      "lexes ?ic x (tl ?rest) u"
      using get_token_lexes [of opts "?p\<lparr>p_last := ValueSeparator, p_input := w\<rparr>"
          "hd (separated (map syntax_tokens ts))" "tl ?rest" u] w(2) by auto
    let ?q = "?p\<lparr>p_last := hd (separated (map syntax_tokens ts)), p_input := x\<rparr>"
    have "evaluate_state h opts ?p = ParseContinue ?q"
      using Cons.prems(4) w(1) x(1) no_trailing_commas
      by (simp add: evaluate_state_def evaluate_array_def)
    moreover have "hd (separated (map syntax_tokens (t # ts))) = hd (syntax_tokens t)"
      unfolding sep by simp
    ultimately have "parse_loop h opts p = parse_loop h opts ?q"
      using Cons.prems(1) [of t p v] Cons.prems(3,6) v(1) by simp
    also have "\<dots> = parse_loop h opts (?q\<lparr>p_last := EndArray, p_input := u, p_states := ss,
        p_skip := True, p_sax := fold f (concat (map syntax_events ts) @ [SaxEndArray]) (p_sax ?q)\<rparr>)"
      by (rule Cons.IH) (use Cons.prems False x(2) in simp_all)
    finally show ?thesis by simp
  qed
qed

lemma object_member:
  assumes val: "\<And>p u. p_last p = hd (syntax_tokens t) \<Longrightarrow> \<not> p_skip p
      \<Longrightarrow> lexes (opt_ignore_comments opts) (p_input p) (tl (syntax_tokens t)) u
      \<Longrightarrow> parse_loop h opts p = finish_round h opts (evaluate_state h opts
            (p\<lparr>p_last := last (syntax_tokens t), p_input := u,
               p_sax := fold f (syntax_events t) (p_sax p)\<rparr>))"
    and "\<not> p_skip p" "p_last p = ValueString k"
    and "lexes (opt_ignore_comments opts) (p_input p) (NameSeparator # syntax_tokens t) u"
  shows "key_position h opts p = finish_round h opts (evaluate_state h opts
            (p\<lparr>p_last := last (syntax_tokens t), p_input := u,
               p_sax := fold f (SaxKey k # syntax_events t) (p_sax p)\<rparr>))"
proof -
  let ?p = "p\<lparr>p_sax := f (SaxKey k) (p_sax p)\<rparr>"
  obtain v where v: "get_token opts ?p = ?p\<lparr>p_last := NameSeparator, p_input := v\<rparr>"
    "lexes (opt_ignore_comments opts) v (hd (syntax_tokens t) # tl (syntax_tokens t)) u"
    using get_token_lexes [of opts ?p NameSeparator "syntax_tokens t" u] assms(4) by auto
  let ?q = "?p\<lparr>p_last := NameSeparator, p_input := v\<rparr>"
  obtain w where w: "get_token opts ?q = ?q\<lparr>p_last := hd (syntax_tokens t), p_input := w\<rparr>"
    "lexes (opt_ignore_comments opts) w (tl (syntax_tokens t)) u"
    using get_token_lexes [of opts ?q "hd (syntax_tokens t)" "tl (syntax_tokens t)" u] v(2) by auto
  have "key_position h opts p = parse_loop h opts (?q\<lparr>p_last := hd (syntax_tokens t), p_input := w\<rparr>)"
    using assms(3) v(1) w(1) by (simp add: parse_key_def emit_agrees)
  with val [of "?q\<lparr>p_last := hd (syntax_tokens t), p_input := w\<rparr>" u] w(2) assms(2)
  show ?thesis by simp
qed

lemma object_members:
  assumes "\<And>k t p u. (k, t) \<in> set ms \<Longrightarrow> p_last p = hd (syntax_tokens t) \<Longrightarrow> \<not> p_skip p
      \<Longrightarrow> lexes (opt_ignore_comments opts) (p_input p) (tl (syntax_tokens t)) u
      \<Longrightarrow> parse_loop h opts p = finish_round h opts (evaluate_state h opts
            (p\<lparr>p_last := last (syntax_tokens t), p_input := u,
               p_sax := fold f (syntax_events t) (p_sax p)\<rparr>))"
    and "ms \<noteq> []" "\<not> p_skip p" "p_states p = False # ss"
    and "lexes (opt_ignore_comments opts) (p_input p)
           (tl (separated (map member_tokens ms) @ [EndObject])) u"
    and "p_last p = hd (separated (map member_tokens ms))"
  shows "key_position h opts p
    = parse_loop h opts (p\<lparr>p_last := EndObject, p_input := u, p_states := ss, p_skip := True,
        p_sax := fold f (concat (map member_events ms) @ [SaxEndObject]) (p_sax p)\<rparr>)"
  using assms
proof (induction ms arbitrary: p)
  case Nil
  then show ?case by simp
next
  case (Cons m ms)
  let ?ic = "opt_ignore_comments opts"
  obtain k t where m: "m = (k, t)" by force
  have key: "p_last p = ValueString k"
    using Cons.prems(6) by (cases "ms = []") (simp_all add: m separated_Cons)
  show ?case
  proof (cases "ms = []")
    case True
    with Cons.prems(5) obtain v where v: "lexes ?ic (p_input p) (NameSeparator # syntax_tokens t) v"
      "lexes ?ic v [EndObject] u"
      by (auto simp: m lexes_append lexes_Cons_iff)
    let ?p = "p\<lparr>p_last := last (syntax_tokens t), p_input := v,
               p_sax := fold f (SaxKey k # syntax_events t) (p_sax p)\<rparr>"
    have "get_token opts ?p = ?p\<lparr>p_last := EndObject, p_input := u\<rparr>"
      using get_token_lexes [of opts ?p EndObject "[]" u] v(2) by simp
    then have "evaluate_state h opts ?p = ParseContinue (p\<lparr>p_last := EndObject, p_input := u,
        p_states := ss, p_skip := True,
        p_sax := f SaxEndObject (fold f (SaxKey k # syntax_events t) (p_sax p))\<rparr>)"
      using Cons.prems(4) by (simp add: evaluate_state_def evaluate_object_def close_agrees)
    moreover have "key_position h opts p = finish_round h opts (evaluate_state h opts ?p)"
      by (rule object_member) (use Cons.prems m key v(1) in auto)
    ultimately show ?thesis using True by (simp add: m)
  next
    case False
    let ?rest = "separated (map member_tokens ms) @ [EndObject]"
    have sep: "separated (map member_tokens (m # ms))
        = ValueString k # NameSeparator # syntax_tokens t @ ValueSeparator # separated (map member_tokens ms)"
      using False by (simp add: m separated_Cons)
    have rest: "?rest = hd (separated (map member_tokens ms)) # tl ?rest"
      by (rule separated_append) (use False in auto)
    obtain v where v: "lexes ?ic (p_input p) (NameSeparator # syntax_tokens t) v"
      "lexes ?ic v (ValueSeparator # ?rest) u"
      using Cons.prems(5) unfolding sep by (auto simp: lexes_append lexes_Cons_iff)
    let ?p = "p\<lparr>p_last := last (syntax_tokens t), p_input := v,
               p_sax := fold f (SaxKey k # syntax_events t) (p_sax p)\<rparr>"
    obtain w where w: "get_token opts ?p = ?p\<lparr>p_last := ValueSeparator, p_input := w\<rparr>"
      "lexes ?ic w (hd (separated (map member_tokens ms)) # tl ?rest) u"
      using get_token_lexes [of opts ?p ValueSeparator ?rest u] v(2) rest by auto
    let ?q = "?p\<lparr>p_last := ValueSeparator, p_input := w\<rparr>"
    obtain x where x: "get_token opts ?q = ?p\<lparr>p_last := hd (separated (map member_tokens ms)), p_input := x\<rparr>"
      "lexes ?ic x (tl ?rest) u"
      using get_token_lexes [of opts ?q "hd (separated (map member_tokens ms))" "tl ?rest" u] w(2)
      by auto
    let ?r = "?p\<lparr>p_last := hd (separated (map member_tokens ms)), p_input := x\<rparr>"
    have "key_position h opts p = finish_round h opts (evaluate_state h opts ?p)"
      by (rule object_member) (use Cons.prems m key v(1) in auto)
    also have "evaluate_state h opts ?p = parse_key h opts ?r (\<lambda>p. ParseContinue (get_token opts p))"
      using Cons.prems(4) w(1) x(1) no_trailing_commas
      by (simp add: evaluate_state_def evaluate_object_def)
    also have "key_position h opts ?r = parse_loop h opts (?r\<lparr>p_last := EndObject, p_input := u,
        p_states := ss, p_skip := True,
        p_sax := fold f (concat (map member_events ms) @ [SaxEndObject]) (p_sax ?r)\<rparr>)"
    proof (rule Cons.IH)
      show "lexes ?ic (p_input ?r) (tl (separated (map member_tokens ms) @ [EndObject])) u"
        using x(2) by simp
      fix k t u and p :: "'s json_parser"
      assume "(k, t) \<in> set ms" "p_last p = hd (syntax_tokens t)" "\<not> p_skip p"
        "lexes ?ic (p_input p) (tl (syntax_tokens t)) u"
      then show "parse_loop h opts p = finish_round h opts (evaluate_state h opts
            (p\<lparr>p_last := last (syntax_tokens t), p_input := u,
               p_sax := fold f (syntax_events t) (p_sax p)\<rparr>))"
        by (intro Cons.prems(1)) auto
    qed (use Cons.prems False in simp_all)
    finally show ?thesis by (simp add: m)
  qed
qed

text \<open>Behind a container's last token the value is complete, as behind a scalar.\<close>

lemma begin_array_round:
  assumes "lexes (opt_ignore_comments opts) (p_input p) (t # ts) u"
  shows "\<exists>v. lexes (opt_ignore_comments opts) v ts u
    \<and> begin_array h opts p
      = (if t = EndArray
         then evaluate_state h opts (p\<lparr>p_last := EndArray, p_input := v,
                p_sax := f SaxEndArray (f SaxStartArray (p_sax p))\<rparr>)
         else ParseContinue (p\<lparr>p_last := t, p_input := v, p_states := True # p_states p,
                p_sax := f SaxStartArray (p_sax p)\<rparr>))"
proof -
  let ?p = "p\<lparr>p_sax := f SaxStartArray (p_sax p)\<rparr>"
  obtain v where "get_token opts ?p = ?p\<lparr>p_last := t, p_input := v\<rparr>"
    "lexes (opt_ignore_comments opts) v ts u"
    using get_token_lexes [of opts ?p t ts u] assms by auto
  then show ?thesis by (intro exI [of _ v]) (simp add: begin_array_def emit_agrees)
qed

lemma parse_key_states:
  "parse_key h opts p (\<lambda>p. ParseContinue (get_token opts (p\<lparr>p_states := False # p_states p\<rparr>)))
   = parse_key h opts (p\<lparr>p_states := False # p_states p\<rparr>) (\<lambda>p. ParseContinue (get_token opts p))"
  by (auto simp: parse_key_def emit_agrees syntax_error_def get_token_def Let_def split: token.split prod.split)

lemma begin_object_round:
  assumes "lexes (opt_ignore_comments opts) (p_input p) (t # ts) u"
  shows "\<exists>v. lexes (opt_ignore_comments opts) v ts u
    \<and> begin_object h opts p
      = (if t = EndObject
         then evaluate_state h opts (p\<lparr>p_last := EndObject, p_input := v,
                p_sax := f SaxEndObject (f SaxStartObject (p_sax p))\<rparr>)
         else parse_key h opts (p\<lparr>p_last := t, p_input := v, p_states := False # p_states p,
                p_sax := f SaxStartObject (p_sax p)\<rparr>) (\<lambda>p. ParseContinue (get_token opts p)))"
proof -
  let ?p = "p\<lparr>p_sax := f SaxStartObject (p_sax p)\<rparr>"
  obtain v where "get_token opts ?p = ?p\<lparr>p_last := t, p_input := v\<rparr>"
    "lexes (opt_ignore_comments opts) v ts u"
    using get_token_lexes [of opts ?p t ts u] assms by auto
  then show ?thesis
    by (intro exI [of _ v]; cases p) (simp add: begin_object_def emit_agrees parse_key_states)
qed

lemma value_accepted:
  assumes "syntax_ok t" "p_last p = hd (syntax_tokens t)" "\<not> p_skip p"
    and "lexes (opt_ignore_comments opts) (p_input p) (tl (syntax_tokens t)) u"
  shows "parse_loop h opts p = finish_round h opts (evaluate_state h opts
            (p\<lparr>p_last := last (syntax_tokens t), p_input := u,
               p_sax := fold f (syntax_events t) (p_sax p)\<rparr>))"
  using assms
proof (induction t arbitrary: p u)
  case (ScalarText t)
  then have "p\<lparr>p_last := t, p_input := u\<rparr> = p" by (cases p) simp
  with ScalarText show ?case using scalar_value [of t p] by (cases p) simp
next
  case (ArrayText ts)
  have ok: "\<And>t. t \<in> set ts \<Longrightarrow> syntax_ok t" using ArrayText.prems(1) by (simp add: list_all_iff)
  show ?case
  proof (cases "ts = []")
    case True
    with ArrayText.prems begin_array_round [of p EndArray "[]" u] show ?thesis
      by (simp add: parse_loop_value parse_value_def)
  next
    case False
    let ?all = "separated (map syntax_tokens ts) @ [EndArray]"
    have all: "?all = hd (separated (map syntax_tokens ts)) # tl ?all"
      by (rule separated_append) (use False in simp_all)
    have first: "hd (separated (map syntax_tokens ts)) \<noteq> EndArray"
      using False ok by (rule array_first)
    obtain v where v: "lexes (opt_ignore_comments opts) v (tl ?all) u"
      "begin_array h opts p = ParseContinue (p\<lparr>p_last := hd (separated (map syntax_tokens ts)),
         p_input := v, p_states := True # p_states p, p_sax := f SaxStartArray (p_sax p)\<rparr>)"
      using begin_array_round [of p "hd (separated (map syntax_tokens ts))" "tl ?all" u] all first
        ArrayText.prems(4) by auto
    let ?p = "p\<lparr>p_last := hd (separated (map syntax_tokens ts)),
         p_input := v, p_states := True # p_states p, p_sax := f SaxStartArray (p_sax p)\<rparr>"
    have "parse_loop h opts p = parse_loop h opts ?p"
      using ArrayText.prems v(2) by (simp add: parse_loop_value parse_value_def)
    also have "\<dots> = parse_loop h opts (?p\<lparr>p_last := EndArray, p_input := u, p_states := p_states p,
        p_skip := True, p_sax := fold f (concat (map syntax_events ts) @ [SaxEndArray]) (p_sax ?p)\<rparr>)"
    proof (rule array_elements)
      fix t u and p :: "'s json_parser"
      assume "t \<in> set ts" "p_last p = hd (syntax_tokens t)" "\<not> p_skip p"
        "lexes (opt_ignore_comments opts) (p_input p) (tl (syntax_tokens t)) u"
      then show "parse_loop h opts p = finish_round h opts (evaluate_state h opts
            (p\<lparr>p_last := last (syntax_tokens t), p_input := u,
               p_sax := fold f (syntax_events t) (p_sax p)\<rparr>))"
        using ArrayText.IH ok by blast
    qed (use ArrayText.prems False v(1) in simp_all)
    finally show ?thesis using ArrayText.prems(3) by (cases p) (simp add: parse_loop_skip)
  qed
next
  case (ObjectText ms)
  have ok: "\<And>k t. (k, t) \<in> set ms \<Longrightarrow> syntax_ok t"
    using ObjectText.prems(1) by (auto simp: list_all_iff)
  show ?case
  proof (cases "ms = []")
    case True
    with ObjectText.prems begin_object_round [of p EndObject "[]" u] show ?thesis
      by (simp add: parse_loop_value parse_value_def)
  next
    case False
    let ?all = "separated (map member_tokens ms) @ [EndObject]"
    have all: "?all = hd (separated (map member_tokens ms)) # tl ?all"
      by (rule separated_append) (use False in auto)
    obtain k where first: "hd (separated (map member_tokens ms)) = ValueString k"
      using object_first [OF False] by blast
    obtain v where v: "lexes (opt_ignore_comments opts) v (tl ?all) u"
      "begin_object h opts p = parse_key h opts (p\<lparr>p_last := hd (separated (map member_tokens ms)),
         p_input := v, p_states := False # p_states p, p_sax := f SaxStartObject (p_sax p)\<rparr>)
         (\<lambda>p. ParseContinue (get_token opts p))"
      using begin_object_round [of p "hd (separated (map member_tokens ms))" "tl ?all" u] all first
        ObjectText.prems(4) by (auto simp del: syntax_tokens.simps syntax_events.simps simp: syntax_object)
    let ?p = "p\<lparr>p_last := hd (separated (map member_tokens ms)),
         p_input := v, p_states := False # p_states p, p_sax := f SaxStartObject (p_sax p)\<rparr>"
    have "parse_loop h opts p = key_position h opts ?p"
      using ObjectText.prems v(2) by (simp add: parse_loop_value parse_value_def)
    also have "\<dots> = parse_loop h opts (?p\<lparr>p_last := EndObject, p_input := u, p_states := p_states p,
        p_skip := True, p_sax := fold f (concat (map member_events ms) @ [SaxEndObject]) (p_sax ?p)\<rparr>)"
    proof (rule object_members)
      fix k t u and p :: "'s json_parser"
      assume m: "(k, t) \<in> set ms" and "p_last p = hd (syntax_tokens t)" "\<not> p_skip p"
        "lexes (opt_ignore_comments opts) (p_input p) (tl (syntax_tokens t)) u"
      then show "parse_loop h opts p = finish_round h opts (evaluate_state h opts
            (p\<lparr>p_last := last (syntax_tokens t), p_input := u,
               p_sax := fold f (syntax_events t) (p_sax p)\<rparr>))"
        by (intro ObjectText.IH [of "(k, t)"]) (auto intro: ok [OF m])
    qed (use ObjectText.prems False v(1) in simp_all)
    finally show ?thesis using ObjectText.prems(3)
      by (cases p) (simp del: syntax_tokens.simps syntax_events.simps add: syntax_object parse_loop_skip)
  qed
qed

text \<open>Conversely, a round that does not fail has read a value of the grammar.\<close>

lemma array_rest:
  assumes "value_at opts p" "\<not> p_skip p" "p_states p = True # ss"
  obtains "elements_at opts p"
  | "parse_failed (parse_loop h opts p)"
  | q where "parse_size q < parse_size p" "\<not> p_skip q" "p_states q = True # ss"
      "parse_loop h opts p = parse_loop h opts q" "elements_at opts q \<Longrightarrow> elements_at opts p"
proof -
  let ?ic = "opt_ignore_comments opts"
  obtain t u where t: "syntax_ok t" "p_last p = hd (syntax_tokens t)"
    "lexes ?ic (p_input p) (tl (syntax_tokens t)) u"
    using assms(1) by (auto simp: value_at_def)
  let ?q = "p\<lparr>p_last := last (syntax_tokens t), p_input := u,
      p_sax := fold f (syntax_events t) (p_sax p)\<rparr>"
  let ?q1 = "get_token opts ?q" and ?q2 = "get_token opts (get_token opts ?q)"
  have loop: "parse_loop h opts p = finish_round h opts (evaluate_array h opts ?q)"
    using value_accepted [OF t(1,2) assms(2) t(3)] assms(3) by (simp add: evaluate_state_def)
  have size: "parse_size ?q \<le> parse_size p"
    using lexes_length [OF t(3)] t(2) by (simp add: parse_size_def syntax_first_nonfinal [OF t(1)])
  consider "p_last ?q1 = ValueSeparator" | "p_last ?q1 = EndArray"
    | "p_last ?q1 \<noteq> ValueSeparator" "p_last ?q1 \<noteq> EndArray" by blast
  then show thesis
  proof cases
    case 1
    have "parse_size ?q2 < parse_size p"
      using get_token_smaller [OF 1] get_token_size_le [of opts ?q1] size by simp
    moreover have "parse_loop h opts p = parse_loop h opts ?q2"
      using loop 1 no_trailing_commas by (simp add: evaluate_array_def Let_def)
    moreover have "elements_at opts p" if "elements_at opts ?q2"
    proof -
      obtain ts v where ts: "ts \<noteq> []" "list_all syntax_ok ts"
        "p_last ?q2 = hd (separated (map syntax_tokens ts))"
        "lexes ?ic (p_input ?q2) (tl (separated (map syntax_tokens ts) @ [EndArray])) v"
        using \<open>elements_at opts ?q2\<close> by (auto simp: elements_at_def)
      let ?all = "separated (map syntax_tokens ts) @ [EndArray]"
      have all: "?all = p_last ?q2 # tl ?all"
        unfolding ts(3) by (rule separated_append) (use ts(1) in simp_all)
      have "lexes ?ic u (p_last ?q1 # p_last ?q2 # tl ?all) v"
        using ts(4) lexes_get_token [of opts ?q "p_last ?q2 # tl ?all" v]
          lexes_get_token [of opts ?q1 "tl ?all" v] by simp
      then have "lexes ?ic u (ValueSeparator # ?all) v" using 1 all by simp
      then have "lexes ?ic (p_input p) (tl (separated (map syntax_tokens (t # ts)) @ [EndArray])) v"
        using t(3) ts(1) by (auto simp: separated_Cons lexes_append)
      moreover have "p_last p = hd (separated (map syntax_tokens (t # ts)))"
        using t(2) ts(1) by (simp add: separated_Cons)
      ultimately show ?thesis
        unfolding elements_at_def using t(1) ts(2) by (intro exI [of _ "t # ts"] exI [of _ v]) simp
    qed
    ultimately show thesis using assms(2,3) by (intro that(3) [of ?q2]) simp_all
  next
    case 2
    have "lexes ?ic u [EndArray] (p_input ?q1)"
      using lexes_get_token [of opts ?q "[]" "p_input ?q1"] 2 by simp
    then have "lexes ?ic (p_input p) (tl (syntax_tokens t @ [EndArray])) (p_input ?q1)"
      using t(3) by (auto simp: lexes_append)
    then have "elements_at opts p"
      unfolding elements_at_def using t(1,2) by (intro exI [of _ "[t]"] exI [of _ "p_input ?q1"]) simp
    then show thesis by (rule that(1))
  next
    case 3
    then have "parse_failed (parse_loop h opts p)"
      using loop by (simp add: evaluate_array_def syntax_error_def Let_def)
    then show thesis by (rule that(2))
  qed
qed

text \<open>From a key: the value behind it is reached, or the key or its separator is missing.\<close>

lemma key_step:
  obtains "parse_failed (key_position h opts p)"
  | k q where "p_last p = ValueString k" "parse_size q < parse_size p" "p_skip q = p_skip p"
      "p_states q = p_states p" "key_position h opts p = parse_loop h opts q"
      "\<And>t u. p_last q = hd (syntax_tokens t)
        \<Longrightarrow> lexes (opt_ignore_comments opts) (p_input q) (tl (syntax_tokens t)) u
        \<Longrightarrow> lexes (opt_ignore_comments opts) (p_input p) (NameSeparator # syntax_tokens t) u"
proof (cases "\<exists>k. p_last p = ValueString k")
  case False
  then have "parse_failed (key_position h opts p)"
    by (cases "p_last p") (simp_all add: parse_key_def syntax_error_def)
  then show thesis by (rule that(1))
next
  case True
  then obtain k where k: "p_last p = ValueString k" by blast
  let ?p = "p\<lparr>p_sax := f (SaxKey k) (p_sax p)\<rparr>"
  let ?q1 = "get_token opts ?p" and ?q2 = "get_token opts (get_token opts ?p)"
  show thesis
  proof (cases "p_last ?q1 = NameSeparator")
    case False
    then have "parse_failed (key_position h opts p)"
      using k by (simp add: parse_key_def syntax_error_def emit_agrees Let_def)
    then show thesis by (rule that(1))
  next
    case True
    show thesis
    proof (rule that(2) [OF k, of ?q2])
      show "parse_size ?q2 < parse_size p"
        using get_token_smaller [OF True] get_token_size_le [of opts ?q1] by simp
      show "key_position h opts p = parse_loop h opts ?q2"
        using k True by (simp add: parse_key_def emit_agrees Let_def)
      show "lexes (opt_ignore_comments opts) (p_input p) (NameSeparator # syntax_tokens t) u"
        if "p_last ?q2 = hd (syntax_tokens t)"
          "lexes (opt_ignore_comments opts) (p_input ?q2) (tl (syntax_tokens t)) u" for t u
        using that lexes_get_token [of opts ?q1 "tl (syntax_tokens t)" u]
          lexes_get_token [of opts ?p "syntax_tokens t" u] True by simp
    qed simp_all
  qed
qed

lemma object_rest:
  assumes k: "p_last p = ValueString k" and skip: "\<not> p_skip p" and states: "p_states p = False # ss"
    and q: "value_at opts q" "parse_size q < parse_size p" "\<not> p_skip q" "p_states q = p_states p"
      "key_position h opts p = parse_loop h opts q"
      "\<And>t u. p_last q = hd (syntax_tokens t)
        \<Longrightarrow> lexes (opt_ignore_comments opts) (p_input q) (tl (syntax_tokens t)) u
        \<Longrightarrow> lexes (opt_ignore_comments opts) (p_input p) (NameSeparator # syntax_tokens t) u"
  obtains "members_at opts p"
  | "parse_failed (key_position h opts p)"
  | r where "parse_size r < parse_size p" "\<not> p_skip r" "p_states r = False # ss"
      "key_position h opts p = key_position h opts r" "members_at opts r \<Longrightarrow> members_at opts p"
proof -
  let ?ic = "opt_ignore_comments opts"
  obtain t u where t: "syntax_ok t" "p_last q = hd (syntax_tokens t)"
    "lexes ?ic (p_input q) (tl (syntax_tokens t)) u"
    using q(1) by (auto simp: value_at_def)
  have member: "lexes ?ic (p_input p) (NameSeparator # syntax_tokens t) u"
    by (rule q(6)) (use t in simp_all)
  let ?v = "q\<lparr>p_last := last (syntax_tokens t), p_input := u,
      p_sax := fold f (syntax_events t) (p_sax q)\<rparr>"
  let ?q1 = "get_token opts ?v" and ?q2 = "get_token opts (get_token opts ?v)"
  have loop: "key_position h opts p = finish_round h opts (evaluate_object h opts ?v)"
    using value_accepted [OF t(1,2) q(3) t(3)] q(4,5) states by (simp add: evaluate_state_def)
  have size: "parse_size ?v \<le> parse_size q"
    using lexes_length [OF t(3)] t(2) by (simp add: parse_size_def syntax_first_nonfinal [OF t(1)])
  consider "p_last ?q1 = ValueSeparator" | "p_last ?q1 = EndObject"
    | "p_last ?q1 \<noteq> ValueSeparator" "p_last ?q1 \<noteq> EndObject" by blast
  then show thesis
  proof cases
    case 1
    have "parse_size ?q2 < parse_size p"
      using get_token_smaller [OF 1] get_token_size_le [of opts ?q1] size q(2) by simp
    moreover have "key_position h opts p = key_position h opts ?q2"
      using loop 1 no_trailing_commas by (simp add: evaluate_object_def Let_def)
    moreover have "members_at opts p" if "members_at opts ?q2"
    proof -
      obtain ms v where ms: "ms \<noteq> []" "list_all (\<lambda>(k, t). syntax_ok t) ms"
        "p_last ?q2 = hd (separated (map member_tokens ms))"
        "lexes ?ic (p_input ?q2) (tl (separated (map member_tokens ms) @ [EndObject])) v"
        using \<open>members_at opts ?q2\<close> by (auto simp: members_at_def)
      let ?all = "separated (map member_tokens ms) @ [EndObject]"
      have all: "?all = p_last ?q2 # tl ?all"
        unfolding ms(3) by (rule separated_append) (use ms(1) in auto)
      have "lexes ?ic u (p_last ?q1 # p_last ?q2 # tl ?all) v"
        using ms(4) lexes_get_token [of opts ?v "p_last ?q2 # tl ?all" v]
          lexes_get_token [of opts ?q1 "tl ?all" v] by simp
      then have "lexes ?ic u (ValueSeparator # ?all) v" using 1 all by simp
      then have "lexes ?ic (p_input p) ((NameSeparator # syntax_tokens t) @ ValueSeparator # ?all) v"
        using member unfolding lexes_append by blast
      then have "lexes ?ic (p_input p) (tl (separated (map member_tokens ((k, t) # ms)) @ [EndObject])) v"
        using ms(1) by (simp add: separated_Cons)
      moreover have "p_last p = hd (separated (map member_tokens ((k, t) # ms)))"
        using k ms(1) by (simp add: separated_Cons)
      ultimately show ?thesis
        unfolding members_at_def using t(1) ms(2) by (intro exI [of _ "(k, t) # ms"] exI [of _ v]) simp
    qed
    ultimately show thesis using states q(3,4) by (intro that(3) [of ?q2]) simp_all
  next
    case 2
    have "lexes ?ic u [EndObject] (p_input ?q1)"
      using lexes_get_token [of opts ?v "[]" "p_input ?q1"] 2 by simp
    then have "lexes ?ic (p_input p) ((NameSeparator # syntax_tokens t) @ [EndObject]) (p_input ?q1)"
      using member unfolding lexes_append by blast
    then have "members_at opts p"
      unfolding members_at_def using t(1) k by (intro exI [of _ "[(k, t)]"] exI [of _ "p_input ?q1"]) simp
    then show thesis by (rule that(1))
  next
    case 3
    then have "parse_failed (key_position h opts p)"
      using loop by (simp add: evaluate_object_def syntax_error_def Let_def)
    then show thesis by (rule that(2))
  qed
qed

lemma value_or_failure:
  assumes "\<not> p_skip p"
    and arrays: "\<And>q ss. parse_size q < parse_size p \<Longrightarrow> \<not> p_skip q \<Longrightarrow> p_states q = True # ss
      \<Longrightarrow> elements_at opts q \<or> parse_failed (parse_loop h opts q)"
    and objects: "\<And>q ss. parse_size q < parse_size p \<Longrightarrow> \<not> p_skip q \<Longrightarrow> p_states q = False # ss
      \<Longrightarrow> members_at opts q \<or> parse_failed (key_position h opts q)"
  shows "value_at opts p \<or> parse_failed (parse_loop h opts p)"
proof -
  let ?ic = "opt_ignore_comments opts"
  note loop = parse_loop_value [OF assms(1), of h opts] parse_value_def
  consider "scalar_token (p_last p)" | "p_last p = BeginArray" | "p_last p = BeginObject"
    | "\<not> scalar_token (p_last p)" "p_last p \<noteq> BeginArray" "p_last p \<noteq> BeginObject" by blast
  then show ?thesis
  proof cases
    case 1
    then have "value_at opts p"
      unfolding value_at_def by (intro exI [of _ "ScalarText (p_last p)"] exI [of _ "p_input p"]) simp
    then show ?thesis ..
  next
    case 2
    let ?p = "p\<lparr>p_sax := f SaxStartArray (p_sax p)\<rparr>"
    let ?q = "get_token opts ?p"
    show ?thesis
    proof (cases "p_last ?q = EndArray")
      case True
      then have "lexes ?ic (p_input p) [EndArray] (p_input ?q)"
        using lexes_get_token [of opts ?p "[]" "p_input ?q"] by simp
      then have "value_at opts p"
        unfolding value_at_def using 2 by (intro exI [of _ "ArrayText []"] exI [of _ "p_input ?q"]) simp
      then show ?thesis ..
    next
      case False
      let ?r = "?q\<lparr>p_states := True # p_states p\<rparr>"
      have eq: "parse_loop h opts p = parse_loop h opts ?r"
        using 2 False by (simp add: loop begin_array_def emit_agrees Let_def)
      have "parse_size ?r < parse_size p"
        using get_token_smaller' [of ?p BeginArray opts] 2 by simp
      then have "elements_at opts ?r \<or> parse_failed (parse_loop h opts ?r)"
        by (rule arrays) (use assms(1) in simp_all)
      moreover have "value_at opts p" if elements: "elements_at opts ?r"
      proof -
        obtain ts u where ts: "ts \<noteq> []" "list_all syntax_ok ts"
          "p_last ?q = hd (separated (map syntax_tokens ts))"
          "lexes ?ic (p_input ?q) (tl (separated (map syntax_tokens ts) @ [EndArray])) u"
          using elements by (auto simp: elements_at_def)
        have "separated (map syntax_tokens ts) @ [EndArray]
            = p_last ?q # tl (separated (map syntax_tokens ts) @ [EndArray])"
          unfolding ts(3) by (rule separated_append) (use ts(1) in simp_all)
        then have "lexes ?ic (p_input p) (separated (map syntax_tokens ts) @ [EndArray]) u"
          using lexes_get_token [of opts ?p "tl (separated (map syntax_tokens ts) @ [EndArray])" u] ts(4)
          by simp
        then show ?thesis
          unfolding value_at_def using 2 ts(2) by (intro exI [of _ "ArrayText ts"] exI [of _ u]) simp
      qed
      ultimately show ?thesis using eq by auto
    qed
  next
    case 3
    let ?p = "p\<lparr>p_sax := f SaxStartObject (p_sax p)\<rparr>"
    let ?q = "get_token opts ?p"
    show ?thesis
    proof (cases "p_last ?q = EndObject")
      case True
      then have "lexes ?ic (p_input p) [EndObject] (p_input ?q)"
        using lexes_get_token [of opts ?p "[]" "p_input ?q"] by simp
      then have "value_at opts p"
        unfolding value_at_def using 3 by (intro exI [of _ "ObjectText []"] exI [of _ "p_input ?q"]) simp
      then show ?thesis ..
    next
      case False
      let ?r = "?q\<lparr>p_states := False # p_states p\<rparr>"
      have eq: "parse_loop h opts p = key_position h opts ?r"
        using 3 False by (simp add: loop begin_object_def emit_agrees Let_def parse_key_states)
      have "parse_size ?r < parse_size p"
        using get_token_smaller' [of ?p BeginObject opts] 3 by simp
      then have "members_at opts ?r \<or> parse_failed (key_position h opts ?r)"
        by (rule objects) (use assms(1) in simp_all)
      moreover have "value_at opts p" if members: "members_at opts ?r"
      proof -
        obtain ms u where ms: "ms \<noteq> []" "list_all (\<lambda>(k, t). syntax_ok t) ms"
          "p_last ?q = hd (separated (map member_tokens ms))"
          "lexes ?ic (p_input ?q) (tl (separated (map member_tokens ms) @ [EndObject])) u"
          using members by (auto simp: members_at_def)
        have "separated (map member_tokens ms) @ [EndObject]
            = p_last ?q # tl (separated (map member_tokens ms) @ [EndObject])"
          unfolding ms(3) by (rule separated_append) (use ms(1) in auto)
        then have "lexes ?ic (p_input p) (separated (map member_tokens ms) @ [EndObject]) u"
          using lexes_get_token [of opts ?p "tl (separated (map member_tokens ms) @ [EndObject])" u] ms(4)
          by simp
        then show ?thesis
          unfolding value_at_def using 3 ms(2)
          by (intro exI [of _ "ObjectText ms"] exI [of _ u])
            (simp del: syntax_tokens.simps add: syntax_object)
      qed
      ultimately show ?thesis using eq by auto
    qed
  next
    case 4
    then have "parse_failed (parse_loop h opts p)"
      by (cases "p_last p") (auto simp: loop scalar_token_def syntax_error_def)
    then show ?thesis ..
  qed
qed

lemma grammar_or_failure:
  assumes "\<not> p_skip p"
  shows "(value_at opts p \<or> parse_failed (parse_loop h opts p))
    \<and> (\<forall>ss. p_states p = True # ss \<longrightarrow> elements_at opts p \<or> parse_failed (parse_loop h opts p))
    \<and> (\<forall>ss. p_states p = False # ss \<longrightarrow> members_at opts p \<or> parse_failed (key_position h opts p))"
  using assms
proof (induction "parse_size p" arbitrary: p rule: less_induct)
  case less
  note IH = less.hyps
  have val: "value_at opts p \<or> parse_failed (parse_loop h opts p)"
    by (rule value_or_failure) (use IH less.prems in blast)+
  have elements: "elements_at opts p \<or> parse_failed (parse_loop h opts p)"
    if states: "p_states p = True # ss" for ss
  proof (cases "value_at opts p")
    case True
    then show ?thesis
      by (rule array_rest [OF _ less.prems states]) (use IH in \<open>metis\<close>)+
  next
    case False
    with val show ?thesis by blast
  qed
  have members: "members_at opts p \<or> parse_failed (key_position h opts p)"
    if states: "p_states p = False # ss" for ss
  proof (rule key_step [of p])
    fix k q
    assume k: "p_last p = ValueString k" and q: "parse_size q < parse_size p" "p_skip q = p_skip p"
      "p_states q = p_states p" "key_position h opts p = parse_loop h opts q"
      "\<And>t u. p_last q = hd (syntax_tokens t)
        \<Longrightarrow> lexes (opt_ignore_comments opts) (p_input q) (tl (syntax_tokens t)) u
        \<Longrightarrow> lexes (opt_ignore_comments opts) (p_input p) (NameSeparator # syntax_tokens t) u"
    show ?thesis
    proof (cases "value_at opts q")
      case True
      have skip: "\<not> p_skip q" using q(2) less.prems by simp
      show ?thesis
        by (rule object_rest [OF k less.prems states True q(1) skip q(3,4,5)]) (use IH in \<open>metis\<close>)+
    next
      case False
      with IH [OF q(1)] q(2,4) less.prems show ?thesis by auto
    qed
  qed blast
  from val elements members show ?case by blast
qed

text \<open>The strict parse of a whole input.\<close>

lemma text_accepted:
  assumes "json_text opts s t"
  shows "\<exists>p. sax_parse h opts s init = ParseDone p \<and> p_sax p = fold f (syntax_events t) init"
proof -
  let ?ic = "opt_ignore_comments opts"
  obtain u v where t: "syntax_ok t" "scan ?ic True s = (hd (syntax_tokens t), u)"
    "lexes ?ic u (tl (syntax_tokens t) @ [EndOfInput]) v"
    using assms by (auto simp: json_text_def)
  then obtain w where w: "lexes ?ic u (tl (syntax_tokens t)) w" "lexes ?ic w [EndOfInput] v"
    by (auto simp: lexes_append)
  let ?p = "start_parser opts s init"
  let ?q = "?p\<lparr>p_last := last (syntax_tokens t), p_input := w,
      p_sax := fold f (syntax_events t) (p_sax ?p)\<rparr>"
  have "parse_loop h opts ?p = finish_round h opts (evaluate_state h opts ?q)"
    by (rule value_accepted) (use t w in \<open>simp_all add: start_parser_def\<close>)
  then have "parse_loop h opts ?p = ParseDone ?q"
    using t(2) by (simp add: start_parser_def evaluate_state_def)
  moreover have "p_last (get_token opts ?q) = EndOfInput"
    using get_token_lexes [of opts ?q EndOfInput "[]" v] w(2) by auto
  ultimately have "sax_parse h opts s init = ParseDone ?q"
    by (simp add: sax_parse_def strict_end_def)
  then show ?thesis using t(2) by (auto simp: start_parser_def)
qed

lemma text_or_failure: "(\<exists>t. json_text opts s t) \<or> parse_failed (sax_parse h opts s init)"
proof -
  let ?ic = "opt_ignore_comments opts" and ?p = "start_parser opts s init"
  have start: "\<not> p_skip ?p" "p_states ?p = []"
    "scan ?ic True s = (p_last ?p, p_input ?p)"
    by (simp_all add: start_parser_def split: prod.split)
  show ?thesis
  proof (cases "value_at opts ?p")
    case False
    with grammar_or_failure [OF start(1)] have "parse_failed (parse_loop h opts ?p)" by blast
    then have "parse_failed (sax_parse h opts s init)"
      by (cases "parse_loop h opts ?p") (simp_all add: sax_parse_def strict_end_def)
    then show ?thesis ..
  next
    case True
    then obtain t u where t: "syntax_ok t" "p_last ?p = hd (syntax_tokens t)"
      "lexes ?ic (p_input ?p) (tl (syntax_tokens t)) u"
      by (auto simp: value_at_def)
    let ?q = "?p\<lparr>p_last := last (syntax_tokens t), p_input := u,
        p_sax := fold f (syntax_events t) (p_sax ?p)\<rparr>"
    have loop: "parse_loop h opts ?p = ParseDone ?q"
      using value_accepted [OF t(1,2) start(1) t(3)] start(2) by (simp add: evaluate_state_def)
    show ?thesis
    proof (cases "p_last (get_token opts ?q) = EndOfInput")
      case True
      then have "lexes ?ic u [EndOfInput] (p_input (get_token opts ?q))"
        using lexes_get_token [of opts ?q "[]" "p_input (get_token opts ?q)"] by simp
      then have "json_text opts s t"
        using t start(3) unfolding json_text_def by (auto simp: lexes_append)
      then show ?thesis by blast
    next
      case False
      then have "parse_failed (sax_parse h opts s init)"
        using loop by (simp add: sax_parse_def strict_end_def)
      then show ?thesis ..
    qed
  qed
qed

lemma text_failed_iff: "parse_failed (sax_parse h opts s init) \<longleftrightarrow> \<not> (\<exists>t. json_text opts s t)"
proof
  assume failed: "parse_failed (sax_parse h opts s init)"
  show "\<not> (\<exists>t. json_text opts s t)"
  proof
    assume "\<exists>t. json_text opts s t"
    then obtain p where "sax_parse h opts s init = ParseDone p" using text_accepted by blast
    with failed show False by simp
  qed
qed (use text_or_failure in blast)

end

subsection \<open>Every input has its tokens\<close>

text \<open>
  The lexer ends on every input: there is exactly one sequence of tokens up to the first
  final one, the end of the input or an error, and it has no more tokens than the input has bytes.
\<close>

theorem lexer_terminates:
  "\<exists>!ts. \<exists>t u. lexes ic s (ts @ [t]) u \<and> final_token t \<and> list_all (\<lambda>x. \<not> final_token x) ts
     \<and> length ts \<le> length s"
  using lexer.reads_to_final [where s = s and ic = ic] lexer.reads_functional [where s = s and ic = ic]
  by (metis (no_types, lifting))

subsection \<open>The acceptor\<close>

interpretation acceptor: agreeing_handler acceptor "\<lambda>e s. ()" default_options
  by unfold_locales (simp_all add: acceptor_def default_options_def)

text \<open>
  C13. \<open>accept\<close> says yes to exactly the inputs whose tokens, as the lexer reads them up to the
  end of the input, are those of a JSON text: the loop with its explicit stack of open
  containers recognises the recursive grammar.
\<close>

theorem accept_iff_grammar: "accept s \<longleftrightarrow> (\<exists>t. json_text default_options s t)"
proof (cases "\<exists>t. json_text default_options s t")
  case True
  then obtain p where "sax_parse acceptor default_options s () = ParseDone p"
    using acceptor.text_accepted by blast
  with True show ?thesis by (simp add: accept_def)
next
  case False
  then have "parse_failed (sax_parse acceptor default_options s ())"
    by (simp add: acceptor.text_failed_iff)
  then have "\<not> accept s"
    by (cases "sax_parse acceptor default_options s ()") (simp_all add: accept_def)
  with False show ?thesis by simp
qed

end
