(* ===== verification/NDom.thy ===== *)
theory NDom
  imports NGrammar
begin

text \<open>
  The handler that builds a JSON value from the parser's events
  (\<^verbatim>\<open>json_sax_dom_parser\<close> in \<^verbatim>\<open>3rd/include/nlohmann/detail/input/json_sax.hpp\<close>) and
  \<^verbatim>\<open>json::parse\<close>. The handler's pointers into the value under construction are paths from its root;
  a \<^verbatim>\<open>std::map\<close> is an association list in the order of its keys. The value built is the one
  the syntax tree denotes.
\<close>

subsection \<open>Maps\<close>

text \<open>Insertion or assignment, and \<^verbatim>\<open>operator[]\<close>, which inserts null under an absent key.\<close>

fun map_set :: "string \<Rightarrow> 'v \<Rightarrow> (string \<times> 'v) list \<Rightarrow> (string \<times> 'v) list" where
  "map_set k v [] = [(k, v)]"
| "map_set k v ((k', v') # m) =
     (if k = k' then (k, v) # m
      else if k < k' then (k, v) # (k', v') # m
      else (k', v') # map_set k v m)"

definition map_touch :: "string \<Rightarrow> (string \<times> json) list \<Rightarrow> (string \<times> json) list" where
  "map_touch k m = (if map_of m k = None then map_set k JNull m else m)"

subsection \<open>Pointers into a value\<close>

datatype json_step = AtIndex nat | AtKey string

type_synonym json_path = "json_step list"

fun lookup_step :: "json_step \<Rightarrow> json \<Rightarrow> json option" where
  "lookup_step (AtIndex i) (JArray a) = (if i < length a then Some (a ! i) else None)"
| "lookup_step (AtKey k) (JObject m) = map_of m k"
| "lookup_step s j = None"

fun map_modify :: "string \<Rightarrow> (json \<Rightarrow> json) \<Rightarrow> (string \<times> json) list \<Rightarrow> (string \<times> json) list" where
  "map_modify k g [] = []"
| "map_modify k g ((k', v) # m) = (if k = k' then (k', g v) # m else (k', v) # map_modify k g m)"

fun update_step :: "json_step \<Rightarrow> (json \<Rightarrow> json) \<Rightarrow> json \<Rightarrow> json" where
  "update_step (AtIndex i) g (JArray a) = JArray (a[i := g (a ! i)])"
| "update_step (AtKey k) g (JObject m) = JObject (map_modify k g m)"
| "update_step s g j = j"

fun json_at :: "json_path \<Rightarrow> json \<Rightarrow> json option" where
  "json_at [] j = Some j"
| "json_at (s # p) j = (case lookup_step s j of None \<Rightarrow> None | Some x \<Rightarrow> json_at p x)"

fun json_update :: "json_path \<Rightarrow> (json \<Rightarrow> json) \<Rightarrow> json \<Rightarrow> json" where
  "json_update [] g j = g j"
| "json_update (s # p) g j = update_step s (json_update p g) j"

subsection \<open>The handler\<close>

text \<open>\<open>dom_stack\<close> is \<^verbatim>\<open>ref_stack\<close> with its back as the head, \<open>dom_element\<close> \<^verbatim>\<open>object_element\<close>.\<close>

record dom =
  dom_root :: json
  dom_stack :: "json_path list"
  dom_element :: json_path

definition new_dom :: dom where
  "new_dom = \<lparr>dom_root = JNull, dom_stack = [], dom_element = []\<rparr>"

text \<open>\<^verbatim>\<open>handle_value\<close>: where the value was put, and the handler with it.\<close>

definition handle_value :: "json \<Rightarrow> dom \<Rightarrow> json_path \<times> dom" where
  "handle_value v d =
     (case dom_stack d of
        [] \<Rightarrow> ([], d\<lparr>dom_root := v\<rparr>)
      | ref # ps \<Rightarrow>
          (case json_at ref (dom_root d) of
             Some (JArray a) \<Rightarrow>
               (ref @ [AtIndex (length a)],
                d\<lparr>dom_root := json_update ref (\<lambda>j. JArray (a @ [v])) (dom_root d)\<rparr>)
           | _ \<Rightarrow> (dom_element d, d\<lparr>dom_root := json_update (dom_element d) (\<lambda>j. v) (dom_root d)\<rparr>)))"

definition start_container :: "json \<Rightarrow> dom \<Rightarrow> dom" where
  "start_container v d = (case handle_value v d of (p, d') \<Rightarrow> d'\<lparr>dom_stack := p # dom_stack d'\<rparr>)"

fun touch_member :: "string \<Rightarrow> json \<Rightarrow> json" where
  "touch_member k (JObject m) = JObject (map_touch k m)"
| "touch_member k j = j"

definition dom_key :: "string \<Rightarrow> dom \<Rightarrow> dom" where
  "dom_key k d =
     d\<lparr>dom_root := json_update (hd (dom_stack d)) (touch_member k) (dom_root d),
       dom_element := hd (dom_stack d) @ [AtKey k]\<rparr>"

definition end_container :: "dom \<Rightarrow> dom" where
  "end_container d = d\<lparr>dom_stack := tl (dom_stack d)\<rparr>"

fun dom_event :: "sax_event \<Rightarrow> dom \<Rightarrow> dom" where
  "dom_event SaxNull d = snd (handle_value JNull d)"
| "dom_event (SaxBoolean b) d = snd (handle_value (JBool b) d)"
| "dom_event (SaxInteger i) d = snd (handle_value (JInteger i) d)"
| "dom_event (SaxUnsigned u) d = snd (handle_value (JUnsigned u) d)"
| "dom_event (SaxFloat s) d = snd (handle_value (JFloat s) d)"
| "dom_event (SaxString s) d = snd (handle_value (JString s) d)"
| "dom_event SaxStartObject d = start_container (JObject []) d"
| "dom_event (SaxKey k) d = dom_key k d"
| "dom_event SaxEndObject d = end_container d"
| "dom_event SaxStartArray d = start_container (JArray []) d"
| "dom_event SaxEndArray d = end_container d"

definition dom_handler :: "dom sax_handler" where
  "dom_handler e d = (True, dom_event e d)"

text \<open>
  \<^verbatim>\<open>json::parse\<close>: an error is thrown. \<^verbatim>\<open>ParseStopped\<close> cannot happen with this handler.
\<close>

definition json_parse_with :: "parse_options \<Rightarrow> string \<Rightarrow> json_error + json" where
  "json_parse_with opts s =
     (case sax_parse dom_handler opts s new_dom of
        ParseDone p \<Rightarrow> Inr (dom_root (p_sax p))
      | ParseStopped d \<Rightarrow> Inr (dom_root d)
      | ParseFailed e d \<Rightarrow> Inl e)"

definition json_parse :: "string \<Rightarrow> json_error + json" where
  "json_parse s = json_parse_with default_options s"

subsection \<open>What a syntax tree denotes\<close>

fun scalar_json :: "token \<Rightarrow> json" where
  "scalar_json LiteralTrue = JBool True"
| "scalar_json LiteralFalse = JBool False"
| "scalar_json (ValueString s) = JString s"
| "scalar_json (ValueUnsigned u) = JUnsigned u"
| "scalar_json (ValueInteger i) = JInteger i"
| "scalar_json (ValueFloat s) = JFloat s"
| "scalar_json t = JNull"

text \<open>The members are assigned in the order of the text: of two equal keys the last one wins.\<close>

fun syntax_json :: "json_syntax \<Rightarrow> json" where
  "syntax_json (ScalarText t) = scalar_json t"
| "syntax_json (ArrayText ts) = JArray (map syntax_json ts)"
| "syntax_json (ObjectText ms) =
     JObject (fold (\<lambda>(k, v) m. map_set k v m) (map (\<lambda>(k, t). (k, syntax_json t)) ms) [])"

subsection \<open>Lemmas on pointers and maps\<close>

lemma json_at_append: "json_at (p @ q) j = (case json_at p j of None \<Rightarrow> None | Some x \<Rightarrow> json_at q x)"
  by (induction p arbitrary: j) (auto split: option.split)

lemma json_update_funs [simp]:
  "json_update [] g = g" "json_update (s # p) g = update_step s (json_update p g)"
  by (auto intro!: ext)

lemma json_update_append: "json_update (p @ q) g = json_update p (json_update q g)"
  by (induction p) (auto intro!: ext)

lemma map_modify_simps [simp]:
  "map_of (map_modify k g m) k = map_option g (map_of m k)"
  "map fst (map_modify k g m) = map fst m"
  "map_modify k g (map_modify k h m) = map_modify k (\<lambda>x. g (h x)) m"
  by (induction m) auto

lemma map_modify_at: "map_of m k = Some x \<Longrightarrow> g x = h x \<Longrightarrow> map_modify k g m = map_modify k h m"
  by (induction m) (auto split: if_splits)

lemma lookup_update_step:
  "lookup_step s j = Some x \<Longrightarrow> lookup_step s (update_step s g j) = Some (g x)"
  by (cases "(s, j)" rule: lookup_step.cases) (auto split: if_splits)

lemma update_step_at:
  "lookup_step s j = Some x \<Longrightarrow> g x = h x \<Longrightarrow> update_step s g j = update_step s h j"
  by (cases "(s, j)" rule: lookup_step.cases) (auto split: if_splits intro: map_modify_at)

lemma update_step_compose: "update_step s g (update_step s h j) = update_step s (\<lambda>x. g (h x)) j"
proof (cases "(s, j)" rule: lookup_step.cases)
  case (1 i a)
  then show ?thesis by (cases "i < length a") (auto simp: list_update_beyond)
qed auto

lemma json_update_compose: "json_update p g (json_update p h j) = json_update p (\<lambda>x. g (h x)) j"
  by (induction p arbitrary: j) (simp_all add: update_step_compose)

lemma json_at_update: "json_at p j = Some x \<Longrightarrow> json_at p (json_update p g j) = Some (g x)"
  by (induction p arbitrary: j) (auto simp: lookup_update_step split: option.splits)

lemma json_update_at:
  "json_at p j = Some x \<Longrightarrow> g x = h x \<Longrightarrow> json_update p g j = json_update p h j"
  by (induction p arbitrary: j) (auto split: option.splits intro: update_step_at)

text \<open>The keys of a map are in strict order.\<close>

definition keys_sorted :: "(string \<times> 'v) list \<Rightarrow> bool" where
  "keys_sorted m \<longleftrightarrow> sorted_wrt (<) (map fst m)"

lemma map_set_keys: "fst ` set (map_set k v m) = insert k (fst ` set m)"
  by (induction k v m rule: map_set.induct) (simp_all add: insert_commute)

lemma map_set_sorted: "keys_sorted m \<Longrightarrow> keys_sorted (map_set k v m)"
proof (induction m)
  case (Cons kv m)
  obtain k' v' where kv: "kv = (k', v')" by force
  show ?case
  proof (cases "k < k' \<or> k = k'")
    case True
    with Cons.prems kv show ?thesis by (fastforce simp: keys_sorted_def)
  next
    case False
    then have "k' < k" by auto
    with Cons kv show ?thesis
      using map_set_keys [of k v m] False by (auto simp: keys_sorted_def)
  qed
qed (simp add: keys_sorted_def)

lemma map_of_map_set: "keys_sorted m \<Longrightarrow> map_of (map_set k v m) = (map_of m)(k \<mapsto> v)"
  by (induction m) (auto simp: keys_sorted_def fun_eq_iff)

lemma map_set_absent: "map_of m k = None \<Longrightarrow> map_modify k g (map_set k v m) = map_set k (g v) m"
  by (induction m) (auto split: if_splits)

lemma map_set_present:
  "keys_sorted m \<Longrightarrow> map_of m k = Some x \<Longrightarrow> map_modify k (\<lambda>x. v) m = map_set k v m"
proof (induction m)
  case (Cons kv m)
  obtain k' v' where kv: "kv = (k', v')" by force
  show ?case
  proof (cases "k = k'")
    case False
    then have "map_of m k = Some x" using Cons.prems kv by simp
    then have "k \<in> fst ` set m" by (metis domI dom_map_of_conv_image_fst)
    then have "k' < k" using Cons.prems(1) kv by (auto simp: keys_sorted_def)
    with Cons kv False show ?thesis by (auto simp: keys_sorted_def)
  qed (use kv in simp)
qed simp

text \<open>Touching a key and then assigning through the pointer is the insertion.\<close>

lemma touch_then_assign:
  "keys_sorted m \<Longrightarrow> map_modify k (\<lambda>x. v) (map_touch k m) = map_set k v m"
  unfolding map_touch_def by (cases "map_of m k") (simp_all add: map_set_absent map_set_present)

lemma map_touch_sorted: "keys_sorted m \<Longrightarrow> keys_sorted (map_touch k m)"
  by (simp add: map_touch_def map_set_sorted)

lemma map_touch_present: "keys_sorted m \<Longrightarrow> map_of (map_touch k m) k \<noteq> None"
  by (auto simp: map_touch_def map_of_map_set)

subsection \<open>The builder puts the denoted value in place\<close>

text \<open>
  A value may be put: at the root, behind the elements of an array, or under the key read
  last. \<open>put\<close> is the root with the value in that place.
\<close>

definition dom_ready :: "dom \<Rightarrow> bool" where
  "dom_ready d \<longleftrightarrow>
     (case dom_stack d of
        [] \<Rightarrow> True
      | ref # ps \<Rightarrow>
          (\<exists>a. json_at ref (dom_root d) = Some (JArray a))
          \<or> (\<exists>m k. json_at ref (dom_root d) = Some (JObject m) \<and> map_of m k \<noteq> None
                 \<and> dom_element d = ref @ [AtKey k]))"

definition dom_place :: "dom \<Rightarrow> json_path" where
  "dom_place d = fst (handle_value JNull d)"

definition put :: "json \<Rightarrow> dom \<Rightarrow> json" where
  "put v d = dom_root (snd (handle_value v d))"

lemma handle_value_place: "fst (handle_value v d) = dom_place d"
  by (auto simp: dom_place_def handle_value_def split: list.split option.split json.split)

lemma handle_value_put: "snd (handle_value v d) = d\<lparr>dom_root := put v d\<rparr>"
  by (auto simp: put_def handle_value_def split: list.split option.split json.split)

lemma handle_value_eq: "handle_value v d = (dom_place d, d\<lparr>dom_root := put v d\<rparr>)"
  by (rule prod_eqI) (simp_all add: handle_value_place handle_value_put)

lemma place_cases:
  assumes "dom_ready d"
  obtains "dom_place d = []" "\<And>v. put v d = v"
  | ref a where "json_at ref (dom_root d) = Some (JArray a)" "dom_place d = ref @ [AtIndex (length a)]"
      "\<And>v. put v d = json_update ref (\<lambda>j. JArray (a @ [v])) (dom_root d)"
  | ref m k where "json_at ref (dom_root d) = Some (JObject m)" "map_of m k \<noteq> None"
      "dom_place d = ref @ [AtKey k]"
      "\<And>v. put v d = json_update (ref @ [AtKey k]) (\<lambda>j. v) (dom_root d)"
  using assms
  by (auto simp: dom_ready_def dom_place_def put_def handle_value_def split: list.splits)

lemma json_at_put:
  assumes "dom_ready d"
  shows "json_at (dom_place d) (put v d) = Some v"
  using assms
proof (cases rule: place_cases)
  case (3 ref m k)
  then obtain x where "json_at (ref @ [AtKey k]) (dom_root d) = Some x"
    by (auto simp: json_at_append)
  with 3 show ?thesis by (simp add: json_at_update)
qed (simp_all add: json_at_append json_at_update)

lemma put_put:
  assumes "dom_ready d"
  shows "json_update (dom_place d) (\<lambda>j. w) (put v d) = put w d"
  using assms
  by (cases rule: place_cases)
    (simp_all add: json_update_append json_update_compose update_step_compose)

lemma put_update:
  assumes "dom_ready d"
  shows "json_update (dom_place d) g (put v d) = put (g v) d"
proof -
  have "json_update (dom_place d) g (put v d) = json_update (dom_place d) (\<lambda>j. g v) (put v d)"
    by (rule json_update_at [OF json_at_put [OF assms]]) simp
  then show ?thesis by (simp add: put_put [OF assms])
qed

text \<open>The state inside a container that was opened in a place of \<open>d\<close> and holds \<open>v\<close> so far.\<close>

definition inside :: "dom \<Rightarrow> json \<Rightarrow> dom \<Rightarrow> bool" where
  "inside d v d' \<longleftrightarrow> dom_root d' = put v d \<and> dom_stack d' = dom_place d # dom_stack d"

lemma start_inside: "inside d v (start_container v d)"
  by (simp add: inside_def start_container_def handle_value_eq)

lemma inside_array:
  assumes "dom_ready d" "inside d (JArray a) d'"
  shows "dom_ready d'" "put v d' = put (JArray (a @ [v])) d"
proof -
  have at: "json_at (dom_place d) (dom_root d') = Some (JArray a)"
    using assms json_at_put [OF assms(1)] by (simp add: inside_def)
  then show "dom_ready d'" using assms(2) by (simp add: dom_ready_def inside_def)
  have "put v d' = json_update (dom_place d) (\<lambda>j. JArray (a @ [v])) (dom_root d')"
    using assms(2) at by (simp add: put_def handle_value_def inside_def)
  then show "put v d' = put (JArray (a @ [v])) d"
    using assms by (simp add: inside_def put_put)
qed

lemma inside_object_key:
  assumes "dom_ready d" "inside d (JObject m) d'" "keys_sorted m"
  shows "dom_ready (dom_key k d')" "put v (dom_key k d') = put (JObject (map_set k v m)) d"
proof -
  let ?d = "dom_key k d'"
  have root: "dom_root ?d = put (JObject (map_touch k m)) d"
    using assms(1,2) by (simp add: dom_key_def inside_def put_update)
  have at: "json_at (dom_place d) (dom_root ?d) = Some (JObject (map_touch k m))"
    unfolding root by (rule json_at_put [OF assms(1)])
  have stack: "dom_stack ?d = dom_place d # dom_stack d" "dom_element ?d = dom_place d @ [AtKey k]"
    using assms(2) by (simp_all add: dom_key_def inside_def)
  show "dom_ready ?d"
    using at stack map_touch_present [OF assms(3), of k] by (auto simp: dom_ready_def)
  have "put v ?d = json_update (dom_place d @ [AtKey k]) (\<lambda>j. v) (dom_root ?d)"
    using at stack by (simp add: put_def handle_value_def)
  also have "\<dots> = put (update_step (AtKey k) (\<lambda>j. v) (JObject (map_touch k m))) d"
    unfolding root json_update_append by (simp add: put_update [OF assms(1)])
  finally show "put v ?d = put (JObject (map_set k v m)) d"
    by (simp add: touch_then_assign [OF assms(3)])
qed

lemma dom_key_stack: "dom_stack (dom_key k d) = dom_stack d"
  by (simp add: dom_key_def)

lemma scalar_builds:
  assumes "scalar_token t"
  shows "fold dom_event (scalar_events t) d = d\<lparr>dom_root := put (scalar_json t) d\<rparr>"
  using assms by (cases t) (auto simp: scalar_token_def scalar_events_def handle_value_put)

definition builds :: "json_syntax \<Rightarrow> bool" where
  "builds t \<longleftrightarrow> (\<forall>d. dom_ready d \<longrightarrow>
     dom_root (fold dom_event (syntax_events t) d) = put (syntax_json t) d
     \<and> dom_stack (fold dom_event (syntax_events t) d) = dom_stack d)"

lemma elements_build:
  assumes "dom_ready d" "inside d (JArray a) d'" "\<And>t. t \<in> set ts \<Longrightarrow> builds t"
  shows "inside d (JArray (a @ map syntax_json ts)) (fold dom_event (concat (map syntax_events ts)) d')"
  using assms(2,3)
proof (induction ts arbitrary: a d')
  case Nil
  then show ?case by simp
next
  case (Cons t ts)
  let ?d = "fold dom_event (syntax_events t) d'"
  have "dom_ready d'" "put (syntax_json t) d' = put (JArray (a @ [syntax_json t])) d"
    using inside_array [OF assms(1) Cons.prems(1)] by simp_all
  with Cons.prems have "inside d (JArray (a @ [syntax_json t])) ?d"
    by (simp add: builds_def inside_def)
  with Cons.IH Cons.prems(2) have
    "inside d (JArray ((a @ [syntax_json t]) @ map syntax_json ts)) (fold dom_event (concat (map syntax_events ts)) ?d)"
    by (metis list.set_intros(2))
  then show ?case by simp
qed

lemma members_build:
  assumes "dom_ready d" "inside d (JObject m) d'" "keys_sorted m" "\<And>k t. (k, t) \<in> set ms \<Longrightarrow> builds t"
  shows "inside d (JObject (fold (\<lambda>(k, v) m. map_set k v m) (map (\<lambda>(k, t). (k, syntax_json t)) ms) m))
    (fold dom_event (concat (map member_events ms)) d')"
  using assms(2-4)
proof (induction ms arbitrary: m d')
  case Nil
  then show ?case by simp
next
  case (Cons kt ms)
  obtain k t where kt: "kt = (k, t)" by force
  let ?d = "dom_key k d'"
  let ?e = "fold dom_event (syntax_events t) ?d"
  have "dom_ready ?d" "put (syntax_json t) ?d = put (JObject (map_set k (syntax_json t) m)) d"
    using inside_object_key [OF assms(1) Cons.prems(1,2)] by simp_all
  moreover have "builds t" using Cons.prems(3) [of k t] kt by simp
  ultimately have "inside d (JObject (map_set k (syntax_json t) m)) ?e"
    using Cons.prems(1) by (simp add: builds_def inside_def dom_key_stack)
  moreover have "keys_sorted (map_set k (syntax_json t) m)"
    using Cons.prems(2) by (rule map_set_sorted)
  moreover have "\<And>k t. (k, t) \<in> set ms \<Longrightarrow> builds t"
    using Cons.prems(3) by (meson list.set_intros(2))
  ultimately have "inside d (JObject (fold (\<lambda>(k, v) m. map_set k v m)
      (map (\<lambda>(k, t). (k, syntax_json t)) ms) (map_set k (syntax_json t) m)))
      (fold dom_event (concat (map member_events ms)) ?e)"
    by (rule Cons.IH)
  then show ?case by (simp add: kt)
qed

lemma inside_end: "inside d v d' \<Longrightarrow> dom_root (end_container d') = put v d \<and> dom_stack (end_container d') = dom_stack d"
  by (simp add: inside_def end_container_def)

lemma syntax_builds: "syntax_ok t \<Longrightarrow> builds t"
proof (induction t)
  case (ScalarText t)
  then show ?case by (simp add: builds_def scalar_builds)
next
  case (ArrayText ts)
  then have ts: "\<And>t. t \<in> set ts \<Longrightarrow> builds t" by (simp add: list_all_iff)
  show ?case unfolding builds_def
  proof (intro allI impI)
    fix d
    assume "dom_ready d"
    from inside_end [OF elements_build [OF this start_inside ts]]
    show "dom_root (fold dom_event (syntax_events (ArrayText ts)) d) = put (syntax_json (ArrayText ts)) d
      \<and> dom_stack (fold dom_event (syntax_events (ArrayText ts)) d) = dom_stack d"
      by simp
  qed
next
  case (ObjectText ms)
  have ms: "builds t" if "(k, t) \<in> set ms" for k t
    using ObjectText.IH [OF that] ObjectText.prems that by (auto simp: list_all_iff)
  show ?case unfolding builds_def
  proof (intro allI impI)
    fix d
    assume "dom_ready d"
    from inside_end [OF members_build [OF this start_inside _ ms]]
    show "dom_root (fold dom_event (syntax_events (ObjectText ms)) d) = put (syntax_json (ObjectText ms)) d
      \<and> dom_stack (fold dom_event (syntax_events (ObjectText ms)) d) = dom_stack d"
      by (simp del: syntax_events.simps add: syntax_object keys_sorted_def)
  qed
qed

subsection \<open>Parsing\<close>

interpretation dom: agreeing_handler dom_handler dom_event default_options
  by unfold_locales (simp_all add: dom_handler_def default_options_def)

lemma json_parse_text: "json_text default_options s t \<Longrightarrow> json_parse s = Inr (syntax_json t)"
proof -
  assume json: "json_text default_options s t"
  then obtain p where p: "sax_parse dom_handler default_options s new_dom = ParseDone p"
    "p_sax p = fold dom_event (syntax_events t) new_dom"
    using dom.text_accepted by blast
  have "dom_ready new_dom" "put (syntax_json t) new_dom = syntax_json t"
    by (simp_all add: dom_ready_def new_dom_def put_def handle_value_def)
  moreover have "builds t" using json by (simp add: json_text_def syntax_builds)
  ultimately have "dom_root (p_sax p) = syntax_json t" unfolding builds_def p(2) by simp
  with p(1) show ?thesis by (simp add: json_parse_def json_parse_with_def)
qed

lemma json_parse_failure: "\<not> (\<exists>t. json_text default_options s t) \<Longrightarrow> \<exists>e. json_parse s = Inl e"
proof -
  assume "\<not> (\<exists>t. json_text default_options s t)"
  then have "parse_failed (sax_parse dom_handler default_options s new_dom)"
    by (simp add: dom.text_failed_iff)
  then show ?thesis
    by (cases "sax_parse dom_handler default_options s new_dom")
      (simp_all add: json_parse_def json_parse_with_def)
qed

text \<open>
  C12. \<open>json::parse\<close> returns a value exactly for the inputs that are a JSON text, and the value
  is the one the syntax tree denotes, with the last of equal keys; every other input is an error.
\<close>

theorem json_parse_iff:
  "json_parse s = Inr v \<longleftrightarrow> (\<exists>t. json_text default_options s t \<and> v = syntax_json t)"
proof (cases "\<exists>t. json_text default_options s t")
  case True
  then obtain t where t: "json_text default_options s t" by blast
  show ?thesis
    using json_parse_text by (metis t sum.inject(2))
next
  case False
  with json_parse_failure [OF this] show ?thesis by auto
qed

subsection \<open>Parsed values are well formed\<close>

text \<open>
  All strings and keys are UTF-8, and the keys of an object are distinct and in order.
\<close>

fun json_wf :: "json \<Rightarrow> bool" where
  "json_wf (JString s) = utf8_text s"
| "json_wf (JArray a) = list_all json_wf a"
| "json_wf (JObject m) = (keys_sorted m \<and> list_all (\<lambda>(k, v). utf8_text k \<and> json_wf v) m)"
| "json_wf j = True"

definition token_utf8 :: "token \<Rightarrow> bool" where
  "token_utf8 t \<longleftrightarrow> (case t of ValueString s \<Rightarrow> utf8_text s | _ \<Rightarrow> True)"

lemma scan_literal_utf8: "scan_literal ls tok s = (t, u) \<Longrightarrow> t = tok \<or> t = ParseError text_literal"
  by (induction ls tok s rule: scan_literal.induct) (auto split: if_splits)

lemma scan_number_utf8: "scan_number c s = (t, u) \<Longrightarrow> token_utf8 t"
  by (auto simp: scan_number_def number_token_def token_utf8_def
      split: sum.splits number_type.splits option.splits)

lemma string_token_utf8: "string_token s = (t, u) \<Longrightarrow> token_utf8 t"
  by (auto simp: string_token_def token_utf8_def split: sum.splits dest: scan_string_utf8)

lemma scan_at_utf8:
  assumes "scan_at c s = (t, u)"
  shows "token_utf8 t"
proof -
  have "list_all (\<lambda>(k, t). token_utf8 t) structural" "list_all (\<lambda>(k, l, t). token_utf8 t) literals"
    by (simp_all add: structural_def literals_def token_utf8_def)
  then have tables: "\<And>c t. map_of structural c = Some t \<Longrightarrow> token_utf8 t"
    "\<And>c l t. map_of literals c = Some (l, t) \<Longrightarrow> token_utf8 t"
    by (auto simp: list_all_iff dest!: map_of_SomeD)
  have err: "\<And>e. token_utf8 (ParseError e)" "token_utf8 EndOfInput" by (simp_all add: token_utf8_def)
  show ?thesis using assms tables err unfolding scan_at_def
    by (auto split: option.splits if_splits
        dest: scan_literal_utf8 scan_number_utf8 string_token_utf8)
qed

lemma scan_utf8: "scan ic first s = (t, u) \<Longrightarrow> token_utf8 t"
  unfolding scan_def scan_token_def
  by (auto split: if_splits option.splits sum.splits list.splits dest: scan_at_utf8)
    (simp_all add: token_utf8_def)

lemma lexes_utf8: "lexes ic s ts u \<Longrightarrow> list_all token_utf8 ts"
  by (induction rule: reads.induct) (auto dest: scan_utf8)

lemma separated_set: "t \<in> set ts \<Longrightarrow> set (g t) \<subseteq> set (separated (map g ts))"
proof (induction ts)
  case (Cons x xs)
  then show ?case by (cases "xs = []") (auto simp: separated_Cons)
qed simp

lemma fold_map_set_wf:
  assumes "json_wf (JObject m)" "list_all (\<lambda>(k, v). utf8_text k \<and> json_wf v) kvs"
  shows "json_wf (JObject (fold (\<lambda>(k, v) m. map_set k v m) kvs m))"
  using assms
proof (induction kvs arbitrary: m)
  case (Cons kv kvs)
  obtain k v where kv: "kv = (k, v)" by force
  have "set (map_set k v m) \<subseteq> insert (k, v) (set m)"
    by (induction k v m rule: map_set.induct) auto
  then have "json_wf (JObject (map_set k v m))"
    using Cons.prems kv by (auto simp: list_all_iff map_set_sorted)
  then show ?case using Cons kv by simp
qed simp

lemma syntax_json_wf: "\<forall>tok \<in> set (syntax_tokens t). token_utf8 tok \<Longrightarrow> json_wf (syntax_json t)"
proof (induction t)
  case (ScalarText t)
  then show ?case by (cases t) (simp_all add: token_utf8_def)
next
  case (ArrayText ts)
  have "json_wf (syntax_json t)" if "t \<in> set ts" for t
    using ArrayText.IH [OF that] ArrayText.prems separated_set [OF that, of syntax_tokens] by auto
  then show ?case by (simp add: list_all_iff)
next
  case (ObjectText ms)
  have "utf8_text k \<and> json_wf (syntax_json t)" if "(k, t) \<in> set ms" for k t
  proof -
    have "set (member_tokens (k, t)) \<subseteq> set (syntax_tokens (ObjectText ms))"
      using separated_set [OF that, of member_tokens]
      by (auto simp del: syntax_tokens.simps member_tokens.simps simp: syntax_object)
    then have "token_utf8 (ValueString k)" "\<forall>tok \<in> set (syntax_tokens t). token_utf8 tok"
      using ObjectText.prems by auto
    then show ?thesis using ObjectText.IH [OF that] by (simp add: token_utf8_def)
  qed
  then have "json_wf (JObject (fold (\<lambda>(k, v) m. map_set k v m) (map (\<lambda>(k, t). (k, syntax_json t)) ms) []))"
    by (intro fold_map_set_wf) (auto simp: keys_sorted_def list_all_iff)
  then show ?case by simp
qed

lemma json_text_utf8: "json_text opts s t \<Longrightarrow> \<forall>tok \<in> set (syntax_tokens t). token_utf8 tok"
proof -
  assume "json_text opts s t"
  then obtain u v where "scan (opt_ignore_comments opts) True s = (hd (syntax_tokens t), u)"
    "lexes (opt_ignore_comments opts) u (tl (syntax_tokens t) @ [EndOfInput]) v"
    by (auto simp: json_text_def)
  from scan_utf8 [OF this(1)] lexes_utf8 [OF this(2)] show ?thesis
    by (cases "syntax_tokens t") (auto simp: list_all_iff)
qed

lemma json_parse_value:
  "json_parse s = Inr v \<Longrightarrow> \<exists>t. json_text default_options s t \<and> v = syntax_json t"
  using json_parse_text json_parse_failure by (metis Inl_Inr_False sum.inject(2))

text \<open>
  C20. Whatever bytes are parsed, the value that results is well formed: its strings and keys are
  the UTF-8 encoding of Unicode scalar values, with surrogates, overlong and out of range
  sequences rejected and escaped surrogate pairs combined, and its objects have distinct keys.
\<close>

theorem json_parse_wf:
  assumes "json_parse s = Inr v"
  shows "json_wf v"
proof -
  obtain t where "json_text default_options s t" "v = syntax_json t"
    using json_parse_value [OF assms] by blast
  then show ?thesis by (auto intro!: syntax_json_wf dest: json_text_utf8)
qed

text \<open>The text of an escaped pair of surrogates, which is one code point of four bytes.\<close>

definition surrogates_text :: string where
  "surrogates_text = ''['' @ CHR 0x22 # CHR 0x5C # ''ud83d'' @ CHR 0x5C # ''uDE00'' @ CHR 0x22 # '']''"

theorem json_parse_wf_witness:
  "\<exists>s. json_parse surrogates_text = Inr (JArray [JString s]) \<and> s = add_codepoint 0x1F600 \<and> utf8_text s"
proof -
  have "json_parse surrogates_text = Inr (JArray [JString (add_codepoint 0x1F600)])"
    by code_simp
  with json_parse_wf [OF this] show ?thesis by simp
qed

end
