(* ===== verification/SignalingClient.thy ===== *)
theory SignalingClient
  imports PushClient NDom
begin

text \<open>
  The sender's signaling client, \<^verbatim>\<open>module/signaling_client.cpp\<close>, with the window and the unused
  socket wrapper around it (\<^verbatim>\<open>ui/widg.cpp\<close>, \<^verbatim>\<open>module/WebsocketClient.cpp\<close>). Received texts are
  parsed by the model of the JSON library, \<open>json_parse\<close> of theory \<open>NDom\<close>; what is written to the
  socket is recorded. The callbacks of a push client come from WebRTC's threads and are queued
  to the Qt thread, which sends them later.
\<close>

subsection \<open>State\<close>

datatype out_value = OutString string | OutInt int

type_synonym out_message = "(string \<times> out_value) list"

record sig_client =
  sc_valid :: bool
  sc_opened :: "string list"
  sc_sent :: "out_message list"
  sc_queue :: "out_message list"
  sc_clients :: "string \<rightharpoonup> push_client"
  sc_environment :: environment

definition new_sig_client :: "environment \<Rightarrow> sig_client" where
  "new_sig_client env = \<lparr>sc_valid = False, sc_opened = [], sc_sent = [], sc_queue = [],
     sc_clients = Map.empty, sc_environment = env\<rparr>"

definition connectToServer :: "string \<Rightarrow> sig_client \<Rightarrow> sig_client" where
  "connectToServer url st = st\<lparr>sc_opened := sc_opened st @ [url]\<rparr>"

definition client_sendJson :: "out_message \<Rightarrow> sig_client \<Rightarrow> sig_client" where
  "client_sendJson json st = (if sc_valid st then st\<lparr>sc_sent := sc_sent st @ [json]\<rparr> else st)"

definition onConnected :: "sig_client \<Rightarrow> sig_client" where
  "onConnected st = client_sendJson [(''type'', OutString ''sender-ready'')] st"

definition client_onDisconnected :: "sig_client \<Rightarrow> sig_client" where
  "client_onDisconnected st = st"

subsection \<open>Callbacks of a push client\<close>

definition sdp_message :: "SdpBundle \<Rightarrow> string \<Rightarrow> out_message" where
  "sdp_message bundle cid =
     [(''type'', OutString (sb_type bundle)), (''sdp'', OutString (sb_sdp bundle)),
      (''id'', OutString cid)]"

definition ice_message :: "IceCandidateBundle \<Rightarrow> out_message" where
  "ice_message ice =
     [(''type'', OutString ''candidate''), (''candidate'', OutString (ic_candidate ice)),
      (''sdpMid'', OutString (ic_sdp_mid ice)), (''sdpMLineIndex'', OutInt (ic_sdp_mline_index ice)),
      (''id'', OutString (ic_id ice))]"

text \<open>What a recorded call of the push client hands to the callbacks \<^verbatim>\<open>setupCallbacks\<close> binds.\<close>

fun callback_message :: "rtc_call \<Rightarrow> out_message option" where
  "callback_message (OnLocalSdp bundle cid) = Some (sdp_message bundle cid)"
| "callback_message (OnLocalIce ice) = Some (ice_message ice)"
| "callback_message c = None"

definition run_callbacks :: "rtc_call list \<Rightarrow> sig_client \<Rightarrow> sig_client" where
  "run_callbacks calls st = st\<lparr>sc_queue := sc_queue st @ List.map_filter callback_message calls\<rparr>"

text \<open>The Qt thread executes one queued invocation.\<close>

definition flush_one :: "sig_client \<Rightarrow> sig_client" where
  "flush_one st = (case sc_queue st of [] \<Rightarrow> st
     | json # rest \<Rightarrow> client_sendJson json (st\<lparr>sc_queue := rest\<rparr>))"

subsection \<open>Received messages\<close>

definition capture_available :: "rtc_answers \<Rightarrow> bool" where
  "capture_available R = (case ra_screen_capturer R of None \<Rightarrow> False
     | Some c \<Rightarrow> fst (SelectDefaultSourceIfNeeded (Some c)))"

definition error_message :: "string \<Rightarrow> string \<Rightarrow> out_message" where
  "error_message cid text =
     [(''type'', OutString ''error''), (''id'', OutString cid), (''message'', OutString text)]"

definition text_capture_unavailable :: string where
  "text_capture_unavailable =
     ''desktop capture is unavailable in the current environment or this build lacks the required backend''"

definition text_init_failed :: string where
  "text_init_failed =
     ''native sender failed to initialize desktop capture in the current environment''"

definition google_stun :: "IceServerConfig list" where
  "google_stun = [\<lparr>is_uri = ''stun:stun.l.google.com:19302'', is_username = [], is_password = []\<rparr>]"

text \<open>The answers of the WebRTC calls on an existing connection.\<close>

record session_answers =
  sa_sdp_ok :: "string \<Rightarrow> bool"
  sa_candidate_ok :: "string \<Rightarrow> bool"
  sa_accept_candidate :: "string \<Rightarrow> int \<Rightarrow> string \<Rightarrow> bool"
  sa_float_to_int :: "string \<Rightarrow> int"

text \<open>
  A request: the new client replaces, and so destroys, one with the same id; a client that fails
  to initialise is destroyed at the end of the handler.
\<close>

definition handle_request :: "rtc_answers \<Rightarrow> string \<Rightarrow> sig_client \<Rightarrow> sig_client outcome" where
  "handle_request R cid st =
     (if \<not> capture_available R
      then Inr (client_sendJson (error_message cid text_capture_unavailable) st)
      else bind_outcome (Init R google_stun (new_push_client cid (sc_environment st))) (\<lambda>(ok, c).
        let st1 = st\<lparr>sc_environment := pc_environment c\<rparr> in
        if \<not> ok
        then bind_outcome (client_destroy None c) (\<lambda>_.
               Inr (client_sendJson (error_message cid text_init_failed) st1))
        else bind_outcome (case sc_clients st1 cid of None \<Rightarrow> Inr () | Some old \<Rightarrow> client_destroy None old)
               (\<lambda>_. Inr (st1\<lparr>sc_clients := (sc_clients st1)(cid \<mapsto> c)\<rparr>))))"

definition update_session ::
  "string \<Rightarrow> (push_client \<Rightarrow> push_client) \<Rightarrow> sig_client \<Rightarrow> sig_client" where
  "update_session cid f st =
     (case sc_clients st cid of None \<Rightarrow> st
      | Some c \<Rightarrow> st\<lparr>sc_clients := (sc_clients st)(cid \<mapsto> f c)\<rparr>)"

text \<open>An exception of the JSON library leaves the slot, so the process ends.\<close>

definition try_json :: "json_error + 'a \<Rightarrow> ('a \<Rightarrow> 'b outcome) \<Rightarrow> 'b outcome" where
  "try_json r f = (case r of Inl e \<Rightarrow> Inl UncaughtException | Inr a \<Rightarrow> f a)"

definition onTextMessageReceived ::
  "rtc_answers \<Rightarrow> session_answers \<Rightarrow> string \<Rightarrow> sig_client
   \<Rightarrow> sig_client outcome" where
  "onTextMessageReceived R A message st =
     (case json_parse (c_str message) of
        Inl e \<Rightarrow> Inr st
      | Inr j \<Rightarrow>
        try_json (json_value from_json_string j ''type'' []) (\<lambda>type.
        try_json (json_value from_json_string j ''sdp'' []) (\<lambda>sdp.
        try_json (json_value from_json_string j ''id'' []) (\<lambda>cid.
          if type = ''answer''
          then try_json (json_value from_json_string j ''sdp'' []) (\<lambda>sdp.
                 Inr (update_session cid (\<lambda>c. snd (SetRemoteAnswer (sa_sdp_ok A) sdp c)) st))
          else if type = ''request'' then handle_request R cid st
          else if type = ''candidate''
          then try_json (json_value from_json_string j ''candidate'' []) (\<lambda>candidate.
               try_json (json_value from_json_string j ''sdpMid'' []) (\<lambda>sdpMid.
               try_json (json_value (from_json_int (sa_float_to_int A)) j ''sdpMLineIndex'' 0) (\<lambda>idx.
                 Inr (update_session cid (\<lambda>c. snd (AddRemoteIce (sa_candidate_ok A)
                        (sa_accept_candidate A) candidate idx sdpMid c)) st))))
          else Inr st))))"

subsection \<open>Events\<close>

text \<open>
  The events of the Qt thread, and those of WebRTC's threads for a session's client: its offer
  was created, it found a candidate, its connection changed, its audio device module was driven or
  made a capture pass. The callbacks are bound before
  \<^verbatim>\<open>Init\<close>; one that fires while \<^verbatim>\<open>Init\<close> runs is queued, which is the same as firing after it.
\<close>

datatype sig_event =
    EvOpened
  | EvClosed
  | EvMessage rtc_answers session_answers string
  | EvOffer string string
  | EvCandidate string string string int
  | EvConnection string connection_state
  | EvAudio string adm_event
  | EvFlush

definition client_callback :: "string \<Rightarrow> (push_client \<Rightarrow> push_client) \<Rightarrow> sig_client \<Rightarrow> sig_client" where
  "client_callback cid f st =
     (case sc_clients st cid of None \<Rightarrow> st
      | Some c \<Rightarrow> run_callbacks (drop (length (pc_calls c)) (pc_calls (f c))) (update_session cid f st))"

definition session_event :: "string \<Rightarrow> client_event \<Rightarrow> sig_client \<Rightarrow> sig_client outcome" where
  "session_event cid ev st =
     (case sc_clients st cid of None \<Rightarrow> Inr st
      | Some c \<Rightarrow> bind_outcome (client_step ev c) (\<lambda>d.
          Inr (st\<lparr>sc_clients := (sc_clients st)(cid \<mapsto> d)\<rparr>)))"

fun sig_step :: "sig_event \<Rightarrow> sig_client \<Rightarrow> sig_client outcome" where
  "sig_step EvOpened st = Inr (onConnected (st\<lparr>sc_valid := True\<rparr>))"
| "sig_step EvClosed st = Inr (client_onDisconnected (st\<lparr>sc_valid := False\<rparr>))"
| "sig_step (EvMessage R A message) st = onTextMessageReceived R A message st"
| "sig_step (EvOffer cid sdp) st = Inr (client_callback cid (OnOfferCreated True sdp) st)"
| "sig_step (EvCandidate cid s mid idx) st = Inr (client_callback cid (OnIceCandidate True s mid idx) st)"
| "sig_step (EvConnection cid s) st = session_event cid (ClientConnection s) st"
| "sig_step (EvAudio cid ev) st = session_event cid (ClientAudio ev) st"
| "sig_step EvFlush st = Inr (flush_one st)"

definition sig_trans ::
  "sig_event \<Rightarrow> sig_client outcome \<Rightarrow> sig_client outcome option" where
  "sig_trans ev s = (case s of Inl _ \<Rightarrow> None | Inr st \<Rightarrow> Some (sig_step ev st))"

subsection \<open>Invariant\<close>

definition session_ok :: "string \<Rightarrow> push_client \<Rightarrow> bool" where
  "session_ok cid c \<longleftrightarrow> pc_id c = cid \<and> pc_connection c \<and> client_inv c"

definition names_session :: "(string \<rightharpoonup> push_client) \<Rightarrow> out_message \<Rightarrow> bool" where
  "names_session clients m \<longleftrightarrow>
     (map_of m ''type'' \<in> {Some (OutString ''offer''), Some (OutString ''candidate'')} \<longrightarrow>
        (\<exists>cid. map_of m ''id'' = Some (OutString cid) \<and> clients cid \<noteq> None))"

definition sig_wf :: "sig_client \<Rightarrow> bool" where
  "sig_wf st \<longleftrightarrow>
     (\<forall>cid c. sc_clients st cid = Some c \<longrightarrow> session_ok cid c)
     \<and> (\<forall>m \<in> set (sc_queue st) \<union> set (sc_sent st). names_session (sc_clients st) m)"

lemma names_session_mono:
  "names_session cl m \<Longrightarrow> dom cl \<subseteq> dom cl' \<Longrightarrow> names_session cl' m"
  unfolding names_session_def by blast

lemma sig_wfI:
  assumes "\<And>cid c. sc_clients st cid = Some c \<Longrightarrow> session_ok cid c"
    and "\<And>m. m \<in> set (sc_queue st) \<union> set (sc_sent st) \<Longrightarrow> names_session (sc_clients st) m"
  shows "sig_wf st"
  using assms unfolding sig_wf_def by blast

lemma sig_wfD:
  assumes "sig_wf st"
  shows "sc_clients st cid = Some c \<Longrightarrow> session_ok cid c"
    and "m \<in> set (sc_queue st) \<union> set (sc_sent st) \<Longrightarrow> names_session (sc_clients st) m"
  using assms unfolding sig_wf_def by blast+

lemma sig_wf_clients:
  assumes "sig_wf st" "\<And>cid c. cl cid = Some c \<Longrightarrow> session_ok cid c" "dom (sc_clients st) \<subseteq> dom cl"
  shows "sig_wf (st\<lparr>sc_clients := cl\<rparr>)"
proof (rule sig_wfI)
  fix m
  assume "m \<in> set (sc_queue (st\<lparr>sc_clients := cl\<rparr>)) \<union> set (sc_sent (st\<lparr>sc_clients := cl\<rparr>))"
  then have "names_session (sc_clients st) m" by (intro sig_wfD(2) [OF assms(1)]) simp
  then show "names_session (sc_clients (st\<lparr>sc_clients := cl\<rparr>)) m"
    by (rule names_session_mono) (simp add: assms(3))
qed (simp add: assms(2))

lemma sig_wf_environment: "sig_wf (st\<lparr>sc_environment := e\<rparr>) = sig_wf st"
  by (simp add: sig_wf_def)

lemma sig_wf_send:
  "sig_wf st \<Longrightarrow> names_session (sc_clients st) m \<Longrightarrow> sig_wf (client_sendJson m st)"
  by (auto simp: sig_wf_def client_sendJson_def)

lemma error_message_names: "names_session cl (error_message cid text)"
  by (simp add: names_session_def error_message_def)

lemma sig_wf_update_session:
  assumes "sig_wf st" "\<And>c. session_ok cid c \<Longrightarrow> session_ok cid (f c)"
  shows "sig_wf (update_session cid f st)"
proof (cases "sc_clients st cid")
  case None
  with assms(1) show ?thesis by (simp add: update_session_def)
next
  case (Some c)
  have "session_ok cid' c'" if "((sc_clients st)(cid \<mapsto> f c)) cid' = Some c'" for cid' c'
    using that sig_wfD(1) [OF assms(1)] assms(2) Some by (auto split: if_splits)
  then have "sig_wf (st\<lparr>sc_clients := (sc_clients st)(cid \<mapsto> f c)\<rparr>)"
    by (rule sig_wf_clients [OF assms(1)]) auto
  with Some show ?thesis by (simp add: update_session_def)
qed

lemma session_ok_call [simp]: "session_ok cid (call x c) = session_ok cid c"
  by (simp add: session_ok_def frame_simps)

lemma session_ok_answer: "session_ok cid c \<Longrightarrow> session_ok cid (snd (SetRemoteAnswer ok sdp c))"
  by (simp add: SetRemoteAnswer_def)

lemma session_ok_candidate: "session_ok cid c \<Longrightarrow> session_ok cid (snd (AddRemoteIce ok acc cand i mid c))"
  by (simp add: AddRemoteIce_def Let_def)

lemma sig_wf_request:
  assumes "sig_wf st" "handle_request R cid st = Inr t"
  shows "sig_wf t \<and> dom (sc_clients st) \<subseteq> dom (sc_clients t)"
proof (cases "capture_available R")
  case False
  with assms have "t = client_sendJson (error_message cid text_capture_unavailable) st"
    by (simp add: handle_request_def)
  with sig_wf_send [OF assms(1) error_message_names] show ?thesis by (simp add: client_sendJson_def)
next
  case True
  obtain ok c where c: "Init R google_stun (new_push_client cid (sc_environment st)) = Inr (ok, c)"
    using assms(2) True by (auto simp: handle_request_def bind_outcome_Inr)
  let ?st = "st\<lparr>sc_environment := pc_environment c\<rparr>"
  have wf: "sig_wf ?st" using assms(1) by (simp add: sig_wf_environment)
  show ?thesis
  proof (cases ok)
    case False
    then have "t = client_sendJson (error_message cid text_init_failed) ?st"
      using assms(2) True c by (auto simp: handle_request_def bind_outcome_Inr)
    with sig_wf_send [OF wf error_message_names] show ?thesis by (simp add: client_sendJson_def)
  next
    case ok: True
    then have t: "t = ?st\<lparr>sc_clients := (sc_clients st)(cid \<mapsto> c)\<rparr>"
      using assms(2) True c by (auto simp: handle_request_def bind_outcome_Inr)
    have "pc_capture_source (new_push_client cid (sc_environment st)) = None"
      "pc_file_source (new_push_client cid (sc_environment st)) = None"
      "pc_id (new_push_client cid (sc_environment st)) = cid"
      by (simp_all add: new_push_client_def)
    then have "session_ok cid c"
      using Init_ok [of R google_stun "new_push_client cid (sc_environment st)" c] c ok
        idle_inv [OF Init_idle, of R google_stun cid "sc_environment st"]
      by (auto simp: session_ok_def)
    with wf assms(1) have "sig_wf t" unfolding t by (intro sig_wf_clients) (auto simp: sig_wf_def split: if_splits)
    then show ?thesis by (auto simp: t)
  qed
qed

lemma try_json_simps [simp]:
  "try_json (Inl e) f = Inl UncaughtException" "try_json (Inr a) f = f a"
  by (simp_all add: try_json_def)

lemma try_json_Inr: "try_json r f = Inr t \<longleftrightarrow> (\<exists>a. r = Inr a \<and> f a = Inr t)"
  by (auto simp: try_json_def split: sum.splits)

lemma update_session_dom: "dom (sc_clients (update_session cid f st)) = dom (sc_clients st)"
  by (auto simp: update_session_def split: option.split)

lemma onTextMessageReceived_cases:
  assumes "onTextMessageReceived R A message st = Inr t"
  obtains (ignored) "t = st"
  | (answer) cid sdp where
      "t = update_session cid (\<lambda>c. snd (SetRemoteAnswer (sa_sdp_ok A) sdp c)) st"
  | (request) cid where "handle_request R cid st = Inr t"
  | (candidate) cid cand idx mid where
      "t = update_session cid (\<lambda>c. snd (AddRemoteIce (sa_candidate_ok A) (sa_accept_candidate A)
             cand idx mid c)) st"
proof (cases "json_parse (c_str message)")
  case (Inl e)
  with assms ignored show thesis by (simp add: onTextMessageReceived_def)
next
  case (Inr j)
  with assms obtain ty sdp cid where
    body: "(if ty = ''answer''
          then try_json (json_value from_json_string j ''sdp'' []) (\<lambda>sdp.
                 Inr (update_session cid (\<lambda>c. snd (SetRemoteAnswer (sa_sdp_ok A) sdp c)) st))
          else if ty = ''request'' then handle_request R cid st
          else if ty = ''candidate''
          then try_json (json_value from_json_string j ''candidate'' []) (\<lambda>candidate.
               try_json (json_value from_json_string j ''sdpMid'' []) (\<lambda>sdpMid.
               try_json (json_value (from_json_int (sa_float_to_int A)) j ''sdpMLineIndex'' 0) (\<lambda>idx.
                 Inr (update_session cid (\<lambda>c. snd (AddRemoteIce (sa_candidate_ok A)
                        (sa_accept_candidate A) candidate idx sdpMid c)) st))))
          else Inr st) = Inr t"
    unfolding onTextMessageReceived_def by (auto simp: try_json_Inr)
  consider "ty = ''answer''" | "ty = ''request''" | "ty = ''candidate''"
    | "ty \<noteq> ''answer''" "ty \<noteq> ''request''" "ty \<noteq> ''candidate''" by blast
  then show thesis
  proof cases
    case 1
    with body answer show thesis by (auto simp: try_json_Inr)
  next
    case 2
    with body request show thesis by simp
  next
    case 3
    with body candidate show thesis by (auto simp: try_json_Inr)
  next
    case 4
    with body ignored show thesis by simp
  qed
qed

lemma sig_wf_message:
  assumes "sig_wf st" "onTextMessageReceived R A message st = Inr t"
  shows "sig_wf t \<and> dom (sc_clients st) \<subseteq> dom (sc_clients t)"
  using assms(2)
proof (cases rule: onTextMessageReceived_cases)
  case ignored
  with assms(1) show ?thesis by simp
next
  case (answer cid sdp)
  with sig_wf_update_session [OF assms(1) session_ok_answer] update_session_dom show ?thesis by auto
next
  case (request cid)
  with sig_wf_request [OF assms(1)] show ?thesis .
next
  case (candidate cid cand idx mid)
  with sig_wf_update_session [OF assms(1) session_ok_candidate] update_session_dom show ?thesis by auto
qed

lemma sig_wf_queue:
  "sig_wf st \<Longrightarrow> (\<And>m. m \<in> set ms \<Longrightarrow> names_session (sc_clients st) m) \<Longrightarrow> sig_wf (st\<lparr>sc_queue := sc_queue st @ ms\<rparr>)"
  by (auto simp: sig_wf_def)

lemma sig_wf_flush: "sig_wf st \<Longrightarrow> sig_wf (flush_one st)"
  by (auto simp: sig_wf_def flush_one_def client_sendJson_def split: list.split)

lemma sig_wf_client_callback:
  assumes "sig_wf st" "\<And>c. session_ok cid c \<Longrightarrow> session_ok cid (f c)"
    and "\<And>c x m. session_ok cid c \<Longrightarrow> sc_clients st cid = Some c \<Longrightarrow> x \<in> set (drop (length (pc_calls c)) (pc_calls (f c)))
      \<Longrightarrow> callback_message x = Some m \<Longrightarrow> names_session (sc_clients (update_session cid f st)) m"
  shows "sig_wf (client_callback cid f st)"
proof (cases "sc_clients st cid")
  case None
  with assms(1) show ?thesis by (simp add: client_callback_def)
next
  case (Some c)
  let ?t = "update_session cid f st"
  let ?calls = "drop (length (pc_calls c)) (pc_calls (f c))"
  have c: "session_ok cid c" using assms(1) Some by (rule sig_wfD)
  have wf: "sig_wf ?t" using assms(1,2) by (rule sig_wf_update_session)
  have "names_session (sc_clients ?t) m" if "m \<in> set (List.map_filter callback_message ?calls)" for m
    using that assms(3) [OF c Some] by (auto simp: List.map_filter_def)
  with sig_wf_queue [OF wf, of "List.map_filter callback_message ?calls"] show ?thesis
    by (simp add: client_callback_def run_callbacks_def Some)
qed

lemma sig_wf_offer: "sig_wf st \<Longrightarrow> sig_wf (client_callback cid (OnOfferCreated True sdp) st)"
  by (rule sig_wf_client_callback)
    (auto simp: OnOfferCreated_def frame_simps names_session_def sdp_message_def session_ok_def
      update_session_def Let_def client_inv_def split: option.split)

lemma sig_wf_candidate_event: "sig_wf st \<Longrightarrow> sig_wf (client_callback cid (OnIceCandidate True s mid idx) st)"
  by (rule sig_wf_client_callback)
    (auto simp: OnIceCandidate_def frame_simps names_session_def ice_message_def session_ok_def
      update_session_def client_inv_def split: option.split)

lemma sig_wf_event:
  assumes "sig_wf st" "session_event cid ev st = Inr t"
  shows "sig_wf t \<and> dom (sc_clients st) \<subseteq> dom (sc_clients t)"
proof (cases "sc_clients st cid")
  case None
  with assms show ?thesis by (simp add: session_event_def)
next
  case (Some c)
  have c: "session_ok cid c" using assms(1) Some by (rule sig_wfD)
  then have inv: "client_inv c" by (simp add: session_ok_def)
  obtain d where d: "client_step ev c = Inr d" "t = st\<lparr>sc_clients := (sc_clients st)(cid \<mapsto> d)\<rparr>"
    using assms(2) Some by (auto simp: session_event_def bind_outcome_Inr)
  have "session_ok cid d" using client_step_inv [OF inv, of ev] c d(1) by (simp add: session_ok_def)
  then have "session_ok cid' c'" if "((sc_clients st)(cid \<mapsto> d)) cid' = Some c'" for cid' c'
    using that sig_wfD(1) [OF assms(1)] by (auto split: if_splits)
  then have "sig_wf (st\<lparr>sc_clients := (sc_clients st)(cid \<mapsto> d)\<rparr>)"
    by (rule sig_wf_clients [OF assms(1)]) auto
  with d(2) show ?thesis by auto
qed

lemma client_callback_dom: "dom (sc_clients (client_callback cid f st)) = dom (sc_clients st)"
  by (auto simp: client_callback_def run_callbacks_def update_session_def split: option.split)

lemma sig_wf_step:
  assumes "sig_wf st" "sig_step ev st = Inr t"
  shows "sig_wf t \<and> dom (sc_clients st) \<subseteq> dom (sc_clients t)"
proof (cases ev)
  case EvOpened
  then have "t = client_sendJson [(''type'', OutString ''sender-ready'')] (st\<lparr>sc_valid := True\<rparr>)"
    using assms(2) by (simp add: onConnected_def)
  with assms(1) show ?thesis by (auto simp: sig_wf_def client_sendJson_def names_session_def)
next
  case EvClosed
  with assms show ?thesis by (auto simp: client_onDisconnected_def sig_wf_def)
next
  case (EvMessage R A message)
  with assms show ?thesis by (simp add: sig_wf_message)
next
  case (EvOffer cid sdp)
  with assms have t: "t = client_callback cid (OnOfferCreated True sdp) st" by simp
  show ?thesis using sig_wf_offer [OF assms(1)] by (simp add: t client_callback_dom)
next
  case (EvCandidate cid s mid idx)
  with assms have t: "t = client_callback cid (OnIceCandidate True s mid idx) st" by simp
  show ?thesis using sig_wf_candidate_event [OF assms(1)] by (simp add: t client_callback_dom)
next
  case (EvConnection cid s)
  with assms show ?thesis by (simp add: sig_wf_event)
next
  case (EvAudio cid x)
  with assms show ?thesis by (simp add: sig_wf_event)
next
  case EvFlush
  with assms show ?thesis
    by (auto simp: sig_wf_flush) (auto simp: flush_one_def client_sendJson_def split: list.splits if_splits)
qed

lemma sig_wf_init: "sig_wf (new_sig_client env)"
  by (simp add: sig_wf_def new_sig_client_def)

interpretation sig: invariant_system "sig_trans" "Inr (new_sig_client env)"
    "\<lambda>s. \<forall>st. s = Inr st \<longrightarrow> sig_wf st" for env
  by unfold_locales (auto simp: sig_wf_init sig_trans_def dest: sig_wf_step split: sum.splits)

subsection \<open>Sessions whose capture thread has ended\<close>

text \<open>
  A session's client is lost when its module's capture thread has ended on its own (theory
  \<open>PushClient\<close>). A step loses the client of a session only by a capture pass of its own module.
\<close>

definition lost_session :: "sig_client \<Rightarrow> string \<Rightarrow> bool" where
  "lost_session st cid = (case sc_clients st cid of None \<Rightarrow> False | Some c \<Rightarrow> audio_lost c)"

definition keeps_audio :: "(push_client \<Rightarrow> push_client) \<Rightarrow> bool" where
  "keeps_audio f \<longleftrightarrow> (\<forall>c. audio_lost (f c) = audio_lost c)"

lemma audio_lost_call [simp]: "audio_lost (call x c) = audio_lost c"
  by (simp add: audio_lost_def frame_simps)

lemma keeps_audio_ops:
  "keeps_audio (\<lambda>c. snd (SetRemoteAnswer ok sdp c))"
  "keeps_audio (\<lambda>c. snd (AddRemoteIce ok' acc cand idx mid c))"
  "keeps_audio (OnOfferCreated bound sdp)"
  "keeps_audio (OnIceCandidate bound s mid idx)"
  by (simp_all add: keeps_audio_def SetRemoteAnswer_def AddRemoteIce_def OnOfferCreated_def OnIceCandidate_def Let_def)

lemma lost_update_session: "keeps_audio f \<Longrightarrow> lost_session (update_session cid f st) = lost_session st"
  by (rule ext) (auto simp: lost_session_def update_session_def keeps_audio_def split: option.split)

lemma lost_client_callback: "keeps_audio f \<Longrightarrow> lost_session (client_callback cid f st) = lost_session st"
proof -
  assume f: "keeps_audio f"
  have "lost_session (run_callbacks cs u) = lost_session u" for cs u
    by (simp add: lost_session_def run_callbacks_def fun_eq_iff)
  with lost_update_session [OF f, of cid st] show ?thesis
    by (auto simp: client_callback_def split: option.split)
qed

lemma lost_send [simp]: "lost_session (client_sendJson m st) = lost_session st"
  by (simp add: lost_session_def client_sendJson_def fun_eq_iff)

lemma lost_environment [simp]: "lost_session (st\<lparr>sc_environment := e\<rparr>) = lost_session st"
  by (simp add: lost_session_def fun_eq_iff)

lemma lost_request:
  assumes "handle_request R cid st = Inr t" "lost_session t k"
  shows "lost_session st k"
proof (cases "capture_available R")
  case False
  with assms show ?thesis by (auto simp: handle_request_def)
next
  case True
  obtain ok c where c: "Init R google_stun (new_push_client cid (sc_environment st)) = Inr (ok, c)"
    using assms(1) True by (auto simp: handle_request_def bind_outcome_Inr)
  show ?thesis
  proof (cases ok)
    case False
    with assms True c show ?thesis by (auto simp: handle_request_def bind_outcome_Inr)
  next
    case ok: True
    then have "t = st\<lparr>sc_environment := pc_environment c, sc_clients := (sc_clients st)(cid \<mapsto> c)\<rparr>"
      using assms(1) True c by (auto simp: handle_request_def bind_outcome_Inr)
    with assms(2) idle_not_lost [OF Init_idle [OF c]] show ?thesis
      by (auto simp: lost_session_def split: if_splits)
  qed
qed

lemma lost_message:
  assumes "onTextMessageReceived R A message st = Inr t" "lost_session t k"
  shows "lost_session st k"
  using assms(1)
proof (cases rule: onTextMessageReceived_cases)
  case (request cid)
  from lost_request [OF this assms(2)] show ?thesis .
qed (use assms(2) in \<open>simp_all add: lost_update_session keeps_audio_ops\<close>)

lemma lost_event:
  assumes "sig_wf st" "session_event cid ev st = Inr t" "lost_session t k"
  shows "lost_session st k \<or> k = cid \<and> (\<exists>e. ev = ClientAudio (AdmCaptureTick e))"
proof (cases "sc_clients st cid")
  case None
  with assms show ?thesis by (simp add: session_event_def)
next
  case (Some c)
  have inv: "client_inv c" using sig_wfD(1) [OF assms(1) Some] by (simp add: session_ok_def)
  obtain d where d: "client_step ev c = Inr d" "t = st\<lparr>sc_clients := (sc_clients st)(cid \<mapsto> d)\<rparr>"
    using assms(2) Some by (auto simp: session_event_def bind_outcome_Inr)
  have "audio_lost d \<longrightarrow> audio_lost c \<or> (\<exists>e. ev = ClientAudio (AdmCaptureTick e))"
    using client_step_inv [OF inv, of ev] d(1) by simp
  with assms(3) d(2) Some show ?thesis by (auto simp: lost_session_def split: if_splits)
qed

lemma lost_step:
  assumes "sig_wf st" "sig_step ev st = Inr t" "lost_session t k"
  shows "lost_session st k \<or> (\<exists>e. ev = EvAudio k (AdmCaptureTick e))"
proof (cases ev)
  case (EvMessage R A message)
  with assms lost_message show ?thesis by auto
next
  case (EvConnection cid s)
  with assms lost_event [OF assms(1)] show ?thesis by auto
next
  case (EvAudio cid x)
  then have "session_event cid (ClientAudio x) st = Inr t" using assms(2) by simp
  from lost_event [OF assms(1) this assms(3)] EvAudio show ?thesis by auto
next
  case EvFlush
  with assms show ?thesis by (auto simp: flush_one_def lost_session_def client_sendJson_def split: list.splits if_splits)
next
  case EvOpened
  with assms show ?thesis by (auto simp: onConnected_def lost_session_def client_sendJson_def)
next
  case EvClosed
  with assms show ?thesis by (auto simp: client_onDisconnected_def lost_session_def)
qed (use assms in \<open>auto simp: lost_client_callback keeps_audio_ops\<close>)

subsection \<open>When a message ends the process\<close>

lemma capturer_Start_idle: "cs_cap_thread s = NotJoinable \<Longrightarrow> \<exists>t. capturer_Start s = Inr t"
  by (simp add: capturer_Start_def)

lemma AddDesktopVideo_no_abort:
  assumes "pc_capture_source c = Some s" "cs_cap_thread s = NotJoinable"
  shows "\<exists>p. AddDesktopVideo R fps br c = Inr p"
proof -
  have prep: "PrepareDesktopVideoSource R fps c = (True, c)" using assms(1) by (intro Prepare_again) simp
  obtain t where "capturer_Start s = Inr t" using capturer_Start_idle [OF assms(2)] by blast
  then have "AddDesktopVideo R fps br c \<noteq> Inl e" for e
    unfolding AddDesktopVideo_def prep Let_def by (simp add: frame_simps assms(1))
  then show ?thesis by (cases "AddDesktopVideo R fps br c") auto
qed

lemma and_then_no_abort:
  "\<exists>p. r = Inr p \<Longrightarrow> (\<And>c. r = Inr (True, c) \<Longrightarrow> \<exists>q. f c = Inr q) \<Longrightarrow> \<exists>q. and_then r f = Inr q"
  by (auto simp: and_then_def)

lemma Init_no_abort: "\<exists>p. Init R ice (new_push_client cid env) = Inr p"
  unfolding Init_def
proof (intro and_then_no_abort)
  fix c1 c2 c3
  assume c1: "Inr (PrepareDesktopVideoSource R 30 (new_push_client cid env)) = Inr (True, c1)"
    and c2: "Inr (create_audio_device R c1) = Inr (True, c2)"
    and c3: "Inr (create_connection R ice c2) = Inr (True, c3)"
  obtain s f where s: "c1 = (new_push_client cid env)\<lparr>pc_capture_source := Some s, pc_file_source := Some f\<rparr>"
    "cs_cap_thread s = NotJoinable"
    using Prepare_fresh [of R 30 "new_push_client cid env" c1] c1 by (auto simp: new_push_client_def)
  obtain a e where c2': "c2 = c1\<lparr>pc_environment := e, pc_adm := a\<rparr>"
    using create_audio_device_fields [of R c1 True c2] c2 by blast
  have "create_connection R ice c2 = (True, c3)" using c3 by simp
  from create_connection_ok [OF this] have "pc_capture_source c3 = Some s"
    by (simp add: c2' s frame_simps)
  then show "\<exists>p. AddDesktopVideo R 30 2000000 c3 = Inr p" using s(2) by (rule AddDesktopVideo_no_abort)
qed auto

text \<open>
  A request that opens a session in place of one whose capture thread has ended: the old client is
  destroyed when the table is assigned.
\<close>

definition replaces_lost :: "rtc_answers \<Rightarrow> string \<Rightarrow> sig_client \<Rightarrow> bool" where
  "replaces_lost R cid st \<longleftrightarrow> capture_available R
     \<and> (case Init R google_stun (new_push_client cid (sc_environment st)) of
          Inl e \<Rightarrow> False | Inr (ok, c) \<Rightarrow> ok)
     \<and> lost_session st cid"

lemma handle_request_outcome:
  assumes "sig_wf st"
  shows "if replaces_lost R cid st then handle_request R cid st = Inl StdTerminate
    else \<exists>t. handle_request R cid st = Inr t"
proof (cases "capture_available R")
  case False
  then show ?thesis by (simp add: handle_request_def replaces_lost_def)
next
  case True
  obtain ok c where c: "Init R google_stun (new_push_client cid (sc_environment st)) = Inr (ok, c)"
    using Init_no_abort by (metis surj_pair)
  have destroy: "client_destroy None c = Inr ()" by (rule client_idle_destroy [OF Init_idle [OF c]])
  have "(case sc_clients st cid of None \<Rightarrow> Inr () | Some old \<Rightarrow> client_destroy None old)
      = (if lost_session st cid then Inl StdTerminate else Inr ())"
    using sig_wfD(1) [OF assms, of cid]
    by (auto simp: session_ok_def lost_session_def client_inv_destroy split: option.split)
  with destroy c True show ?thesis by (simp add: handle_request_def replaces_lost_def Let_def)
qed

definition message_type :: "json \<Rightarrow> string" where
  "message_type j = (case json_find ''type'' j of Some (JString s) \<Rightarrow> s | _ \<Rightarrow> [])"

definition well_typed :: "json \<Rightarrow> bool" where
  "well_typed j \<longleftrightarrow> is_object j \<and> field_is is_string j ''type'' \<and> field_is is_string j ''sdp''
     \<and> field_is is_string j ''id''
     \<and> (message_type j = ''candidate'' \<longrightarrow> field_is is_string j ''candidate''
          \<and> field_is is_string j ''sdpMid'' \<and> field_is is_numeric j ''sdpMLineIndex'')"

lemma json_value_bad:
  "\<not> (is_object j \<and> field_is is_string j k) \<Longrightarrow> \<exists>e. json_value from_json_string j k d = Inl e"
  using json_value_string_ok [of j k d] by (metis sum.exhaust)

lemma json_value_bad_int:
  "\<not> (is_object j \<and> field_is is_numeric j k) \<Longrightarrow> \<exists>e. json_value (from_json_int tr) j k d = Inl e"
  using json_value_int_ok [of tr j k d] by (metis sum.exhaust)

lemma message_type_value:
  "json_value from_json_string j ''type'' [] = Inr ty \<Longrightarrow> message_type j = ty"
  by (cases j) (auto simp: json_value_def message_type_def split: option.splits json.splits elim: from_json_string.elims)

text \<open>
  C10. In every reachable state, and after any further events the process survives, each session's
  client has the session's id and a connection, every offer or candidate queued or sent names an
  existing session, and no session was removed. A session's client can be destroyed exactly when the
  capture thread of its audio module has not ended on its own, else the destructor ends in
  \<^verbatim>\<open>std::terminate\<close>; and the thread can have ended so only if it had before, or made a capture pass
  among these events.
\<close>

theorem signaling_sessions:
  assumes "reachable sig_trans (Inr (new_sig_client env)) (Inr st)"
    and "run sig_trans evs (Inr st) = Some (Inr t)"
  shows "sig_wf st \<and> sig_wf t \<and> dom (sc_clients st) \<subseteq> dom (sc_clients t)
    \<and> (\<forall>cid c. sc_clients t cid = Some c \<longrightarrow> pc_id c = cid \<and> pc_connection c
         \<and> client_destroy None c = (if audio_lost c then Inl StdTerminate else Inr ())
         \<and> (audio_lost c \<longrightarrow> lost_session st cid \<or> (\<exists>e. EvAudio cid (AdmCaptureTick e) \<in> set evs)))"
proof -
  have wf: "sig_wf st" using sig.reachable_inv [OF assms(1)] by simp
  have run: "sig_wf t \<and> dom (sc_clients st) \<subseteq> dom (sc_clients t)
      \<and> (\<forall>k. lost_session t k \<longrightarrow> lost_session st k \<or> (\<exists>e. EvAudio k (AdmCaptureTick e) \<in> set evs))"
    if "sig_wf st" "run sig_trans evs (Inr st) = Some (Inr t)" for st
    using that
  proof (induction evs arbitrary: st)
    case Nil
    then show ?case by simp
  next
    case (Cons ev evs)
    have step: "sig_trans ev (Inr st) = Some (sig_step ev st)" by (simp add: sig_trans_def)
    have rest: "run sig_trans evs (sig_step ev st) = Some (Inr t)"
      using Cons.prems(2) step by simp
    obtain u where u: "sig_step ev st = Inr u"
    proof (cases "sig_step ev st")
      case (Inl e)
      with rest show thesis by (cases evs) (auto simp: sig_trans_def)
    next
      case (Inr u)
      then show thesis by (rule that)
    qed
    have mid: "sig_wf u" "dom (sc_clients st) \<subseteq> dom (sc_clients u)"
      using sig_wf_step [OF Cons.prems(1) u] by simp_all
    note IH = Cons.IH [OF mid(1) rest [unfolded u]]
    have "lost_session st k \<or> (\<exists>e. EvAudio k (AdmCaptureTick e) \<in> set (ev # evs))" if "lost_session t k" for k
      using IH that lost_step [OF Cons.prems(1) u, of k] by auto
    with IH mid(2) show ?case by (meson order_trans)
  qed
  note t = run [OF wf assms(2)]
  have "pc_id c = cid \<and> pc_connection c
      \<and> client_destroy None c = (if audio_lost c then Inl StdTerminate else Inr ())
      \<and> (audio_lost c \<longrightarrow> lost_session st cid \<or> (\<exists>e. EvAudio cid (AdmCaptureTick e) \<in> set evs))"
    if c: "sc_clients t cid = Some c" for cid c
  proof -
    have "session_ok cid c" using t c sig_wfD(1) by blast
    moreover have "lost_session t cid = audio_lost c" by (simp add: lost_session_def c)
    ultimately show ?thesis using t client_inv_destroy [of c None] by (simp add: session_ok_def)
  qed
  with wf t show ?thesis by blast
qed

definition message_id :: "json \<Rightarrow> string" where
  "message_id j = (case json_find ''id'' j of Some (JString s) \<Rightarrow> s | _ \<Rightarrow> [])"

lemma message_id_value:
  "json_value from_json_string j ''id'' [] = Inr cid \<Longrightarrow> message_id j = cid"
  by (cases j) (auto simp: json_value_def message_id_def split: option.splits json.splits elim: from_json_string.elims)

text \<open>The request that a text makes and that would end the process in a destructor.\<close>

definition fatal_request :: "rtc_answers \<Rightarrow> json \<Rightarrow> sig_client \<Rightarrow> bool" where
  "fatal_request R j st \<longleftrightarrow> well_typed j \<and> message_type j = ''request'' \<and> replaces_lost R (message_id j) st"

lemma message_outcome:
  assumes wf: "sig_wf st" and j: "json_parse (c_str message) = Inr j"
  shows "if \<not> well_typed j then onTextMessageReceived R A message st = Inl UncaughtException
    else if fatal_request R j st then onTextMessageReceived R A message st = Inl StdTerminate
    else \<exists>t. onTextMessageReceived R A message st = Inr t"
proof -
  let ?r = "onTextMessageReceived R A message st"
  show ?thesis
  proof (cases "is_object j \<and> field_is is_string j ''type'' \<and> field_is is_string j ''sdp''
        \<and> field_is is_string j ''id''")
    case False
    then consider (ty) e where "json_value from_json_string j ''type'' [] = Inl e"
      | (sdp) ty e where "json_value from_json_string j ''type'' [] = Inr ty"
          "json_value from_json_string j ''sdp'' [] = Inl e"
      | (cid) ty sdp e where "json_value from_json_string j ''type'' [] = Inr ty"
          "json_value from_json_string j ''sdp'' [] = Inr sdp"
          "json_value from_json_string j ''id'' [] = Inl e"
      using json_value_bad by (metis sum.exhaust)
    then have "?r = Inl UncaughtException"
      by cases (simp_all add: onTextMessageReceived_def j)
    moreover have "\<not> well_typed j" using False unfolding well_typed_def by blast
    ultimately show ?thesis by simp
  next
    case True
    obtain ty sdp cid where f: "json_value from_json_string j ''type'' [] = Inr ty"
      "json_value from_json_string j ''sdp'' [] = Inr sdp"
      "json_value from_json_string j ''id'' [] = Inr cid"
      using True json_value_string_ok by metis
    have ty: "message_type j = ty" by (rule message_type_value) (rule f(1))
    have cid: "message_id j = cid" by (rule message_id_value) (rule f(3))
    consider "ty \<noteq> ''candidate''" "ty = ''request''" | "ty \<noteq> ''candidate''" "ty \<noteq> ''request''"
      | "ty = ''candidate''" "well_typed j" | "ty = ''candidate''" "\<not> well_typed j"
      by blast
    then show ?thesis
    proof cases
      case 1
      then have wt: "well_typed j" using True ty by (simp add: well_typed_def)
      have "?r = handle_request R cid st"
        using 1 by (simp add: onTextMessageReceived_def j f)
      moreover have "fatal_request R j st = replaces_lost R cid st"
        using 1 ty cid wt by (simp add: fatal_request_def)
      ultimately show ?thesis using handle_request_outcome [OF wf, of R cid] wt by simp
    next
      case 2
      then have wt: "well_typed j" using True ty by (simp add: well_typed_def)
      have "\<not> fatal_request R j st" using 2 ty by (simp add: fatal_request_def)
      with wt 2 show ?thesis by (simp add: onTextMessageReceived_def j f)
    next
      case 3
      then have "field_is is_string j ''candidate''" "field_is is_string j ''sdpMid''"
        "field_is is_numeric j ''sdpMLineIndex''" using ty by (simp_all add: well_typed_def)
      then obtain cand mid idx where "json_value from_json_string j ''candidate'' [] = Inr cand"
        "json_value from_json_string j ''sdpMid'' [] = Inr mid"
        "json_value (from_json_int (sa_float_to_int A)) j ''sdpMLineIndex'' 0 = Inr idx"
        using True json_value_string_ok json_value_int_ok by metis
      with 3 have "\<exists>t. ?r = Inr t" by (simp add: onTextMessageReceived_def j f)
      moreover have "\<not> fatal_request R j st" using 3 ty by (simp add: fatal_request_def)
      ultimately show ?thesis using 3(2) by simp
    next
      case 4
      then have bad: "\<not> (field_is is_string j ''candidate'' \<and> field_is is_string j ''sdpMid''
          \<and> field_is is_numeric j ''sdpMLineIndex'')"
        using True ty by (simp add: well_typed_def)
      then consider (cand) e where "json_value from_json_string j ''candidate'' [] = Inl e"
        | (mid) cand e where "json_value from_json_string j ''candidate'' [] = Inr cand"
            "json_value from_json_string j ''sdpMid'' [] = Inl e"
        | (idx) cand mid e where "json_value from_json_string j ''candidate'' [] = Inr cand"
            "json_value from_json_string j ''sdpMid'' [] = Inr mid"
            "json_value (from_json_int (sa_float_to_int A)) j ''sdpMLineIndex'' 0 = Inl e"
        using json_value_bad json_value_bad_int by (metis sum.exhaust)
      then have "?r = Inl UncaughtException"
        by cases (simp_all add: onTextMessageReceived_def j f 4(1))
      with 4 show ?thesis by simp
    qed
  qed
qed

lemma reachable_sig_wf: "reachable sig_trans (Inr (new_sig_client env)) (Inr st) \<Longrightarrow> sig_wf st"
  using sig.reachable_inv by blast

text \<open>
  C11. What a received text does to the process. It ends in an uncaught exception exactly when the
  text is valid JSON that is not an object or has a wrongly typed field among those read for its
  type: only the parsing is inside the \<^verbatim>\<open>try\<close> block, the typed accesses after it throw. It ends in
  \<^verbatim>\<open>std::terminate\<close> exactly when the text is a request that opens a new client for the id of a session
  whose audio module has lost its capture thread, because the old client is destroyed then. Every
  other text is handled normally.
\<close>

theorem wrongly_typed_message_fatal:
  assumes "reachable sig_trans (Inr (new_sig_client env)) (Inr st)"
  shows "(onTextMessageReceived R A message st = Inl UncaughtException
      \<longleftrightarrow> (\<exists>j. json_parse (c_str message) = Inr j \<and> \<not> well_typed j))
    \<and> (onTextMessageReceived R A message st = Inl StdTerminate
      \<longleftrightarrow> (\<exists>j. json_parse (c_str message) = Inr j \<and> fatal_request R j st))
    \<and> ((\<exists>t. onTextMessageReceived R A message st = Inr t)
      \<longleftrightarrow> (\<forall>j. json_parse (c_str message) = Inr j \<longrightarrow> well_typed j \<and> \<not> fatal_request R j st))"
proof (cases "json_parse (c_str message)")
  case (Inl e)
  then show ?thesis by (simp add: onTextMessageReceived_def)
next
  case (Inr j)
  have "fatal_request R j st \<Longrightarrow> well_typed j" by (simp add: fatal_request_def)
  with message_outcome [OF reachable_sig_wf [OF assms] Inr, of R A] Inr show ?thesis
    by (auto split: if_splits)
qed

definition demo_session_answers :: session_answers where
  "demo_session_answers = \<lparr>sa_sdp_ok = (\<lambda>_. True), sa_candidate_ok = (\<lambda>_. True),
     sa_accept_candidate = (\<lambda>_ _ _. True), sa_float_to_int = (\<lambda>_. 0)\<rparr>"

definition numeric_sdp :: json where
  "numeric_sdp = JObject [(''id'', JString ''s1''), (''sdp'', JUnsigned 5), (''type'', JString ''request'')]"

definition quoted :: "string \<Rightarrow> string" where
  "quoted s = CHR 0x22 # s @ [CHR 0x22]"

definition numeric_sdp_text :: string where
  "numeric_sdp_text = ''{'' @ quoted ''type'' @ '':'' @ quoted ''request'' @ '', '' @ quoted ''id'' @ '':''
     @ quoted ''s1'' @ '', '' @ quoted ''sdp'' @ '': 5}''"

lemma numeric_sdp_parse: "json_parse (c_str numeric_sdp_text) = Inr numeric_sdp"
  by code_simp

theorem wrongly_typed_message_fatal_witness:
  "onTextMessageReceived demo_answers demo_session_answers numeric_sdp_text (new_sig_client (\<lambda>_. None))
     = Inl UncaughtException"
proof -
  have "\<not> well_typed numeric_sdp"
    by (simp add: well_typed_def numeric_sdp_def field_is_def)
  with wrongly_typed_message_fatal [OF reach_init, where R = demo_answers
      and A = demo_session_answers and message = numeric_sdp_text and env = "\<lambda>_. None"]
  show ?thesis by (simp add: numeric_sdp_parse)
qed

definition demo_request :: json where
  "demo_request = JObject [(''id'', JString ''s1''), (''type'', JString ''request'')]"

definition demo_request_text :: string where
  "demo_request_text = ''{'' @ quoted ''type'' @ '':'' @ quoted ''request'' @ '', '' @ quoted ''id'' @ '':''
     @ quoted ''s1'' @ ''}''"

lemma demo_request_parse: "json_parse (c_str demo_request_text) = Inr demo_request"
  by code_simp

lemma demo_capture_available: "capture_available demo_answers"
  by (simp add: capture_available_def demo_answers_def SelectDefaultSourceIfNeeded_def)

lemma demo_request_init:
  "\<exists>d. Init demo_answers google_stun (new_push_client ''s1'' (\<lambda>_. None)) = Inr (True, d)"
proof -
  have "configured_ice_servers google_stun = configured_ice_servers []"
    by (simp add: configured_ice_servers_def google_stun_def default_stun_def)
  then have "Init demo_answers google_stun demo_client = Init demo_answers [] demo_client"
    by (simp add: Init_def create_connection_def connection_config_def)
  then show ?thesis using demo_init_ok by (simp add: demo_client_def)
qed

text \<open>
  A session whose capture thread ends on a read error; its id is then asked for again.
\<close>

definition lossy_session :: "sig_event list" where
  "lossy_session = [EvOpened, EvMessage demo_answers demo_session_answers demo_request_text,
     EvAudio ''s1'' (AdmRegisterCallback 9), EvAudio ''s1'' (AdmStartRecording 7),
     EvAudio ''s1'' (AdmCaptureTick (demo_env\<lparr>ce_read := - 1\<rparr>))]"

lemma lossy_session_run:
  "case run sig_trans lossy_session (Inr (new_sig_client (\<lambda>_. None))) of
     None \<Rightarrow> False
   | Some r \<Rightarrow> (case r of Inl e \<Rightarrow> False
       | Inr t \<Rightarrow> lost_session t ''s1'' \<and> fatal_request demo_answers demo_request t)"
  by code_simp

theorem signaling_sessions_witness:
  "\<exists>t c. run sig_trans lossy_session (Inr (new_sig_client (\<lambda>_. None))) = Some (Inr t)
   \<and> sc_clients t ''s1'' = Some c \<and> pc_connection c \<and> client_destroy None c = Inl StdTerminate"
proof -
  obtain t where t: "run sig_trans lossy_session (Inr (new_sig_client (\<lambda>_. None))) = Some (Inr t)"
    "lost_session t ''s1''"
    using lossy_session_run by (auto simp del: run.simps split: option.splits sum.splits)
  then obtain c where c: "sc_clients t ''s1'' = Some c" "audio_lost c"
    by (auto simp: lost_session_def split: option.splits)
  from signaling_sessions [OF reach_init t(1)] c have "pc_connection c \<and> client_destroy None c = Inl StdTerminate"
    by auto
  with t c show ?thesis by blast
qed

subsection \<open>The window and the socket wrapper\<close>

record widg =
  wd_client :: sig_client
  wd_signaling_started :: bool
  wd_button_enabled :: bool
  wd_button_text :: string
  wd_timer_pending :: bool

text \<open>The button texts of the Chinese user interface are named, not quoted.\<close>

definition text_connect :: string where "text_connect = ''connect-and-wait''"
definition text_waiting :: string where "text_waiting = ''waiting-for-request''"

definition new_widg :: "bool \<Rightarrow> environment \<Rightarrow> widg" where
  "new_widg autostart env = \<lparr>wd_client = new_sig_client env, wd_signaling_started = False,
     wd_button_enabled = True, wd_button_text = text_connect, wd_timer_pending = autostart\<rparr>"

definition startSignaling :: "widg \<Rightarrow> widg" where
  "startSignaling w =
     (if wd_signaling_started w then w
      else w\<lparr>wd_signaling_started := True, wd_button_enabled := False,
             wd_button_text := text_waiting,
             wd_client := connectToServer signaling_url (wd_client w)\<rparr>)"

definition on_pushButton_clicked :: "widg \<Rightarrow> widg" where
  "on_pushButton_clicked w = startSignaling w"

definition timer_fired :: "widg \<Rightarrow> widg" where
  "timer_fired w = (if wd_timer_pending w then startSignaling (w\<lparr>wd_timer_pending := False\<rparr>) else w)"

datatype ws_signal = SigConnected | SigDisconnected | SigMessageReceived string

record websocket_client =
  wc_url :: string
  wc_sent :: "string list"
  wc_signals :: "ws_signal list"

definition WebsocketClient_new :: "string \<Rightarrow> websocket_client" where
  "WebsocketClient_new url = \<lparr>wc_url = url, wc_sent = [], wc_signals = []\<rparr>"

definition sendMessage :: "string \<Rightarrow> websocket_client \<Rightarrow> websocket_client" where
  "sendMessage message w = w\<lparr>wc_sent := wc_sent w @ [message]\<rparr>"

definition wrapper_onConnected :: "websocket_client \<Rightarrow> websocket_client" where
  "wrapper_onConnected w = w\<lparr>wc_signals := wc_signals w @ [SigConnected]\<rparr>"

definition wrapper_onDisconnected :: "websocket_client \<Rightarrow> websocket_client" where
  "wrapper_onDisconnected w = w\<lparr>wc_signals := wc_signals w @ [SigDisconnected]\<rparr>"

definition wrapper_onTextMessageReceived :: "string \<Rightarrow> websocket_client \<Rightarrow> websocket_client" where
  "wrapper_onTextMessageReceived message w =
     w\<lparr>wc_signals := wc_signals w @ [SigMessageReceived message]\<rparr>"

lemma startSignaling_idem: "startSignaling (startSignaling w) = startSignaling w"
  by (simp add: startSignaling_def)

lemma clicks_connect_once:
  "sc_opened (wd_client ((on_pushButton_clicked ^^ Suc n) (new_widg a env))) = [signaling_url]"
proof -
  have "(on_pushButton_clicked ^^ Suc n) w = startSignaling w" for w
    by (induction n) (simp_all add: on_pushButton_clicked_def startSignaling_idem)
  then show ?thesis
    by (simp add: startSignaling_def new_widg_def connectToServer_def new_sig_client_def)
qed

end
