(* ===== verification/NSerializer.thy ===== *)
theory NSerializer
  imports NDom
begin

text \<open>
  The compact output of the bundled JSON library
  (\<^verbatim>\<open>3rd/include/nlohmann/detail/output/serializer.hpp\<close>, \<^verbatim>\<open>json::dump\<close> without an indent): the
  UTF-8 decoder, the escaping of strings with its fixed buffer, and the printing of integers.
  The printing of a floating-point number (\<^verbatim>\<open>to_chars\<close>) is an argument.
\<close>

unbundle bit_operations_syntax

subsection \<open>The UTF-8 decoder\<close>

text \<open>
  The table: a class for each byte, and the next state for each state and class. State 0
  accepts and state 1 rejects.
\<close>

definition utf8d :: "int list" where
  "utf8d =
     replicate 128 0
     @ replicate 16 1 @ replicate 16 9
     @ replicate 32 7
     @ [8, 8] @ replicate 30 2
     @ [0xA, 0x3, 0x3, 0x3, 0x3, 0x3, 0x3, 0x3, 0x3, 0x3, 0x3, 0x3, 0x3, 0x4, 0x3, 0x3]
     @ [0xB, 0x6, 0x6, 0x6, 0x5] @ replicate 11 8
     @ [0x0, 0x1, 0x2, 0x3, 0x5, 0x8, 0x7, 0x1, 0x1, 0x1, 0x4, 0x6, 0x1, 0x1, 0x1, 0x1]
     @ replicate 16 1
     @ [1, 0, 1, 1, 1, 1, 1, 0, 1, 0, 1, 1, 1, 1, 1, 1]
     @ [1, 2, 1, 1, 1, 1, 1, 2, 1, 2, 1, 1, 1, 1, 1, 1]
     @ [1, 1, 1, 1, 1, 1, 1, 2, 1, 1, 1, 1, 1, 1, 1, 1]
     @ [1, 2, 1, 1, 1, 1, 1, 1, 1, 2, 1, 1, 1, 1, 1, 1]
     @ [1, 1, 1, 1, 1, 1, 1, 3, 1, 3, 1, 1, 1, 1, 1, 1]
     @ [1, 3, 1, 1, 1, 1, 1, 3, 1, 3, 1, 1, 1, 1, 1, 1]
     @ [1, 3, 1, 1, 1, 1, 1, 1, 1, 1, 1, 1, 1, 1, 1, 1]"

abbreviation (input) UTF8_ACCEPT :: int where "UTF8_ACCEPT \<equiv> 0"
abbreviation (input) UTF8_REJECT :: int where "UTF8_REJECT \<equiv> 1"

text \<open>
  \<^verbatim>\<open>decode\<close>: the new state and code point. A code point is started afresh in state 0 and has at
  most three more bytes, so it does not outgrow its 32 bits.
\<close>

definition decode :: "int \<Rightarrow> int \<Rightarrow> int \<Rightarrow> int \<times> int" where
  "decode state codep b =
     (let type = utf8d ! nat b in
      (utf8d ! nat (256 + state * 16 + type),
       if state \<noteq> UTF8_ACCEPT then (b AND 0x3F) OR push_bit 6 codep
       else drop_bit (nat type) 0xFF AND b))"

subsection \<open>Escaping\<close>

datatype error_handler = HandlerStrict | HandlerReplace | HandlerIgnore

text \<open>
  The local variables of \<^verbatim>\<open>dump_escaped\<close>: \<open>es_buffer\<close> is the part of \<^verbatim>\<open>string_buffer\<close> written so
  far, so its length is \<^verbatim>\<open>bytes\<close>.
\<close>

record escaper =
  es_state :: int
  es_codepoint :: int
  es_buffer :: string
  es_accepted :: nat
  es_undumped :: nat
  es_output :: string

definition new_escaper :: escaper where
  "new_escaper = \<lparr>es_state = UTF8_ACCEPT, es_codepoint = 0, es_buffer = [], es_accepted = 0,
     es_undumped = 0, es_output = []\<rparr>"

definition hex_lower :: "int \<Rightarrow> char" where
  "hex_lower d = byte_char (if d < 10 then 0x30 + d else 0x57 + d)"

text \<open>\<^verbatim>\<open>\u%04x\<close> of a 16-bit value.\<close>

definition u_escape :: "int \<Rightarrow> string" where
  "u_escape n = CHR 0x5C # CHR ''u''
     # map hex_lower [n div 4096 mod 16, n div 256 mod 16, n div 16 mod 16, n mod 16]"

definition short_escapes :: "(int \<times> char) list" where
  "short_escapes =
     [(0x08, CHR ''b''), (0x09, CHR ''t''), (0x0A, CHR ''n''), (0x0C, CHR ''f''), (0x0D, CHR ''r''),
      (0x22, CHR 0x22), (0x5C, CHR 0x5C)]"

text \<open>What is written at the last byte \<open>c\<close> of a code point.\<close>

definition escape_codepoint :: "bool \<Rightarrow> int \<Rightarrow> char \<Rightarrow> string" where
  "escape_codepoint ensure_ascii codepoint c =
     (case map_of short_escapes codepoint of
        Some e \<Rightarrow> [CHR 0x5C, e]
      | None \<Rightarrow>
          if codepoint \<le> 0x1F \<or> ensure_ascii \<and> codepoint \<ge> 0x7F
          then (if codepoint \<le> 0xFFFF then u_escape (take_bit 16 codepoint)
                else u_escape (take_bit 16 (0xD7C0 + drop_bit 10 codepoint))
                     @ u_escape (take_bit 16 (0xDC00 + (codepoint AND 0x3FF))))
          else [c])"

text \<open>The buffer is written out when fewer than 13 bytes are left.\<close>

definition flush_buffer :: "escaper \<Rightarrow> escaper" where
  "flush_buffer e =
     (if 512 - length (es_buffer e) < 13
      then e\<lparr>es_output := es_output e @ es_buffer e, es_buffer := []\<rparr>
      else e)"

definition accept_point :: "bool \<Rightarrow> char \<Rightarrow> escaper \<Rightarrow> escaper" where
  "accept_point ensure_ascii c e =
     (let e' = flush_buffer
            (e\<lparr>es_buffer := es_buffer e @ escape_codepoint ensure_ascii (es_codepoint e) c\<rparr>)
      in e'\<lparr>es_accepted := length (es_buffer e'), es_undumped := 0\<rparr>)"

definition replacement :: "bool \<Rightarrow> string" where
  "replacement ensure_ascii =
     (if ensure_ascii then CHR 0x5C # ''ufffd'' else [CHR 0xEF, CHR 0xBF, CHR 0xBD])"

text \<open>A byte that is rejected, unless the handler is strict.\<close>

definition reject_point :: "bool \<Rightarrow> bool \<Rightarrow> escaper \<Rightarrow> escaper" where
  "reject_point replace ensure_ascii e =
     (let e1 = e\<lparr>es_buffer := take (es_accepted e) (es_buffer e)\<rparr>;
          e2 = (if replace
                then (let e' = flush_buffer (e1\<lparr>es_buffer := es_buffer e1 @ replacement ensure_ascii\<rparr>)
                      in e'\<lparr>es_accepted := length (es_buffer e')\<rparr>)
                else e1)
      in e2\<lparr>es_undumped := 0, es_state := UTF8_ACCEPT\<rparr>)"

text \<open>A byte inside a code point.\<close>

definition incomplete_point :: "bool \<Rightarrow> char \<Rightarrow> escaper \<Rightarrow> escaper" where
  "incomplete_point ensure_ascii c e =
     e\<lparr>es_buffer := (if ensure_ascii then es_buffer e else es_buffer e @ [c]),
       es_undumped := es_undumped e + 1\<rparr>"

text \<open>Decimal and hexadecimal numbers in the messages.\<close>

fun to_string :: "nat \<Rightarrow> string" where
  "to_string n = (if n < 10 then [byte_char (0x30 + int n)]
                  else to_string (n div 10) @ [byte_char (0x30 + int (n mod 10))])"

declare to_string.simps [simp del]

definition hex_bytes :: "int \<Rightarrow> string" where
  "hex_bytes b = [hex_upper (b div 16), hex_upper (b mod 16)]"

definition text_invalid_utf8 :: "nat \<Rightarrow> int \<Rightarrow> string" where
  "text_invalid_utf8 i b = ''invalid UTF-8 byte at index '' @ to_string i @ '': 0x'' @ hex_bytes b"

definition text_incomplete :: "int \<Rightarrow> string" where
  "text_incomplete b = ''incomplete UTF-8 string; last byte: 0x'' @ hex_bytes b"

text \<open>
  One round of the loop, at index \<open>i\<close>: an exception, or whether the byte is to be read again,
  and the variables.
\<close>

definition dump_byte ::
  "error_handler \<Rightarrow> bool \<Rightarrow> nat \<Rightarrow> char \<Rightarrow> escaper \<Rightarrow> json_error + (bool \<times> escaper)" where
  "dump_byte handler ensure_ascii i c e =
     (let (state, codepoint) = decode (es_state e) (es_codepoint e) (byte c);
          e = e\<lparr>es_state := state, es_codepoint := codepoint\<rparr>
      in if state = UTF8_ACCEPT then Inr (False, accept_point ensure_ascii c e)
         else if state = UTF8_REJECT
         then (case handler of
                 HandlerStrict \<Rightarrow> Inl (type_error 316 (text_invalid_utf8 i (byte c)))
               | HandlerReplace \<Rightarrow> Inr (0 < es_undumped e, reject_point True ensure_ascii e)
               | HandlerIgnore \<Rightarrow> Inr (0 < es_undumped e, reject_point False ensure_ascii e))
         else Inr (False, incomplete_point ensure_ascii c e))"

lemma reject_undumped [simp]: "es_undumped (reject_point r a e) = 0"
  by (simp add: reject_point_def Let_def)

lemma dump_byte_again:
  "dump_byte h a i c e = Inr (True, e') \<Longrightarrow> 0 < es_undumped e \<and> es_undumped e' = 0"
  by (auto simp: dump_byte_def Let_def split: if_splits prod.splits error_handler.splits)

function dump_bytes ::
  "error_handler \<Rightarrow> bool \<Rightarrow> nat \<Rightarrow> string \<Rightarrow> escaper \<Rightarrow> json_error + escaper" where
  "dump_bytes handler ensure_ascii i [] e = Inr e"
| "dump_bytes handler ensure_ascii i (c # s) e =
     (case dump_byte handler ensure_ascii i c e of
        Inl x \<Rightarrow> Inl x
      | Inr (again, e') \<Rightarrow>
          if again then dump_bytes handler ensure_ascii i (c # s) e'
          else dump_bytes handler ensure_ascii (i + 1) s e')"
  by pat_completeness auto
termination dump_bytes
  by (relation "measure (\<lambda>(h, a, i, s, e). 2 * length s + (if 0 < es_undumped e then 1 else 0))")
    (auto dest: dump_byte_again)

declare dump_bytes.simps(2) [simp del]

definition dump_escaped :: "error_handler \<Rightarrow> bool \<Rightarrow> string \<Rightarrow> json_error + string" where
  "dump_escaped handler ensure_ascii s =
     (case dump_bytes handler ensure_ascii 0 s new_escaper of
        Inl x \<Rightarrow> Inl x
      | Inr e \<Rightarrow>
          if es_state e = UTF8_ACCEPT then Inr (es_output e @ es_buffer e)
          else (case handler of
                  HandlerStrict \<Rightarrow> Inl (type_error 316 (text_incomplete (byte (last s))))
                | HandlerIgnore \<Rightarrow> Inr (es_output e @ take (es_accepted e) (es_buffer e))
                | HandlerReplace \<Rightarrow>
                    Inr (es_output e @ take (es_accepted e) (es_buffer e) @ replacement ensure_ascii)))"

subsection \<open>Integers\<close>

function count_digits :: "int \<Rightarrow> nat" where
  "count_digits x =
     (if x < 10 then 1
      else if x < 100 then 2
      else if x < 1000 then 3
      else if x < 10000 then 4
      else count_digits (x div 10000) + 4)"
  by pat_completeness auto
termination count_digits
  by (relation "measure nat") (auto simp: nat_mono_iff intro!: int_div_less_self)

declare count_digits.simps [simp del]

text \<open>The table of the pairs of digits.\<close>

definition digits_to_99 :: "int \<Rightarrow> string" where
  "digits_to_99 i = [byte_char (0x30 + i div 10), byte_char (0x30 + i mod 10)]"

text \<open>
  The number is written from the back, in front of what was written before; \<open>count_digits\<close> says
  where the last digit goes.
\<close>

function fill_digits :: "int \<Rightarrow> string \<Rightarrow> string" where
  "fill_digits abs_value acc =
     (if abs_value \<ge> 100 then fill_digits (abs_value div 100) (digits_to_99 (abs_value mod 100) @ acc)
      else if abs_value \<ge> 10 then digits_to_99 abs_value @ acc
      else byte_char (0x30 + abs_value) # acc)"
  by pat_completeness auto
termination fill_digits
  by (relation "measure (\<lambda>(x, acc). nat x)") (auto simp: nat_mono_iff intro!: int_div_less_self)

declare fill_digits.simps [simp del]

text \<open>\<^verbatim>\<open>remove_sign\<close> of a negative number, in 64 bits.\<close>

definition remove_sign :: "int \<Rightarrow> u64" where
  "remove_sign x = word_of_int (- (x + 1)) + 1"

definition dump_unsigned :: "u64 \<Rightarrow> string" where
  "dump_unsigned x = (if x = 0 then ''0'' else fill_digits (uint x) [])"

definition dump_signed :: "u64 \<Rightarrow> string" where
  "dump_signed x =
     (if x = 0 then ''0''
      else if sint x < 0 then ''-'' @ fill_digits (uint (remove_sign (sint x))) []
      else fill_digits (uint x) [])"

subsection \<open>Values\<close>

fun bind_dump :: "json_error + string \<Rightarrow> (string \<Rightarrow> json_error + string) \<Rightarrow> json_error + string" where
  "bind_dump (Inl e) k = Inl e"
| "bind_dump (Inr s) k = k s"

definition dump_string :: "error_handler \<Rightarrow> bool \<Rightarrow> string \<Rightarrow> json_error + string" where
  "dump_string handler ensure_ascii s =
     bind_dump (dump_escaped handler ensure_ascii s) (\<lambda>out. Inr (CHR 0x22 # out @ [CHR 0x22]))"

text \<open>
  The first exception ends the output. The elements are separated by commas; \<open>F\<close> prints a
  floating-point number.
\<close>

fun dump_value :: "(string \<Rightarrow> string) \<Rightarrow> error_handler \<Rightarrow> bool \<Rightarrow> json \<Rightarrow> json_error + string"
  and dump_elements :: "(string \<Rightarrow> string) \<Rightarrow> error_handler \<Rightarrow> bool \<Rightarrow> json list \<Rightarrow> json_error + string"
  and dump_members ::
    "(string \<Rightarrow> string) \<Rightarrow> error_handler \<Rightarrow> bool \<Rightarrow> (string \<times> json) list \<Rightarrow> json_error + string" where
  "dump_value F h a JNull = Inr ''null''"
| "dump_value F h a (JBool b) = Inr (if b then ''true'' else ''false'')"
| "dump_value F h a (JUnsigned u) = Inr (dump_unsigned u)"
| "dump_value F h a (JInteger i) = Inr (dump_signed i)"
| "dump_value F h a (JFloat f) = Inr (F f)"
| "dump_value F h a (JString s) = dump_string h a s"
| "dump_value F h a (JArray vs) =
     (if vs = [] then Inr ''[]''
      else bind_dump (dump_elements F h a vs) (\<lambda>out. Inr (''['' @ out @ '']'')))"
| "dump_value F h a (JObject m) =
     (if m = [] then Inr ''{}''
      else bind_dump (dump_members F h a m) (\<lambda>out. Inr (''{'' @ out @ ''}'')))"
| "dump_elements F h a [] = Inr []"
| "dump_elements F h a (v # vs) =
     bind_dump (dump_value F h a v) (\<lambda>out.
       if vs = [] then Inr out
       else bind_dump (dump_elements F h a vs) (\<lambda>rest. Inr (out @ '','' @ rest)))"
| "dump_members F h a [] = Inr []"
| "dump_members F h a ((k, v) # m) =
     bind_dump (dump_string h a k) (\<lambda>key.
     bind_dump (dump_value F h a v) (\<lambda>out.
       if m = [] then Inr (key @ '':'' @ out)
       else bind_dump (dump_members F h a m) (\<lambda>rest. Inr (key @ '':'' @ out @ '','' @ rest))))"

text \<open>\<^verbatim>\<open>json::dump()\<close> with its default arguments but \<open>ensure_ascii\<close> and the handler.\<close>

definition json_dump :: "(string \<Rightarrow> string) \<Rightarrow> bool \<Rightarrow> error_handler \<Rightarrow> json \<Rightarrow> json_error + string" where
  "json_dump F ensure_ascii handler v = dump_value F handler ensure_ascii v"

lemma utf8d_length: "length utf8d = 400"
  by (simp add: utf8d_def)

subsection \<open>The decoder reads what the encoder writes\<close>

lemma or_low:
  assumes "0 \<le> y" "y < (64 :: int)"
  shows "y OR push_bit 6 c = c * 64 + y"
proof -
  have y: "y = take_bit 6 y" using assms by (simp add: take_bit_int_eq_self)
  have "push_bit 6 c AND take_bit 6 y = 0" by (simp add: bit_eq_iff bit_simps)
  then have "push_bit 6 c + take_bit 6 y = push_bit 6 c OR take_bit 6 y" by (rule disjunctive_add_eq_or)
  then show ?thesis using y by (simp add: push_bit_eq_mult or.commute)
qed

lemma upto_all: "list_all P [a..b] \<Longrightarrow> a \<le> x \<Longrightarrow> x \<le> b \<Longrightarrow> P x"
  by (simp add: list_all_iff)

lemma decode_start: "decode 0 c b = decode 0 0 b"
  by (simp add: decode_def)

lemma decode_lead:
  "0 \<le> x \<Longrightarrow> x < 128 \<Longrightarrow> decode 0 c x = (0, x)"
  "2 \<le> x \<Longrightarrow> x < 32 \<Longrightarrow> decode 0 c (192 + x) = (2, x)"
  "0 \<le> x \<Longrightarrow> x < 16 \<Longrightarrow> decode 0 c (224 + x) = (if x = 0 then 4 else if x = 13 then 5 else 3, x)"
  "0 \<le> x \<Longrightarrow> x < 5 \<Longrightarrow> decode 0 c (240 + x) = (if x = 0 then 6 else if x = 4 then 8 else 7, x)"
proof -
  have table: "list_all (\<lambda>x. decode 0 0 x = (0, x)) [0..127]" by code_simp
  show "0 \<le> x \<Longrightarrow> x < 128 \<Longrightarrow> decode 0 c x = (0, x)"
    using upto_all [OF table, of x] by (subst decode_start) simp
  have table: "list_all (\<lambda>x. decode 0 0 (192 + x) = (2, x)) [2..31]" by code_simp
  show "2 \<le> x \<Longrightarrow> x < 32 \<Longrightarrow> decode 0 c (192 + x) = (2, x)"
    using upto_all [OF table, of x] by (subst decode_start) simp
  have table: "list_all (\<lambda>x. decode 0 0 (224 + x) = (if x = 0 then 4 else if x = 13 then 5 else 3, x)) [0..15]"
    by code_simp
  show "0 \<le> x \<Longrightarrow> x < 16 \<Longrightarrow> decode 0 c (224 + x) = (if x = 0 then 4 else if x = 13 then 5 else 3, x)"
    using upto_all [OF table, of x] by (subst decode_start) simp
  have table: "list_all (\<lambda>x. decode 0 0 (240 + x) = (if x = 0 then 6 else if x = 4 then 8 else 7, x)) [0..4]"
    by code_simp
  show "0 \<le> x \<Longrightarrow> x < 5 \<Longrightarrow> decode 0 c (240 + x) = (if x = 0 then 6 else if x = 4 then 8 else 7, x)"
    using upto_all [OF table, of x] by (subst decode_start) simp
qed

text \<open>The state behind a continuation byte, for the states in which it is accepted.\<close>

definition continue_state :: "int \<Rightarrow> int \<Rightarrow> int" where
  "continue_state state y = utf8d ! nat (256 + state * 16 + utf8d ! nat (128 + y))"

lemma decode_continue:
  assumes "state \<noteq> 0" "0 \<le> y" "y < 64"
  shows "decode state c (128 + y) = (continue_state state y, c * 64 + y)"
proof -
  have "(128 + y) AND 0x3F = (2 * 64 + y) mod 64" unfolding and_63 by simp
  then have "(128 + y) AND 0x3F = y" unfolding low_six [OF assms(2,3)] .
  then show ?thesis using assms by (simp add: decode_def continue_state_def or_low)
qed

lemma continue_states:
  "0 \<le> y \<Longrightarrow> y < 64 \<Longrightarrow> continue_state 2 y = 0"
  "0 \<le> y \<Longrightarrow> y < 64 \<Longrightarrow> continue_state 3 y = 2"
  "32 \<le> y \<Longrightarrow> y < 64 \<Longrightarrow> continue_state 4 y = 2"
  "0 \<le> y \<Longrightarrow> y < 32 \<Longrightarrow> continue_state 5 y = 2"
  "16 \<le> y \<Longrightarrow> y < 64 \<Longrightarrow> continue_state 6 y = 3"
  "0 \<le> y \<Longrightarrow> y < 64 \<Longrightarrow> continue_state 7 y = 3"
  "0 \<le> y \<Longrightarrow> y < 16 \<Longrightarrow> continue_state 8 y = 3"
proof -
  have table: "list_all (\<lambda>y. continue_state 2 y = 0 \<and> continue_state 3 y = 2 \<and> continue_state 7 y = 3) [0..63]"
    by code_simp
  show "0 \<le> y \<Longrightarrow> y < 64 \<Longrightarrow> continue_state 2 y = 0" "0 \<le> y \<Longrightarrow> y < 64 \<Longrightarrow> continue_state 3 y = 2"
    "0 \<le> y \<Longrightarrow> y < 64 \<Longrightarrow> continue_state 7 y = 3"
    using upto_all [OF table, of y] by simp_all
  have table: "list_all (\<lambda>y. continue_state 4 y = 2) [32..63]" by code_simp
  show "32 \<le> y \<Longrightarrow> y < 64 \<Longrightarrow> continue_state 4 y = 2" using upto_all [OF table, of y] by simp
  have table: "list_all (\<lambda>y. continue_state 5 y = 2) [0..31]" by code_simp
  show "0 \<le> y \<Longrightarrow> y < 32 \<Longrightarrow> continue_state 5 y = 2" using upto_all [OF table, of y] by simp
  have table: "list_all (\<lambda>y. continue_state 6 y = 3) [16..63]" by code_simp
  show "16 \<le> y \<Longrightarrow> y < 64 \<Longrightarrow> continue_state 6 y = 3" using upto_all [OF table, of y] by simp
  have table: "list_all (\<lambda>y. continue_state 8 y = 3) [0..15]" by code_simp
  show "0 \<le> y \<Longrightarrow> y < 16 \<Longrightarrow> continue_state 8 y = 3" using upto_all [OF table, of y] by simp
qed

text \<open>The forms of a scalar value and of its bytes.\<close>

lemma byte_of_byte_char: "0 \<le> n \<Longrightarrow> n < 256 \<Longrightarrow> byte (byte_char n) = n"
  by simp

lemma scalar_forms:
  assumes "unicode_scalar cp"
  obtains (ascii) "0 \<le> cp" "cp < 128" "add_codepoint cp = [byte_char cp]"
  | (two) x y where "cp = x * 64 + y" "2 \<le> x" "x < 32" "0 \<le> y" "y < 64"
      "add_codepoint cp = [byte_char (192 + x), byte_char (128 + y)]"
  | (three) x y z where "cp = (x * 64 + y) * 64 + z" "0 \<le> x" "x < 16" "0 \<le> y" "y < 64" "0 \<le> z" "z < 64"
      "x = 0 \<Longrightarrow> 32 \<le> y" "x = 13 \<Longrightarrow> y < 32"
      "add_codepoint cp = [byte_char (224 + x), byte_char (128 + y), byte_char (128 + z)]"
  | (four) x y z w where "cp = ((x * 64 + y) * 64 + z) * 64 + w" "0 \<le> x" "x < 5" "0 \<le> y" "y < 64"
      "0 \<le> z" "z < 64" "0 \<le> w" "w < 64" "x = 0 \<Longrightarrow> 16 \<le> y" "x = 4 \<Longrightarrow> y < 16"
      "add_codepoint cp = [byte_char (240 + x), byte_char (128 + y), byte_char (128 + z), byte_char (128 + w)]"
proof -
  define w1 where "w1 = cp mod 64"
  define w2 where "w2 = cp div 64 mod 64"
  define w3 where "w3 = cp div 64 div 64 mod 64"
  define w4 where "w4 = cp div 64 div 64 div 64"
  have m: "0 \<le> w1" "w1 < 64" "0 \<le> w2" "w2 < 64" "0 \<le> w3" "w3 < 64"
    by (simp_all add: w1_def w2_def w3_def)
  have d: "cp = (cp div 64) * 64 + w1" "cp div 64 = (cp div 64 div 64) * 64 + w2"
    "cp div 64 div 64 = w4 * 64 + w3"
    unfolding w1_def w2_def w3_def w4_def by (simp_all only: div_mult_mod_eq)
  have range: "0 \<le> cp" "cp \<le> 0x10FFFF" "cp < 0xD800 \<or> 0xE000 \<le> cp"
    using assms by (auto simp: unicode_scalar_def)
  consider "cp < 128" | "128 \<le> cp" "cp \<le> 0x7FF" | "0x800 \<le> cp" "cp \<le> 0xFFFF" | "0x10000 \<le> cp"
    by linarith
  then show thesis
  proof cases
    case 1
    with range(1) show thesis by (intro ascii) (simp_all add: add_codepoint_def utf8_bytes_def)
  next
    case 2
    let ?x = "cp div 64"
    have x: "2 \<le> ?x" "?x < 32" using 2 d(1) m(1,2) by linarith+
    have "utf8_bytes cp = [192 + ?x, 128 + w1]"
      using utf8_bytes_2 [OF x m(1,2)] d(1) by simp
    with x m d(1) show thesis by (intro two [of ?x w1]) (simp_all add: add_codepoint_def)
  next
    case 3
    obtain x where cp: "cp = (x * 64 + w2) * 64 + w1" using d(1,2) by metis
    have lin: "cp = 4096 * x + 64 * w2 + w1" using cp by simp
    have x: "0 \<le> x" "x < 16" using 3 lin m(1-4) by auto
    have y: "32 \<le> x * 64 + w2" "x = 0 \<Longrightarrow> 32 \<le> w2" using 3 lin m(1-4) by auto
    have z: "x = 13 \<Longrightarrow> w2 < 32" using lin m(1-4) range(3) by auto
    have "utf8_bytes cp = [224 + x, 128 + w2, 128 + w1]"
      using utf8_bytes_3 [OF x m(3,4) m(1,2) y(1)] cp by simp
    with x y z m cp show thesis by (intro three [of x w2 w1]) (simp_all add: add_codepoint_def)
  next
    case 4
    have cp: "cp = ((w4 * 64 + w3) * 64 + w2) * 64 + w1" using d by simp
    have lin: "cp = 262144 * w4 + 4096 * w3 + 64 * w2 + w1" using cp by simp
    have x: "0 \<le> w4" "w4 < 5" "w4 < 8" using 4 range(2) lin m by auto
    have y: "16 \<le> w4 * 64 + w3" "w4 = 0 \<Longrightarrow> 16 \<le> w3" "w4 = 4 \<Longrightarrow> w3 < 16"
      using 4 range(2) lin m by auto
    have "utf8_bytes cp = [240 + w4, 128 + w3, 128 + w2, 128 + w1]"
      using utf8_bytes_4 [OF x(1,3) m(5,6) m(3,4) m(1,2) y(1)] cp by simp
    with x y m cp show thesis by (intro four [of w4 w3 w2 w1]) (simp_all add: add_codepoint_def)
  qed
qed

subsection \<open>Escaping a code point\<close>

text \<open>What the escaper has written, to the output and to its buffer.\<close>

definition written :: "escaper \<Rightarrow> string" where
  "written e = es_output e @ es_buffer e"

text \<open>The text of a code point: escaped, or its bytes.\<close>

definition escaped_point :: "bool \<Rightarrow> int \<Rightarrow> bool" where
  "escaped_point ensure_ascii cp \<longleftrightarrow>
     map_of short_escapes cp \<noteq> None \<or> cp \<le> 0x1F \<or> ensure_ascii \<and> 0x7F \<le> cp"

definition point_text :: "bool \<Rightarrow> int \<Rightarrow> string" where
  "point_text ensure_ascii cp =
     (if escaped_point ensure_ascii cp then escape_codepoint ensure_ascii cp (CHR ''?'')
      else add_codepoint cp)"

lemma escape_codepoint_escaped:
  "escaped_point a cp \<Longrightarrow> escape_codepoint a cp c = escape_codepoint a cp d"
  "\<not> escaped_point a cp \<Longrightarrow> escape_codepoint a cp c = [c]"
  by (auto simp: escaped_point_def escape_codepoint_def split: option.split)

lemma accept_point_written:
  "written (accept_point a c e) = written e @ escape_codepoint a (es_codepoint e) c"
  "es_state (accept_point a c e) = es_state e"
  by (simp_all add: accept_point_def flush_buffer_def written_def Let_def)

lemma incomplete_written:
  "written (incomplete_point a c e) = written e @ (if a then [] else [c])"
  "es_state (incomplete_point a c e) = es_state e"
  "es_codepoint (incomplete_point a c e) = es_codepoint e"
  by (simp_all add: incomplete_point_def written_def)

lemma dump_accept:
  assumes "decode (es_state e) (es_codepoint e) (byte c) = (0, cp)"
  shows "\<exists>e'. es_state e' = 0 \<and> written e' = written e @ escape_codepoint a cp c
     \<and> dump_bytes h a i (c # s) e = dump_bytes h a (i + 1) s e'"
  using assms
  by (intro exI [of _ "accept_point a c (e\<lparr>es_state := 0, es_codepoint := cp\<rparr>)"])
    (simp add: dump_bytes.simps(2) dump_byte_def accept_point_written, simp add: written_def)

lemma dump_incomplete:
  assumes "decode (es_state e) (es_codepoint e) (byte c) = (st, cp)" "st \<noteq> 0" "st \<noteq> 1"
  shows "\<exists>e'. es_state e' = st \<and> es_codepoint e' = cp \<and> written e' = written e @ (if a then [] else [c])
     \<and> dump_bytes h a i (c # s) e = dump_bytes h a (i + 1) s e'"
  using assms
  by (intro exI [of _ "incomplete_point a c (e\<lparr>es_state := st, es_codepoint := cp\<rparr>)"])
    (simp add: dump_bytes.simps(2) dump_byte_def incomplete_written, simp add: written_def)

lemma multibyte_written:
  assumes "0x80 \<le> cp" "w = u @ (if a then [] else bs)" "add_codepoint cp = bs @ [c]"
  shows "w @ escape_codepoint a cp c = u @ point_text a cp"
proof -
  have "map_of short_escapes cp = None" using assms(1) by (simp add: short_escapes_def)
  then have "escaped_point a cp \<longleftrightarrow> a" using assms(1) by (simp add: escaped_point_def)
  then show ?thesis
    using assms escape_codepoint_escaped(1) [of a cp c "CHR ''?''"] escape_codepoint_escaped(2) [of a cp c]
    by (cases a) (simp_all add: point_text_def)
qed

lemma ascii_written:
  assumes "0 \<le> cp" "cp < 128"
  shows "escape_codepoint a cp (byte_char cp) = point_text a cp"
  using assms escape_codepoint_escaped(1) [of a cp "byte_char cp" "CHR ''?''"]
    escape_codepoint_escaped(2) [of a cp "byte_char cp"]
  by (simp add: point_text_def add_codepoint_def utf8_bytes_def)

lemma dump_codepoint:
  assumes "unicode_scalar cp" "es_state e = 0"
  shows "\<exists>e'. es_state e' = 0 \<and> written e' = written e @ point_text a cp
     \<and> dump_bytes h a i (add_codepoint cp @ s) e = dump_bytes h a (i + length (add_codepoint cp)) s e'"
  using assms(1)
proof (cases rule: scalar_forms)
  case ascii
  have "decode (es_state e) (es_codepoint e) (byte (byte_char cp)) = (0, cp)"
    using ascii decode_lead(1) assms(2) by simp
  from dump_accept [OF this, of a h i s] ascii show ?thesis by (simp add: ascii_written)
next
  case (two x y)
  have "decode (es_state e) (es_codepoint e) (byte (byte_char (192 + x))) = (2, x)"
    using two decode_lead(2) assms(2) by simp
  from dump_incomplete [OF this, of a h i "byte_char (128 + y) # s"]
  obtain e1 where e1: "es_state e1 = 2" "es_codepoint e1 = x"
    "written e1 = written e @ (if a then [] else [byte_char (192 + x)])"
    "dump_bytes h a i (byte_char (192 + x) # byte_char (128 + y) # s) e
       = dump_bytes h a (i + 1) (byte_char (128 + y) # s) e1" by auto
  have "decode (es_state e1) (es_codepoint e1) (byte (byte_char (128 + y))) = (0, cp)"
    using two e1 decode_continue [of 2 y x] continue_states by simp
  from dump_accept [OF this, of a h "i + 1" s]
  obtain e2 where e2: "es_state e2 = 0" "written e2 = written e1 @ escape_codepoint a cp (byte_char (128 + y))"
    "dump_bytes h a (i + 1) (byte_char (128 + y) # s) e1 = dump_bytes h a (i + 1 + 1) s e2" by auto
  have "written e2 = written e @ point_text a cp"
    unfolding e2(2) by (rule multibyte_written [OF _ e1(3)]) (use two in simp_all)
  with e1(4) e2(1,3) two show ?thesis by (intro exI [of _ e2]) simp
next
  case (three x y z)
  let ?st = "if x = 0 then 4 else if x = 13 then 5 else 3 :: int"
  let ?bs = "[byte_char (224 + x), byte_char (128 + y), byte_char (128 + z)]"
  have "decode (es_state e) (es_codepoint e) (byte (byte_char (224 + x))) = (?st, x)"
    using three decode_lead(3) assms(2) by simp
  moreover have "?st \<noteq> 0" "?st \<noteq> 1" by simp_all
  ultimately have "\<exists>e1. es_state e1 = ?st \<and> es_codepoint e1 = x
      \<and> written e1 = written e @ (if a then [] else [byte_char (224 + x)])
      \<and> dump_bytes h a i (byte_char (224 + x) # tl ?bs @ s) e = dump_bytes h a (i + 1) (tl ?bs @ s) e1"
    by (rule dump_incomplete)
  then
  obtain e1 where e1: "es_state e1 = ?st" "es_codepoint e1 = x"
    "written e1 = written e @ (if a then [] else [byte_char (224 + x)])"
    "dump_bytes h a i (?bs @ s) e = dump_bytes h a (i + 1) (tl ?bs @ s) e1" by auto
  have "continue_state ?st y = 2" using three continue_states(2,3,4) [of y] by auto
  then have "decode (es_state e1) (es_codepoint e1) (byte (byte_char (128 + y))) = (2, x * 64 + y)"
    using three e1 decode_continue [of ?st y x] by simp
  from dump_incomplete [OF this, of a h "i + 1" "byte_char (128 + z) # s"]
  obtain e2 where e2: "es_state e2 = 2" "es_codepoint e2 = x * 64 + y"
    "written e2 = written e1 @ (if a then [] else [byte_char (128 + y)])"
    "dump_bytes h a (i + 1) (tl ?bs @ s) e1 = dump_bytes h a (i + 2) (byte_char (128 + z) # s) e2" by auto
  have "decode (es_state e2) (es_codepoint e2) (byte (byte_char (128 + z))) = (0, cp)"
    using three e2 decode_continue [of 2 z "x * 64 + y"] continue_states(1) by simp
  from dump_accept [OF this, of a h "i + 2" s]
  obtain e3 where e3: "es_state e3 = 0" "written e3 = written e2 @ escape_codepoint a cp (byte_char (128 + z))"
    "dump_bytes h a (i + 2) (byte_char (128 + z) # s) e2 = dump_bytes h a (i + 3) s e3" by (auto simp: numeral_3_eq_3)
  have low: "0x80 \<le> cp" using three by (cases "x = 0") simp_all
  have w: "written e2 = written e @ (if a then [] else [byte_char (224 + x), byte_char (128 + y)])"
    using e1(3) e2(3) by simp
  have "written e3 = written e @ point_text a cp"
    unfolding e3(2) by (rule multibyte_written [OF low w]) (use three in simp)
  with e1(4) e2(4) e3(1,3) three show ?thesis by (intro exI [of _ e3]) (simp add: numeral_3_eq_3)
next
  case (four x y z w)
  let ?st = "if x = 0 then 6 else if x = 4 then 8 else 7 :: int"
  let ?bs = "[byte_char (240 + x), byte_char (128 + y), byte_char (128 + z), byte_char (128 + w)]"
  have "decode (es_state e) (es_codepoint e) (byte (byte_char (240 + x))) = (?st, x)"
    using four decode_lead(4) assms(2) by simp
  moreover have "?st \<noteq> 0" "?st \<noteq> 1" by simp_all
  ultimately have "\<exists>e1. es_state e1 = ?st \<and> es_codepoint e1 = x
      \<and> written e1 = written e @ (if a then [] else [byte_char (240 + x)])
      \<and> dump_bytes h a i (byte_char (240 + x) # tl ?bs @ s) e = dump_bytes h a (i + 1) (tl ?bs @ s) e1"
    by (rule dump_incomplete)
  then
  obtain e1 where e1: "es_state e1 = ?st" "es_codepoint e1 = x"
    "written e1 = written e @ (if a then [] else [byte_char (240 + x)])"
    "dump_bytes h a i (?bs @ s) e = dump_bytes h a (i + 1) (tl ?bs @ s) e1" by auto
  have "continue_state ?st y = 3" using four continue_states(5,6,7) [of y] by auto
  then have "decode (es_state e1) (es_codepoint e1) (byte (byte_char (128 + y))) = (3, x * 64 + y)"
    using four e1 decode_continue [of ?st y x] by simp
  from dump_incomplete [OF this, of a h "i + 1" "tl (tl ?bs) @ s"]
  obtain e2 where e2: "es_state e2 = 3" "es_codepoint e2 = x * 64 + y"
    "written e2 = written e1 @ (if a then [] else [byte_char (128 + y)])"
    "dump_bytes h a (i + 1) (tl ?bs @ s) e1 = dump_bytes h a (i + 2) (tl (tl ?bs) @ s) e2" by auto
  have "decode (es_state e2) (es_codepoint e2) (byte (byte_char (128 + z))) = (2, (x * 64 + y) * 64 + z)"
    using four e2 decode_continue [of 3 z "x * 64 + y"] continue_states(2) by simp
  from dump_incomplete [OF this, of a h "i + 2" "byte_char (128 + w) # s"]
  obtain e3 where e3: "es_state e3 = 2" "es_codepoint e3 = (x * 64 + y) * 64 + z"
    "written e3 = written e2 @ (if a then [] else [byte_char (128 + z)])"
    "dump_bytes h a (i + 2) (tl (tl ?bs) @ s) e2 = dump_bytes h a (i + 3) (byte_char (128 + w) # s) e3"
    by (auto simp: numeral_3_eq_3)
  have "decode (es_state e3) (es_codepoint e3) (byte (byte_char (128 + w))) = (0, cp)"
    using four e3 decode_continue [of 2 w "(x * 64 + y) * 64 + z"] continue_states(1) by simp
  from dump_accept [OF this, of a h "i + 3" s]
  obtain e4 where e4: "es_state e4 = 0" "written e4 = written e3 @ escape_codepoint a cp (byte_char (128 + w))"
    "dump_bytes h a (i + 3) (byte_char (128 + w) # s) e3 = dump_bytes h a (i + 4) s e4"
    by (auto simp: eval_nat_numeral)
  have low: "0x80 \<le> cp" using four by (cases "x = 0") simp_all
  have w: "written e3 = written e @ (if a then []
      else [byte_char (240 + x), byte_char (128 + y), byte_char (128 + z)])"
    using e1(3) e2(3) e3(3) by simp
  have "written e4 = written e @ point_text a cp"
    unfolding e4(2) by (rule multibyte_written [OF low w]) (use four in simp)
  with e1(4) e2(4) e3(4) e4(1,3) four show ?thesis by (intro exI [of _ e4]) (simp add: eval_nat_numeral)
qed

lemma dump_encoded:
  assumes "list_all unicode_scalar cps" "es_state e = 0"
  shows "\<exists>e'. es_state e' = 0 \<and> written e' = written e @ concat (map (point_text a) cps)
     \<and> dump_bytes h a i (utf8_encode cps) e = Inr e'"
  using assms
proof (induction cps arbitrary: e i)
  case (Cons cp cps)
  then obtain e1 where e1: "es_state e1 = 0" "written e1 = written e @ point_text a cp"
    "dump_bytes h a i (add_codepoint cp @ utf8_encode cps) e
       = dump_bytes h a (i + length (add_codepoint cp)) (utf8_encode cps) e1"
    using dump_codepoint [of cp e a h i "utf8_encode cps"] by auto
  have "list_all unicode_scalar cps" using Cons.prems(1) by simp
  from Cons.IH [OF this e1(1), of "i + length (add_codepoint cp)"] e1(2,3) show ?case by auto
qed simp

lemma dump_escaped_utf8:
  "list_all unicode_scalar cps \<Longrightarrow>
   dump_escaped h a (utf8_encode cps) = Inr (concat (map (point_text a) cps))"
proof -
  assume "list_all unicode_scalar cps"
  moreover have "es_state new_escaper = 0" "written new_escaper = []"
    by (simp_all add: new_escaper_def written_def)
  ultimately obtain e where e: "es_state e = 0" "written e = concat (map (point_text a) cps)"
    "dump_bytes h a 0 (utf8_encode cps) new_escaper = Inr e"
    using dump_encoded [of cps new_escaper a h 0] by auto
  then show ?thesis by (simp add: dump_escaped_def written_def [symmetric])
qed

subsection \<open>Scanning the escaped text\<close>

lemma hex_digit_lower: "0 \<le> d \<Longrightarrow> d < 16 \<Longrightarrow> hex_digit (hex_lower d) = Some d"
proof -
  have table: "list_all (\<lambda>d. hex_digit (hex_lower d) = Some d) [0..15]" by code_simp
  show "0 \<le> d \<Longrightarrow> d < 16 \<Longrightarrow> hex_digit (hex_lower d) = Some d"
    using upto_all [OF table, of d] by simp
qed

lemma hex_sum:
  fixes n :: int
  assumes "0 \<le> n" "n < 65536"
  shows "n div 4096 mod 16 * 4096 + n div 256 mod 16 * 256 + n div 16 mod 16 * 16 + n mod 16 = n"
proof -
  have top: "n div 4096 mod 16 = n div 4096"
    using assms by (intro mod_pos_pos_trivial) (simp_all add: pos_imp_zdiv_nonneg_iff)
  have quotients: "n div 256 = n div 16 div 16" "n div 4096 = n div 16 div 16 div 16" by simp_all
  have "a * 4096 + b * 256 + c * 16 + d = ((a * 16 + b) * 16 + c) * 16 + d" for a b c d :: int
    by simp
  then show ?thesis unfolding top unfolding quotients by (simp only: div_mult_mod_eq)
qed

lemma digit_sum:
  fixes a b c d :: int
  shows "0 + push_bit 12 a + push_bit 8 b + push_bit 4 c + push_bit 0 d = a * 4096 + b * 256 + c * 16 + d"
  by (simp add: push_bit_eq_mult)

lemma get_codepoint_hex:
  assumes "0 \<le> n" "n < 65536"
  shows "get_codepoint (map hex_lower [n div 4096 mod 16, n div 256 mod 16, n div 16 mod 16, n mod 16] @ s)
    = Some (n, s)"
proof -
  have d: "hex_digit (hex_lower (k mod 16)) = Some (k mod 16)" for k
    by (rule hex_digit_lower) simp_all
  show ?thesis
    unfolding get_codepoint_def
    by (simp only: list.map append.simps codepoint_digits.simps d option.case digit_sum hex_sum [OF assms])
qed

lemma scan_string_escape:
  "scan_escape s = Inr (bs, t) \<Longrightarrow> scan_string buf (CHR 0x5C # s) = scan_string (buf @ bs) t"
  by (simp add: scan_item_def)

lemma scan_u_escape:
  assumes "scan_unicode (map hex_lower [n div 4096 mod 16, n div 256 mod 16, n div 16 mod 16, n mod 16] @ s)
    = Inr (bs, t)"
  shows "scan_string buf (u_escape n @ s) = scan_string (buf @ bs) t"
proof -
  have "map_of escapes (CHR ''u'') = None" by (simp add: escapes_def)
  then have "scan_escape (CHR ''u'' # map hex_lower [n div 4096 mod 16, n div 256 mod 16, n div 16 mod 16, n mod 16] @ s)
      = Inr (bs, t)"
    using assms by simp
  then show ?thesis unfolding u_escape_def by (simp only: append_Cons scan_string_escape)
qed

lemma scan_short_escape:
  assumes "map_of short_escapes cp = Some e"
  shows "scan_string buf (CHR 0x5C # e # s) = scan_string (buf @ add_codepoint cp) s"
proof -
  have "list_all (\<lambda>(n, e). map_of escapes e = Some (byte_char n) \<and> 0 \<le> n \<and> n < 128) short_escapes"
    by code_simp
  with assms have e: "map_of escapes e = Some (byte_char cp)" "0 \<le> cp" "cp < 128"
    by (auto simp: list_all_iff dest!: map_of_SomeD)
  then have "add_codepoint cp = [byte_char cp]" by (simp add: add_codepoint_def utf8_bytes_def)
  with e(1) show ?thesis using scan_string_escape [of "e # s" "[byte_char cp]" s buf] by simp
qed

lemma scan_bmp_escape:
  assumes "unicode_scalar cp" "cp \<le> 0xFFFF"
  shows "scan_string buf (u_escape (take_bit 16 cp) @ s) = scan_string (buf @ add_codepoint cp) s"
proof -
  have cp: "0 \<le> cp" "cp < 65536" "\<not> (0xD800 \<le> cp \<and> cp \<le> 0xDFFF)"
    using assms by (auto simp: unicode_scalar_def)
  then have "take_bit 16 cp = cp" by (simp add: take_bit_int_eq_self)
  then show ?thesis
    using cp(3) by (simp only:) (rule scan_u_escape, simp only: scan_unicode_def get_codepoint_hex [OF cp(1,2)], auto)
qed

lemma surrogate_halves:
  assumes "0x10000 \<le> cp" "cp \<le> (0x10FFFF :: int)"
  obtains x y where "cp = 0x10000 + x * 0x400 + y" "0 \<le> x" "x \<le> 0x3FF" "0 \<le> y" "y \<le> 0x3FF"
    "take_bit 16 (0xD7C0 + drop_bit 10 cp) = 0xD800 + x" "take_bit 16 (0xDC00 + (cp AND 0x3FF)) = 0xDC00 + y"
proof -
  define y where "y = cp mod 1024"
  define x where "x = cp div 1024 - 64"
  have cp: "cp = (x + 64) * 1024 + y" unfolding x_def y_def by (simp add: div_mult_mod_eq)
  have y: "0 \<le> y" "y \<le> 1023" by (simp_all add: y_def)
  have x: "0 \<le> x" "x \<le> 1023" using assms cp y by auto
  have "drop_bit 10 cp = x + 64" by (simp add: drop_bit_eq_div x_def)
  then have hi: "take_bit 16 (0xD7C0 + drop_bit 10 cp) = 0xD800 + x" using x by (simp add: take_bit_int_eq_self)
  have "cp AND 0x3FF = y" using take_bit_eq_mask [of 10 cp]
    by (simp add: take_bit_eq_mod mask_eq_exp_minus_1 y_def)
  then have lo: "take_bit 16 (0xDC00 + (cp AND 0x3FF)) = 0xDC00 + y" using y by (simp add: take_bit_int_eq_self)
  from cp x y hi lo show thesis by (intro that [of x y]) simp_all
qed

lemma scan_pair_escape:
  assumes "0x10000 \<le> cp" "cp \<le> 0x10FFFF"
  shows "scan_string buf (u_escape (take_bit 16 (0xD7C0 + drop_bit 10 cp))
      @ u_escape (take_bit 16 (0xDC00 + (cp AND 0x3FF))) @ s) = scan_string (buf @ add_codepoint cp) s"
  using assms
proof (rule surrogate_halves)
  fix x y
  assume x: "cp = 0x10000 + x * 0x400 + y" "0 \<le> x" "x \<le> 0x3FF" "0 \<le> y" "y \<le> 0x3FF"
    "take_bit 16 (0xD7C0 + drop_bit 10 cp) = 0xD800 + x" "take_bit 16 (0xDC00 + (cp AND 0x3FF)) = 0xDC00 + y"
  let ?h = "\<lambda>n :: int. map hex_lower [n div 4096 mod 16, n div 256 mod 16, n div 16 mod 16, n mod 16]"
  have lo: "get_codepoint (?h (0xDC00 + y) @ s) = Some (0xDC00 + y, s)"
    by (rule get_codepoint_hex) (use x in simp_all)
  have "surrogate_pair (0xD800 + x) (0xDC00 + y) = cp"
    using x by (subst surrogate_pair_value) simp_all
  with lo x have pair: "low_surrogate (0xD800 + x) (u_escape (0xDC00 + y) @ s) = Inr (cp, s)"
    unfolding u_escape_def by (simp only: append_Cons low_surrogate.simps) simp
  have "get_codepoint (?h (0xD800 + x) @ (u_escape (0xDC00 + y) @ s)) = Some (0xD800 + x, u_escape (0xDC00 + y) @ s)"
    by (rule get_codepoint_hex) (use x in simp_all)
  then have "scan_unicode (?h (0xD800 + x) @ (u_escape (0xDC00 + y) @ s)) = Inr (add_codepoint cp, s)"
    using x pair unfolding scan_unicode_def by (simp only:) simp
  then show ?thesis unfolding x(6,7) by (rule scan_u_escape)
qed

lemma lead_ranges_values:
  "0 \<le> b \<Longrightarrow> b < 128 \<Longrightarrow> lead_ranges b = Some []"
  "2 \<le> x \<Longrightarrow> x < 32 \<Longrightarrow> lead_ranges (192 + x) = Some [(0x80, 0xBF)]"
  "0 \<le> x \<Longrightarrow> x < 16 \<Longrightarrow> lead_ranges (224 + x) =
     Some [(if x = 0 then 0xA0 else 0x80, if x = 13 then 0x9F else 0xBF), (0x80, 0xBF)]"
  "0 \<le> x \<Longrightarrow> x < 5 \<Longrightarrow> lead_ranges (240 + x) =
     Some [(if x = 0 then 0x90 else 0x80, if x = 4 then 0x8F else 0xBF), (0x80, 0xBF), (0x80, 0xBF)]"
  by (simp_all add: lead_ranges_def)

lemma scan_raw_point:
  assumes "unicode_scalar cp" "0x20 \<le> cp" "cp \<noteq> 0x22" "cp \<noteq> 0x5C"
  shows "scan_string buf (add_codepoint cp @ s) = scan_string (buf @ add_codepoint cp) s"
proof -
  have special: "byte (CHR 0x22) = 0x22" "byte (CHR 0x5C) = 0x5C" by simp_all
  have step: "scan_string buf (byte_char n # t) = scan_string (buf @ bs) u"
    if "0x20 \<le> n" "n < 256" "n \<noteq> 0x22" "n \<noteq> 0x5C" "scan_char (byte_char n) t = Inr (bs, u)" for n t bs u
  proof -
    have n: "byte (byte_char n) = n" using that by simp
    then have "byte_char n \<noteq> CHR 0x22" "byte_char n \<noteq> CHR 0x5C"
      using that(3,4) special by metis+
    with n that(1,5) show ?thesis by (simp add: scan_item_def)
  qed
  from assms(1) show ?thesis
  proof (cases rule: scalar_forms)
    case ascii
    then have "scan_char (byte_char cp) s = Inr ([byte_char cp], s)"
      by (simp add: scan_char_def lead_ranges_values)
    from step [OF assms(2) _ assms(3,4) this] ascii show ?thesis by simp
  next
    case (two x y)
    then have "scan_char (byte_char (192 + x)) (byte_char (128 + y) # s) = Inr (add_codepoint cp, s)"
      by (simp add: scan_char_def lead_ranges_values)
    from step [OF _ _ _ _ this] two show ?thesis by simp
  next
    case (three x y z)
    then have "scan_char (byte_char (224 + x)) (byte_char (128 + y) # byte_char (128 + z) # s)
        = Inr (add_codepoint cp, s)"
      by (simp add: scan_char_def lead_ranges_values) auto
    from step [OF _ _ _ _ this] three show ?thesis by simp
  next
    case (four x y z w)
    then have "scan_char (byte_char (240 + x)) (byte_char (128 + y) # byte_char (128 + z) # byte_char (128 + w) # s)
        = Inr (add_codepoint cp, s)"
      by (simp add: scan_char_def lead_ranges_values) auto
    from step [OF _ _ _ _ this] four show ?thesis by simp
  qed
qed

lemma scan_point:
  assumes "unicode_scalar cp"
  shows "scan_string buf (point_text a cp @ s) = scan_string (buf @ add_codepoint cp) s"
proof (cases "map_of short_escapes cp")
  case (Some e)
  then have "point_text a cp = [CHR 0x5C, e]"
    by (simp add: point_text_def escaped_point_def escape_codepoint_def)
  with scan_short_escape [OF Some] show ?thesis by simp
next
  case None
  show ?thesis
  proof (cases "escaped_point a cp")
    case False
    then have "0x20 \<le> cp" "point_text a cp = add_codepoint cp"
      by (auto simp: escaped_point_def point_text_def)
    moreover have "cp \<noteq> 0x22" "cp \<noteq> 0x5C" using None by (auto simp: short_escapes_def)
    ultimately show ?thesis using scan_raw_point [OF assms] by simp
  next
    case True
    show ?thesis
    proof (cases "cp \<le> 0xFFFF")
      case low: True
      have "point_text a cp = u_escape (take_bit 16 cp)"
        using True None low by (auto simp: point_text_def escaped_point_def escape_codepoint_def)
      with scan_bmp_escape [OF assms low] show ?thesis by simp
    next
      case False
      have "point_text a cp = u_escape (take_bit 16 (0xD7C0 + drop_bit 10 cp))
          @ u_escape (take_bit 16 (0xDC00 + (cp AND 0x3FF)))"
        using True None False by (auto simp: point_text_def escaped_point_def escape_codepoint_def)
      moreover have "0x10000 \<le> cp" "cp \<le> 0x10FFFF" using assms False by (auto simp: unicode_scalar_def)
      ultimately show ?thesis using scan_pair_escape by simp
    qed
  qed
qed

lemma scan_points:
  "list_all unicode_scalar cps \<Longrightarrow>
   scan_string buf (concat (map (point_text a) cps) @ CHR 0x22 # s) = Inr (buf @ utf8_encode cps, s)"
proof (induction cps arbitrary: buf)
  case (Cons cp cps)
  then have "scan_string buf (point_text a cp @ concat (map (point_text a) cps) @ CHR 0x22 # s)
      = scan_string (buf @ add_codepoint cp) (concat (map (point_text a) cps) @ CHR 0x22 # s)"
    by (intro scan_point) simp
  with Cons show ?case by simp
qed simp

lemma string_dumps:
  assumes "utf8_text s"
  obtains out where "dump_escaped h a s = Inr out" "\<And>buf rest. scan_string buf (out @ CHR 0x22 # rest) = Inr (buf @ s, rest)"
proof -
  obtain cps where cps: "list_all unicode_scalar cps" "s = utf8_encode cps"
    using assms by (auto simp: utf8_text_def)
  from that [of "concat (map (point_text a) cps)"] dump_escaped_utf8 [OF cps(1)] scan_points [OF cps(1)]
  show thesis unfolding cps(2) by blast
qed

subsection \<open>Scanning a printed integer\<close>

lemma digit_byte:
  assumes "0 \<le> d" "d < (10 :: int)"
  shows "is_digit (byte_char (0x30 + d))" "digit_value (byte_char (0x30 + d)) = d"
  using assms by (simp_all add: is_digit_def digit_value_def)

lemma fill_digits_acc: "fill_digits x acc = fill_digits x [] @ acc"
proof (induction "nat x" arbitrary: x acc rule: less_induct)
  case less
  show ?case
  proof (cases "100 \<le> x")
    case True
    then have IH: "fill_digits (x div 100) a = fill_digits (x div 100) [] @ a" for a
      by (intro less) (simp add: nat_mono_iff int_div_less_self)
    have "fill_digits x b = fill_digits (x div 100) (digits_to_99 (x mod 100) @ b)" for b
      using True by (subst fill_digits.simps) simp
    then show ?thesis by (simp add: IH [of "digits_to_99 (x mod 100)"] IH [of "digits_to_99 (x mod 100) @ acc"])
  next
    case False
    then show ?thesis by (simp add: fill_digits.simps [of x])
  qed
qed

lemma fill_digits_step:
  "100 \<le> x \<Longrightarrow> fill_digits x [] = fill_digits (x div 100) [] @ digits_to_99 (x mod 100)"
  by (subst fill_digits.simps) (simp add: fill_digits_acc [of "x div 100" "digits_to_99 (x mod 100)"])

lemma fill_digits_base:
  "10 \<le> x \<Longrightarrow> x < 100 \<Longrightarrow> fill_digits x [] = [byte_char (0x30 + x div 10), byte_char (0x30 + x mod 10)]"
  "x < 10 \<Longrightarrow> fill_digits x [] = [byte_char (0x30 + x)]"
  by (simp_all add: fill_digits.simps [of x] digits_to_99_def)

text \<open>The pointer moved back by \<open>count_digits\<close> places is where the digits begin.\<close>

lemma fill_digits_length: "0 \<le> x \<Longrightarrow> length (fill_digits x []) = count_digits x"
proof (induction x rule: count_digits.induct)
  case (1 x)
  consider "x < 10" | "10 \<le> x" "x < 100" | "100 \<le> x" "x < 1000" | "1000 \<le> x" "x < 10000" | "10000 \<le> x"
    by linarith
  then show ?case
  proof cases
    case 5
    have q: "x div 100 div 100 = x div 10000" using zdiv_zmult2_eq [of 100 x 100] by simp
    have "100 \<le> x div 100" using 5 by auto
    with 5 have "fill_digits x [] = (fill_digits (x div 10000) [] @ digits_to_99 (x div 100 mod 100)) @ digits_to_99 (x mod 100)"
      using fill_digits_step [of x] fill_digits_step [of "x div 100"] by (simp add: q)
    with 5 1 show ?thesis by (simp add: count_digits.simps [of x] digits_to_99_def)
  next
    case 3
    then have "x div 100 < 10" by auto
    with 3 show ?thesis
      by (simp add: fill_digits_step fill_digits_base count_digits.simps [of x] digits_to_99_def)
  next
    case 4
    then have "10 \<le> x div 100" "x div 100 < 100" by auto
    with 4 show ?thesis
      by (simp add: fill_digits_step fill_digits_base count_digits.simps [of x] digits_to_99_def)
  qed (simp_all add: fill_digits_base count_digits.simps [of x])
qed

lemma count_digits_bound: "x < 10 ^ 20 \<Longrightarrow> count_digits x \<le> 20"
proof -
  have step: "x < 10000 * b \<Longrightarrow> (\<And>y. y < b \<Longrightarrow> count_digits y \<le> n) \<Longrightarrow> count_digits x \<le> n + 4" for x b n
    by (subst count_digits.simps) (auto simp: div_less_iff_less_mult)
  have a: "x < 10000 \<Longrightarrow> count_digits x \<le> 4" for x by (subst count_digits.simps) simp
  have b: "x < 10000 * 10000 \<Longrightarrow> count_digits x \<le> 8" for x using step [of x 10000 4] a by simp
  have c: "x < 10000 * (10000 * 10000) \<Longrightarrow> count_digits x \<le> 12" for x
    using step [of x "10000 * 10000" 8] b by simp
  have d: "x < 10000 * (10000 * (10000 * 10000)) \<Longrightarrow> count_digits x \<le> 16" for x
    using step [of x "10000 * (10000 * 10000)" 12] c by simp
  show "x < 10 ^ 20 \<Longrightarrow> count_digits x \<le> 20"
    using step [of x "10000 * (10000 * (10000 * 10000))" 16] d by simp
qed

lemma digits_value_append2:
  "digits_value (s @ [c, d]) = 100 * digits_value s + 10 * digit_value c + digit_value d"
  by (simp add: digits_value_def)

lemma fill_digits_value:
  "0 \<le> x \<Longrightarrow> digits_value (fill_digits x []) = x \<and> list_all is_digit (fill_digits x [])"
proof (induction "nat x" arbitrary: x rule: less_induct)
  case less
  consider "x < 10" | "10 \<le> x" "x < 100" | "100 \<le> x" by linarith
  then show ?case
  proof cases
    case 1
    with less.prems show ?thesis
      by (simp add: fill_digits_base digits_value_def digit_byte del: of_char_of)
  next
    case 2
    then have d: "0 \<le> x div 10" "x div 10 < 10" "0 \<le> x mod 10" "x mod 10 < 10" by auto
    have "10 * (x div 10) + x mod 10 = x" by simp
    with 2 d show ?thesis
      by (simp add: fill_digits_base digits_value_def digit_byte del: of_char_of)
  next
    case 3
    let ?q = "x div 100" and ?r = "x mod 100"
    have IH: "digits_value (fill_digits ?q []) = ?q \<and> list_all is_digit (fill_digits ?q [])"
      by (rule less.hyps) (use 3 in \<open>simp_all add: nat_mono_iff int_div_less_self pos_imp_zdiv_nonneg_iff\<close>)
    have d: "0 \<le> ?r div 10" "?r div 10 < 10" "0 \<le> x mod 10" "x mod 10 < 10"
      by (auto simp: div_less_iff_less_mult)
    have "100 * ?q + (10 * (?r div 10) + ?r mod 10) = x" by (simp only: mult_div_mod_eq)
    then show ?thesis using IH d
      unfolding fill_digits_step [OF 3] digits_to_99_def digits_value_append2
      by (simp add: digit_byte mod_mod_cancel del: of_char_of)
  qed
qed

text \<open>The characters behind a value in the output: the end, a comma, a closing bracket or a newline.\<close>

definition stops :: "string \<Rightarrow> bool" where
  "stops rest \<longleftrightarrow> (case rest of [] \<Rightarrow> True | c # s \<Rightarrow> c \<in> set (CHR 0x0A # '',]}''))"

lemma stops_simps [simp]:
  "stops []" "stops (CHR '','' # s)" "stops (CHR '']'' # s)" "stops (CHR ''}'' # s)"
  "stops (CHR 0x0A # s)"
  by (simp_all add: stops_def)

lemma stop_moves:
  assumes "c \<in> set (CHR 0x0A # '',]}'')"
  shows "number_step NAny1 (Some c) = NumberDone \<and> number_step NZero (Some c) = NumberDone"
proof -
  have "list_all (\<lambda>c. number_step NAny1 (Some c) = NumberDone \<and> number_step NZero (Some c) = NumberDone)
      (CHR 0x0A # '',]}'')" by code_simp
  with assms show ?thesis unfolding list_all_iff by blast
qed

lemma number_loop_stops:
  assumes "stops rest" "q = NAny1 \<or> q = NZero"
  shows "number_loop q ty buf rest = Inr (ty, buf, rest)"
proof (cases rest)
  case Nil
  then show ?thesis using assms(2) by auto
next
  case (Cons c s)
  then have "c \<in> set (CHR 0x0A # '',]}'')" using assms(1) unfolding stops_def by (simp only: list.case)
  then have "number_step q (Some c) = NumberDone" using stop_moves assms(2) by metis
  moreover have "number_type_at q ty = ty" using assms(2) by (elim disjE) simp_all
  ultimately show ?thesis unfolding Cons by (simp del: number_step.simps)
qed

lemma number_loop_digits:
  "list_all is_digit ds \<Longrightarrow> stops rest \<Longrightarrow>
   number_loop NAny1 ty buf (ds @ rest) = Inr (ty, buf @ ds, rest)"
proof (induction ds arbitrary: buf)
  case (Cons c ds)
  then have "number_loop NAny1 ty (buf @ [c]) (ds @ rest) = Inr (ty, (buf @ [c]) @ ds, rest)" by simp
  with Cons.prems(1) show ?case by simp
qed (simp add: number_loop_stops)

lemma fill_digits_first:
  assumes "0 < x"
  obtains d ds where "fill_digits x [] = d # ds" "is_digit d" "d \<noteq> CHR ''0''" "list_all is_digit ds"
proof -
  have "\<exists>d ds. fill_digits x [] = d # ds \<and> d \<noteq> CHR ''0''"
    using assms
  proof (induction "nat x" arbitrary: x rule: less_induct)
    case less
    have nonzero: "0 < y \<Longrightarrow> y < 10 \<Longrightarrow> byte_char (0x30 + y) \<noteq> CHR ''0''" for y :: int
    proof
      assume y: "0 < y" "y < 10" and "byte_char (0x30 + y) = CHR ''0''"
      then have "byte (byte_char (0x30 + y)) = byte (CHR ''0'')" by simp
      with y show False by simp
    qed
    consider "x < 10" | "10 \<le> x" "x < 100" | "100 \<le> x" by linarith
    then show ?case
    proof cases
      case 1
      with nonzero [of x] less.prems show ?thesis by (simp add: fill_digits_base)
    next
      case 2
      then have "0 < x div 10" "x div 10 < 10" by auto
      with nonzero [of "x div 10"] 2 show ?thesis by (simp add: fill_digits_base)
    next
      case 3
      then have "\<exists>d ds. fill_digits (x div 100) [] = d # ds \<and> d \<noteq> CHR ''0''"
        by (intro less.hyps) (auto simp: nat_mono_iff int_div_less_self)
      with fill_digits_step [OF 3] show ?thesis by auto
    qed
  qed
  then obtain d ds where d: "fill_digits x [] = d # ds" "d \<noteq> CHR ''0''" by blast
  moreover have "is_digit d" "list_all is_digit ds"
    using fill_digits_value [of x] assms d(1) by simp_all
  ultimately show thesis by (intro that)
qed

lemma scan_plain: "\<not> is_whitespace c \<Longrightarrow> scan False False (c # s) = scan_at c s"
  by (simp add: scan_def scan_token_def skip_whitespace_def)

lemma digit_start:
  assumes "c = CHR ''-'' \<or> is_digit c"
  shows "scan False False (c # s) = scan_number c s"
proof -
  let ?P = "\<lambda>c. map_of structural c = None \<and> map_of literals c = None \<and> \<not> is_whitespace c \<and> c \<noteq> CHR 0x22"
  have minus: "?P (CHR ''-'')" by code_simp
  have table: "list_all (\<lambda>n. ?P (byte_char n)) [48..57]" by code_simp
  have "?P c"
  proof (cases "c = CHR ''-''")
    case False
    with assms have "48 \<le> byte c" "byte c \<le> 57" by (auto simp: is_digit_def)
    from upto_all [OF table this] show ?thesis by simp
  qed (use minus in simp)
  with assms show ?thesis by (simp add: scan_plain scan_at_def)
qed

lemma scan_unsigned:
  assumes "stops rest"
  shows "scan False False (dump_unsigned u @ rest) = (ValueUnsigned u, rest)"
proof (cases "u = 0")
  case True
  have "number_loop NZero TUnsigned ''0'' rest = Inr (TUnsigned, ''0'', rest)"
    by (rule number_loop_stops) (use assms in simp_all)
  moreover have "number_token TUnsigned ''0'' = ValueUnsigned 0" "number_start (CHR ''0'') = NZero" by code_simp+
  ultimately have "scan_number (CHR ''0'') rest = (ValueUnsigned 0, rest)" by (simp add: scan_number_def)
  moreover have "scan False False (''0'' @ rest) = scan_number (CHR ''0'') rest"
    by (simp add: digit_start is_digit_def)
  ultimately show ?thesis using True by (simp add: dump_unsigned_def)
next
  case False
  then have "uint u \<noteq> 0" by (simp add: uint_0_iff)
  then have "0 < uint u" using uint_ge_0 [of u] by linarith
  then obtain d ds where d: "fill_digits (uint u) [] = d # ds" "is_digit d" "d \<noteq> CHR ''0''" "list_all is_digit ds"
    by (rule fill_digits_first)
  have "d \<noteq> CHR ''-''" using d(2) by (auto simp: is_digit_def)
  then have "number_start d = NAny1" using d(3) by (simp add: number_start_def)
  moreover have "number_loop NAny1 TUnsigned [d] (ds @ rest) = Inr (TUnsigned, [d] @ ds, rest)"
    by (rule number_loop_digits [OF d(4) assms])
  moreover have "digits_value (d # ds) = uint u" using fill_digits_value [of "uint u"] d(1) by simp
  moreover have "uint u < 2 ^ 64" using uint_lt2p [of u] by simp
  ultimately have "scan_number d (ds @ rest) = (ValueUnsigned u, rest)"
    by (simp add: scan_number_def number_token_def strtoull_def)
  then show ?thesis using False d(1,2) by (simp add: dump_unsigned_def digit_start)
qed

lemma u64_of_int: "0 \<le> n \<Longrightarrow> n < 2 ^ 64 \<Longrightarrow> uint (word_of_int n :: u64) = n"
  by (simp add: unsigned_of_int take_bit_int_eq_self)


subsection \<open>The text of a floating-point number\<close>

text \<open>A text that the scanner reads to its end as a number with a fraction or an exponent, in range.\<close>

definition float_text :: "string \<Rightarrow> bool" where
  "float_text f \<longleftrightarrow>
     (case f of
        [] \<Rightarrow> False
      | c # s \<Rightarrow> (c = CHR ''-'' \<or> is_digit c) \<and> number_loop (number_start c) TUnsigned [c] s = Inr (TFloat, f, []))
     \<and> number_finite f"

lemma loop_ends_at_stop:
  assumes "number_loop q ty buf s = Inr (ty', text, [])" "stops rest"
  shows "number_loop q ty buf (s @ rest) = Inr (ty', text, rest)"
  using assms(1)
proof (induction s arbitrary: q ty buf)
  case Nil
  show ?case
  proof (cases rest)
    case (Cons c t)
    have "list_all (\<lambda>c. list_all (\<lambda>q. number_step q None = NumberDone \<longrightarrow> number_step q (Some c) = NumberDone)
        [NMinus, NZero, NAny1, NDecimal1, NDecimal2, NExponent, NSign, NAny2]) (CHR 0x0A # '',]}'')" by code_simp
    moreover have "c \<in> set (CHR 0x0A # '',]}'')" using assms(2) Cons unfolding stops_def by (simp only: list.case)
    moreover have "number_step q None = NumberDone" using Nil by (cases q) simp_all
    ultimately have "number_step q (Some c) = NumberDone" unfolding list_all_iff by (cases q) auto
    with Nil \<open>number_step q None = NumberDone\<close> show ?thesis unfolding Cons by (simp del: number_step.simps)
  qed (use Nil in simp)
next
  case (Cons c s)
  then show ?case by (cases "number_step q (Some c)") (simp_all del: number_step.simps)
qed

lemma remove_sign_value: "x < 0 \<Longrightarrow> - (2 ^ 63) \<le> x \<Longrightarrow> uint (remove_sign x) = - x"
proof -
  assume x: "x < 0" "- (2 ^ 63) \<le> x"
  have "remove_sign x = word_of_int (- x)" by (simp add: remove_sign_def)
  moreover have "uint (word_of_int (- x) :: u64) = - x"
    by (rule u64_of_int) (use x in simp_all)
  ultimately show ?thesis by (simp only:)
qed

lemma scan_negative:
  assumes "stops rest" "sint i < 0"
  shows "scan False False (dump_signed i @ rest) = (ValueInteger i, rest)"
proof -
  have range: "- (2 ^ 63) \<le> sint i" using sint_ge [of i] by simp
  have abs: "uint (remove_sign (sint i)) = - sint i" by (rule remove_sign_value) (use assms(2) range in simp_all)
  then have "0 < uint (remove_sign (sint i))" using assms(2) by simp
  then obtain d ds where d: "fill_digits (uint (remove_sign (sint i))) [] = d # ds" "is_digit d"
    "d \<noteq> CHR ''0''" "list_all is_digit ds" by (rule fill_digits_first)
  have "number_loop NMinus TUnsigned ''-'' (d # ds @ rest) = number_loop NAny1 TInteger (''-'' @ [d]) (ds @ rest)"
    using d(2,3) by simp
  also have "\<dots> = Inr (TInteger, (''-'' @ [d]) @ ds, rest)" by (rule number_loop_digits [OF d(4) assms(1)])
  finally have loop: "number_loop NMinus TUnsigned ''-'' (d # ds @ rest) = Inr (TInteger, ''-'' @ d # ds, rest)" by simp
  have val: "digits_value (d # ds) = - sint i"
    using fill_digits_value [of "uint (remove_sign (sint i))"] d(1) abs assms(2) by simp
  then have token: "number_token TInteger (''-'' @ d # ds) = ValueInteger i"
    using range by (simp add: number_token_def strtoll_def)
  have "dump_signed i = ''-'' @ d # ds" using d(1) assms(2) by (auto simp: dump_signed_def)
  moreover have "scan False False (''-'' @ d # ds @ rest) = scan_number (CHR ''-'') (d # ds @ rest)"
    by (simp add: digit_start)
  moreover have "scan_number (CHR ''-'') (d # ds @ rest) = (number_token TInteger (''-'' @ d # ds), rest)"
    using loop by (simp add: scan_number_def number_start_def)
  ultimately show ?thesis using token by simp
qed

lemma scan_float:
  assumes "float_text f" "stops rest"
  shows "scan False False (f @ rest) = (ValueFloat f, rest)"
proof -
  obtain c s where f: "f = c # s" "c = CHR ''-'' \<or> is_digit c"
    "number_loop (number_start c) TUnsigned [c] s = Inr (TFloat, f, [])"
    using assms(1) by (auto simp: float_text_def split: list.splits)
  have "scan_number c (s @ rest) = (ValueFloat f, rest)"
    using loop_ends_at_stop [OF f(3) assms(2)] by (simp add: scan_number_def number_token_def)
  with f(1,2) show ?thesis by (simp add: digit_start)
qed

lemma scan_text_tokens:
  "scan False False (CHR 0x22 # s) = string_token s"
  "scan False False (''null'' @ rest) = (LiteralNull, rest)"
  "scan False False (''true'' @ rest) = (LiteralTrue, rest)"
  "scan False False (''false'' @ rest) = (LiteralFalse, rest)"
  by (simp_all add: scan_plain is_whitespace_def scan_at_def structural_def literals_def)

lemma scan_structural:
  "scan False False (CHR ''['' # s) = (BeginArray, s)" "scan False False (CHR '']'' # s) = (EndArray, s)"
  "scan False False (CHR ''{'' # s) = (BeginObject, s)" "scan False False (CHR ''}'' # s) = (EndObject, s)"
  "scan False False (CHR '':'' # s) = (NameSeparator, s)" "scan False False (CHR '','' # s) = (ValueSeparator, s)"
  by (simp_all add: scan_plain is_whitespace_def scan_at_def structural_def)

lemma string_scans:
  assumes "utf8_text s"
  obtains out where "dump_string h a s = Inr out" "hd out = CHR 0x22"
    "\<And>rest. scan False False (out @ rest) = (ValueString s, rest)"
proof -
  obtain out where out: "dump_escaped h a s = Inr out"
    "\<And>buf rest. scan_string buf (out @ CHR 0x22 # rest) = Inr (buf @ s, rest)"
    using string_dumps [OF assms] by blast
  have "scan False False ((CHR 0x22 # out @ [CHR 0x22]) @ rest) = (ValueString s, rest)" for rest
    by (simp add: scan_text_tokens string_token_def out(2))
  with out(1) show thesis by (intro that [of "CHR 0x22 # out @ [CHR 0x22]"]) (simp_all add: dump_string_def)
qed

subsection \<open>Dumping and parsing\<close>

text \<open>
  The values that are printed exactly: with floating-point numbers in the form in which they are
  printed, and with signed integers that are negative, since the others are read back as unsigned
  ones.
\<close>

fun exact_numbers :: "(string \<Rightarrow> string) \<Rightarrow> json \<Rightarrow> bool" where
  "exact_numbers F (JFloat f) = (float_text f \<and> F f = f)"
| "exact_numbers F (JInteger i) = (sint i < 0)"
| "exact_numbers F (JArray a) = list_all (exact_numbers F) a"
| "exact_numbers F (JObject m) = list_all (\<lambda>(k, v). exact_numbers F v) m"
| "exact_numbers F j = True"

fun syntax_of :: "json \<Rightarrow> json_syntax" where
  "syntax_of JNull = ScalarText LiteralNull"
| "syntax_of (JBool b) = ScalarText (if b then LiteralTrue else LiteralFalse)"
| "syntax_of (JUnsigned u) = ScalarText (ValueUnsigned u)"
| "syntax_of (JInteger i) = ScalarText (ValueInteger i)"
| "syntax_of (JFloat f) = ScalarText (ValueFloat f)"
| "syntax_of (JString s) = ScalarText (ValueString s)"
| "syntax_of (JArray a) = ArrayText (map syntax_of a)"
| "syntax_of (JObject m) = ObjectText (map (\<lambda>(k, v). (k, syntax_of v)) m)"

lemma map_set_last:
  assumes "\<And>k'. k' \<in> fst ` set m \<Longrightarrow> k' < k"
  shows "map_set k v m = m @ [(k, v)]"
  using assms
proof (induction m)
  case (Cons kv m)
  obtain k' v' where kv: "kv = (k', v')" by force
  have "k' < k" using Cons.prems kv by simp
  then have "\<not> k < k'" "k \<noteq> k'" by auto
  with Cons kv show ?case by simp
qed simp

lemma fold_map_set_sorted:
  "keys_sorted (m @ kvs) \<Longrightarrow> fold (\<lambda>(k, v) m. map_set k v m) kvs m = m @ kvs"
proof (induction kvs arbitrary: m)
  case (Cons kv kvs)
  obtain k v where kv: "kv = (k, v)" by force
  have "map_set k v m = m @ [(k, v)]"
    by (rule map_set_last) (use Cons.prems kv in \<open>auto simp: keys_sorted_def sorted_wrt_append\<close>)
  with Cons kv show ?case by simp
qed simp

lemma syntax_of_value: "json_wf v \<Longrightarrow> syntax_json (syntax_of v) = v"
proof (induction v)
  case (JArray a)
  then show ?case by (simp add: list_all_iff map_idI)
next
  case (JObject m)
  have "map (\<lambda>(k, t). (k, syntax_json t)) (map (\<lambda>(k, v). (k, syntax_of v)) m) = m"
    unfolding map_map
  proof (rule map_idI)
    fix kv
    assume kv: "kv \<in> set m"
    obtain k v where "kv = (k, v)" by force
    with JObject.IH [OF kv, of v] JObject.prems kv
    show "((\<lambda>(k, t). (k, syntax_json t)) \<circ> (\<lambda>(k, v). (k, syntax_of v))) kv = kv"
      by (auto simp: list_all_iff)
  qed
  with fold_map_set_sorted [of "[]" m] JObject.prems show ?case by simp
qed auto

lemma syntax_of_ok: "exact_numbers F v \<Longrightarrow> syntax_ok (syntax_of v)"
proof (induction v)
  case (JFloat f)
  then show ?case by (simp add: scalar_token_def float_text_def)
next
  case (JObject m)
  then show ?case by (fastforce simp: list_all_iff)
qed (auto simp: scalar_token_def list_all_iff)

definition dumps_as :: "(string \<Rightarrow> string) \<Rightarrow> error_handler \<Rightarrow> bool \<Rightarrow> json \<Rightarrow> bool" where
  "dumps_as F h a v \<longleftrightarrow> (\<exists>out. dump_value F h a v = Inr out \<and> out \<noteq> [] \<and> byte (hd out) \<le> 0x7F
     \<and> (\<forall>rest. stops rest \<longrightarrow> lexes False (out @ rest) (syntax_tokens (syntax_of v)) rest))"

lemma dumps_scalar:
  assumes "dump_value F h a v = Inr out" "out \<noteq> []" "byte (hd out) \<le> 0x7F"
    and "syntax_of v = ScalarText t" "\<And>rest. stops rest \<Longrightarrow> scan False False (out @ rest) = (t, rest)"
  shows "dumps_as F h a v"
  unfolding dumps_as_def using assms by (auto simp: lexes_Cons_iff)

lemma elements_dump:
  assumes "vs \<noteq> []" "\<And>v. v \<in> set vs \<Longrightarrow> dumps_as F h a v"
  shows "\<exists>out. dump_elements F h a vs = Inr out
    \<and> (\<forall>rest. stops rest \<longrightarrow> lexes False (out @ rest) (separated (map syntax_tokens (map syntax_of vs))) rest)"
  using assms
proof (induction vs)
  case (Cons v vs)
  obtain out where out: "dump_value F h a v = Inr out"
    "\<And>rest. stops rest \<Longrightarrow> lexes False (out @ rest) (syntax_tokens (syntax_of v)) rest"
    using Cons.prems(2) [of v] by (auto simp: dumps_as_def)
  show ?case
  proof (cases "vs = []")
    case True
    with out show ?thesis by simp
  next
    case False
    with Cons obtain outs where outs: "dump_elements F h a vs = Inr outs"
      "\<And>rest. stops rest \<Longrightarrow> lexes False (outs @ rest) (separated (map syntax_tokens (map syntax_of vs))) rest"
      by auto
    have "lexes False ((out @ '','' @ outs) @ rest) (separated (map syntax_tokens (map syntax_of (v # vs)))) rest"
      if "stops rest" for rest
    proof -
      have "lexes False (out @ CHR '','' # outs @ rest) (syntax_tokens (syntax_of v)) (CHR '','' # outs @ rest)"
        by (rule out(2)) simp
      moreover have "lexes False (CHR '','' # outs @ rest)
          (ValueSeparator # separated (map syntax_tokens (map syntax_of vs))) rest"
        using outs(2) [OF that] by (simp add: lexes_Cons_iff scan_structural)
      ultimately show ?thesis using False by (auto simp: separated_Cons lexes_append)
    qed
    with out(1) outs(1) False show ?thesis by simp
  qed
qed simp

lemma members_dump:
  assumes "m \<noteq> []" "\<And>k v. (k, v) \<in> set m \<Longrightarrow> dumps_as F h a v \<and> utf8_text k"
  shows "\<exists>out. dump_members F h a m = Inr out
    \<and> (\<forall>rest. stops rest \<longrightarrow>
         lexes False (out @ rest) (separated (map member_tokens (map (\<lambda>(k, v). (k, syntax_of v)) m))) rest)"
  using assms
proof (induction m)
  case (Cons kv m)
  obtain k v where kv: "kv = (k, v)" by force
  have head: "dumps_as F h a v" "utf8_text k" using Cons.prems(2) [of k v] kv by simp_all
  obtain out where out: "dump_value F h a v = Inr out"
    "\<And>rest. stops rest \<Longrightarrow> lexes False (out @ rest) (syntax_tokens (syntax_of v)) rest"
    using head(1) by (auto simp: dumps_as_def)
  obtain key where key: "dump_string h a k = Inr key"
    "\<And>rest. scan False False (key @ rest) = (ValueString k, rest)"
    using string_scans [OF head(2)] by blast
  have member: "lexes False (key @ '':'' @ out @ rest) (member_tokens (k, syntax_of v)) rest"
    if "stops rest" for rest
    using out(2) [OF that] by (simp add: lexes_Cons_iff key(2) scan_structural)
  show ?case
  proof (cases "m = []")
    case True
    with out(1) key(1) member kv show ?thesis by simp
  next
    case False
    have tail: "\<And>k v. (k, v) \<in> set m \<Longrightarrow> dumps_as F h a v \<and> utf8_text k"
      using Cons.prems(2) by (meson list.set_intros(2))
    from Cons.IH [OF False tail] obtain outs where outs: "dump_members F h a m = Inr outs"
      "\<And>rest. stops rest \<Longrightarrow> lexes False (outs @ rest)
         (separated (map member_tokens (map (\<lambda>(k, v). (k, syntax_of v)) m))) rest"
      by auto
    have "lexes False ((key @ '':'' @ out @ '','' @ outs) @ rest)
        (separated (map member_tokens (map (\<lambda>(k, v). (k, syntax_of v)) (kv # m)))) rest"
      if "stops rest" for rest
    proof -
      have "lexes False (key @ '':'' @ out @ (CHR '','' # outs @ rest)) (member_tokens (k, syntax_of v))
          (CHR '','' # outs @ rest)"
        by (rule member) simp
      moreover have "lexes False (CHR '','' # outs @ rest)
          (ValueSeparator # separated (map member_tokens (map (\<lambda>(k, v). (k, syntax_of v)) m))) rest"
        using outs(2) [OF that] by (simp add: lexes_Cons_iff scan_structural)
      ultimately have "lexes False (key @ '':'' @ out @ (CHR '','' # outs @ rest))
          (member_tokens (k, syntax_of v)
           @ ValueSeparator # separated (map member_tokens (map (\<lambda>(k, v). (k, syntax_of v)) m))) rest"
        unfolding lexes_append by blast
      with False kv show ?thesis by (simp add: separated_Cons)
    qed
    with out(1) key(1) outs(1) False kv show ?thesis by simp
  qed
qed simp

lemma digit_ascii: "is_digit d \<Longrightarrow> byte d \<le> 0x7F"
  by (simp add: is_digit_def)

lemma dump_unsigned_first: "dump_unsigned u \<noteq> [] \<and> byte (hd (dump_unsigned u)) \<le> 0x7F"
proof (cases "u = 0")
  case False
  then have "uint u \<noteq> 0" by (simp add: uint_0_iff)
  then have "0 < uint u" using uint_ge_0 [of u] by linarith
  then obtain d ds where "fill_digits (uint u) [] = d # ds" "is_digit d" by (rule fill_digits_first)
  with False show ?thesis by (simp add: dump_unsigned_def digit_ascii)
qed (simp add: dump_unsigned_def)

lemma value_dumps: "json_wf v \<Longrightarrow> exact_numbers F v \<Longrightarrow> dumps_as F h a v"
proof (induction v)
  case JNull
  show ?case by (rule dumps_scalar [of _ _ _ _ "''null''"]) (simp_all only: scan_text_tokens, simp_all)
next
  case (JBool b)
  show ?case
  proof (cases b)
    case True
    then show ?thesis
      by (intro dumps_scalar [of _ _ _ _ "''true''" LiteralTrue]) (simp_all only: scan_text_tokens, simp_all)
  next
    case False
    then show ?thesis
      by (intro dumps_scalar [of _ _ _ _ "''false''" LiteralFalse]) (simp_all only: scan_text_tokens, simp_all)
  qed
next
  case (JUnsigned u)
  show ?case
    by (rule dumps_scalar [of _ _ _ _ "dump_unsigned u" "ValueUnsigned u"])
      (simp_all add: dump_unsigned_first scan_unsigned)
next
  case (JInteger i)
  then have i: "sint i < 0" by simp
  then have "dump_signed i \<noteq> [] \<and> byte (hd (dump_signed i)) \<le> 0x7F"
    by (auto simp: dump_signed_def)
  with i show ?case
    by (intro dumps_scalar [of _ _ _ _ "dump_signed i" "ValueInteger i"]) (simp_all add: scan_negative)
next
  case (JFloat f)
  then have f: "float_text f" "F f = f" by simp_all
  obtain c s where "f = c # s" "c = CHR ''-'' \<or> is_digit c"
    using f(1) by (auto simp: float_text_def split: list.splits)
  then have "f \<noteq> []" "byte (hd f) \<le> 0x7F" by (auto simp: digit_ascii)
  with f show ?case by (intro dumps_scalar [of _ _ _ _ f "ValueFloat f"]) (simp_all add: scan_float)
next
  case (JString s)
  then obtain out where out: "dump_string h a s = Inr out" "hd out = CHR 0x22"
    "\<And>rest. scan False False (out @ rest) = (ValueString s, rest)"
    using string_scans [of s h a] by auto
  have "out \<noteq> []"
  proof
    assume "out = []"
    with out(3) [of "[]"] show False by (simp add: scan_def scan_token_def skip_whitespace_def)
  qed
  with out show ?case by (intro dumps_scalar [of _ _ _ _ out "ValueString s"]) simp_all
next
  case (JArray vs)
  have vs: "\<And>v. v \<in> set vs \<Longrightarrow> dumps_as F h a v"
    using JArray by (simp add: list_all_iff)
  show ?case
  proof (cases "vs = []")
    case True
    then show ?thesis by (simp add: dumps_as_def lexes_Cons_iff scan_structural)
  next
    case False
    then obtain out where out: "dump_elements F h a vs = Inr out"
      "\<And>rest. stops rest \<Longrightarrow> lexes False (out @ rest) (separated (map syntax_tokens (map syntax_of vs))) rest"
      using elements_dump [OF False vs] by blast
    have "lexes False ((''['' @ out @ '']'') @ rest) (syntax_tokens (syntax_of (JArray vs))) rest" for rest
    proof -
      have "lexes False (out @ CHR '']'' # rest) (separated (map syntax_tokens (map syntax_of vs))) (CHR '']'' # rest)"
        by (rule out(2)) simp
      then show ?thesis by (auto simp: lexes_Cons_iff lexes_append scan_structural)
    qed
    with out(1) False show ?thesis by (simp add: dumps_as_def)
  qed
next
  case (JObject m)
  have m: "dumps_as F h a v \<and> utf8_text k" if "(k, v) \<in> set m" for k v
    using JObject.IH [OF that] JObject.prems that by (auto simp: list_all_iff)
  show ?case
  proof (cases "m = []")
    case True
    then show ?thesis by (simp add: dumps_as_def lexes_Cons_iff scan_structural)
  next
    case False
    from members_dump [OF this m] obtain out where out: "dump_members F h a m = Inr out"
      "\<And>rest. stops rest \<Longrightarrow> lexes False (out @ rest)
         (separated (map member_tokens (map (\<lambda>(k, v). (k, syntax_of v)) m))) rest"
      by blast
    have "lexes False ((''{'' @ out @ ''}'') @ rest) (syntax_tokens (syntax_of (JObject m))) rest" for rest
    proof -
      have "lexes False (out @ CHR ''}'' # rest)
          (separated (map member_tokens (map (\<lambda>(k, v). (k, syntax_of v)) m))) (CHR ''}'' # rest)"
        by (rule out(2)) simp
      then show ?thesis
        by (auto simp del: syntax_tokens.simps member_tokens.simps
            simp: syntax_object lexes_Cons_iff lexes_append scan_structural)
    qed
    with out(1) False show ?thesis by (simp add: dumps_as_def)
  qed
qed

lemma printed_parses:
  assumes "out \<noteq> []" "byte (hd out) \<le> 0x7F" "\<And>rest. stops rest \<Longrightarrow> lexes False (out @ rest) (syntax_tokens (syntax_of v)) rest"
    and "json_wf v" "exact_numbers F v"
  shows "json_parse out = Inr v"
proof -
  have "lexes False (out @ []) (syntax_tokens (syntax_of v)) []" by (rule assms(3)) simp
  then obtain u where u: "scan False False out = (hd (syntax_tokens (syntax_of v)), u)"
    "lexes False u (tl (syntax_tokens (syntax_of v))) []"
    by (subst (asm) syntax_tokens_split) (auto simp only: lexes_Cons_iff append_Nil2)
  have "skip_bom out = Some out" using assms(1,2) by (cases out) auto
  then have first: "scan False True out = (hd (syntax_tokens (syntax_of v)), u)"
    using u(1) by (simp add: scan_def)
  have "lexes False [] [EndOfInput] []"
    by (simp add: lexes_Cons_iff scan_def scan_token_def skip_whitespace_def)
  with u(2) have "lexes False u (tl (syntax_tokens (syntax_of v)) @ [EndOfInput]) []"
    by (auto simp: lexes_append)
  with first syntax_of_ok [OF assms(5)] have "json_text default_options out (syntax_of v)"
    by (auto simp: json_text_def default_options_def)
  then show ?thesis using json_parse_text syntax_of_value [OF assms(4)] by fastforce
qed

lemma dump_then_parse:
  assumes "json_wf v" "exact_numbers F v"
  shows "\<exists>out. json_dump F a h v = Inr out \<and> json_parse out = Inr v"
  using value_dumps [OF assms, of h a] printed_parses [OF _ _ _ assms] unfolding dumps_as_def json_dump_def by blast

text \<open>
  Every other value comes back as the one whose numbers are what was printed: a signed integer that is
  not negative as an unsigned one, a floating-point number as its printed form, and one that is
  printed as null, because it is not finite, as null. All that is asked of the printed form is that it
  is a floating-point token or null.
\<close>

fun printable :: "(string \<Rightarrow> string) \<Rightarrow> json \<Rightarrow> bool" where
  "printable F (JFloat f) = (float_text (F f) \<or> F f = ''null'')"
| "printable F (JArray a) = list_all (printable F) a"
| "printable F (JObject m) = list_all (\<lambda>(k, v). printable F v) m"
| "printable F j = True"

fun reread :: "(string \<Rightarrow> string) \<Rightarrow> json \<Rightarrow> json" where
  "reread F (JFloat f) = (if F f = ''null'' then JNull else JFloat (F f))"
| "reread F (JInteger i) = (if sint i < 0 then JInteger i else JUnsigned i)"
| "reread F (JArray a) = JArray (map (reread F) a)"
| "reread F (JObject m) = JObject (map (\<lambda>(k, v). (k, reread F v)) m)"
| "reread F j = j"

lemma reread_exact: "exact_numbers F v \<Longrightarrow> reread F v = v"
proof (induction v)
  case (JFloat f)
  then have "float_text f" "F f = f" by simp_all
  moreover have "\<not> float_text ''null''" by (simp add: float_text_def is_digit_def)
  ultimately show ?case by auto
next
  case (JObject m)
  then show ?case by (fastforce simp: list_all_iff intro: map_idI)
qed (auto simp: list_all_iff intro: map_idI)

lemma reread_keys: "map fst (map (\<lambda>(k, v). (k, reread F v)) m) = map fst m"
  by auto

lemma reread_wf: "json_wf v \<Longrightarrow> json_wf (reread F v)"
proof (induction v)
  case (JObject m)
  have "keys_sorted (map (\<lambda>(k, v). (k, reread F v)) m)"
    using JObject.prems reread_keys [of F m] by (simp add: keys_sorted_def del: map_map)
  moreover have "utf8_text k \<and> json_wf (reread F v)" if "(k, v) \<in> set m" for k v
    using JObject.IH [OF that, of v] JObject.prems that by (auto simp: list_all_iff)
  ultimately show ?case by (auto simp: list_all_iff)
qed (auto simp: list_all_iff)

lemma reread_exact_numbers: "printable F v \<Longrightarrow> exact_numbers (\<lambda>f. f) (reread F v)"
  by (induction v) (auto simp: list_all_iff)

lemma dump_nonnegative: "\<not> sint i < 0 \<Longrightarrow> dump_signed i = dump_unsigned i"
  by (simp add: dump_signed_def dump_unsigned_def)

lemma dump_elements_reread:
  "(\<And>v. v \<in> set vs \<Longrightarrow> dump_value F h a v = dump_value G h a (f v))
   \<Longrightarrow> dump_elements F h a vs = dump_elements G h a (map f vs)"
  by (induction vs) (simp_all cong: if_cong)

lemma dump_members_reread:
  "(\<And>k v. (k, v) \<in> set m \<Longrightarrow> dump_value F h a v = dump_value G h a (f v))
   \<Longrightarrow> dump_members F h a m = dump_members G h a (map (\<lambda>(k, v). (k, f v)) m)"
proof (induction m)
  case (Cons kv m)
  obtain k v where kv: "kv = (k, v)" by force
  have "dump_members F h a m = dump_members G h a (map (\<lambda>(k, v). (k, f v)) m)"
    using Cons.IH Cons.prems by (meson list.set_intros(2))
  with Cons.prems [of k v] show ?case by (simp add: kv cong: if_cong)
qed simp

lemma dump_reread: "dump_value F h a v = dump_value (\<lambda>f. f) h a (reread F v)"
proof (induction v)
  case (JArray vs)
  then show ?case using dump_elements_reread [of vs F h a "\<lambda>f. f" "reread F"] by (simp cong: if_cong)
next
  case (JObject m)
  have "dump_value F h a v = dump_value (\<lambda>f. f) h a (reread F v)" if "(k, v) \<in> set m" for k v
    using JObject.IH [OF that, of v] by simp
  then show ?case using dump_members_reread [of m F h a "\<lambda>f. f" "reread F"] by (simp cong: if_cong)
qed (simp_all add: dump_nonnegative)

text \<open>
  C14. Round trip: a well-formed value is printed without an exception and read back as the value
  whose numbers are what was printed (\<open>reread\<close>: a signed integer that is not negative becomes
  unsigned, a floating-point number takes its printed form, null if it is not finite), whether or not
  characters outside ASCII are escaped and for every error handler. It comes back as itself when its
  signed integers are negative and its floating-point numbers have the form in which they are printed.
\<close>

theorem dump_parse_roundtrip:
  assumes "json_wf v" "printable F v"
  shows "(\<exists>out. json_dump F ensure_ascii handler v = Inr out \<and> json_parse out = Inr (reread F v))
    \<and> (exact_numbers F v \<longrightarrow> reread F v = v)"
  using dump_then_parse [OF reread_wf [OF assms(1), of F] reread_exact_numbers [OF assms(2)],
      of ensure_ascii handler] reread_exact [of F v]
  by (simp add: json_dump_def flip: dump_reread)

definition demo_value :: json where
  "demo_value = JObject [(''candidate'', JString (add_codepoint 0x1F600 @ [CHR 0x22, CHR 0x0A])),
     (''ids'', JArray [JUnsigned 18446744073709551615, JInteger (- 42), JInteger 5, JFloat ''-2.5e-07'', JBool True, JNull])]"

theorem dump_parse_roundtrip_witness:
  "\<exists>out. json_dump (\<lambda>f. f) True HandlerStrict demo_value = Inr out
     \<and> json_parse out = Inr (reread (\<lambda>f. f) demo_value)"
proof -
  have scalars: "list_all unicode_scalar [0x1F600, 0x22, 0x0A]" "list_all unicode_scalar [99, 97, 110, 100, 105, 100, 97, 116, 101]"
    "list_all unicode_scalar [105, 100, 115]" by (simp_all add: unicode_scalar_def)
  have texts: "add_codepoint 0x1F600 @ [CHR 0x22, CHR 0x0A] = utf8_encode [0x1F600, 0x22, 0x0A]"
    "''candidate'' = utf8_encode [99, 97, 110, 100, 105, 100, 97, 116, 101]"
    "''ids'' = utf8_encode [105, 100, 115]" by code_simp+
  have utf8: "utf8_text (add_codepoint 0x1F600 @ [CHR 0x22, CHR 0x0A])" "utf8_text ''candidate''" "utf8_text ''ids''"
    unfolding utf8_text_def using scalars texts by blast+
  have "keys_sorted [(''candidate'', a), (''ids'', b)]" for a b
    by (simp add: keys_sorted_def)
  with utf8 have "json_wf demo_value" unfolding demo_value_def by (simp del: of_char_of)
  moreover have "float_text ''-2.5e-07''" by code_simp
  then have "printable (\<lambda>f. f) demo_value" unfolding demo_value_def by simp
  ultimately show ?thesis using dump_parse_roundtrip by blast
qed

end
