(* ===== verification/NBuffer.thy ===== *)
theory NBuffer
  imports NSerializer
begin

text \<open>
  The fixed buffers of the JSON library's serializer: \<^verbatim>\<open>dump_escaped\<close> writes into the 512 bytes of
  \<^verbatim>\<open>string_buffer\<close>, and \<^verbatim>\<open>dump_integer\<close> into the 64 bytes of \<^verbatim>\<open>number_buffer\<close>. The bounds hold for every
  input, valid UTF-8 or not.
\<close>

subsection \<open>The decoder's states\<close>

text \<open>How many bytes a state still waits for.\<close>

definition bytes_missing :: "int \<Rightarrow> nat" where
  "bytes_missing s = (if s = 2 then 1 else if 3 \<le> s \<and> s \<le> 5 then 2 else if 6 \<le> s \<and> s \<le> 8 then 3 else 0)"

definition decoder_state :: "int \<Rightarrow> bool" where
  "decoder_state s \<longleftrightarrow> s = 0 \<or> 2 \<le> s \<and> s \<le> 8"

lemma byte_classes: "0 \<le> b \<Longrightarrow> b \<le> 255 \<Longrightarrow> 0 \<le> utf8d ! nat b \<and> utf8d ! nat b \<le> 11"
proof -
  have table: "list_all (\<lambda>b. 0 \<le> utf8d ! nat b \<and> utf8d ! nat b \<le> 11) [0..255]" by code_simp
  show "0 \<le> b \<Longrightarrow> b \<le> 255 \<Longrightarrow> 0 \<le> utf8d ! nat b \<and> utf8d ! nat b \<le> 11"
    using upto_all [OF table] .
qed

lemma next_states:
  assumes "decoder_state s" "0 \<le> t" "t \<le> 11"
  shows "(s = 0 \<longrightarrow> bytes_missing (utf8d ! nat (256 + s * 16 + t)) \<le> 3)
    \<and> (s \<noteq> 0 \<longrightarrow> bytes_missing (utf8d ! nat (256 + s * 16 + t)) < bytes_missing s)
    \<and> (utf8d ! nat (256 + s * 16 + t) = 1 \<or> decoder_state (utf8d ! nat (256 + s * 16 + t)))"
proof -
  let ?P = "\<lambda>s t. (s = 0 \<longrightarrow> bytes_missing (utf8d ! nat (256 + s * 16 + t)) \<le> 3)
    \<and> (s \<noteq> 0 \<longrightarrow> bytes_missing (utf8d ! nat (256 + s * 16 + t)) < bytes_missing s)
    \<and> (utf8d ! nat (256 + s * 16 + t) = 1 \<or> decoder_state (utf8d ! nat (256 + s * 16 + t)))"
  have table: "list_all (\<lambda>t. ?P 0 t) [0..11]" "list_all (\<lambda>s. list_all (\<lambda>t. ?P s t) [0..11]) [2..8]"
    by code_simp+
  consider "s = 0" | "2 \<le> s" "s \<le> 8" using assms(1) by (auto simp: decoder_state_def)
  then show ?thesis
  proof cases
    case 1
    show ?thesis unfolding 1 by (rule upto_all [OF table(1) assms(2,3)])
  next
    case 2
    show ?thesis by (rule upto_all [OF upto_all [OF table(2) 2] assms(2,3)])
  qed
qed

lemma decode_state:
  assumes "decode s p (byte c) = (s', p')" "decoder_state s"
  shows "bytes_missing s' \<le> 3" "s \<noteq> 0 \<Longrightarrow> bytes_missing s' < bytes_missing s"
    "s' \<noteq> 1 \<Longrightarrow> decoder_state s'"
proof -
  have "0 \<le> byte c" "byte c \<le> 255" using byte_range(1) [of c] byte_range(2) [of c] by linarith+
  note next_states [OF assms(2) byte_classes [OF this, THEN conjunct1] byte_classes [OF this, THEN conjunct2]]
  moreover have "s' = utf8d ! nat (256 + s * 16 + utf8d ! nat (byte c))"
    using assms(1) by (simp add: decode_def Let_def)
  ultimately show "bytes_missing s' \<le> 3" "s \<noteq> 0 \<Longrightarrow> bytes_missing s' < bytes_missing s"
    "s' \<noteq> 1 \<Longrightarrow> decoder_state s'"
    by (auto simp: bytes_missing_def)
qed

lemma no_byte_missing: "decoder_state s \<Longrightarrow> bytes_missing s = 0 \<longleftrightarrow> s = 0"
  by (auto simp: decoder_state_def bytes_missing_def)

subsection \<open>The string buffer\<close>

text \<open>
  One past the last byte of \<^verbatim>\<open>string_buffer\<close> that a round of the loop may write, with the NUL of
  \<^verbatim>\<open>snprintf\<close> counted.
\<close>

definition write_end :: "bool \<Rightarrow> char \<Rightarrow> escaper \<Rightarrow> nat" where
  "write_end ensure_ascii c e =
     (let (state, codepoint) = decode (es_state e) (es_codepoint e) (byte c)
      in if state = 0 then length (es_buffer e) + length (escape_codepoint ensure_ascii codepoint c) + 1
         else if state = 1 then es_accepted e + length (replacement ensure_ascii)
         else length (es_buffer e) + 1)"

text \<open>The rounds as a transition system: the event is the byte that is read.\<close>

definition dump_trans :: "error_handler \<Rightarrow> bool \<Rightarrow> nat \<times> char \<Rightarrow> escaper \<Rightarrow> escaper option" where
  "dump_trans handler ensure_ascii ic e =
     (case dump_byte handler ensure_ascii (fst ic) (snd ic) e of Inl x \<Rightarrow> None | Inr (again, e') \<Rightarrow> Some e')"

definition escaper_inv :: "bool \<Rightarrow> escaper \<Rightarrow> bool" where
  "escaper_inv ensure_ascii e \<longleftrightarrow>
     decoder_state (es_state e) \<and> es_accepted e \<le> 499 \<and> es_accepted e \<le> length (es_buffer e)
     \<and> length (es_buffer e) \<le> es_accepted e + (if ensure_ascii then 0 else es_undumped e)
     \<and> (if es_state e = 0 then es_undumped e = 0 else es_undumped e + bytes_missing (es_state e) \<le> 4)"

lemma escape_length: "length (escape_codepoint a cp c) \<le> (if a then 12 else 6)"
  by (auto simp: escape_codepoint_def u_escape_def split: option.split)

lemma replacement_length: "length (replacement a) \<le> 6"
  by (simp add: replacement_def)

lemma escaper_inv_undumped:
  assumes "escaper_inv a e"
  shows "es_undumped e \<le> 3" "es_state e \<noteq> 0 \<Longrightarrow> es_undumped e + bytes_missing (es_state e) \<le> 4"
proof -
  have "decoder_state (es_state e)" using assms by (simp add: escaper_inv_def)
  from no_byte_missing [OF this] assms show "es_undumped e \<le> 3"
    by (cases "es_state e = 0") (auto simp: escaper_inv_def)
  show "es_state e \<noteq> 0 \<Longrightarrow> es_undumped e + bytes_missing (es_state e) \<le> 4"
    using assms by (simp add: escaper_inv_def)
qed

lemma flush_buffer_length: "length (es_buffer (flush_buffer e)) \<le> 499"
proof (cases "512 - length (es_buffer e) < 13")
  case False
  then have "length (es_buffer e) \<le> 499" by linarith
  with False show ?thesis by (simp add: flush_buffer_def)
qed (simp add: flush_buffer_def)

lemma flush_buffer_frame [simp]:
  "es_state (flush_buffer e) = es_state e" "es_undumped (flush_buffer e) = es_undumped e"
  by (simp_all add: flush_buffer_def)

lemma inv_new_escaper: "escaper_inv a new_escaper"
  by (simp add: escaper_inv_def new_escaper_def decoder_state_def)

lemma inv_accept:
  "es_state e = 0 \<Longrightarrow> escaper_inv a (accept_point a c e)"
  by (simp add: escaper_inv_def accept_point_def Let_def decoder_state_def flush_buffer_length)

lemma inv_reject:
  assumes "es_accepted e \<le> 499" "es_accepted e \<le> length (es_buffer e)"
  shows "escaper_inv a (reject_point r a e)"
  using assms
  by (simp add: escaper_inv_def reject_point_def Let_def decoder_state_def flush_buffer_length)

lemma inv_incomplete:
  assumes "escaper_inv a e" "decode (es_state e) p (byte c) = (s', p')" "s' \<noteq> 0" "s' \<noteq> 1"
  shows "escaper_inv a (incomplete_point a c (e\<lparr>es_state := s', es_codepoint := q\<rparr>))"
proof -
  have s: "decoder_state (es_state e)" using assms(1) by (simp add: escaper_inv_def)
  note step = decode_state [OF assms(2) s]
  have "es_undumped e + 1 + bytes_missing s' \<le> 4"
  proof (cases "es_state e = 0")
    case True
    with assms(1) step(1) show ?thesis by (simp add: escaper_inv_def)
  next
    case False
    with escaper_inv_undumped(2) [OF assms(1)] step(2) show ?thesis by simp
  qed
  with assms(1,3,4) step(3) show ?thesis by (cases a) (simp_all add: escaper_inv_def incomplete_point_def)
qed

lemma inv_dump_byte:
  assumes "escaper_inv a e" "dump_byte h a i c e = Inr (again, e')"
  shows "escaper_inv a e'"
proof -
  obtain s' p' where d: "decode (es_state e) (es_codepoint e) (byte c) = (s', p')" by force
  have acc: "es_accepted e \<le> 499" "es_accepted e \<le> length (es_buffer e)"
    using assms(1) by (simp_all add: escaper_inv_def)
  consider "s' = 0" | "s' = 1" | "s' \<noteq> 0" "s' \<noteq> 1" by blast
  then show ?thesis
  proof cases
    case 1
    with assms(2) d show ?thesis by (auto simp: dump_byte_def intro!: inv_accept)
  next
    case 2
    with assms(2) d acc show ?thesis
      by (auto simp: dump_byte_def Let_def intro!: inv_reject split: error_handler.splits)
  next
    case 3
    with assms(2) d inv_incomplete [OF assms(1) d 3] show ?thesis by (auto simp: dump_byte_def Let_def)
  qed
qed

interpretation escaping: invariant_system "dump_trans h a" new_escaper "escaper_inv a" for h a
proof
  show "escaper_inv a new_escaper" by (rule inv_new_escaper)
next
  fix ic e t
  assume "dump_trans h a ic e = Some t" "escaper_inv a e"
  then show "escaper_inv a t"
    by (auto simp: dump_trans_def split: sum.splits prod.splits intro: inv_dump_byte)
qed

lemma write_end_bound:
  assumes "escaper_inv a e"
  shows "write_end a c e \<le> 512"
proof -
  obtain s p where d: "decode (es_state e) (es_codepoint e) (byte c) = (s, p)" by force
  have "es_accepted e \<le> 499" "length (es_buffer e) \<le> (if a then 499 else 502)"
    using assms escaper_inv_undumped(1) [OF assms] by (auto simp: escaper_inv_def split: if_splits)
  moreover note escape_length [of a p c] replacement_length [of a]
  ultimately show ?thesis by (auto simp: write_end_def d split: if_splits)
qed

text \<open>
  C32. Whatever bytes a string holds and however errors are handled, no round of \<^verbatim>\<open>dump_escaped\<close> writes
  past the 512 bytes of its buffer, and the part that is written out at the end was written before.
\<close>

theorem string_buffer_bounded:
  assumes "reachable (dump_trans handler ensure_ascii) new_escaper e"
  shows "write_end ensure_ascii c e \<le> 512 \<and> es_accepted e \<le> length (es_buffer e)
    \<and> length (es_buffer e) \<le> 512"
proof -
  have inv: "escaper_inv ensure_ascii e" by (rule escaping.reachable_inv [OF assms])
  then have "length (es_buffer e) \<le> 502" "es_accepted e \<le> length (es_buffer e)"
    using escaper_inv_undumped(1) [OF inv] by (auto simp: escaper_inv_def split: if_splits)
  with write_end_bound [OF inv] show ?thesis by simp
qed

text \<open>A code point of four bytes is written as a surrogate pair of twelve, and the NUL.\<close>

definition demo_escaper :: "escaper option" where
  "demo_escaper = run (dump_trans HandlerStrict True)
     (map (\<lambda>c. (0, c)) [CHR 0xF0, CHR 0x9F, CHR 0x98]) new_escaper"

theorem string_buffer_bounded_witness:
  "\<exists>e. demo_escaper = Some e \<and> write_end True (CHR 0x80) e = 13 \<and> length (es_buffer e) \<le> 512"
proof -
  have "case demo_escaper of None \<Rightarrow> False | Some e \<Rightarrow> write_end True (CHR 0x80) e = 13"
    by code_simp
  then obtain e where e: "demo_escaper = Some e" "write_end True (CHR 0x80) e = 13"
    by (auto split: option.splits)
  from e(1) have "reachable (dump_trans HandlerStrict True) new_escaper e"
    unfolding demo_escaper_def by (rule run_reachable)
  from string_buffer_bounded [OF this] e show ?thesis by blast
qed

subsection \<open>The number buffer\<close>

text \<open>
  A 64-bit number and its sign take at most 21 of the 64 bytes, and the digits filled in from the
  back are exactly as many as were counted.
\<close>

lemma number_buffer_bounded:
  "length (dump_unsigned x) \<le> 20" "length (dump_signed x) \<le> 21"
proof -
  have digits: "length (fill_digits (uint (y :: u64)) []) \<le> 20" for y
  proof -
    have "uint y < 2 ^ 64" by (rule less_le_trans [OF uint_lt2p]) simp
    then have "uint y < 10 ^ 20" by simp
    then show ?thesis by (simp add: fill_digits_length count_digits_bound)
  qed
  show "length (dump_unsigned x) \<le> 20" using digits [of x] by (simp add: dump_unsigned_def)
  show "length (dump_signed x) \<le> 21"
    using digits [of x] digits [of "remove_sign (sint x)"] by (simp add: dump_signed_def)
qed

end
