(* ===== verification/NPretty.thy ===== *)
theory NPretty
  imports NSerializer
begin

text \<open>
  The indented output of the bundled JSON library (\<^verbatim>\<open>json::dump(indent)\<close>): the same values over
  several lines, and the indent string the serializer keeps, which is doubled when it is too short.
\<close>

subsection \<open>The indent string\<close>

text \<open>
  The output can end with an exception or with a read behind the indent string and its
  terminating zero.
\<close>

datatype dump_fault = DumpThrew json_error | IndentOverread

fun bind_pretty :: "dump_fault + 'a \<Rightarrow> ('a \<Rightarrow> dump_fault + 'b) \<Rightarrow> dump_fault + 'b" where
  "bind_pretty (Inl e) k = Inl e"
| "bind_pretty (Inr x) k = k x"

fun lift_dump :: "json_error + 'a \<Rightarrow> dump_fault + 'a" where
  "lift_dump (Inl e) = Inl (DumpThrew e)"
| "lift_dump (Inr x) = Inr x"

definition write_indent :: "string \<Rightarrow> nat \<Rightarrow> dump_fault + string" where
  "write_indent ind n = (if n \<le> length ind + 1 then Inr (take n (ind @ [CHR 0x00])) else Inl IndentOverread)"

text \<open>\<^verbatim>\<open>current_indent + indent_step\<close>, of type \<^verbatim>\<open>unsigned int\<close>.\<close>

definition new_indent :: "nat \<Rightarrow> nat \<Rightarrow> nat" where
  "new_indent current_indent indent_step = (current_indent + indent_step) mod 2 ^ 32"

definition grow_indent :: "nat \<Rightarrow> string \<Rightarrow> string" where
  "grow_indent n ind = (if length ind < n then ind @ replicate (length ind) (CHR '' '') else ind)"

subsection \<open>Values\<close>

text \<open>The output and the indent string behind it.\<close>

fun pretty_value :: "(string \<Rightarrow> string) \<Rightarrow> error_handler \<Rightarrow> bool \<Rightarrow> nat \<Rightarrow> nat \<Rightarrow> string \<Rightarrow> json
      \<Rightarrow> dump_fault + (string \<times> string)"
  and pretty_elements :: "(string \<Rightarrow> string) \<Rightarrow> error_handler \<Rightarrow> bool \<Rightarrow> nat \<Rightarrow> nat \<Rightarrow> string \<Rightarrow> json list
      \<Rightarrow> dump_fault + (string \<times> string)"
  and pretty_members :: "(string \<Rightarrow> string) \<Rightarrow> error_handler \<Rightarrow> bool \<Rightarrow> nat \<Rightarrow> nat \<Rightarrow> string \<Rightarrow> (string \<times> json) list
      \<Rightarrow> dump_fault + (string \<times> string)" where
  "pretty_value F h a step cur ind (JArray vs) =
     (if vs = [] then Inr (''[]'', ind)
      else let n = new_indent cur step in
           bind_pretty (pretty_elements F h a step n (grow_indent n ind) vs) (\<lambda>(out, ind).
           bind_pretty (write_indent ind cur) (\<lambda>pad.
             Inr (CHR ''['' # CHR 0x0A # out @ CHR 0x0A # pad @ '']'', ind))))"
| "pretty_value F h a step cur ind (JObject m) =
     (if m = [] then Inr (''{}'', ind)
      else let n = new_indent cur step in
           bind_pretty (pretty_members F h a step n (grow_indent n ind) m) (\<lambda>(out, ind).
           bind_pretty (write_indent ind cur) (\<lambda>pad.
             Inr (CHR ''{'' # CHR 0x0A # out @ CHR 0x0A # pad @ ''}'', ind))))"
| "pretty_value F h a step cur ind v = bind_pretty (lift_dump (dump_value F h a v)) (\<lambda>out. Inr (out, ind))"
| "pretty_elements F h a step n ind [] = Inr ([], ind)"
| "pretty_elements F h a step n ind (v # vs) =
     bind_pretty (write_indent ind n) (\<lambda>pad.
     bind_pretty (pretty_value F h a step n ind v) (\<lambda>(out, ind).
       if vs = [] then Inr (pad @ out, ind)
       else bind_pretty (pretty_elements F h a step n ind vs) (\<lambda>(rest, ind).
              Inr (pad @ out @ CHR '','' # CHR 0x0A # rest, ind))))"
| "pretty_members F h a step n ind [] = Inr ([], ind)"
| "pretty_members F h a step n ind ((k, v) # m) =
     bind_pretty (write_indent ind n) (\<lambda>pad.
     bind_pretty (lift_dump (dump_string h a k)) (\<lambda>key.
     bind_pretty (pretty_value F h a step n ind v) (\<lambda>(out, ind).
       if m = [] then Inr (pad @ key @ '': '' @ out, ind)
       else bind_pretty (pretty_members F h a step n ind m) (\<lambda>(rest, ind).
              Inr (pad @ key @ '': '' @ out @ CHR '','' # CHR 0x0A # rest, ind)))))"

text \<open>\<^verbatim>\<open>dump\<close> with all its arguments; a negative indent selects the compact output.\<close>

definition dump_indented ::
  "(string \<Rightarrow> string) \<Rightarrow> int \<Rightarrow> char \<Rightarrow> bool \<Rightarrow> error_handler \<Rightarrow> json \<Rightarrow> dump_fault + string" where
  "dump_indented F indent indent_char ensure_ascii handler v =
     (if indent \<ge> 0
      then bind_pretty (pretty_value F handler ensure_ascii (nat indent) 0 (replicate 512 indent_char) v)
             (\<lambda>(out, ind). Inr out)
      else lift_dump (json_dump F ensure_ascii handler v))"

subsection \<open>Whitespace between tokens\<close>

abbreviation blank :: "string \<Rightarrow> bool" where
  "blank w \<equiv> list_all is_whitespace w"

lemma scan_blank: "blank w \<Longrightarrow> scan False False (w @ s) = scan False False s"
proof -
  assume "blank w"
  then have skip: "skip_whitespace (w @ s) = skip_whitespace s"
    by (simp add: skip_whitespace_def list_all_iff dropWhile_append2)
  show ?thesis unfolding scan_def scan_token_def skip by (cases "skip_whitespace s") simp_all
qed

lemma lexes_blank: "blank w \<Longrightarrow> ts \<noteq> [] \<Longrightarrow> lexes False (w @ s) ts u \<longleftrightarrow> lexes False s ts u"
  by (cases ts) (simp_all add: lexes_Cons_iff scan_blank)

lemma scan_newline: "scan False False (CHR 0x0A # s) = scan False False s"
  using scan_blank [of "[CHR 0x0A]" s] by (simp add: is_whitespace_def)

lemma write_indent_ok: "n \<le> length ind \<Longrightarrow> write_indent ind n = Inr (take n ind)"
  by (simp add: write_indent_def)

lemma blank_take: "blank ind \<Longrightarrow> blank (take n ind)"
  by (auto simp: list_all_iff dest: in_set_takeD)

text \<open>What holds of the indent string between the writes: it is long enough for one more step.\<close>

definition indent_ok :: "nat \<Rightarrow> nat \<Rightarrow> string \<Rightarrow> bool" where
  "indent_ok step cur ind \<longleftrightarrow> blank ind \<and> step \<le> length ind \<and> cur \<le> length ind"

lemma space_blank: "is_whitespace (CHR '' '')" "is_whitespace (CHR 0x0A)"
  by (simp_all add: is_whitespace_def)

lemma grow_indent_blank: "blank ind \<Longrightarrow> blank (grow_indent n ind)"
  by (simp add: grow_indent_def list_all_iff set_replicate_conv_if space_blank)

lemma grow_indent_length: "length (grow_indent n ind) = (if length ind < n then 2 * length ind else length ind)"
  by (simp add: grow_indent_def)

lemma grow_ok:
  assumes "indent_ok step cur ind"
  shows "indent_ok step (new_indent cur step) (grow_indent (new_indent cur step) ind)"
    "length ind \<le> length (grow_indent (new_indent cur step) ind)"
proof -
  have "new_indent cur step \<le> cur + step" unfolding new_indent_def by (rule mod_less_eq_dividend)
  with assms show "indent_ok step (new_indent cur step) (grow_indent (new_indent cur step) ind)"
    unfolding indent_ok_def grow_indent_length by (simp add: grow_indent_blank)
  show "length ind \<le> length (grow_indent (new_indent cur step) ind)" by (simp add: grow_indent_length)
qed

lemma indent_ok_mono: "indent_ok step cur ind \<Longrightarrow> blank ind' \<Longrightarrow> length ind \<le> length ind' \<Longrightarrow> indent_ok step cur ind'"
  by (auto simp: indent_ok_def)

subsection \<open>What is printed is read back\<close>

definition prettys_as :: "(string \<Rightarrow> string) \<Rightarrow> error_handler \<Rightarrow> bool \<Rightarrow> nat \<Rightarrow> json \<Rightarrow> bool" where
  "prettys_as F h a step v \<longleftrightarrow>
     (\<forall>cur ind. indent_ok step cur ind \<longrightarrow>
       (\<exists>out ind'. pretty_value F h a step cur ind v = Inr (out, ind') \<and> out \<noteq> [] \<and> byte (hd out) \<le> 0x7F \<and>
         blank ind' \<and> length ind \<le> length ind' \<and>
         (\<forall>rest. stops rest \<longrightarrow> lexes False (out @ rest) (syntax_tokens (syntax_of v)) rest)))"

lemma prettysE:
  assumes "prettys_as F h a step v" "indent_ok step cur ind"
  obtains out ind' where "pretty_value F h a step cur ind v = Inr (out, ind')" "out \<noteq> []" "byte (hd out) \<le> 0x7F"
    "indent_ok step cur ind'" "length ind \<le> length ind'"
    "\<And>rest. stops rest \<Longrightarrow> lexes False (out @ rest) (syntax_tokens (syntax_of v)) rest"
  using assms indent_ok_mono [OF assms(2)] unfolding prettys_as_def by blast

lemma elements_pretty:
  assumes "vs \<noteq> []" "\<And>v. v \<in> set vs \<Longrightarrow> prettys_as F h a step v" "indent_ok step n ind"
  shows "\<exists>out ind'. pretty_elements F h a step n ind vs = Inr (out, ind') \<and> blank ind' \<and> length ind \<le> length ind' \<and>
    (\<forall>rest. stops rest \<longrightarrow> lexes False (out @ rest) (separated (map syntax_tokens (map syntax_of vs))) rest)"
  using assms
proof (induction vs arbitrary: ind)
  case (Cons v vs)
  obtain out ind1 where out: "pretty_value F h a step n ind v = Inr (out, ind1)"
    "indent_ok step n ind1" "length ind \<le> length ind1"
    "\<And>rest. stops rest \<Longrightarrow> lexes False (out @ rest) (syntax_tokens (syntax_of v)) rest"
    by (rule prettysE [OF Cons.prems(2) [of v] Cons.prems(3)]) simp_all
  define pad where "pad = take n ind"
  have pad: "write_indent ind n = Inr pad" "blank pad"
    using Cons.prems(3) by (simp_all add: indent_ok_def pad_def write_indent_ok blank_take)
  have head: "lexes False (pad @ out @ rest) (syntax_tokens (syntax_of v)) rest" if "stops rest" for rest
    using out(4) [OF that] pad(2) by (simp add: lexes_blank)
  show ?case
  proof (cases "vs = []")
    case True
    with out pad head show ?thesis by (simp add: indent_ok_def)
  next
    case False
    with Cons out(2) obtain outs ind2 where outs: "pretty_elements F h a step n ind1 vs = Inr (outs, ind2)"
      "blank ind2" "length ind1 \<le> length ind2"
      "\<And>rest. stops rest \<Longrightarrow> lexes False (outs @ rest) (separated (map syntax_tokens (map syntax_of vs))) rest"
      by force
    have "lexes False ((pad @ out @ CHR '','' # CHR 0x0A # outs) @ rest) (separated (map syntax_tokens (map syntax_of (v # vs)))) rest"
      if "stops rest" for rest
    proof -
      have "lexes False (pad @ out @ CHR '','' # CHR 0x0A # outs @ rest) (syntax_tokens (syntax_of v)) (CHR '','' # CHR 0x0A # outs @ rest)"
        by (rule head) simp
      moreover have "separated (map syntax_tokens (map syntax_of vs)) \<noteq> []" using False by (intro separated_nonempty) simp_all
      then have "lexes False (CHR '','' # CHR 0x0A # outs @ rest)
          (ValueSeparator # separated (map syntax_tokens (map syntax_of vs))) rest"
        using outs(4) [OF that] lexes_blank [of "[CHR 0x0A]"] by (simp add: lexes_Cons_iff scan_structural is_whitespace_def)
      ultimately show ?thesis using False by (auto simp: separated_Cons lexes_append)
    qed
    with out outs pad False show ?thesis by simp
  qed
qed simp

lemma members_pretty:
  assumes "m \<noteq> []" "\<And>k v. (k, v) \<in> set m \<Longrightarrow> prettys_as F h a step v \<and> utf8_text k" "indent_ok step n ind"
  shows "\<exists>out ind'. pretty_members F h a step n ind m = Inr (out, ind') \<and> blank ind' \<and> length ind \<le> length ind' \<and>
    (\<forall>rest. stops rest \<longrightarrow>
      lexes False (out @ rest) (separated (map member_tokens (map (\<lambda>(k, v). (k, syntax_of v)) m))) rest)"
  using assms
proof (induction m arbitrary: ind)
  case (Cons kv m)
  obtain k v where kv: "kv = (k, v)" by force
  have kv': "prettys_as F h a step v" "utf8_text k" using Cons.prems(2) [of k v] kv by simp_all
  obtain out ind1 where out: "pretty_value F h a step n ind v = Inr (out, ind1)"
    "indent_ok step n ind1" "length ind \<le> length ind1"
    "\<And>rest. stops rest \<Longrightarrow> lexes False (out @ rest) (syntax_tokens (syntax_of v)) rest"
    by (rule prettysE [OF kv'(1) Cons.prems(3)]) blast
  obtain key where key: "dump_string h a k = Inr key"
    "\<And>rest. scan False False (key @ rest) = (ValueString k, rest)"
    using string_scans [OF kv'(2)] by blast
  define pad where "pad = take n ind"
  have pad: "write_indent ind n = Inr pad" "blank pad"
    using Cons.prems(3) by (simp_all add: indent_ok_def pad_def write_indent_ok blank_take)
  have head: "lexes False (pad @ key @ '': '' @ out @ rest) (member_tokens (k, syntax_of v)) rest" if "stops rest" for rest
    using out(4) [OF that] pad(2) lexes_blank [of "'' ''"]
    by (simp add: lexes_Cons_iff key(2) scan_structural scan_blank space_blank)
  show ?case
  proof (cases "m = []")
    case True
    with out pad key head kv show ?thesis by (simp add: indent_ok_def)
  next
    case False
    have tail: "\<And>k v. (k, v) \<in> set m \<Longrightarrow> prettys_as F h a step v \<and> utf8_text k"
      using Cons.prems(2) by (meson list.set_intros(2))
    obtain outs ind2 where outs: "pretty_members F h a step n ind1 m = Inr (outs, ind2)"
      "blank ind2" "length ind1 \<le> length ind2"
      "\<And>rest. stops rest \<Longrightarrow>
        lexes False (outs @ rest) (separated (map member_tokens (map (\<lambda>(k, v). (k, syntax_of v)) m))) rest"
      using Cons.IH [OF False tail out(2)] by auto
    have "lexes False ((pad @ key @ '': '' @ out @ CHR '','' # CHR 0x0A # outs) @ rest)
        (separated (map member_tokens (map (\<lambda>(k, v). (k, syntax_of v)) (kv # m)))) rest"
      if "stops rest" for rest
    proof -
      have "lexes False (pad @ key @ '': '' @ out @ (CHR '','' # CHR 0x0A # outs @ rest)) (member_tokens (k, syntax_of v))
          (CHR '','' # CHR 0x0A # outs @ rest)"
        by (rule head) simp
      moreover have "separated (map member_tokens (map (\<lambda>(k, v). (k, syntax_of v)) m)) \<noteq> []"
        using False by (intro separated_nonempty) (auto split: prod.splits)
      then have "lexes False (CHR '','' # CHR 0x0A # outs @ rest)
          (ValueSeparator # separated (map member_tokens (map (\<lambda>(k, v). (k, syntax_of v)) m))) rest"
        using outs(4) [OF that] lexes_blank [of "[CHR 0x0A]"] by (simp add: lexes_Cons_iff scan_structural space_blank)
      ultimately have "lexes False (pad @ key @ '': '' @ out @ (CHR '','' # CHR 0x0A # outs @ rest))
          (member_tokens (k, syntax_of v)
           @ ValueSeparator # separated (map member_tokens (map (\<lambda>(k, v). (k, syntax_of v)) m))) rest"
        unfolding lexes_append by blast
      with False kv show ?thesis by (simp add: separated_Cons)
    qed
    with out(1,3) outs pad(1) key(1) False kv show ?thesis by simp
  qed
qed simp

lemma plain_pretty:
  assumes "dumps_as F h a v" "\<And>cur ind. pretty_value F h a step cur ind v = bind_pretty (lift_dump (dump_value F h a v)) (\<lambda>out. Inr (out, ind))"
  shows "prettys_as F h a step v"
  using assms(1) unfolding prettys_as_def dumps_as_def assms(2) by (fastforce simp: indent_ok_def)

lemma bracketed:
  assumes "\<And>rest. stops rest \<Longrightarrow> lexes False (out @ rest) ts rest" "ts \<noteq> []" "blank pad"
    and "\<And>s. scan False False (b # s) = (B, s)" "\<And>s. scan False False (e # s) = (E, s)"
  shows "lexes False ((b # CHR 0x0A # out @ CHR 0x0A # pad @ [e]) @ rest) (B # ts @ [E]) rest"
proof -
  have "lexes False (out @ CHR 0x0A # pad @ e # rest) ts (CHR 0x0A # pad @ e # rest)" by (rule assms(1)) simp
  then have "lexes False (CHR 0x0A # out @ CHR 0x0A # pad @ e # rest) ts (CHR 0x0A # pad @ e # rest)"
    using lexes_blank [of "[CHR 0x0A]"] assms(2) by (simp add: space_blank)
  moreover have "lexes False (CHR 0x0A # pad @ e # rest) [E] rest"
    using assms(3) scan_blank [of "CHR 0x0A # pad"] by (simp add: lexes_Cons_iff assms(5) space_blank)
  ultimately show ?thesis by (auto simp: lexes_Cons_iff lexes_append assms(4))
qed

text \<open>One container: what its elements print stands between the brackets.\<close>

lemma container_prettys:
  assumes "\<And>cur ind. pretty_value F h a step cur ind v =
      bind_pretty (inner (new_indent cur step) (grow_indent (new_indent cur step) ind)) (\<lambda>(out, ind).
        bind_pretty (write_indent ind cur) (\<lambda>pad. Inr (b # CHR 0x0A # out @ CHR 0x0A # pad @ [e], ind)))"
    and "\<And>n ind. indent_ok step n ind \<Longrightarrow> \<exists>out ind'. inner n ind = Inr (out, ind') \<and> blank ind' \<and> length ind \<le> length ind' \<and>
      (\<forall>rest. stops rest \<longrightarrow> lexes False (out @ rest) ts rest)"
    and "syntax_tokens (syntax_of v) = B # ts @ [E]" "ts \<noteq> []" "byte b \<le> 0x7F"
    and "\<And>s. scan False False (b # s) = (B, s)" "\<And>s. scan False False (e # s) = (E, s)"
  shows "prettys_as F h a step v"
  unfolding prettys_as_def
proof (intro allI impI)
  fix cur ind
  assume ind: "indent_ok step cur ind"
  let ?n = "new_indent cur step" and ?ind = "grow_indent (new_indent cur step) ind"
  obtain out ind' where out: "inner ?n ?ind = Inr (out, ind')" "blank ind'" "length ?ind \<le> length ind'"
    "\<And>rest. stops rest \<Longrightarrow> lexes False (out @ rest) ts rest"
    using assms(2) [OF grow_ok(1) [OF ind]] by blast
  define pad where "pad = take cur ind'"
  have le: "length ind \<le> length ind'" using grow_ok(2) [OF ind] out(3) by simp
  then have pad: "write_indent ind' cur = Inr pad" "blank pad"
    using ind out(2) by (simp_all add: indent_ok_def pad_def write_indent_ok blank_take)
  from bracketed [OF out(4) assms(4) pad(2) assms(6,7)] out(1,2) le pad(1)
  show "\<exists>out ind'. pretty_value F h a step cur ind v = Inr (out, ind') \<and> out \<noteq> [] \<and> byte (hd out) \<le> 0x7F \<and>
      blank ind' \<and> length ind \<le> length ind' \<and>
      (\<forall>rest. stops rest \<longrightarrow> lexes False (out @ rest) (syntax_tokens (syntax_of v)) rest)"
    using assms(5) by (simp add: assms(1,3))
qed

lemma value_prettys: "json_wf v \<Longrightarrow> exact_numbers F v \<Longrightarrow> prettys_as F h a step v"
proof (induction v)
  case (JArray vs)
  show ?case
  proof (cases "vs = []")
    case True
    then show ?thesis by (simp add: prettys_as_def lexes_Cons_iff scan_structural indent_ok_def)
  next
    case False
    have vs: "\<And>v. v \<in> set vs \<Longrightarrow> prettys_as F h a step v" using JArray by (simp add: list_all_iff)
    show ?thesis
    proof (rule container_prettys [of _ _ _ _ _ "\<lambda>n ind. pretty_elements F h a step n ind vs" "CHR ''[''" "CHR '']''"
          "separated (map syntax_tokens (map syntax_of vs))" BeginArray EndArray])
      show "separated (map syntax_tokens (map syntax_of vs)) \<noteq> []" using False by (intro separated_nonempty) simp_all
    qed (use False elements_pretty [OF False vs] in \<open>simp_all add: scan_structural Let_def\<close>)
  qed
next
  case (JObject m)
  show ?case
  proof (cases "m = []")
    case True
    then show ?thesis by (simp add: prettys_as_def lexes_Cons_iff scan_structural indent_ok_def)
  next
    case False
    have m: "prettys_as F h a step v \<and> utf8_text k" if "(k, v) \<in> set m" for k v
      using JObject.IH [OF that] JObject.prems that by (auto simp: list_all_iff)
    show ?thesis
    proof (rule container_prettys [of _ _ _ _ _ "\<lambda>n ind. pretty_members F h a step n ind m" "CHR ''{''" "CHR ''}''"
          "separated (map member_tokens (map (\<lambda>(k, v). (k, syntax_of v)) m))" BeginObject EndObject])
      show "separated (map member_tokens (map (\<lambda>(k, v). (k, syntax_of v)) m)) \<noteq> []"
        using False by (intro separated_nonempty) (auto split: prod.splits)
      show "syntax_tokens (syntax_of (JObject m)) =
          BeginObject # separated (map member_tokens (map (\<lambda>(k, v). (k, syntax_of v)) m)) @ [EndObject]"
        by (simp only: syntax_of.simps syntax_object)
    qed (use False members_pretty [OF False m] in \<open>simp_all add: scan_structural Let_def\<close>)
  qed
qed (rule plain_pretty [OF value_dumps]; simp)+

text \<open>The indented output, too, is that of the value whose numbers are what is printed.\<close>

lemma pretty_elements_reread:
  "(\<And>v cur ind. v \<in> set vs \<Longrightarrow> pretty_value F h a step cur ind v = pretty_value G h a step cur ind (f v))
   \<Longrightarrow> pretty_elements F h a step n ind vs = pretty_elements G h a step n ind (map f vs)"
  by (induction vs arbitrary: ind) (simp_all cong: if_cong)

lemma pretty_members_reread:
  "(\<And>k v cur ind. (k, v) \<in> set m \<Longrightarrow> pretty_value F h a step cur ind v = pretty_value G h a step cur ind (f v))
   \<Longrightarrow> pretty_members F h a step n ind m = pretty_members G h a step n ind (map (\<lambda>(k, v). (k, f v)) m)"
proof (induction m arbitrary: ind)
  case (Cons kv m)
  obtain k v where kv: "kv = (k, v)" by force
  have "pretty_members F h a step n ind m = pretty_members G h a step n ind (map (\<lambda>(k, v). (k, f v)) m)" for ind
    using Cons.IH Cons.prems by (meson list.set_intros(2))
  with Cons.prems [of k v] show ?case by (simp add: kv cong: if_cong)
qed simp

lemma pretty_reread: "pretty_value F h a step cur ind v = pretty_value (\<lambda>f. f) h a step cur ind (reread F v)"
proof (induction v arbitrary: cur ind)
  case (JArray vs)
  then show ?case using pretty_elements_reread [of vs F h a step "\<lambda>f. f" "reread F"] by (simp add: Let_def cong: if_cong)
next
  case (JObject m)
  have "pretty_value F h a step cur ind v = pretty_value (\<lambda>f. f) h a step cur ind (reread F v)"
    if "(k, v) \<in> set m" for k v cur ind
    using JObject.IH [OF that, of v] by simp
  then show ?case using pretty_members_reread [of m F h a step "\<lambda>f. f" "reread F"] by (simp add: Let_def cong: if_cong)
qed (simp_all add: dump_nonnegative)

lemma dump_indented_reread:
  "dump_indented F indent ch a h v = dump_indented (\<lambda>f. f) indent ch a h (reread F v)"
  by (simp add: dump_indented_def json_dump_def flip: pretty_reread dump_reread)

lemma indented_then_parse:
  assumes "json_wf v" "exact_numbers F v" "is_whitespace indent_char" "indent \<le> 512"
  shows "\<exists>out. dump_indented F indent indent_char ensure_ascii handler v = Inr out \<and> json_parse out = Inr v"
proof (cases "indent \<ge> 0")
  case True
  have "indent_ok (nat indent) 0 (replicate 512 indent_char)"
    using assms(3,4) by (simp add: indent_ok_def list_all_iff)
  then obtain out ind where out: "pretty_value F handler ensure_ascii (nat indent) 0 (replicate 512 indent_char) v = Inr (out, ind)"
    "out \<noteq> []" "byte (hd out) \<le> 0x7F" "\<And>rest. stops rest \<Longrightarrow> lexes False (out @ rest) (syntax_tokens (syntax_of v)) rest"
    by (rule prettysE [OF value_prettys [OF assms(1,2)]]) blast
  then show ?thesis using True printed_parses [OF out(2,3,4) assms(1,2)] by (simp add: dump_indented_def)
next
  case False
  then show ?thesis using dump_then_parse [OF assms(1,2), of ensure_ascii handler] by (auto simp: dump_indented_def)
qed

text \<open>
  C17. The indented output of a well-formed value is read back as the value whose numbers are what was
  printed (\<open>reread\<close>: as in the compact output, a signed integer that is not negative becomes unsigned
  and a floating-point number takes its printed form), for every indent up to 512 columns of spaces,
  tabs or newlines: no write leaves the indent string, however deep the value is, and the columns
  added to the string are whitespace too. A value whose signed integers are negative and whose
  floating-point numbers have their printed form comes back as itself.
\<close>

theorem indented_roundtrip:
  assumes "json_wf v" "printable F v" "is_whitespace indent_char" "indent \<le> 512"
  shows "(\<exists>out. dump_indented F indent indent_char ensure_ascii handler v = Inr out
      \<and> json_parse out = Inr (reread F v))
    \<and> (exact_numbers F v \<longrightarrow> reread F v = v)"
  using indented_then_parse [OF reread_wf [OF assms(1), of F] reread_exact_numbers [OF assms(2)] assms(3,4),
      of ensure_ascii handler] reread_exact [of F v]
  by (simp add: dump_indented_reread [of F])

theorem indented_roundtrip_witness:
  "\<exists>out. dump_indented (\<lambda>f. f) 4 (CHR 0x09) False HandlerStrict (JArray [JNull, JArray [JInteger 5]]) = Inr out \<and>
    json_parse out = Inr (JArray [JNull, JArray [JUnsigned 5]])"
proof -
  have "json_wf (JArray [JNull, JArray [JInteger 5]])" "printable (\<lambda>f. f) (JArray [JNull, JArray [JInteger 5]])"
    "is_whitespace (CHR 0x09)" "(4::int) \<le> 512"
    by (simp_all add: is_whitespace_def)
  from indented_roundtrip [OF this, of False HandlerStrict] show ?thesis by simp
qed

text \<open>
  C36. The indent string is doubled only once: with an indent of more than 1025 columns the output of
  every non-empty array reads behind it.
\<close>

theorem large_indent_overreads:
  assumes "1025 < indent" "indent < 2 ^ 31" "vs \<noteq> []"
  shows "dump_indented F indent indent_char ensure_ascii handler (JArray vs) = Inl IndentOverread"
proof -
  obtain v vs' where vs: "vs = v # vs'" using assms(3) by (cases vs) auto
  have n: "new_indent 0 (nat indent) = nat indent" using assms(2) by (simp add: new_indent_def)
  have "write_indent (grow_indent (nat indent) (replicate 512 indent_char)) (nat indent) = Inl IndentOverread"
  proof -
    have "1025 < nat indent" using assms(1) by simp
    then show ?thesis by (simp add: write_indent_def grow_indent_length)
  qed
  then show ?thesis using assms(1) by (simp add: dump_indented_def Let_def n vs)
qed

theorem large_indent_overreads_witness:
  "dump_indented (\<lambda>f. f) 1026 (CHR '' '') False HandlerStrict (JArray [JNull]) = Inl IndentOverread"
  by (rule large_indent_overreads) simp_all

end
