(* ===== verification/NFloat.thy ===== *)
theory NFloat
  imports Prelude
begin

text \<open>
  The printing of floating-point numbers in the bundled JSON library
  (\<^verbatim>\<open>3rd/include/nlohmann/detail/conversions/to_chars.hpp\<close>), the Grisu2 algorithm for IEEE double
  precision. A number is given by its 64 bits. Unsigned machine integers are integers with the
  wrap-around of their width written out. Every \<^verbatim>\<open>JSON_ASSERT\<close> is a \<open>check\<close> that gives \<open>None\<close> when it
  fails, and so does a loop that does not end.
\<close>

unbundle bit_operations_syntax

definition check :: "bool \<Rightarrow> 'a option \<Rightarrow> 'a option" where
  "check b x = (if b then x else None)"

definition wrap64 :: "int \<Rightarrow> int" where
  "wrap64 x = x mod 2 ^ 64"

definition wrap32 :: "int \<Rightarrow> int" where
  "wrap32 x = x mod 2 ^ 32"

subsection \<open>Do-it-yourself floating point\<close>

text \<open>A \<^verbatim>\<open>diyfp\<close> is \<open>df_f\<close> times two to the \<open>df_e\<close>; \<open>df_f\<close> has 64 bits.\<close>

record diyfp =
  df_f :: int
  df_e :: int

definition diyfp_sub :: "diyfp \<Rightarrow> diyfp \<Rightarrow> diyfp option" where
  "diyfp_sub x y =
     check (df_e x = df_e y) (check (df_f x \<ge> df_f y)
       (Some \<lparr>df_f = wrap64 (df_f x - df_f y), df_e = df_e x\<rparr>))"

definition diyfp_mul :: "diyfp \<Rightarrow> diyfp \<Rightarrow> diyfp" where
  "diyfp_mul x y =
     (let u_lo = df_f x AND 0xFFFFFFFF; u_hi = drop_bit 32 (df_f x);
          v_lo = df_f y AND 0xFFFFFFFF; v_hi = drop_bit 32 (df_f y);
          p0 = wrap64 (u_lo * v_lo); p1 = wrap64 (u_lo * v_hi);
          p2 = wrap64 (u_hi * v_lo); p3 = wrap64 (u_hi * v_hi);
          p0_hi = drop_bit 32 p0;
          p1_lo = p1 AND 0xFFFFFFFF; p1_hi = drop_bit 32 p1;
          p2_lo = p2 AND 0xFFFFFFFF; p2_hi = drop_bit 32 p2;
          Q = wrap64 (p0_hi + p1_lo + p2_lo);
          Q' = wrap64 (Q + push_bit (64 - 32 - 1) 1);
          h = wrap64 (p3 + p2_hi + p1_hi + drop_bit 32 Q')
      in \<lparr>df_f = h, df_e = df_e x + df_e y + 64\<rparr>)"

partial_function (option) normalize_loop :: "diyfp \<Rightarrow> diyfp option" where
  "normalize_loop x =
     (if drop_bit 63 (df_f x) = 0
      then normalize_loop \<lparr>df_f = wrap64 (push_bit 1 (df_f x)), df_e = df_e x - 1\<rparr>
      else Some x)"

declare normalize_loop.simps [code]

definition diyfp_normalize :: "diyfp \<Rightarrow> diyfp option" where
  "diyfp_normalize x = check (df_f x \<noteq> 0) (normalize_loop x)"

definition normalize_to :: "diyfp \<Rightarrow> int \<Rightarrow> diyfp option" where
  "normalize_to x target_exponent =
     (let delta = df_e x - target_exponent in
      check (delta \<ge> 0)
        (check (drop_bit (nat delta) (wrap64 (push_bit (nat delta) (df_f x))) = df_f x)
          (Some \<lparr>df_f = wrap64 (push_bit (nat delta) (df_f x)), df_e = target_exponent\<rparr>)))"

subsection \<open>Boundaries\<close>

record boundaries =
  bd_w :: diyfp
  bd_minus :: diyfp
  bd_plus :: diyfp

definition kBias :: int where "kBias = 1024 - 1 + (53 - 1)"
definition kMinExp :: int where "kMinExp = 1 - kBias"
definition kHiddenBit :: int where "kHiddenBit = push_bit (53 - 1) 1"

text \<open>The bits of a finite double; the sign bit is bit 63.\<close>

definition exponent_bits :: "int \<Rightarrow> int" where
  "exponent_bits bits = drop_bit (53 - 1) bits"

definition fraction_bits :: "int \<Rightarrow> int" where
  "fraction_bits bits = bits AND (kHiddenBit - 1)"

definition is_finite :: "int \<Rightarrow> bool" where
  "is_finite bits \<longleftrightarrow> exponent_bits bits AND 0x7FF \<noteq> 0x7FF"

definition is_positive :: "int \<Rightarrow> bool" where
  "is_positive bits \<longleftrightarrow> 0 < bits \<and> drop_bit 63 bits = 0"

definition diyfp_of_bits :: "int \<Rightarrow> diyfp" where
  "diyfp_of_bits bits =
     (if exponent_bits bits = 0 then \<lparr>df_f = fraction_bits bits, df_e = kMinExp\<rparr>
      else \<lparr>df_f = fraction_bits bits + kHiddenBit, df_e = exponent_bits bits - kBias\<rparr>)"

definition compute_boundaries :: "int \<Rightarrow> boundaries option" where
  "compute_boundaries bits =
     check (is_finite bits) (check (is_positive bits)
       (let E = exponent_bits bits; F = fraction_bits bits;
            v = diyfp_of_bits bits;
            lower_boundary_is_closer = (F = 0 \<and> E > 1);
            m_plus = \<lparr>df_f = wrap64 (2 * df_f v + 1), df_e = df_e v - 1\<rparr>;
            m_minus = (if lower_boundary_is_closer
                       then \<lparr>df_f = wrap64 (4 * df_f v - 1), df_e = df_e v - 2\<rparr>
                       else \<lparr>df_f = wrap64 (2 * df_f v - 1), df_e = df_e v - 1\<rparr>)
        in case diyfp_normalize m_plus of None \<Rightarrow> None | Some w_plus \<Rightarrow>
           case normalize_to m_minus (df_e w_plus) of None \<Rightarrow> None | Some w_minus \<Rightarrow>
           case diyfp_normalize v of None \<Rightarrow> None | Some w \<Rightarrow>
             Some \<lparr>bd_w = w, bd_minus = w_minus, bd_plus = w_plus\<rparr>))"

subsection \<open>Cached powers of ten\<close>

definition kAlpha :: int where "kAlpha = - 60"
definition kGamma :: int where "kGamma = - 32"

text \<open>The significand, the binary exponent and the decimal exponent.\<close>

definition kCachedPowers :: "(int \<times> int \<times> int) list" where
  "kCachedPowers =
    [(0xAB70FE17C79AC6CA, - 1060, - 300), (0xFF77B1FCBEBCDC4F, - 1034, - 292), (0xBE5691EF416BD60C, - 1007, - 284),
     (0x8DD01FAD907FFC3C, - 980, - 276), (0xD3515C2831559A83, - 954, - 268), (0x9D71AC8FADA6C9B5, - 927, - 260),
     (0xEA9C227723EE8BCB, - 901, - 252), (0xAECC49914078536D, - 874, - 244), (0x823C12795DB6CE57, - 847, - 236),
     (0xC21094364DFB5637, - 821, - 228), (0x9096EA6F3848984F, - 794, - 220), (0xD77485CB25823AC7, - 768, - 212),
     (0xA086CFCD97BF97F4, - 741, - 204), (0xEF340A98172AACE5, - 715, - 196), (0xB23867FB2A35B28E, - 688, - 188),
     (0x84C8D4DFD2C63F3B, - 661, - 180), (0xC5DD44271AD3CDBA, - 635, - 172), (0x936B9FCEBB25C996, - 608, - 164),
     (0xDBAC6C247D62A584, - 582, - 156), (0xA3AB66580D5FDAF6, - 555, - 148), (0xF3E2F893DEC3F126, - 529, - 140),
     (0xB5B5ADA8AAFF80B8, - 502, - 132), (0x87625F056C7C4A8B, - 475, - 124), (0xC9BCFF6034C13053, - 449, - 116),
     (0x964E858C91BA2655, - 422, - 108), (0xDFF9772470297EBD, - 396, - 100), (0xA6DFBD9FB8E5B88F, - 369, - 92),
     (0xF8A95FCF88747D94, - 343, - 84), (0xB94470938FA89BCF, - 316, - 76), (0x8A08F0F8BF0F156B, - 289, - 68),
     (0xCDB02555653131B6, - 263, - 60), (0x993FE2C6D07B7FAC, - 236, - 52), (0xE45C10C42A2B3B06, - 210, - 44),
     (0xAA242499697392D3, - 183, - 36), (0xFD87B5F28300CA0E, - 157, - 28), (0xBCE5086492111AEB, - 130, - 20),
     (0x8CBCCC096F5088CC, - 103, - 12), (0xD1B71758E219652C, - 77, - 4), (0x9C40000000000000, - 50, 4),
     (0xE8D4A51000000000, - 24, 12), (0xAD78EBC5AC620000, 3, 20), (0x813F3978F8940984, 30, 28),
     (0xC097CE7BC90715B3, 56, 36), (0x8F7E32CE7BEA5C70, 83, 44), (0xD5D238A4ABE98068, 109, 52),
     (0x9F4F2726179A2245, 136, 60), (0xED63A231D4C4FB27, 162, 68), (0xB0DE65388CC8ADA8, 189, 76),
     (0x83C7088E1AAB65DB, 216, 84), (0xC45D1DF942711D9A, 242, 92), (0x924D692CA61BE758, 269, 100),
     (0xDA01EE641A708DEA, 295, 108), (0xA26DA3999AEF774A, 322, 116), (0xF209787BB47D6B85, 348, 124),
     (0xB454E4A179DD1877, 375, 132), (0x865B86925B9BC5C2, 402, 140), (0xC83553C5C8965D3D, 428, 148),
     (0x952AB45CFA97A0B3, 455, 156), (0xDE469FBD99A05FE3, 481, 164), (0xA59BC234DB398C25, 508, 172),
     (0xF6C69A72A3989F5C, 534, 180), (0xB7DCBF5354E9BECE, 561, 188), (0x88FCF317F22241E2, 588, 196),
     (0xCC20CE9BD35C78A5, 614, 204), (0x98165AF37B2153DF, 641, 212), (0xE2A0B5DC971F303A, 667, 220),
     (0xA8D9D1535CE3B396, 694, 228), (0xFB9B7CD9A4A7443C, 720, 236), (0xBB764C4CA7A44410, 747, 244),
     (0x8BAB8EEFB6409C1A, 774, 252), (0xD01FEF10A657842C, 800, 260), (0x9B10A4E5E9913129, 827, 268),
     (0xE7109BFBA19C0C9D, 853, 276), (0xAC2820D9623BF429, 880, 284), (0x80444B5E7AA7CF85, 907, 292),
     (0xBF21E44003ACDD2D, 933, 300), (0x8E679C2F5E44FF8F, 960, 308), (0xD433179D9C8CB841, 986, 316),
     (0x9E19DB92B4E31BA9, 1013, 324)]"

definition get_cached_power_for_binary_exponent :: "int \<Rightarrow> (int \<times> int \<times> int) option" where
  "get_cached_power_for_binary_exponent e =
     check (e \<ge> - 1500) (check (e \<le> 1500)
       (let f = kAlpha - e - 1;
            k = c_div (f * 78913) (push_bit 18 1) + (if f > 0 then 1 else 0);
            index = c_div (300 + k + (8 - 1)) 8
        in check (index \<ge> 0) (check (index < int (length kCachedPowers))
             (let cached = kCachedPowers ! nat index in
              check (kAlpha \<le> fst (snd cached) + e + 64) (check (kGamma \<ge> fst (snd cached) + e + 64)
                (Some cached))))))"

subsection \<open>Digits\<close>

text \<open>The number of digits of a 32-bit number, and the power of ten of its first digit.\<close>

definition find_largest_pow10 :: "int \<Rightarrow> nat \<times> int" where
  "find_largest_pow10 n =
     (if n \<ge> 1000000000 then (10, 1000000000)
      else if n \<ge> 100000000 then (9, 100000000)
      else if n \<ge> 10000000 then (8, 10000000)
      else if n \<ge> 1000000 then (7, 1000000)
      else if n \<ge> 100000 then (6, 100000)
      else if n \<ge> 10000 then (5, 10000)
      else if n \<ge> 1000 then (4, 1000)
      else if n \<ge> 100 then (3, 100)
      else if n \<ge> 10 then (2, 10)
      else (1, 1))"

text \<open>The loop of \<^verbatim>\<open>grisu2_round\<close> on the last character and \<^verbatim>\<open>rest\<close>.\<close>

partial_function (option) round_loop :: "int \<Rightarrow> int \<Rightarrow> int \<Rightarrow> int \<Rightarrow> int \<Rightarrow> int option" where
  "round_loop dist delta ten_k rest c =
     (if rest < dist \<and> wrap64 (delta - rest) \<ge> ten_k
        \<and> (wrap64 (rest + ten_k) < dist \<or> wrap64 (dist - rest) > wrap64 (rest + ten_k - dist))
      then (if c \<noteq> 0x30 then round_loop dist delta ten_k (wrap64 (rest + ten_k)) (c - 1) else None)
      else Some c)"

declare round_loop.simps [code]

definition grisu2_round :: "int list \<Rightarrow> int \<Rightarrow> int \<Rightarrow> int \<Rightarrow> int \<Rightarrow> int list option" where
  "grisu2_round buf dist delta rest ten_k =
     check (buf \<noteq> []) (check (dist \<le> delta) (check (rest \<le> delta) (check (ten_k > 0)
       (map_option (\<lambda>c. butlast buf @ [c]) (round_loop dist delta ten_k rest (last buf))))))"

text \<open>
  The digits of the integral part \<open>p1\<close>, with \<open>n\<close> digits to come; \<open>s\<close> is \<^verbatim>\<open>-one.e\<close>. On the left the
  buffer and \<open>n\<close> when the loop returns from the function, on the right the buffer behind the loop.
\<close>

fun gen_integral ::
  "nat \<Rightarrow> int \<Rightarrow> int \<Rightarrow> int \<Rightarrow> nat \<Rightarrow> int \<Rightarrow> int \<Rightarrow> int list \<Rightarrow> ((int list \<times> nat) + int list) option" where
  "gen_integral s p2 dist delta 0 p1 pow10 buffer = Some (Inr buffer)"
| "gen_integral s p2 dist delta (Suc n) p1 pow10 buffer =
     (let d = p1 div pow10; r = p1 mod pow10 in
      check (d \<le> 9)
        (let buffer = buffer @ [0x30 + d];
             rest = wrap64 (wrap64 (push_bit s r) + p2)
         in if rest \<le> delta
            then map_option (\<lambda>b. Inl (b, n)) (grisu2_round buffer dist delta rest (wrap64 (push_bit s pow10)))
            else gen_integral s p2 dist delta n r (pow10 div 10) buffer))"

text \<open>The digits of the fractional part: the buffer, the remainder, both distances and \<open>m\<close>.\<close>

partial_function (option) gen_fractional ::
  "nat \<Rightarrow> int \<Rightarrow> int \<Rightarrow> int \<Rightarrow> nat \<Rightarrow> int list \<Rightarrow> (int list \<times> int \<times> int \<times> int \<times> nat) option" where
  "gen_fractional s p2 dist delta m buffer =
     (if p2 \<le> (2 ^ 64 - 1) div 10
      then let p2' = wrap64 (p2 * 10);
               d = drop_bit s p2';
               r = p2' AND (push_bit s 1 - 1)
           in if d \<le> 9
              then let buffer' = buffer @ [0x30 + d]; delta' = wrap64 (delta * 10); dist' = wrap64 (dist * 10) in
                   if r \<le> delta' then Some (buffer', r, dist', delta', m + 1)
                   else gen_fractional s r dist' delta' (m + 1) buffer'
              else None
      else None)"

declare gen_fractional.simps [code]

definition grisu2_digit_gen :: "int \<Rightarrow> diyfp \<Rightarrow> diyfp \<Rightarrow> diyfp \<Rightarrow> (int list \<times> int) option" where
  "grisu2_digit_gen decimal_exponent M_minus w M_plus =
     check (df_e M_plus \<ge> kAlpha) (check (df_e M_plus \<le> kGamma)
       (case diyfp_sub M_plus M_minus of None \<Rightarrow> None | Some delta_fp \<Rightarrow>
        case diyfp_sub M_plus w of None \<Rightarrow> None | Some dist_fp \<Rightarrow>
        (let delta = df_f delta_fp; dist = df_f dist_fp;
             s = nat (- df_e M_plus);
             one = wrap64 (push_bit s 1);
             p1 = wrap32 (drop_bit s (df_f M_plus));
             p2 = df_f M_plus AND (one - 1)
         in check (p1 > 0)
              (case find_largest_pow10 p1 of (k, pow10) \<Rightarrow>
               case gen_integral s p2 dist delta k p1 pow10 [] of
                 None \<Rightarrow> None
               | Some (Inl (buffer, n)) \<Rightarrow> Some (buffer, decimal_exponent + int n)
               | Some (Inr buffer) \<Rightarrow>
                   check (p2 > delta)
                     (case gen_fractional s p2 dist delta 0 buffer of
                        None \<Rightarrow> None
                      | Some (buffer', r, dist', delta', m) \<Rightarrow>
                          map_option (\<lambda>b. (b, decimal_exponent - int m))
                            (grisu2_round buffer' dist' delta' r one))))))"

definition grisu2_boundaries :: "diyfp \<Rightarrow> diyfp \<Rightarrow> diyfp \<Rightarrow> (int list \<times> int) option" where
  "grisu2_boundaries m_minus v m_plus =
     check (df_e m_plus = df_e m_minus) (check (df_e m_plus = df_e v)
       (case get_cached_power_for_binary_exponent (df_e m_plus) of
          None \<Rightarrow> None
        | Some (f, e, k) \<Rightarrow>
            (let c = \<lparr>df_f = f, df_e = e\<rparr>;
                 w = diyfp_mul v c; w_minus = diyfp_mul m_minus c; w_plus = diyfp_mul m_plus c
             in grisu2_digit_gen (- k) \<lparr>df_f = wrap64 (df_f w_minus + 1), df_e = df_e w_minus\<rparr> w
                  \<lparr>df_f = wrap64 (df_f w_plus - 1), df_e = df_e w_plus\<rparr>)))"

definition grisu2 :: "int \<Rightarrow> (int list \<times> int) option" where
  "grisu2 bits =
     check (is_finite bits) (check (is_positive bits)
       (case compute_boundaries bits of
          None \<Rightarrow> None
        | Some b \<Rightarrow> grisu2_boundaries (bd_minus b) (bd_w b) (bd_plus b)))"

subsection \<open>The text\<close>

definition append_exponent :: "int \<Rightarrow> int list option" where
  "append_exponent e =
     check (e > - 1000) (check (e < 1000)
       (let k = \<bar>e\<bar> in
        Some ((if e < 0 then 0x2D else 0x2B) #
          (if k < 10 then [0x30, 0x30 + k]
           else if k < 100 then [0x30 + k div 10, 0x30 + k mod 10]
           else [0x30 + k div 100, 0x30 + k mod 100 div 10, 0x30 + k mod 100 mod 10]))))"

definition format_buffer :: "int list \<Rightarrow> int \<Rightarrow> int \<Rightarrow> int \<Rightarrow> int list option" where
  "format_buffer buf decimal_exponent min_exp max_exp =
     check (min_exp < 0) (check (max_exp > 0)
       (let k = int (length buf); n = k + decimal_exponent in
        if k \<le> n \<and> n \<le> max_exp
        then Some (buf @ replicate (nat (n - k)) 0x30 @ [0x2E, 0x30])
        else if 0 < n \<and> n \<le> max_exp
        then check (k > n) (Some (take (nat n) buf @ [0x2E] @ drop (nat n) buf))
        else if min_exp < n \<and> n \<le> 0
        then Some ([0x30, 0x2E] @ replicate (nat (- n)) 0x30 @ buf)
        else map_option (\<lambda>e. (if k = 1 then buf else take 1 buf @ [0x2E] @ drop 1 buf) @ [0x65] @ e)
               (append_exponent (n - 1))))"

text \<open>\<^verbatim>\<open>to_chars\<close> on the bits of a double, with the room its caller has.\<close>

definition to_chars :: "int \<Rightarrow> int \<Rightarrow> int list option" where
  "to_chars room bits =
     check (is_finite bits)
       (let negative = (drop_bit 63 bits = 1);
            bits' = (if negative then bits - 2 ^ 63 else bits);
            sign = (if negative then [0x2D] else []);
            room' = room - int (length sign)
        in if bits' = 0 then Some (sign @ [0x30, 0x2E, 0x30])
           else check (room' \<ge> 17)
             (case grisu2 bits' of
                None \<Rightarrow> None
              | Some (buf, decimal_exponent) \<Rightarrow>
                  check (length buf \<le> 17) (check (room' \<ge> 15 + 2) (check (room' \<ge> 2 + (4 - 1) + 17)
                    (check (room' \<ge> 17 + 6)
                      (map_option (\<lambda>t. sign @ t) (format_buffer buf decimal_exponent (- 4) 15)))))))"

text \<open>
  \<^verbatim>\<open>dump_float\<close> of the serializer for a double with these bits, with its buffer of 64 characters.
\<close>

definition dump_float :: "int \<Rightarrow> string option" where
  "dump_float bits =
     (if \<not> is_finite bits then Some ''null''
      else map_option (map char_of) (to_chars 64 bits))"

end
