(* ===== verification/NGrisu.thy ===== *)
theory NGrisu
  imports NFloat Complex_Main
begin

text \<open>
  Correctness of the printing of doubles: the multiplication rounds, the boundaries are exact, the
  cached powers are within half a unit, and the digits denote a number strictly between the
  boundaries, so that every reader that rounds correctly gets the double back. No assertion fails
  and no loop runs forever.
\<close>

subsection \<open>Bit operations as arithmetic\<close>

lemma wrap64_id: "0 \<le> x \<Longrightarrow> x < 2 ^ 64 \<Longrightarrow> wrap64 x = x"
  by (simp add: wrap64_def)

lemma wrap32_id: "0 \<le> x \<Longrightarrow> x < 2 ^ 32 \<Longrightarrow> wrap32 x = x"
  by (simp add: wrap32_def)

lemma and_low: "x AND (2 ^ n - 1) = (x :: int) mod 2 ^ n"
  by (simp add: take_bit_eq_mask mask_eq_exp_minus_1 flip: take_bit_eq_mod)

lemma and_low_32: "x AND 0xFFFFFFFF = (x :: int) mod 2 ^ 32"
  using and_low [of x 32] by simp

lemma shift_right: "drop_bit n x = (x :: int) div 2 ^ n"
  by (rule drop_bit_eq_div)

lemma shift_left: "push_bit n x = (x :: int) * 2 ^ n"
  by (rule push_bit_eq_mult)

lemma check_Some [simp]: "check b x = Some y \<longleftrightarrow> b \<and> x = Some y"
  by (simp add: check_def)

lemma check_True [simp]: "check True x = x" "b \<Longrightarrow> check b x = x"
  by (simp_all add: check_def)

subsection \<open>Multiplication\<close>

definition u64_range :: "int \<Rightarrow> bool" where
  "u64_range x \<longleftrightarrow> 0 \<le> x \<and> x < 2 ^ 64"

lemma split_sum:
  fixes p0 p1 p2 a0 a1 a2 b0 b1 b2 u :: int
  assumes "p0 = a0 * 2 ^ 32 + b0" "p1 = a1 * 2 ^ 32 + b1" "p2 = a2 * 2 ^ 32 + b2"
  shows "p0 + 2 ^ 32 * (p1 + p2) + 2 ^ 64 * u = (b0 + 2 ^ 32 * (a0 + b1 + b2)) + 2 ^ 64 * (u + a2 + a1)"
  by (simp add: assms)

lemma product_split:
  fixes ul uh vl vh :: int
  defines "H \<equiv> uh * vh + (uh * vl) div 2 ^ 32 + (ul * vh) div 2 ^ 32"
    and "Q \<equiv> (ul * vl) div 2 ^ 32 + (ul * vh) mod 2 ^ 32 + (uh * vl) mod 2 ^ 32"
  shows "((ul + 2 ^ 32 * uh) * (vl + 2 ^ 32 * vh) + 2 ^ 63) div 2 ^ 64 = H + (Q + 2 ^ 31) div 2 ^ 32"
proof -
  define p0 where "p0 = ul * vl"
  define p1 where "p1 = ul * vh"
  define p2 where "p2 = uh * vl"
  have d: "p0 = p0 div 2 ^ 32 * 2 ^ 32 + p0 mod 2 ^ 32" "p1 = p1 div 2 ^ 32 * 2 ^ 32 + p1 mod 2 ^ 32"
    "p2 = p2 div 2 ^ 32 * 2 ^ 32 + p2 mod 2 ^ 32"
    by (simp_all only: div_mult_mod_eq)
  have "(ul + 2 ^ 32 * uh) * (vl + 2 ^ 32 * vh) = p0 + 2 ^ 32 * (p1 + p2) + 2 ^ 64 * (uh * vh)"
    by (simp add: p0_def p1_def p2_def algebra_simps)
  also have "\<dots> = (p0 mod 2 ^ 32 + 2 ^ 32 * Q) + 2 ^ 64 * H"
    using split_sum [OF d] unfolding Q_def H_def p0_def [symmetric] p1_def [symmetric] p2_def [symmetric] .
  finally have "((ul + 2 ^ 32 * uh) * (vl + 2 ^ 32 * vh) + 2 ^ 63) div 2 ^ 64
      = (p0 mod 2 ^ 32 + 2 ^ 32 * (Q + 2 ^ 31) + 2 ^ 64 * H) div 2 ^ 64" by (simp add: algebra_simps)
  also have "\<dots> = H + (p0 mod 2 ^ 32 + 2 ^ 32 * (Q + 2 ^ 31)) div 2 ^ 64" by simp
  also have "(p0 mod 2 ^ 32 + 2 ^ 32 * (Q + 2 ^ 31)) div 2 ^ 64
      = ((p0 mod 2 ^ 32 + 2 ^ 32 * (Q + 2 ^ 31)) div 2 ^ 32) div 2 ^ 32"
    by (simp add: zdiv_zmult2_eq [symmetric])
  also have "(p0 mod 2 ^ 32 + 2 ^ 32 * (Q + 2 ^ 31)) div 2 ^ 32 = Q + 2 ^ 31" by simp
  finally show ?thesis .
qed

lemma mul_rounds:
  assumes "u64_range (df_f x)" "u64_range (df_f y)"
  shows "df_f (diyfp_mul x y) = (df_f x * df_f y + 2 ^ 63) div 2 ^ 64"
    "u64_range (df_f (diyfp_mul x y))"
proof -
  define ul where "ul = df_f x mod 2 ^ 32"
  define uh where "uh = df_f x div 2 ^ 32"
  define vl where "vl = df_f y mod 2 ^ 32"
  define vh where "vh = df_f y div 2 ^ 32"
  have u: "df_f x = ul + 2 ^ 32 * uh" "df_f y = vl + 2 ^ 32 * vh"
    by (simp_all add: ul_def uh_def vl_def vh_def)
  have r: "0 \<le> ul" "ul \<le> 2 ^ 32 - 1" "0 \<le> uh" "uh \<le> 2 ^ 32 - 1" "0 \<le> vl" "vl \<le> 2 ^ 32 - 1" "0 \<le> vh" "vh \<le> 2 ^ 32 - 1"
    using assms by (auto simp: ul_def uh_def vl_def vh_def u64_range_def)
  have small: "0 \<le> a * b \<and> a * b < 2 ^ 64"
    if "0 \<le> a" "a \<le> 2 ^ 32 - 1" "0 \<le> b" "b \<le> 2 ^ 32 - 1" for a b :: int
  proof -
    have "a * b \<le> (2 ^ 32 - 1) * (2 ^ 32 - 1)" using that by (intro mult_mono) auto
    then show ?thesis using that by simp
  qed
  let ?Q = "(ul * vl) div 2 ^ 32 + (ul * vh) mod 2 ^ 32 + (uh * vl) mod 2 ^ 32"
  let ?H = "uh * vh + (uh * vl) div 2 ^ 32 + (ul * vh) div 2 ^ 32"
  have q0: "0 \<le> a div 2 ^ 32 \<and> a div 2 ^ 32 < 2 ^ 32" if "0 \<le> a \<and> a < 2 ^ 64" for a :: int
    using that by auto
  have q1: "0 \<le> a mod 2 ^ 32 \<and> a mod 2 ^ 32 < 2 ^ 32" for a :: int by simp
  have Q: "0 \<le> ?Q" "?Q < 3 * 2 ^ 32"
    using q0 [OF small, of ul vl] q1 [of "ul * vh"] q1 [of "uh * vl"] r by linarith+
  have "df_f x * df_f y \<le> (2 ^ 64 - 1) * (2 ^ 64 - 1)"
    using assms by (intro mult_mono) (auto simp: u64_range_def)
  moreover have "0 \<le> df_f x * df_f y" using assms by (simp add: u64_range_def)
  ultimately have bound: "(df_f x * df_f y + 2 ^ 63) div 2 ^ 64 < 2 ^ 64" "0 \<le> (df_f x * df_f y + 2 ^ 63) div 2 ^ 64"
    by auto
  have eq: "(df_f x * df_f y + 2 ^ 63) div 2 ^ 64 = ?H + (?Q + 2 ^ 31) div 2 ^ 32"
    unfolding u by (rule product_split)
  have parts: "df_f x AND 0xFFFFFFFF = ul" "df_f y AND 0xFFFFFFFF = vl" "drop_bit 32 (df_f x) = uh" "drop_bit 32 (df_f y) = vh"
    by (simp_all only: and_low_32 shift_right ul_def uh_def vl_def vh_def)
  have wraps: "wrap64 (ul * vl) = ul * vl" "wrap64 (ul * vh) = ul * vh" "wrap64 (uh * vl) = uh * vl" "wrap64 (uh * vh) = uh * vh"
    using small r by (auto intro!: wrap64_id)
  have bit: "push_bit (64 - 32 - 1) (1 :: int) = 2 ^ 31" by simp
  have "wrap64 (?Q + 2 ^ 31) = ?Q + 2 ^ 31" "wrap64 ?Q = ?Q" using Q by (auto intro!: wrap64_id)
  then have "df_f (diyfp_mul x y) = wrap64 (uh * vh + (uh * vl) div 2 ^ 32 + (ul * vh) div 2 ^ 32 + (?Q + 2 ^ 31) div 2 ^ 32)"
    unfolding diyfp_mul_def Let_def parts wraps bit unfolding shift_right and_low_32
    by (simp only: diyfp.select_convs)
  with wrap64_id [OF bound(2,1), unfolded eq]
  show product: "df_f (diyfp_mul x y) = (df_f x * df_f y + 2 ^ 63) div 2 ^ 64" unfolding eq by (rule trans [rotated])
  from bound show "u64_range (df_f (diyfp_mul x y))" unfolding product u64_range_def by (rule conjI [rotated])
qed

subsection \<open>Normalisation and boundaries\<close>

lemma normalize_loop_exact:
  "0 < f \<Longrightarrow> 2 ^ 63 \<le> f * 2 ^ n \<Longrightarrow> f * 2 ^ n < 2 ^ 64 \<Longrightarrow>
    normalize_loop \<lparr>df_f = f, df_e = e\<rparr> = Some \<lparr>df_f = f * 2 ^ n, df_e = e - int n\<rparr>"
proof (induction n arbitrary: f e)
  case 0
  then have "drop_bit 63 f \<noteq> 0" by (simp add: shift_right)
  then show ?case by (subst normalize_loop.simps) simp
next
  case (Suc n)
  have "f * 1 \<le> f * 2 ^ n" using Suc.prems(1) by (intro mult_left_mono) auto
  moreover have "f * 2 ^ n * 2 < 2 ^ 64" using Suc.prems by (simp add: algebra_simps)
  ultimately have small: "f * 2 < 2 ^ 64" by linarith
  with Suc.prems(1) have "drop_bit 63 f = 0" "wrap64 (push_bit 1 f) = f * 2"
    by (simp_all add: shift_right shift_left wrap64_id)
  moreover have "normalize_loop \<lparr>df_f = f * 2, df_e = e - 1\<rparr> = Some \<lparr>df_f = f * 2 * 2 ^ n, df_e = e - 1 - int n\<rparr>"
    by (rule Suc.IH) (use Suc.prems in simp_all)
  ultimately show ?case by (subst normalize_loop.simps) (simp add: algebra_simps)
qed

lemma normalize_exact:
  assumes "0 < f" "2 ^ 63 \<le> f * 2 ^ n" "f * 2 ^ n < 2 ^ 64"
  shows "diyfp_normalize \<lparr>df_f = f, df_e = e\<rparr> = Some \<lparr>df_f = f * 2 ^ n, df_e = e - int n\<rparr>"
  using assms normalize_loop_exact [OF assms] by (simp add: diyfp_normalize_def)

lemma normalize_to_exact:
  assumes "0 \<le> f" "f * 2 ^ n < 2 ^ 64"
  shows "normalize_to \<lparr>df_f = f, df_e = e\<rparr> (e - int n) = Some \<lparr>df_f = f * 2 ^ n, df_e = e - int n\<rparr>"
proof -
  have "wrap64 (push_bit n f) = f * 2 ^ n" using assms by (simp add: shift_left wrap64_id)
  then show ?thesis by (simp add: normalize_to_def shift_right)
qed

lemma shift_to_top:
  assumes "0 < f" "f < 2 ^ m" "m \<le> 63"
  obtains n where "63 - m \<le> n" "n \<le> 62" "2 ^ 63 \<le> f * 2 ^ Suc n" "f * 2 ^ Suc n + 2 ^ n < (2 :: int) ^ 64"
proof -
  obtain j where j: "2 ^ j \<le> f" "f < 2 ^ Suc j" using ex_power_ivl1 [of 2 "nat f"] assms(1)
    by (metis int_eq_iff linorder_not_le nat_le_iff Suc_eq_plus1 nat_less_iff nat_one_as_int of_nat_numeral of_nat_power one_le_numeral
        less_imp_le le_refl zless_nat_eq_int_zless zero_less_nat_eq Suc_leI One_nat_def)
  have "(2 :: int) ^ j < 2 ^ m" using j assms by linarith
  then have "j < m" by simp
  define p :: int where "p = 2 ^ (62 - j)"
  have p: "0 < p" "2 ^ j * (2 * p) = 2 ^ 63" "2 ^ Suc (62 - j) = 2 * p"
    using \<open>j < m\<close> assms by (simp_all add: p_def flip: power_Suc power_add)
  have "2 ^ j * (2 * p) \<le> f * (2 * p)" "f * (2 * p) \<le> (2 ^ Suc j - 1) * (2 * p)"
    using j p(1) by (intro mult_right_mono; simp)+
  then have "2 ^ 63 \<le> f * (2 * p)" "f * (2 * p) + p < 2 ^ 64"
    using p(1) unfolding p(2) using p(2) by (simp_all add: algebra_simps)
  moreover have "63 - m \<le> 62 - j" using \<open>j < m\<close> by simp
  ultimately show ?thesis using that [of "62 - j"] by (simp only: p(3) p_def [symmetric])
qed

text \<open>The power of two of which the lower half gap is a multiple.\<close>

definition closer :: "int \<Rightarrow> bool" where
  "closer bits \<longleftrightarrow> fraction_bits bits = 0 \<and> exponent_bits bits > 1"

lemma exponent_div: "exponent_bits bits = bits div 2 ^ 52"
  by (simp add: exponent_bits_def shift_right)

lemma fraction_mod: "fraction_bits bits = bits mod 2 ^ 52"
  using and_low [of bits 52] by (simp add: fraction_bits_def kHiddenBit_def)

definition finite_positive :: "int \<Rightarrow> bool" where
  "finite_positive bits \<longleftrightarrow> is_finite bits \<and> is_positive bits"

lemma bits_parts:
  assumes "finite_positive bits"
  shows "0 \<le> exponent_bits bits" "exponent_bits bits \<le> 2046" "0 \<le> fraction_bits bits" "fraction_bits bits < 2 ^ 52"
    "0 < df_f (diyfp_of_bits bits)" "df_f (diyfp_of_bits bits) < 2 ^ 53"
    "closer bits \<Longrightarrow> df_f (diyfp_of_bits bits) = 2 ^ 52"
    "- 1074 \<le> df_e (diyfp_of_bits bits)" "df_e (diyfp_of_bits bits) \<le> 971"
    "df_e (diyfp_of_bits bits) = - 1074 \<or> 2 ^ 52 \<le> df_f (diyfp_of_bits bits)"
proof -
  have pos: "0 < bits" "bits < 2 ^ 63" and fin: "exponent_bits bits AND 0x7FF \<noteq> 0x7FF"
    using assms by (auto simp: finite_positive_def is_positive_def is_finite_def shift_right div_eq_0_iff)
  have E: "0 \<le> exponent_bits bits" "exponent_bits bits < 2048" using pos by (simp_all add: exponent_div)
  with fin and_low [of "exponent_bits bits" 11] have "exponent_bits bits \<noteq> 2047" by auto
  with E show E': "0 \<le> exponent_bits bits" "exponent_bits bits \<le> 2046" by simp_all
  show F: "0 \<le> fraction_bits bits" "fraction_bits bits < 2 ^ 52" by (simp_all add: fraction_mod)
  have "bits = exponent_bits bits * 2 ^ 52 + fraction_bits bits" by (simp add: exponent_div fraction_mod)
  with pos have "exponent_bits bits \<noteq> 0 \<or> 0 < fraction_bits bits" using F by auto
  then show "0 < df_f (diyfp_of_bits bits)" "df_f (diyfp_of_bits bits) < 2 ^ 53"
    "closer bits \<Longrightarrow> df_f (diyfp_of_bits bits) = 2 ^ 52"
    "- 1074 \<le> df_e (diyfp_of_bits bits)" "df_e (diyfp_of_bits bits) \<le> 971"
    "df_e (diyfp_of_bits bits) = - 1074 \<or> 2 ^ 52 \<le> df_f (diyfp_of_bits bits)"
    using E' F by (auto simp: diyfp_of_bits_def kHiddenBit_def kMinExp_def kBias_def closer_def)
qed

lemma compute_boundaries_exact:
  assumes "finite_positive bits" "diyfp_of_bits bits = \<lparr>df_f = f, df_e = e\<rparr>"
  obtains n q where "q = e - int n - 1" "10 \<le> n" "n \<le> 62" "- 1137 \<le> q" "q \<le> 960"
    "2 ^ 63 \<le> f * 2 ^ Suc n" "f * 2 ^ Suc n + 2 ^ n < 2 ^ 64"
    "compute_boundaries bits = Some \<lparr>bd_w = \<lparr>df_f = f * 2 ^ Suc n, df_e = q\<rparr>,
       bd_minus = \<lparr>df_f = f * 2 ^ Suc n - (if closer bits then 2 ^ (n - 1) else 2 ^ n), df_e = q\<rparr>,
       bd_plus = \<lparr>df_f = f * 2 ^ Suc n + 2 ^ n, df_e = q\<rparr>\<rparr>"
proof -
  note parts = bits_parts [OF assms(1), unfolded assms(2), simplified diyfp.select_convs]
  obtain n where n: "63 - 53 \<le> n" "n \<le> 62" "2 ^ 63 \<le> f * 2 ^ Suc n" "f * 2 ^ Suc n + 2 ^ n < 2 ^ 64"
    by (rule shift_to_top [of f 53]) (use parts in auto)
  define q where "q = e - int n - 1"
  have "n \<le> 10" if "2 ^ 52 \<le> f"
  proof -
    have "2 ^ 52 * 2 ^ Suc n \<le> f * 2 ^ Suc n" using that by (rule mult_right_mono) simp
    moreover have "(0 :: int) < 2 ^ n" by simp
    ultimately have "(2 :: int) ^ (52 + Suc n) < 2 ^ 64" using n unfolding power_add by linarith
    then have "52 + Suc n < 64" by (rule power_less_imp_less_exp [rotated]) simp
    then show ?thesis by simp
  qed
  then have q: "- 1137 \<le> q" "q \<le> 960" using parts n by (auto simp: q_def)
  have plus: "diyfp_normalize \<lparr>df_f = wrap64 (2 * f + 1), df_e = e - 1\<rparr> = Some \<lparr>df_f = f * 2 ^ Suc n + 2 ^ n, df_e = q\<rparr>"
  proof -
    have "wrap64 (2 * f + 1) = 2 * f + 1" using parts by (simp add: wrap64_id)
    moreover have "(2 * f + 1) * 2 ^ n = f * 2 ^ Suc n + 2 ^ n" by (simp add: algebra_simps)
    moreover have "2 ^ 63 \<le> f * 2 ^ Suc n + 2 ^ n" using n zero_less_power [of "2 :: int" n] by linarith
    ultimately show ?thesis using normalize_exact [of "2 * f + 1" n "e - 1"] n parts by (simp add: q_def algebra_simps)
  qed
  have v: "diyfp_normalize \<lparr>df_f = f, df_e = e\<rparr> = Some \<lparr>df_f = f * 2 ^ Suc n, df_e = q\<rparr>"
  proof -
    have "f * 2 ^ Suc n < 2 ^ 64" using n zero_less_power [of "2 :: int" n] by linarith
    with normalize_exact [of f "Suc n" e] n parts show ?thesis by (simp add: q_def algebra_simps)
  qed
  have minus: "normalize_to (if closer bits then \<lparr>df_f = wrap64 (4 * f - 1), df_e = e - 2\<rparr>
         else \<lparr>df_f = wrap64 (2 * f - 1), df_e = e - 1\<rparr>) q
       = Some \<lparr>df_f = f * 2 ^ Suc n - (if closer bits then 2 ^ (n - 1) else 2 ^ n), df_e = q\<rparr>"
  proof (cases "closer bits")
    case True
    obtain m where m: "n = Suc m" using n by (cases n) auto
    have "wrap64 (4 * f - 1) = 4 * f - 1" using parts by (simp add: wrap64_id)
    moreover have "(4 * f - 1) * 2 ^ m = f * 2 ^ Suc n - 2 ^ m" by (simp add: m algebra_simps)
    moreover have "f * 2 ^ Suc n - 2 ^ m < 2 ^ 64" using n zero_less_power [of "2 :: int" m] zero_less_power [of "2 :: int" n] by linarith
    ultimately show ?thesis using True normalize_to_exact [of "4 * f - 1" m "e - 2"] parts
      by (simp add: q_def m algebra_simps)
  next
    case False
    have "wrap64 (2 * f - 1) = 2 * f - 1" using parts by (simp add: wrap64_id)
    moreover have "(2 * f - 1) * 2 ^ n = f * 2 ^ Suc n - 2 ^ n" by (simp add: algebra_simps)
    moreover have "e - 1 - int n = q" by (simp add: q_def)
    moreover have "f * 2 ^ Suc n - 2 ^ n < 2 ^ 64" using n zero_less_power [of "2 :: int" n] by linarith
    ultimately show ?thesis using False normalize_to_exact [of "2 * f - 1" n "e - 1"] parts by simp
  qed
  have "compute_boundaries bits = Some \<lparr>bd_w = \<lparr>df_f = f * 2 ^ Suc n, df_e = q\<rparr>,
       bd_minus = \<lparr>df_f = f * 2 ^ Suc n - (if closer bits then 2 ^ (n - 1) else 2 ^ n), df_e = q\<rparr>,
       bd_plus = \<lparr>df_f = f * 2 ^ Suc n + 2 ^ n, df_e = q\<rparr>\<rparr>"
    using assms(1) plus v minus
    by (cases "closer bits") (simp_all add: compute_boundaries_def Let_def assms(2) finite_positive_def flip: closer_def)
  with n q that [of q n] show thesis by (simp add: q_def)
qed

subsection \<open>Cached powers\<close>

text \<open>
  The table row by row, in integers: the exponents are within reach of the index computation, and
  the significand is the power of ten rounded to 64 bits. The power of ten of the last row is
  carried along.
\<close>

fun rows_ok :: "int \<Rightarrow> (int \<times> int \<times> int) list \<Rightarrow> bool" where
  "rows_ok i [] \<longleftrightarrow> True"
| "rows_ok i ((f, e, k) # rows) \<longleftrightarrow>
     k = 8 * i - 300 \<and> 2 ^ 18 * (8 * i - 300) < 78913 * (e + 64) \<and> 78913 * (e + 34) < 2 ^ 18 * (8 * i - 308) \<and>
     2 ^ 63 \<le> f \<and> f < 2 ^ 64 \<and> rows_ok (i + 1) rows"

definition row_exact :: "int \<times> int \<times> int \<Rightarrow> bool" where
  "row_exact row \<longleftrightarrow> (case row of (f, e, k) \<Rightarrow>
     \<bar>2 * (f * 2 ^ nat e * 10 ^ nat (- k)) - 2 * (10 ^ nat k * 2 ^ nat (- e))\<bar> \<le> 2 ^ nat e * 10 ^ nat (- k))"

fun rows_small :: "int \<Rightarrow> (int \<times> int \<times> int) list \<Rightarrow> bool" where
  "rows_small p [] \<longleftrightarrow> True"
| "rows_small p ((f, e, k) # rows) \<longleftrightarrow> \<bar>2 * (f * p) - 2 * 2 ^ nat (- e)\<bar> \<le> p \<and> rows_small (p * 10 ^ 8) rows"

fun rows_big :: "int \<Rightarrow> (int \<times> int \<times> int) list \<Rightarrow> bool" where
  "rows_big p [] \<longleftrightarrow> True"
| "rows_big p ((f, e, k) # rows) \<longleftrightarrow>
     \<bar>2 * (f * 2 ^ nat e) - 2 * (p * 2 ^ nat (- e))\<bar> \<le> 2 ^ nat e \<and> rows_big (p * 10 ^ 8) rows"

lemma table_ok: "rows_ok 0 kCachedPowers"
  by code_simp

lemma small_rows: "rows_small (10 ^ 4) (rev (take 38 kCachedPowers))"
  by (simp add: kCachedPowers_def)

lemma big_rows: "rows_big (10 ^ 4) (drop 38 kCachedPowers)"
  by (simp add: kCachedPowers_def)

lemma rows_ok_nth:
  "rows_ok i rows \<Longrightarrow> j < length rows \<Longrightarrow> rows ! j = (f, e, k) \<Longrightarrow>
    k = 8 * (i + int j) - 300 \<and> 2 ^ 18 * (8 * (i + int j) - 300) < 78913 * (e + 64) \<and>
    78913 * (e + 34) < 2 ^ 18 * (8 * (i + int j) - 308) \<and> 2 ^ 63 \<le> f \<and> f < 2 ^ 64"
proof (induction i rows arbitrary: j rule: rows_ok.induct)
  case (2 i f' e' k' rows)
  then show ?case by (cases j) (auto simp: algebra_simps)
qed simp

lemma rows_small_nth:
  "rows_small p rows \<Longrightarrow> j < length rows \<Longrightarrow> rows ! j = (f, e, k) \<Longrightarrow>
    \<bar>2 * (f * (p * 10 ^ (8 * j))) - 2 * 2 ^ nat (- e)\<bar> \<le> p * 10 ^ (8 * j)"
proof (induction p rows arbitrary: j rule: rows_small.induct)
  case (2 p f' e' k' rows)
  then show ?case by (cases j) (auto simp: power_add mult.assoc)
qed simp

lemma rows_big_nth:
  "rows_big p rows \<Longrightarrow> j < length rows \<Longrightarrow> rows ! j = (f, e, k) \<Longrightarrow>
    \<bar>2 * (f * 2 ^ nat e) - 2 * (p * 10 ^ (8 * j) * 2 ^ nat (- e))\<bar> \<le> 2 ^ nat e"
proof (induction p rows arbitrary: j rule: rows_big.induct)
  case (2 p f' e' k' rows)
  then show ?case by (cases j) (auto simp: power_add mult.assoc)
qed simp

lemma table_length: "length kCachedPowers = 79"
  by (simp add: kCachedPowers_def)

definition power_near :: "int \<Rightarrow> int \<Rightarrow> int \<Rightarrow> bool" where
  "power_near f e k \<longleftrightarrow> \<bar>real_of_int f * 2 powi e - 10 powi k\<bar> \<le> 2 powi e / 2"

lemma powi_split: "(2 :: real) powi e = 2 ^ nat e / 2 ^ nat (- e)"
  by (cases "0 \<le> e") (simp_all add: power_int_def field_simps)

lemma divided_near:
  fixes a b c d :: real
  assumes "\<bar>2 * a - 2 * b\<bar> \<le> c" "0 < d"
  shows "\<bar>a / d - b / d\<bar> \<le> c / d / 2"
proof -
  have "\<bar>a - b\<bar> \<le> c / 2" using assms(1) by linarith
  then have "\<bar>a - b\<bar> / d \<le> c / 2 / d" by (rule divide_right_mono) (use assms in auto)
  then show ?thesis using assms(2) by (simp add: abs_divide flip: diff_divide_distrib)
qed

lemma scaled_near_inverse:
  fixes a p q :: real
  assumes "\<bar>2 * (a * p) - 2 * q\<bar> \<le> p" "0 < p" "0 < q"
  shows "\<bar>a / q - 1 / p\<bar> \<le> 1 / q / 2"
  using divided_near [OF assms(1), of "p * q"] assms(2,3) by (simp add: field_simps)

lemma table_row:
  assumes "i < 79" "kCachedPowers ! i = (f, e, k)"
  shows "k = 8 * int i - 300" "2 ^ 18 * (8 * int i - 300) < 78913 * (e + 64)"
    "78913 * (e + 34) < 2 ^ 18 * (8 * int i - 308)" "2 ^ 63 \<le> f" "f < 2 ^ 64" "power_near f e k"
proof -
  have ok: "k = 8 * int i - 300 \<and> 2 ^ 18 * (8 * int i - 300) < 78913 * (e + 64) \<and>
    78913 * (e + 34) < 2 ^ 18 * (8 * int i - 308) \<and> 2 ^ 63 \<le> f \<and> f < 2 ^ 64"
    using rows_ok_nth [OF table_ok, of i f e k] assms by (simp add: table_length)
  then show "k = 8 * int i - 300" "2 ^ 18 * (8 * int i - 300) < 78913 * (e + 64)"
    "78913 * (e + 34) < 2 ^ 18 * (8 * int i - 308)" "2 ^ 63 \<le> f" "f < 2 ^ 64" by simp_all
  show "power_near f e k"
  proof (cases "i < 38")
    case True
    have "rev (take 38 kCachedPowers) ! (37 - i) = (f, e, k)"
      using True assms by (simp add: rev_nth table_length)
    from rows_small_nth [OF small_rows _ this] True
    have near: "\<bar>2 * (f * 10 ^ (4 + 8 * (37 - i))) - 2 * 2 ^ nat (- e)\<bar> \<le> 10 ^ (4 + 8 * (37 - i))"
      by (simp add: table_length power_add)
    have exps: "e < 0" "k < 0" "4 + 8 * (37 - i) = nat (- k)" using ok True by auto
    let ?p = "10 ^ nat (- k) :: real" and ?q = "2 ^ nat (- e) :: real"
    have "\<bar>2 * (real_of_int f * ?p) - 2 * ?q\<bar> \<le> ?p"
      using near [unfolded exps(3), folded of_int_le_iff [where 'a = real]]
      by (simp only: of_int_abs of_int_diff of_int_mult of_int_power of_int_numeral)
    then have "\<bar>real_of_int f / ?q - 1 / ?p\<bar> \<le> 1 / ?q / 2" by (rule scaled_near_inverse) simp_all
    moreover have "(2 :: real) powi e = 1 / ?q" "(10 :: real) powi k = 1 / ?p"
      using exps by (simp_all add: power_int_def power_one_over inverse_eq_divide)
    ultimately show ?thesis unfolding power_near_def by (simp only: times_divide_eq_right mult_1_right)
  next
    case False
    have "drop 38 kCachedPowers ! (i - 38) = (f, e, k)" using False assms by (simp add: table_length)
    from rows_big_nth [OF big_rows _ this] False assms
    have near: "\<bar>2 * (f * 2 ^ nat e) - 2 * (10 ^ (4 + 8 * (i - 38)) * 2 ^ nat (- e))\<bar> \<le> 2 ^ nat e"
      by (simp add: table_length power_add)
    have exps: "0 \<le> k" "4 + 8 * (i - 38) = nat k" using ok False by auto
    let ?p = "10 ^ nat k :: real" and ?q = "2 ^ nat (- e) :: real" and ?r = "2 ^ nat e :: real"
    have "\<bar>2 * (real_of_int f * ?r) - 2 * (?p * ?q)\<bar> \<le> ?r"
      using near [unfolded exps(2), folded of_int_le_iff [where 'a = real]]
      by (simp only: of_int_abs of_int_diff of_int_mult of_int_power of_int_numeral)
    then have "\<bar>real_of_int f * ?r / ?q - ?p * ?q / ?q\<bar> \<le> ?r / ?q / 2" by (rule divided_near) simp
    then have "\<bar>real_of_int f * (?r / ?q) - ?p\<bar> \<le> ?r / ?q / 2" by simp
    with exps show ?thesis unfolding power_near_def powi_split by (simp add: power_int_def)
  qed
qed

text \<open>The index computation: \<open>n\<close> is the decimal exponent that is asked for.\<close>

lemma ceiling_bounds:
  fixes f :: int
  defines "n \<equiv> c_div (f * 78913) (push_bit 18 1) + (if f > 0 then 1 else 0)"
  shows "(n - 1) * 2 ^ 18 \<le> f * 78913" "f * 78913 \<le> n * 2 ^ 18"
proof -
  have "n = f * 78913 div 2 ^ 18 + 1" if "0 < f" using that by (simp add: n_def c_div_nonneg shift_left)
  moreover have "n = - ((- f * 78913) div 2 ^ 18)" if "\<not> 0 < f"
    using that by (simp add: n_def c_div_def sgn_if abs_if shift_left)
  ultimately show "(n - 1) * 2 ^ 18 \<le> f * 78913" "f * 78913 \<le> n * 2 ^ 18" by (cases "0 < f"; simp; presburger)+
qed

lemma cached_power:
  assumes "- 1137 \<le> q" "q \<le> 960"
  obtains f e k where "get_cached_power_for_binary_exponent q = Some (f, e, k)" "2 ^ 63 \<le> f" "f < 2 ^ 64"
    "- 60 \<le> q + e + 64" "q + e + 64 \<le> - 32" "power_near f e k" "- 300 \<le> k" "k \<le> 324"
proof -
  define g where "g = kAlpha - q - 1"
  define n where "n = c_div (g * 78913) (push_bit 18 1) + (if g > 0 then 1 else 0)"
  define i where "i = (307 + n) div 8"
  have g: "- 1021 \<le> g" "g \<le> 1076" "q = - 61 - g" using assms by (simp_all add: g_def kAlpha_def)
  have n: "(n - 1) * 2 ^ 18 \<le> g * 78913" "g * 78913 \<le> n * 2 ^ 18"
    using ceiling_bounds [of g] by (simp_all add: n_def)
  have n': "- 307 \<le> n" "n \<le> 324" using n g by simp_all
  then have i: "0 \<le> i" "i < 79" "c_div (300 + n + (8 - 1)) 8 = i" by (simp_all add: i_def c_div_nonneg)
  have d: "8 * i \<le> 307 + n" "307 + n < 8 * i + 8" by (simp_all add: i_def)
  obtain f e k where row: "kCachedPowers ! nat i = (f, e, k)" by (metis surj_pair)
  have "nat i < 79" "int (nat i) = i" using i by simp_all
  note r = table_row [OF this(1) row, unfolded this(2)]
  have "- 60 \<le> q + e + 64" "q + e + 64 \<le> - 32" using r n d g by simp_all
  moreover have "get_cached_power_for_binary_exponent q = Some (f, e, k)"
    unfolding get_cached_power_for_binary_exponent_def Let_def g_def [symmetric] n_def [symmetric] i(3)
    using i assms row calculation by (simp add: table_length kAlpha_def kGamma_def add.commute)
  ultimately show thesis using that r i by simp
qed

subsection \<open>The arithmetic is exact where it has to be\<close>

text \<open>
  The multiplication of two 64-bit significands with 32-bit partial products is the product
  rounded to its upper 64 bits, for all operands: no partial sum is lost to the wrap-around.
\<close>

theorem diyfp_mul_rounds:
  assumes "0 \<le> df_f x" "df_f x < 2 ^ 64" "0 \<le> df_f y" "df_f y < 2 ^ 64"
  shows "df_f (diyfp_mul x y) = (df_f x * df_f y + 2 ^ 63) div 2 ^ 64 \<and> df_e (diyfp_mul x y) = df_e x + df_e y + 64"
  using mul_rounds [of x y] assms by (simp add: u64_range_def diyfp_mul_def Let_def)

theorem diyfp_mul_rounds_witness:
  "df_f (diyfp_mul \<lparr>df_f = 2 ^ 64 - 1, df_e = 0\<rparr> \<lparr>df_f = 2 ^ 64 - 1, df_e = 0\<rparr>) = 2 ^ 64 - 2"
  using diyfp_mul_rounds [of "\<lparr>df_f = 2 ^ 64 - 1, df_e = 0\<rparr>" "\<lparr>df_f = 2 ^ 64 - 1, df_e = 0\<rparr>"] by simp

text \<open>
  For the exponent of every normalised double the computed index lies in the table, the entry
  brings the product into the range of the digit generation, and its significand is the power of
  ten to within half a unit of its last place.
\<close>

theorem cached_power_suitable:
  assumes "- 1137 \<le> q" "q \<le> 960"
  shows "\<exists>f e k. get_cached_power_for_binary_exponent q = Some (f, e, k) \<and> 2 ^ 63 \<le> f \<and> f < 2 ^ 64 \<and>
    kAlpha \<le> q + e + 64 \<and> q + e + 64 \<le> kGamma \<and> \<bar>real_of_int f * 2 powi e - 10 powi k\<bar> \<le> 2 powi e / 2"
  using cached_power [OF assms] unfolding kAlpha_def kGamma_def power_near_def by metis

theorem cached_power_suitable_witness:
  "\<exists>f e k. get_cached_power_for_binary_exponent (- 63) = Some (f, e, k) \<and> kAlpha \<le> - 63 + e + 64 \<and>
    \<bar>real_of_int f * 2 powi e - 10 powi k\<bar> \<le> 2 powi e / 2"
  using cached_power_suitable [of "- 63"] by auto

end
