(* ===== verification/NDigits.thy ===== *)
theory NDigits
  imports NGrisu
begin

text \<open>
  The digit generation of Grisu2 (\<^verbatim>\<open>grisu2_digit_gen\<close>, \<^verbatim>\<open>grisu2_round\<close>): on every run the digits denote a
  number between the two ends of the interval, no assertion fails, no 64-bit operation wraps, the
  loop over the fraction ends, and neither the first nor the last digit is a zero.
\<close>

definition dec :: "int list \<Rightarrow> int" where
  "dec = foldl (\<lambda>n c. n * 10 + (c - 0x30)) 0"

definition digits :: "int list \<Rightarrow> bool" where
  "digits buf \<longleftrightarrow> (\<forall>c\<in>set buf. 0x30 \<le> c \<and> c \<le> 0x39)"

definition leading :: "int list \<Rightarrow> bool" where
  "leading buf \<longleftrightarrow> buf = [] \<or> hd buf \<noteq> 0x30"

lemma dec_simps [simp]: "dec [] = 0" "dec (b @ [c]) = dec b * 10 + (c - 0x30)"
  by (simp_all add: dec_def)

lemma dec_single [simp]: "dec [c] = c - 0x30"
  by (simp add: dec_def)

lemma digits_simps [simp]: "digits []" "digits (b @ c) \<longleftrightarrow> digits b \<and> digits c"
  "digits (x # c) \<longleftrightarrow> 0x30 \<le> x \<and> x \<le> 0x39 \<and> digits c"
  by (auto simp: digits_def)

lemma leading_append: "leading b \<Longrightarrow> (b = [] \<Longrightarrow> 1 \<le> d) \<Longrightarrow> leading (b @ [0x30 + d])"
  by (cases b) (auto simp: leading_def)

lemma leading_dec: "digits b \<Longrightarrow> leading b \<Longrightarrow> b \<noteq> [] \<Longrightarrow> 10 ^ (length b - 1) \<le> dec b"
proof (induction b rule: rev_induct)
  case (snoc c b)
  show ?case
  proof (cases "b = []")
    case True
    then show ?thesis using snoc.prems by (auto simp: leading_def)
  next
    case False
    then have "leading b" using snoc.prems by (auto simp: leading_def)
    with snoc False have "10 ^ (length b - 1) \<le> dec b" "0x30 \<le> c" by simp_all
    moreover have "(10 :: int) ^ length b = 10 * 10 ^ (length b - 1)" using False by (cases b) simp_all
    ultimately show ?thesis by simp
  qed
qed simp

subsection \<open>Rounding\<close>

lemma round_loop_ok:
  assumes "0 < unit" "0 \<le> rest" "rest \<le> delta" "delta < 2 ^ 64" "0 \<le> d" "delta < rest + d * unit"
  shows "\<exists>d'. round_loop ds delta unit rest (0x30 + d) = Some (0x30 + d') \<and> 1 \<le> d' \<and> d' \<le> d \<and>
    rest + (d - d') * unit \<le> delta"
  using assms(2,3,5,6)
proof (induction "nat d" arbitrary: d rest)
  case 0
  then show ?case by simp
next
  case (Suc n)
  have d: "1 \<le> d" "n = nat (d - 1)" using Suc.hyps(2) by simp_all
  show ?case
  proof (cases "rest < ds \<and> wrap64 (delta - rest) \<ge> unit
      \<and> (wrap64 (rest + unit) < ds \<or> wrap64 (ds - rest) > wrap64 (rest + unit - ds))")
    case True
    have w: "wrap64 (delta - rest) = delta - rest" using Suc.prems assms(4) by (simp add: wrap64_id)
    with True have le: "rest + unit \<le> delta" by linarith
    then have "wrap64 (rest + unit) = rest + unit" using Suc.prems assms(1,4) by (simp add: wrap64_id)
    then have "round_loop ds delta unit rest (0x30 + d) = round_loop ds delta unit (rest + unit) (0x30 + (d - 1))"
      using True d by (subst round_loop.simps) (simp add: add_diff_eq)
    moreover have "delta < rest + unit + (d - 1) * unit" using Suc.prems by (simp add: algebra_simps)
    then obtain d' where "round_loop ds delta unit (rest + unit) (0x30 + (d - 1)) = Some (0x30 + d')"
      "1 \<le> d'" "d' \<le> d - 1" "rest + unit + (d - 1 - d') * unit \<le> delta"
      using Suc.hyps(1) [OF d(2), of "rest + unit"] Suc.prems assms(1) d le by auto
    ultimately show ?thesis by (intro exI [of _ d']) (simp add: algebra_simps)
  next
    case False
    then show ?thesis using Suc.prems d by (subst round_loop.simps) (auto intro!: exI [of _ d])
  qed
qed

text \<open>
  What the digits are to satisfy: they denote, in multiples of \<open>unit\<close>, a number in the interval of
  length \<open>delta\<close> below \<open>T\<close>, and without the last digit the interval was too small for a stop.
\<close>

definition in_interval :: "int \<Rightarrow> int \<Rightarrow> int \<Rightarrow> int list \<Rightarrow> bool" where
  "in_interval T delta unit buf \<longleftrightarrow>
     buf \<noteq> [] \<and> digits buf \<and> leading buf \<and> leading (butlast buf) \<and> last buf \<noteq> 0x30 \<and>
     T - delta \<le> dec buf * unit \<and> dec buf * unit \<le> T \<and>
     dec (butlast buf) * 10 * unit \<le> T \<and> delta < 10 * unit"

lemma round_digit:
  assumes "0 < unit" "0 \<le> rest" "rest \<le> delta" "delta < 2 ^ 64" "0 \<le> d" "d \<le> 9"
    and "delta < d * unit + rest" "d * unit + rest < 10 * unit" "ds \<le> delta"
    and "digits b" "leading b" "T = dec b * 10 * unit + d * unit + rest"
  obtains buf where "grisu2_round (b @ [0x30 + d]) ds delta rest unit = Some buf" "in_interval T delta unit buf"
proof -
  obtain d' where d': "round_loop ds delta unit rest (0x30 + d) = Some (0x30 + d')" "1 \<le> d'" "d' \<le> d"
    "rest + (d - d') * unit \<le> delta"
    using round_loop_ok [OF assms(1-5)] assms(7) by (auto simp: add.commute)
  have "d' * unit \<le> d * unit" using d' assms(1) by (intro mult_right_mono) auto
  with assms(2) have "d' * unit \<le> d * unit + rest" by linarith
  then have "in_interval T delta unit (b @ [0x30 + d'])"
    using d' assms leading_append [of b d'] unfolding in_interval_def by (simp add: algebra_simps)
  then show thesis using that d' assms by (simp add: grisu2_round_def)
qed

subsection \<open>The integral part\<close>

lemma gen_integral_ok:
  assumes "0 \<le> p1" "p1 < 10 ^ n" "n \<noteq> 0 \<Longrightarrow> pow10 = 10 ^ (n - 1)" "0 \<le> p2" "p2 < 2 ^ s"
    and "delta < p1 * 2 ^ s + p2" "p1 * 2 ^ s + p2 < 2 ^ 64" "10 ^ (n - 1) * 2 ^ s < (2 :: int) ^ 64"
    and "delta < 2 ^ 64" "ds \<le> delta" "digits b" "leading b" "b = [] \<Longrightarrow> n \<noteq> 0 \<Longrightarrow> pow10 \<le> p1"
    and "T = dec b * 10 ^ n * 2 ^ s + p1 * 2 ^ s + p2"
  shows "(\<exists>buf m. gen_integral s p2 ds delta n p1 pow10 b = Some (Inl (buf, m)) \<and> m < n \<and>
             in_interval T delta (10 ^ m * 2 ^ s) buf)
       \<or> (\<exists>buf. gen_integral s p2 ds delta n p1 pow10 b = Some (Inr buf) \<and> digits buf \<and> leading buf \<and>
             T = dec buf * 2 ^ s + p2 \<and> delta < p2 \<and> length buf = length b + n)"
  using assms
proof (induction n arbitrary: p1 pow10 b)
  case 0
  then have "p1 = 0" by simp
  with 0 show ?case by simp
next
  case (Suc m)
  define d where "d = p1 div 10 ^ m"
  define r where "r = p1 mod 10 ^ m"
  define u :: int where "u = 10 ^ m * 2 ^ s"
  have pow [simp]: "pow10 = 10 ^ m" using Suc.prems(3) by simp
  have u: "0 < u" "u < 2 ^ 64" "wrap64 (push_bit s pow10) = u"
    using Suc.prems(8) by (simp_all add: u_def shift_left wrap64_id)
  have "p1 = d * 10 ^ m + r" unfolding d_def r_def by (rule div_mult_mod_eq [symmetric])
  moreover have "0 \<le> r" "r < 10 ^ m" "0 \<le> d"
    using Suc.prems(1) by (simp_all add: d_def r_def pos_imp_zdiv_nonneg_iff)
  ultimately have dr: "p1 = d * 10 ^ m + r" "0 \<le> r" "r < 10 ^ m" "0 \<le> d" .
  have d9: "d \<le> 9"
  proof (rule ccontr)
    assume "\<not> d \<le> 9"
    then have "10 * 10 ^ m \<le> d * 10 ^ m" by (intro mult_right_mono) auto
    with dr(1,2) Suc.prems(2) show False by simp
  qed
  note dr = dr d9
  have split: "p1 * 2 ^ s + p2 = d * u + (r * 2 ^ s + p2)" using dr(1) by (simp add: u_def algebra_simps)
  have "r * 2 ^ s \<le> (10 ^ m - 1) * 2 ^ s" using dr by (intro mult_right_mono) auto
  then have rest: "0 \<le> r * 2 ^ s + p2" "r * 2 ^ s + p2 < u"
    using dr(2) Suc.prems(4,5) by (simp_all add: u_def algebra_simps)
  then have wrap: "wrap64 (wrap64 (push_bit s r) + p2) = r * 2 ^ s + p2"
    using dr(2) Suc.prems(4) u(2) by (simp add: shift_left wrap64_id)
  have step: "gen_integral s p2 ds delta (Suc m) p1 pow10 b =
      (if r * 2 ^ s + p2 \<le> delta
       then map_option (\<lambda>b. Inl (b, m)) (grisu2_round (b @ [0x30 + d]) ds delta (r * 2 ^ s + p2) u)
       else gen_integral s p2 ds delta m r (10 ^ m div 10) (b @ [0x30 + d]))"
    using dr u(3) by (simp add: Let_def wrap flip: d_def r_def)
  have d1: "1 \<le> d" if "b = []"
  proof (rule ccontr)
    assume "\<not> 1 \<le> d"
    with dr have "d = 0" by simp
    with dr have "p1 < 10 ^ m" by simp
    with Suc.prems(13) that show False by simp
  qed
  show ?case
  proof (cases "r * 2 ^ s + p2 \<le> delta")
    case True
    have "d * u \<le> 9 * u" using dr u by (intro mult_right_mono) auto
    with rest have top: "d * u + (r * 2 ^ s + p2) < 10 * u" by linarith
    have T: "T = dec b * 10 * u + d * u + (r * 2 ^ s + p2)" using Suc.prems(14) split by (simp add: u_def)
    obtain buf where "grisu2_round (b @ [0x30 + d]) ds delta (r * 2 ^ s + p2) u = Some buf" "in_interval T delta u buf"
      by (rule round_digit [OF u(1) rest(1) True Suc.prems(9) dr(4,5) Suc.prems(6) [unfolded split] top Suc.prems(10,11,12) T])
    with True step show ?thesis unfolding u_def by auto
  next
    case False
    have "(\<exists>buf k. gen_integral s p2 ds delta m r (10 ^ m div 10) (b @ [0x30 + d]) = Some (Inl (buf, k)) \<and> k < m \<and>
             in_interval T delta (10 ^ k * 2 ^ s) buf)
       \<or> (\<exists>buf. gen_integral s p2 ds delta m r (10 ^ m div 10) (b @ [0x30 + d]) = Some (Inr buf) \<and> digits buf \<and> leading buf \<and>
             T = dec buf * 2 ^ s + p2 \<and> delta < p2 \<and> length buf = length (b @ [0x30 + d]) + m)"
    proof (rule Suc.IH)
      show "10 ^ m div 10 = (10 :: int) ^ (m - 1)" if "m \<noteq> 0" using that by (cases m) simp_all
      show "r * 2 ^ s + p2 < 2 ^ 64" using rest(2) u(2) by linarith
      have "(10 :: int) ^ (m - 1) * 2 ^ s \<le> u" unfolding u_def by (intro mult_right_mono power_increasing) auto
      then show "(10 :: int) ^ (m - 1) * 2 ^ s < 2 ^ 64" using u(2) by linarith
      show "T = dec (b @ [0x30 + d]) * 10 ^ m * 2 ^ s + r * 2 ^ s + p2"
        using Suc.prems(14) dr(1) by (simp add: algebra_simps)
    qed (use False Suc.prems dr leading_append [of b d] d1 in auto)
    with False step show ?thesis by auto
  qed
qed

subsection \<open>The fractional part\<close>

lemma gen_fractional_ok:
  assumes "s \<le> 60" "0 < delta" "delta < p2" "p2 < 2 ^ s" "0 \<le> ds" "ds \<le> delta"
    and "digits b" "leading b" "b \<noteq> []" "T = dec b * 2 ^ s + p2"
  shows "\<exists>j buf r ds' buf'. gen_fractional s p2 ds delta m b = Some (buf, r, ds', delta * 10 ^ j, m + j) \<and>
    grisu2_round buf ds' (delta * 10 ^ j) r (2 ^ s) = Some buf' \<and>
    in_interval (T * 10 ^ j) (delta * 10 ^ j) (2 ^ s) buf'"
  using assms(2-)
proof (induction "nat (2 ^ s - delta)" arbitrary: delta p2 ds m b T rule: less_induct)
  case less
  define d where "d = p2 * 10 div 2 ^ s"
  define r where "r = p2 * 10 mod 2 ^ s"
  have "(2 :: int) ^ s \<le> 2 ^ 60" using assms(1) by (rule power_increasing) simp
  then have small: "p2 * 10 < 2 ^ 64" "p2 \<le> (2 ^ 64 - 1) div 10" using less.prems by simp_all
  then have wraps: "wrap64 (p2 * 10) = p2 * 10" "wrap64 (delta * 10) = delta * 10" "wrap64 (ds * 10) = ds * 10"
    using less.prems by (simp_all add: wrap64_id)
  have "p2 * 10 = d * 2 ^ s + r" unfolding d_def r_def by (rule div_mult_mod_eq [symmetric])
  moreover have "0 \<le> r" "r < 2 ^ s" "0 \<le> d"
    using less.prems by (simp_all add: d_def r_def pos_imp_zdiv_nonneg_iff)
  ultimately have dr: "p2 * 10 = d * 2 ^ s + r" "0 \<le> r" "r < 2 ^ s" "0 \<le> d" .
  have d9: "d \<le> 9"
  proof (rule ccontr)
    assume "\<not> d \<le> 9"
    then have "10 * 2 ^ s \<le> d * 2 ^ s" by (intro mult_right_mono) auto
    with dr(1,2) less.prems show False by simp
  qed
  have parts: "drop_bit s (p2 * 10) = d" "p2 * 10 AND (push_bit s 1 - 1) = r"
    by (simp_all add: d_def r_def shift_right shift_left and_low)
  have step: "gen_fractional s p2 ds delta m b =
      (if r \<le> delta * 10 then Some (b @ [0x30 + d], r, ds * 10, delta * 10, m + 1)
       else gen_fractional s r (ds * 10) (delta * 10) (m + 1) (b @ [0x30 + d]))"
    by (subst gen_fractional.simps) (simp only: Let_def wraps parts small(2) d9 if_True)
  have T: "T * 10 = dec b * 10 * 2 ^ s + d * 2 ^ s + r" using less.prems dr(1) by simp
  show ?case
  proof (cases "r \<le> delta * 10")
    case True
    have "delta * 10 < d * 2 ^ s + r" "d * 2 ^ s + r < 10 * 2 ^ s" "delta * 10 < 2 ^ 64" "ds * 10 \<le> delta * 10"
      using less.prems dr(1) small by linarith+
    then obtain buf where "grisu2_round (b @ [0x30 + d]) (ds * 10) (delta * 10) r (2 ^ s) = Some buf"
      "in_interval (T * 10) (delta * 10) (2 ^ s) buf"
      using round_digit [of "2 ^ s" r "delta * 10" d "ds * 10" b "T * 10"] True dr d9 T less.prems by auto
    with True step show ?thesis by (intro exI [of _ 1]) simp
  next
    case False
    have "nat (2 ^ s - delta * 10) < nat (2 ^ s - delta)" using less.prems by simp
    moreover have "delta * 10 < r" "T * 10 = dec (b @ [0x30 + d]) * 2 ^ s + r" using False T by (simp_all add: algebra_simps)
    moreover have "digits (b @ [0x30 + d])" "leading (b @ [0x30 + d])" "b @ [0x30 + d] \<noteq> []"
      using less.prems dr d9 leading_append [of b d] by simp_all
    ultimately obtain j buf r' ds' buf' where
      "gen_fractional s r (ds * 10) (delta * 10) (m + 1) (b @ [0x30 + d]) = Some (buf, r', ds', delta * 10 * 10 ^ j, m + 1 + j)"
      "grisu2_round buf ds' (delta * 10 * 10 ^ j) r' (2 ^ s) = Some buf'"
      "in_interval (T * 10 * 10 ^ j) (delta * 10 * 10 ^ j) (2 ^ s) buf'"
      using less.hyps [of "delta * 10" r "ds * 10" "b @ [0x30 + d]" "T * 10" "m + 1"] less.prems dr(3) by auto
    with False step show ?thesis by (intro exI [of _ "Suc j"]) (simp add: mult.assoc)
  qed
qed

subsection \<open>The interval\<close>

lemma find_largest_pow10_ok:
  assumes "0 < n" "n < 2 ^ 32"
  obtains k where "find_largest_pow10 n = (Suc k, 10 ^ k)" "10 ^ k \<le> n" "n < 10 ^ Suc k" "k \<le> 9"
proof -
  consider "n < 10" | "10 \<le> n" "n < 100" | "100 \<le> n" "n < 1000" | "1000 \<le> n" "n < 10000"
    | "10000 \<le> n" "n < 100000" | "100000 \<le> n" "n < 1000000" | "1000000 \<le> n" "n < 10000000"
    | "10000000 \<le> n" "n < 100000000" | "100000000 \<le> n" "n < 1000000000" | "1000000000 \<le> n" by linarith
  then show thesis
    using assms that [of 0] that [of 1] that [of 2] that [of 3] that [of 4] that [of 5] that [of 6] that [of 7] that [of 8] that [of 9]
    by cases (simp_all add: find_largest_pow10_def)
qed

lemma digit_gen_ok:
  assumes "df_e M_minus = - int s" "df_e w = - int s" "df_e M_plus = - int s" "32 \<le> s" "s \<le> 60"
    and "0 < df_f M_minus" "df_f M_minus \<le> df_f w" "df_f w \<le> df_f M_plus" "df_f M_minus < df_f M_plus"
    and "2 ^ 60 \<le> df_f M_plus" "df_f M_plus < 2 ^ 64"
  defines "delta \<equiv> df_f M_plus - df_f M_minus"
  shows "\<exists>buf m j. grisu2_digit_gen x M_minus w M_plus = Some (buf, x + int m - int j) \<and> m \<le> 9 \<and>
    in_interval (df_f M_plus * 10 ^ j) (delta * 10 ^ j) (10 ^ m * 2 ^ s) buf"
proof -
  define ds where "ds = df_f M_plus - df_f w"
  define p1 where "p1 = df_f M_plus div 2 ^ s"
  define p2 where "p2 = df_f M_plus mod 2 ^ s"
  have e: "nat (- df_e M_plus) = s" "df_e M_plus \<ge> kAlpha" "df_e M_plus \<le> kGamma"
    using assms(3-5) by (simp_all add: kAlpha_def kGamma_def)
  have range: "0 < delta" "delta < df_f M_plus" "delta < 2 ^ 64" "0 \<le> ds" "ds \<le> delta"
    using assms(6-11) by (simp_all add: delta_def ds_def)
  have subs: "diyfp_sub M_plus M_minus = Some \<lparr>df_f = delta, df_e = - int s\<rparr>"
    "diyfp_sub M_plus w = Some \<lparr>df_f = ds, df_e = - int s\<rparr>"
    using assms(1-3,6-9) range by (simp_all add: diyfp_sub_def wrap64_id flip: delta_def ds_def)
  have "(2 :: int) ^ s \<le> 2 ^ 60" "(2 :: int) ^ 32 \<le> 2 ^ s"
    by (rule power_increasing; use assms(4,5) in simp)+
  then have "(2 :: int) ^ s \<le> 2 ^ 60" "(2 :: int) ^ 32 \<le> 2 ^ s" "(2 :: int) ^ s < 2 ^ 64" by simp_all
  then have one: "wrap64 (push_bit s 1) = 2 ^ s" by (simp add: shift_left wrap64_id)
  have total: "df_f M_plus = p1 * 2 ^ s + p2" unfolding p1_def p2_def by (rule div_mult_mod_eq [symmetric])
  have p2: "0 \<le> p2" "p2 < 2 ^ s" by (simp_all add: p2_def)
  have "2 ^ s * 1 \<le> df_f M_plus" using \<open>(2 :: int) ^ s \<le> 2 ^ 60\<close> assms(10) by linarith
  then have "0 < p1" unfolding p1_def by (simp add: pos_imp_zdiv_pos_iff)
  have "p1 \<le> df_f M_plus div 2 ^ 32"
    unfolding p1_def using \<open>(2 :: int) ^ 32 \<le> 2 ^ s\<close> assms(10) by (intro zdiv_mono2) auto
  then have "p1 < 2 ^ 32" using assms(11) by simp
  have p1: "wrap32 (drop_bit s (df_f M_plus)) = p1" "df_f M_plus AND (2 ^ s - 1) = p2"
    using \<open>0 < p1\<close> \<open>p1 < 2 ^ 32\<close> by (simp_all add: shift_right wrap32_id and_low p2_def flip: p1_def)
  obtain k where k: "find_largest_pow10 p1 = (Suc k, 10 ^ k)" "10 ^ k \<le> p1" "p1 < 10 ^ Suc k" "k \<le> 9"
    using find_largest_pow10_ok [OF \<open>0 < p1\<close> \<open>p1 < 2 ^ 32\<close>] .
  have "10 ^ k * 2 ^ s \<le> p1 * 2 ^ s" using k by (intro mult_right_mono) auto
  then have "(10 :: int) ^ k * 2 ^ s < 2 ^ 64" using total p2 assms(11) by linarith
  then have "(\<exists>buf m. gen_integral s p2 ds delta (Suc k) p1 (10 ^ k) [] = Some (Inl (buf, m)) \<and> m < Suc k \<and>
             in_interval (df_f M_plus) delta (10 ^ m * 2 ^ s) buf)
       \<or> (\<exists>buf. gen_integral s p2 ds delta (Suc k) p1 (10 ^ k) [] = Some (Inr buf) \<and> digits buf \<and> leading buf \<and>
             df_f M_plus = dec buf * 2 ^ s + p2 \<and> delta < p2 \<and> length buf = length ([] :: int list) + Suc k)"
    by (intro gen_integral_ok) (use total p2 \<open>0 < p1\<close> k range assms(11) in \<open>auto simp: leading_def\<close>)
  moreover have gen: "grisu2_digit_gen x M_minus w M_plus =
      (case gen_integral s p2 ds delta (Suc k) p1 (10 ^ k) [] of
         None \<Rightarrow> None
       | Some (Inl (buffer, n)) \<Rightarrow> Some (buffer, x + int n)
       | Some (Inr buffer) \<Rightarrow>
           check (p2 > delta)
             (case gen_fractional s p2 ds delta 0 buffer of
                None \<Rightarrow> None
              | Some (buffer', r, ds', delta', m) \<Rightarrow>
                  map_option (\<lambda>b. (b, x - int m)) (grisu2_round buffer' ds' delta' r (2 ^ s))))"
    unfolding grisu2_digit_gen_def subs option.case diyfp.select_convs Let_def e(1) one p1 k(1) prod.case
    using e(2,3) \<open>0 < p1\<close> by (simp only: check_True)
  ultimately consider (integral) buf m where
      "gen_integral s p2 ds delta (Suc k) p1 (10 ^ k) [] = Some (Inl (buf, m))" "m \<le> 9"
      "in_interval (df_f M_plus) delta (10 ^ m * 2 ^ s) buf"
    | (fractional) buf where "gen_integral s p2 ds delta (Suc k) p1 (10 ^ k) [] = Some (Inr buf)"
      "digits buf" "leading buf" "df_f M_plus = dec buf * 2 ^ s + p2" "delta < p2" "buf \<noteq> []"
    using k(4) by fastforce
  then show ?thesis
  proof cases
    case integral
    then show ?thesis by (intro exI [of _ buf] exI [of _ m] exI [of _ 0]) (simp add: gen)
  next
    case fractional
    then obtain j b r ds' buf' where
      "gen_fractional s p2 ds delta 0 buf = Some (b, r, ds', delta * 10 ^ j, 0 + j)"
      "grisu2_round b ds' (delta * 10 ^ j) r (2 ^ s) = Some buf'"
      "in_interval (df_f M_plus * 10 ^ j) (delta * 10 ^ j) (2 ^ s) buf'"
      using gen_fractional_ok [of s delta p2 ds buf "df_f M_plus" 0] assms(5) range p2 by blast
    with fractional show ?thesis
      by (intro exI [of _ buf'] exI [of _ 0] exI [of _ j]) (simp add: gen del: gen_integral.simps)
  qed
qed

end
