(* ===== verification/NDoubles.thy ===== *)
theory NDoubles
  imports NDigits
begin

text \<open>
  What \<^verbatim>\<open>grisu2\<close> computes: the digits and the exponent denote a number strictly between the
  midpoints to the neighbouring doubles.
\<close>

subsection \<open>Scaled products\<close>

definition scaled :: "int \<Rightarrow> int \<Rightarrow> int" where
  "scaled f x = (x * f + 2 ^ 63) div 2 ^ 64"

lemma div_bounds:
  fixes a m :: int
  assumes "0 < m"
  shows "a div m * m \<le> a" "a - m < a div m * m"
  using assms div_mult_mod_eq [of a m] pos_mod_bound [of m a] pos_mod_sign [of m a] by linarith+

lemma scaled_bounds: "scaled f x * 2 ^ 64 \<le> x * f + 2 ^ 63" "x * f - 2 ^ 63 < scaled f x * 2 ^ 64"
  using div_bounds [of "2 ^ 64" "x * f + 2 ^ 63"] unfolding scaled_def by simp_all

lemma scaled_gap:
  assumes "x + d * 2 \<le> y" "2 ^ 63 \<le> f" "0 \<le> d"
  shows "scaled f x + d \<le> scaled f y"
proof -
  have "d * 2 * f \<le> (y - x) * f" using assms by (intro mult_right_mono) auto
  moreover have "d * 2 * 2 ^ 63 \<le> d * 2 * f" using assms by (intro mult_left_mono) auto
  ultimately have "x * f + 2 ^ 63 + d * 2 ^ 64 \<le> y * f + 2 ^ 63" by (simp add: algebra_simps)
  then have "(x * f + 2 ^ 63 + d * 2 ^ 64) div 2 ^ 64 \<le> (y * f + 2 ^ 63) div 2 ^ 64" by (rule zdiv_mono1) simp
  then show ?thesis by (simp add: scaled_def)
qed

lemma scaled_near:
  fixes c :: real
  assumes "\<bar>real_of_int f - c\<bar> \<le> 1 / 2" "0 \<le> x" "x < 2 ^ 64"
  shows "\<bar>real_of_int (scaled f x) - real_of_int x * c / 2 ^ 64\<bar> < 1"
proof -
  have two: "(2 :: real) ^ 64 = 2 * 2 ^ 63" by simp
  have "real_of_int (scaled f x * 2 ^ 64) \<le> real_of_int (x * f + 2 ^ 63)"
    "real_of_int (x * f - 2 ^ 63) < real_of_int (scaled f x * 2 ^ 64)"
    using scaled_bounds [where f = f and x = x] by (simp_all only: of_int_le_iff of_int_less_iff)
  then have a: "\<bar>real_of_int (scaled f x) * 2 ^ 64 - real_of_int x * real_of_int f\<bar> \<le> 2 ^ 63" by (simp add: abs_le_iff)
  have "\<bar>real_of_int x * (real_of_int f - c)\<bar> \<le> real_of_int x * (1 / 2)"
    unfolding abs_mult using assms by (intro mult_mono) auto
  moreover have "real_of_int x < real_of_int (2 ^ 64)" using assms(3) by (simp only: of_int_less_iff)
  then have "real_of_int x < 2 ^ 64" by simp
  ultimately have "\<bar>real_of_int x * real_of_int f - real_of_int x * c\<bar> < 2 ^ 63"
    unfolding right_diff_distrib using two by linarith
  with a two have "\<bar>real_of_int (scaled f x) * 2 ^ 64 - real_of_int x * c\<bar> < 2 ^ 64" by linarith
  moreover have "real_of_int (scaled f x) - real_of_int x * c / 2 ^ 64 = (real_of_int (scaled f x) * 2 ^ 64 - real_of_int x * c) / 2 ^ 64"
    by (simp add: field_simps)
  ultimately show ?thesis by (simp add: abs_divide)
qed

lemma mul_scaled:
  assumes "0 \<le> x" "x < 2 ^ 64" "2 ^ 63 \<le> f" "f < 2 ^ 64"
  shows "diyfp_mul \<lparr>df_f = x, df_e = q\<rparr> \<lparr>df_f = f, df_e = e\<rparr> = \<lparr>df_f = scaled f x, df_e = q + e + 64\<rparr>"
    "0 \<le> scaled f x" "scaled f x < 2 ^ 64"
proof -
  let ?p = "diyfp_mul \<lparr>df_f = x, df_e = q\<rparr> \<lparr>df_f = f, df_e = e\<rparr>"
  have "df_f ?p = scaled f x" "u64_range (df_f ?p)"
    using mul_rounds [of "\<lparr>df_f = x, df_e = q\<rparr>" "\<lparr>df_f = f, df_e = e\<rparr>"] assms
    by (simp_all add: u64_range_def scaled_def)
  moreover have "df_e ?p = q + e + 64" by (simp add: diyfp_mul_def Let_def)
  ultimately show "?p = \<lparr>df_f = scaled f x, df_e = q + e + 64\<rparr>" "0 \<le> scaled f x" "scaled f x < 2 ^ 64"
    by (simp_all add: u64_range_def)
qed

lemma interval_digits:
  assumes "in_interval (T * 10 ^ j) (delta * 10 ^ j) unit buf" "T \<le> 10 ^ 16 * delta" "0 < unit"
  shows "length buf \<le> 17"
proof (rule ccontr)
  assume long: "\<not> length buf \<le> 17"
  let ?b = "butlast buf"
  have b: "digits ?b" "leading ?b" "dec ?b * 10 * unit \<le> T * 10 ^ j" "delta * 10 ^ j < 10 * unit"
    using assms(1) by (auto simp: in_interval_def digits_def dest: in_set_butlastD)
  have "?b \<noteq> []" "16 \<le> length ?b - 1" using long by (auto simp flip: length_0_conv)
  have "(10 :: int) ^ 16 \<le> 10 ^ (length ?b - 1)" using \<open>16 \<le> length ?b - 1\<close> by (rule power_increasing) simp
  also have "\<dots> \<le> dec ?b" by (rule leading_dec) (use b \<open>?b \<noteq> []\<close> in auto)
  finally have "10 ^ 16 * (10 * unit) \<le> dec ?b * (10 * unit)" using assms(3) by (intro mult_right_mono) auto
  moreover have "10 ^ 16 * (delta * 10 ^ j) < 10 ^ 16 * (10 * unit)" using b(4) by simp
  moreover have "T * 10 ^ j \<le> (10 ^ 16 * delta) * 10 ^ j" using assms(2) by (rule mult_right_mono) simp
  moreover have "(10 ^ 16 * delta) * 10 ^ j = 10 ^ 16 * (delta * 10 ^ j)" "dec ?b * 10 * unit = dec ?b * (10 * unit)"
    by simp_all
  ultimately show False using b(3) by linarith
qed

subsection \<open>From the scaled interval back\<close>

definition decimal :: "int list \<Rightarrow> int \<Rightarrow> real" where
  "decimal buf e = real_of_int (dec buf) * 10 powi e"

lemma interval_value:
  fixes unit :: int
  assumes "in_interval (P * 10 ^ j) ((P - M) * 10 ^ j) (10 ^ m * 2 ^ s) buf"
  shows "real_of_int M * 2 powi - int s \<le> decimal buf (int m - int j)"
    "decimal buf (int m - int j) \<le> real_of_int P * 2 powi - int s"
proof -
  have "M * 10 ^ j \<le> dec buf * (10 ^ m * 2 ^ s)" "dec buf * (10 ^ m * 2 ^ s) \<le> P * 10 ^ j"
    using assms by (simp_all add: in_interval_def algebra_simps)
  then have "real_of_int (M * 10 ^ j) \<le> real_of_int (dec buf * (10 ^ m * 2 ^ s))"
    "real_of_int (dec buf * (10 ^ m * 2 ^ s)) \<le> real_of_int (P * 10 ^ j)"
    by (simp_all only: of_int_le_iff)
  then show "real_of_int M * 2 powi - int s \<le> decimal buf (int m - int j)"
    "decimal buf (int m - int j) \<le> real_of_int P * 2 powi - int s"
    by (simp_all add: decimal_def power_int_diff power_int_minus field_simps)
qed

lemma decimal_shift: "decimal buf (i + k) = decimal buf i * 10 powi k"
  by (simp add: decimal_def power_int_add)

lemma scale_back:
  assumes "q + e + 64 = - int s"
  shows "real_of_int x * (10 powi k / 2 powi e) / 2 ^ 64 * 2 powi - int s * 10 powi - k = real_of_int x * 2 powi q"
proof -
  have "(2 :: real) powi - int s = 2 powi q * 2 powi e * 2 ^ 64"
    using assms by (simp add: power_int_add [symmetric] flip: power_int_numeral)
  then show ?thesis by (simp add: power_int_minus field_simps)
qed

text \<open>The interval in units of the scaled numbers: \<open>l\<close>, \<open>w\<close> and \<open>p\<close> are the products.\<close>

lemma scaled_interval:
  assumes "2 ^ 63 \<le> f" "f < 2 ^ 64" "0 \<le> L" "L + 512 \<le> W" "W + 1024 \<le> P" "P < 2 ^ 64" "2 ^ 63 \<le> P"
    "P \<le> 2 ^ 53 * (P - L)"
  defines "l \<equiv> scaled f L" and "w \<equiv> scaled f W" and "p \<equiv> scaled f P"
  shows "l + 256 \<le> w" "w + 512 \<le> p" "2 ^ 61 \<le> p" "p \<le> 10 ^ 16 * (p - l - 2)"
proof -
  show lw: "l + 256 \<le> w" "w + 512 \<le> p"
    using scaled_gap [of L 256 W f] scaled_gap [of W 512 P f] assms(1-5) by (simp_all add: l_def w_def p_def)
  have "2 ^ 63 * 2 ^ 63 \<le> P * f" using assms(1,7) by (intro mult_mono) auto
  with scaled_bounds(2) [of P f] show "2 ^ 61 \<le> p" by (simp add: p_def scaled_def)
  define D where "D = (P - L) * f"
  have "1536 * 2 ^ 63 \<le> D" unfolding D_def using assms(1,4,5) by (intro mult_mono) auto
  moreover have "P * f \<le> 2 ^ 53 * (P - L) * f" using assms(1,8) by (intro mult_right_mono) auto
  then have "P * f \<le> 2 ^ 53 * D" unfolding D_def by (simp only: mult.assoc)
  moreover have "D - 2 ^ 64 < (p - l) * 2 ^ 64"
    using scaled_bounds(2) [where f = f and x = P] scaled_bounds(1) [where f = f and x = L]
    by (simp add: D_def p_def l_def algebra_simps)
  moreover have "p * 2 ^ 64 \<le> P * f + 2 ^ 63" unfolding p_def by (rule scaled_bounds)
  ultimately show "p \<le> 10 ^ 16 * (p - l - 2)" by simp
qed

lemma interval_exponent:
  assumes "in_interval T (delta * 10 ^ j) (10 ^ m * 2 ^ s) buf" "0 < delta" "m \<le> 9" "s \<le> 60"
  shows "j < 29"
proof -
  have "1 * 10 ^ j \<le> delta * 10 ^ j" using assms(2) by (intro mult_right_mono) auto
  also have "\<dots> < 10 * (10 ^ m * 2 ^ s)" using assms(1) by (simp add: in_interval_def)
  also have "\<dots> \<le> 10 * (10 ^ 9 * 2 ^ 60)"
    using assms(3,4) by (intro mult_left_mono mult_mono power_increasing) auto
  also have "\<dots> < 10 ^ 29" by simp
  finally have "(10 :: int) ^ j < 10 ^ 29" by simp
  then show ?thesis by (rule power_less_imp_less_exp [rotated]) simp
qed

lemma power_near_quotient:
  assumes "power_near f e k"
  shows "\<bar>real_of_int f - 10 powi k / 2 powi e\<bar> \<le> 1 / 2"
proof -
  have "\<bar>real_of_int f * 2 powi e - 10 powi k\<bar> / 2 powi e \<le> 2 powi e / 2 / 2 powi e"
    using assms unfolding power_near_def by (rule divide_right_mono) simp
  moreover have "real_of_int f - 10 powi k / 2 powi e = (real_of_int f * 2 powi e - 10 powi k) / 2 powi e"
    by (simp add: diff_divide_distrib)
  ultimately show ?thesis by (simp add: abs_divide)
qed

lemma grisu2_boundaries_ok:
  assumes "- 1137 \<le> q" "q \<le> 960" "0 \<le> L" "L + 512 \<le> W" "W + 1024 \<le> P" "P < 2 ^ 64" "2 ^ 63 \<le> P"
    "P \<le> 2 ^ 53 * (P - L)"
  shows "\<exists>buf x. grisu2_boundaries \<lparr>df_f = L, df_e = q\<rparr> \<lparr>df_f = W, df_e = q\<rparr> \<lparr>df_f = P, df_e = q\<rparr> = Some (buf, x) \<and>
    buf \<noteq> [] \<and> digits buf \<and> leading buf \<and> last buf \<noteq> 0x30 \<and> length buf \<le> 17 \<and> \<bar>x\<bar> \<le> 400 \<and>
    real_of_int L * 2 powi q < decimal buf x \<and> decimal buf x < real_of_int P * 2 powi q"
proof -
  obtain f e k where c: "get_cached_power_for_binary_exponent q = Some (f, e, k)" "2 ^ 63 \<le> f" "f < 2 ^ 64"
    "- 60 \<le> q + e + 64" "q + e + 64 \<le> - 32" "power_near f e k" "- 300 \<le> k" "k \<le> 324"
    using cached_power [OF assms(1,2)] .
  define s where "s = nat (- (q + e + 64))"
  have s: "q + e + 64 = - int s" "32 \<le> s" "s \<le> 60" using c(4,5) by (simp_all add: s_def)
  define l where "l = scaled f L"
  define w where "w = scaled f W"
  define p where "p = scaled f P"
  note gaps = scaled_interval [OF c(2,3) assms(3-8), folded l_def w_def p_def]
  have muls: "diyfp_mul \<lparr>df_f = L, df_e = q\<rparr> \<lparr>df_f = f, df_e = e\<rparr> = \<lparr>df_f = l, df_e = - int s\<rparr>" "0 \<le> l"
    "diyfp_mul \<lparr>df_f = W, df_e = q\<rparr> \<lparr>df_f = f, df_e = e\<rparr> = \<lparr>df_f = w, df_e = - int s\<rparr>"
    "diyfp_mul \<lparr>df_f = P, df_e = q\<rparr> \<lparr>df_f = f, df_e = e\<rparr> = \<lparr>df_f = p, df_e = - int s\<rparr>" "p < 2 ^ 64"
    unfolding l_def w_def p_def s(1) [symmetric] by (rule mul_scaled; use assms c in simp)+
  have wraps: "wrap64 (l + 1) = l + 1" "wrap64 (p - 1) = p - 1"
    using gaps(1-3) muls(2,5) by (simp_all add: wrap64_id)
  have "\<exists>buf m j. grisu2_digit_gen (- k) \<lparr>df_f = l + 1, df_e = - int s\<rparr> \<lparr>df_f = w, df_e = - int s\<rparr>
      \<lparr>df_f = p - 1, df_e = - int s\<rparr> = Some (buf, - k + int m - int j) \<and> m \<le> 9 \<and>
      in_interval ((p - 1) * 10 ^ j) ((p - 1 - (l + 1)) * 10 ^ j) (10 ^ m * 2 ^ s) buf"
    using digit_gen_ok [of "\<lparr>df_f = l + 1, df_e = - int s\<rparr>" s "\<lparr>df_f = w, df_e = - int s\<rparr>" "\<lparr>df_f = p - 1, df_e = - int s\<rparr>" "- k"]
      s gaps(1-3) muls(2,5) by simp
  then obtain buf m j where gen: "grisu2_digit_gen (- k) \<lparr>df_f = l + 1, df_e = - int s\<rparr> \<lparr>df_f = w, df_e = - int s\<rparr>
      \<lparr>df_f = p - 1, df_e = - int s\<rparr> = Some (buf, - k + int m - int j)" "m \<le> 9"
    and buf: "in_interval ((p - 1) * 10 ^ j) ((p - 1 - (l + 1)) * 10 ^ j) (10 ^ m * 2 ^ s) buf" by blast
  have run: "grisu2_boundaries \<lparr>df_f = L, df_e = q\<rparr> \<lparr>df_f = W, df_e = q\<rparr> \<lparr>df_f = P, df_e = q\<rparr>
      = Some (buf, - k + int m - int j)"
    using gen by (simp add: grisu2_boundaries_def c(1) muls wraps)
  have len: "length buf \<le> 17" using interval_digits [OF buf] gaps(4) by simp
  note near = power_near_quotient [OF c(6)]
  define c' :: real where "c' = 10 powi k / 2 powi e"
  have low: "real_of_int L * c' / 2 ^ 64 < real_of_int (l + 1)"
    and high: "real_of_int (p - 1) < real_of_int P * c' / 2 ^ 64"
    using scaled_near [OF near, of L] scaled_near [OF near, of P] assms unfolding l_def p_def c'_def by linarith+
  have "real_of_int L * c' / 2 ^ 64 * 2 powi - int s < real_of_int (l + 1) * 2 powi - int s"
    by (rule mult_strict_right_mono [OF low]) simp
  also have "\<dots> \<le> decimal buf (int m - int j)" by (rule interval_value(1) [OF buf])
  finally have "real_of_int L * c' / 2 ^ 64 * 2 powi - int s * 10 powi - k < decimal buf (int m - int j) * 10 powi - k"
    by (rule mult_strict_right_mono) simp
  then have lower: "real_of_int L * 2 powi q < decimal buf (int m - int j + - k)"
    unfolding decimal_shift c'_def scale_back [OF s(1)] .
  have "decimal buf (int m - int j) \<le> real_of_int (p - 1) * 2 powi - int s" by (rule interval_value(2) [OF buf])
  also have "\<dots> < real_of_int P * c' / 2 ^ 64 * 2 powi - int s" by (rule mult_strict_right_mono [OF high]) simp
  finally have "decimal buf (int m - int j) * 10 powi - k < real_of_int P * c' / 2 ^ 64 * 2 powi - int s * 10 powi - k"
    by (rule mult_strict_right_mono) simp
  then have upper: "decimal buf (int m - int j + - k) < real_of_int P * 2 powi q"
    unfolding decimal_shift c'_def scale_back [OF s(1)] .
  have "j < 29" using interval_exponent [OF buf _ gen(2) s(3)] gaps(1,2) by simp
  then have "\<bar>- k + int m - int j\<bar> \<le> 400" using c(7,8) gen(2) by linarith
  moreover have x: "int m - int j + - k = - k + int m - int j" by simp
  ultimately show ?thesis using run len buf lower [unfolded x] upper [unfolded x] unfolding in_interval_def by auto
qed

subsection \<open>The neighbours of a double\<close>

text \<open>The value of the positive double with these bits; the next double has the next bits.\<close>

definition double_value :: "int \<Rightarrow> real" where
  "double_value bits = real_of_int (df_f (diyfp_of_bits bits)) * 2 powi df_e (diyfp_of_bits bits)"

lemma next_value:
  assumes "0 \<le> bits" "diyfp_of_bits bits = \<lparr>df_f = f, df_e = e\<rparr>"
  shows "double_value (bits + 1) = real_of_int (f + 1) * 2 powi e"
proof -
  define E where "E = bits div 2 ^ 52"
  define F where "F = bits mod 2 ^ 52"
  have bits: "bits = E * 2 ^ 52 + F" unfolding E_def F_def by (rule div_mult_mod_eq [symmetric])
  have F: "0 \<le> F" "F < 2 ^ 52" and E: "0 \<le> E" using assms(1) by (simp_all add: F_def E_def pos_imp_zdiv_nonneg_iff)
  have v: "f = (if E = 0 then F else F + 2 ^ 52)" "e = (if E = 0 then - 1074 else E - 1075)"
    using assms(2) by (auto simp: diyfp_of_bits_def exponent_div fraction_mod E_def F_def kHiddenBit_def kMinExp_def kBias_def
        split: if_splits)
  show ?thesis
  proof (cases "F = 2 ^ 52 - 1")
    case True
    then have "bits + 1 = (E + 1) * 2 ^ 52" using bits by simp
    then have "exponent_bits (bits + 1) = E + 1" "fraction_bits (bits + 1) = 0" by (simp_all add: exponent_div fraction_mod)
    then have "double_value (bits + 1) = 2 ^ 52 * 2 powi (E + 1 - 1075)"
      using E by (simp add: double_value_def diyfp_of_bits_def kHiddenBit_def kBias_def)
    moreover have "(2 :: real) powi (E + 1 - 1075) = 2 * 2 powi (E - 1075)"
      by (simp add: power_int_add [symmetric, of 2 1, simplified] algebra_simps)
    ultimately show ?thesis using True by (simp add: v)
  next
    case False
    have "bits + 1 = E * 2 ^ 52 + (F + 1)" using bits by simp
    then have "(bits + 1) div 2 ^ 52 = E" "(bits + 1) mod 2 ^ 52 = F + 1"
      using False F by (auto simp: div_mult_self3 intro!: int_div_pos_eq int_mod_pos_eq)
    then show ?thesis by (simp add: double_value_def diyfp_of_bits_def exponent_div fraction_mod v kHiddenBit_def kMinExp_def kBias_def)
  qed
qed

lemma bits_split:
  assumes "0 \<le> F" "F < 2 ^ 52"
  shows "diyfp_of_bits (E * 2 ^ 52 + F) =
    (if E = 0 then \<lparr>df_f = F, df_e = - 1074\<rparr> else \<lparr>df_f = F + 2 ^ 52, df_e = E - 1075\<rparr>)"
proof -
  have "(E * 2 ^ 52 + F) div 2 ^ 52 = E" "(E * 2 ^ 52 + F) mod 2 ^ 52 = F"
    using assms by (auto intro!: int_div_pos_eq int_mod_pos_eq)
  then show ?thesis by (simp add: diyfp_of_bits_def exponent_div fraction_mod kHiddenBit_def kMinExp_def kBias_def)
qed

lemma value_split:
  assumes "0 \<le> F" "F < 2 ^ 52"
  shows "double_value (E * 2 ^ 52 + F) = (if E = 0 then real_of_int F * 2 powi - 1074 else real_of_int (F + 2 ^ 52) * 2 powi (E - 1075))"
  unfolding double_value_def bits_split [OF assms] by simp

lemma previous_value:
  assumes "finite_positive bits" "diyfp_of_bits bits = \<lparr>df_f = f, df_e = e\<rparr>"
  shows "double_value (bits - 1) =
    (if closer bits then real_of_int (2 * f - 1) * 2 powi (e - 1) else real_of_int (f - 1) * 2 powi e)"
proof -
  define E where "E = bits div 2 ^ 52"
  define F where "F = bits mod 2 ^ 52"
  have bits: "bits = E * 2 ^ 52 + F" unfolding E_def F_def by (rule div_mult_mod_eq [symmetric])
  have F: "0 \<le> F" "F < 2 ^ 52" and E: "0 \<le> E" and pos: "0 < bits" and c: "closer bits \<longleftrightarrow> F = 0 \<and> E > 1"
    using assms(1) bits_parts [OF assms(1)]
    by (simp_all add: F_def E_def finite_positive_def is_positive_def closer_def exponent_div fraction_mod)
  have v: "f = (if E = 0 then F else F + 2 ^ 52)" "e = (if E = 0 then - 1074 else E - 1075)"
    using assms(2) bits_split [OF F, of E] bits by (auto split: if_splits)
  show ?thesis
  proof (cases "F = 0")
    case False
    have eq: "bits - 1 = E * 2 ^ 52 + (F - 1)" using bits by simp
    show ?thesis unfolding eq using value_split [of "F - 1" E] False F c by (simp add: v)
  next
    case True
    then have "E \<noteq> 0" using pos bits by auto
    have eq: "bits - 1 = (E - 1) * 2 ^ 52 + (2 ^ 52 - 1)" using bits True by simp
    show ?thesis unfolding eq using value_split [of "2 ^ 52 - 1" "E - 1"] True E \<open>E \<noteq> 0\<close> c
      by (cases "E = 1") (simp_all add: v)
  qed
qed

lemma value_increases:
  assumes "0 \<le> a" "a < b"
  shows "double_value a < double_value b"
  using assms(2)
proof (induction "nat (b - a)" arbitrary: b rule: less_induct)
  case less
  have "0 \<le> b - 1" using less.prems assms(1) by simp
  have "double_value (b - 1) < double_value (b - 1 + 1)"
    using next_value [OF \<open>0 \<le> b - 1\<close>, of "df_f (diyfp_of_bits (b - 1))" "df_e (diyfp_of_bits (b - 1))"]
    by (simp add: double_value_def)
  moreover have "double_value a < double_value (b - 1)" if "a < b - 1" using less.hyps [of "b - 1"] that by simp
  moreover have "a = b - 1" if "\<not> a < b - 1" using that less.prems by simp
  ultimately show ?case by (cases "a < b - 1") auto
qed

lemma grisu2_ok:
  assumes "finite_positive bits"
  shows "\<exists>buf x. grisu2 bits = Some (buf, x) \<and>
    buf \<noteq> [] \<and> digits buf \<and> leading buf \<and> last buf \<noteq> 0x30 \<and> length buf \<le> 17 \<and> \<bar>x\<bar> \<le> 400 \<and>
    (double_value (bits - 1) + double_value bits) / 2 < decimal buf x \<and>
    decimal buf x < (double_value bits + double_value (bits + 1)) / 2"
proof -
  obtain f e where v: "diyfp_of_bits bits = \<lparr>df_f = f, df_e = e\<rparr>" by (cases "diyfp_of_bits bits") auto
  note parts = bits_parts [OF assms, unfolded v, simplified diyfp.select_convs]
  obtain n q where n: "q = e - int n - 1" "10 \<le> n" "n \<le> 62" "- 1137 \<le> q" "q \<le> 960"
    "2 ^ 63 \<le> f * 2 ^ Suc n" "f * 2 ^ Suc n + 2 ^ n < 2 ^ 64"
    and b: "compute_boundaries bits = Some \<lparr>bd_w = \<lparr>df_f = f * 2 ^ Suc n, df_e = q\<rparr>,
       bd_minus = \<lparr>df_f = f * 2 ^ Suc n - (if closer bits then 2 ^ (n - 1) else 2 ^ n), df_e = q\<rparr>,
       bd_plus = \<lparr>df_f = f * 2 ^ Suc n + 2 ^ n, df_e = q\<rparr>\<rparr>"
    using compute_boundaries_exact [OF assms v] by metis
  obtain m where m: "n = Suc m" "9 \<le> m" using n(2) by (cases n) auto
  define g :: int where "g = 2 ^ m"
  have g: "(2 :: int) ^ n = 2 * g" "(2 :: int) ^ Suc n = 4 * g" "2 ^ 9 \<le> g"
    using m(2) power_increasing [of 9 m "2 :: int"] by (simp_all add: g_def m(1))
  define L where "L = f * (4 * g) - (if closer bits then g else 2 * g)"
  have bounds: "0 \<le> L" "L + 512 \<le> f * (4 * g)" "f * (4 * g) + 1024 \<le> f * (4 * g) + 2 * g"
    "f * (4 * g) + 2 * g < 2 ^ 64" "2 ^ 63 \<le> f * (4 * g) + 2 * g" "f * (4 * g) + 2 * g \<le> 2 ^ 53 * (f * (4 * g) + 2 * g - L)"
  proof -
    have "1 * (4 * g) \<le> f * (4 * g)" using parts g by (intro mult_right_mono) auto
    then show "0 \<le> L" "L + 512 \<le> f * (4 * g)" "f * (4 * g) + 1024 \<le> f * (4 * g) + 2 * g"
      using g by (simp_all add: L_def)
    show "f * (4 * g) + 2 * g < 2 ^ 64" "2 ^ 63 \<le> f * (4 * g) + 2 * g" using n(6,7) g by simp_all
    have "f * (4 * g) \<le> (2 ^ 53 - 1) * (4 * g)" using parts g by (intro mult_right_mono) auto
    then show "f * (4 * g) + 2 * g \<le> 2 ^ 53 * (f * (4 * g) + 2 * g - L)"
      using g parts(7) by (simp add: L_def)
  qed
  have run: "grisu2 bits = grisu2_boundaries \<lparr>df_f = L, df_e = q\<rparr> \<lparr>df_f = f * (4 * g), df_e = q\<rparr> \<lparr>df_f = f * (4 * g) + 2 * g, df_e = q\<rparr>"
    using assms b g by (simp add: grisu2_def finite_positive_def L_def g_def m(1) split: if_splits)
  have e: "(2 :: real) powi e = 4 * real_of_int g * 2 powi q" "(2 :: real) powi (e - 1) = 2 * real_of_int g * 2 powi q"
  proof -
    have shift: "(2 :: real) powi (q + int i) = 2 ^ i * 2 powi q" for i by (simp add: power_int_add)
    have exps: "e = q + int (Suc n)" "e - 1 = q + int n" using n(1) by simp_all
    have "(2 :: real) powi e = 2 ^ Suc n * 2 powi q" "(2 :: real) powi (e - 1) = 2 ^ n * 2 powi q"
      unfolding exps(2) unfolding exps(1) by (rule shift)+
    then show "(2 :: real) powi e = 4 * real_of_int g * 2 powi q" "(2 :: real) powi (e - 1) = 2 * real_of_int g * 2 powi q"
      by (simp_all add: g_def m(1))
  qed
  have "0 \<le> bits" "double_value bits = real_of_int f * 2 powi e"
    using assms v by (simp_all add: finite_positive_def is_positive_def double_value_def)
  then have mids: "real_of_int L * 2 powi q = (double_value (bits - 1) + double_value bits) / 2"
    "real_of_int (f * (4 * g) + 2 * g) * 2 powi q = (double_value bits + double_value (bits + 1)) / 2"
    using next_value [of bits f e] previous_value [OF assms v] v by (simp_all add: e L_def field_simps)
  show ?thesis
    using grisu2_boundaries_ok [OF n(4,5) bounds(1-6), folded run] unfolding mids .
qed

end
