(* ===== verification/NFloatText.thy ===== *)
theory NFloatText
  imports NDoubles NSerializer
begin

text \<open>
  The text of a printed double: it is a number of the JSON grammar that the library's own scanner
  reads to its end, it fits into the buffer, and its value is nearer to the double than to any other.
\<close>

subsection \<open>Decimal texts\<close>

text \<open>The value of a number's text, with the parts that \<^verbatim>\<open>number_finite\<close> takes.\<close>

definition text_value :: "string \<Rightarrow> real" where
  "text_value s =
     (let mantissa = dropWhile (\<lambda>c. c = CHR ''-'') (takeWhile (\<lambda>c. \<not> is_exponent c) s);
          exponent = exponent_value (drop 1 (dropWhile (\<lambda>c. \<not> is_exponent c) s));
          whole = takeWhile (\<lambda>c. c \<noteq> CHR ''.'') mantissa;
          fraction = drop 1 (dropWhile (\<lambda>c. c \<noteq> CHR ''.'') mantissa)
      in (if s \<noteq> [] \<and> hd s = CHR ''-'' then - 1 else 1) * real_of_int (digits_value (whole @ fraction))
         * 10 powi (exponent - int (length fraction)))"

text \<open>A sign, the digits before the point, those behind it if there are any, and the exponent if there is one.\<close>

definition decimal_text :: "bool \<Rightarrow> string \<Rightarrow> string \<Rightarrow> string \<Rightarrow> string" where
  "decimal_text neg w fr ex =
     (if neg then ''-'' else []) @ w @ (if fr = [] then [] else CHR ''.'' # fr) @ (if ex = [] then [] else CHR ''e'' # ex)"

definition decimal_parts :: "string \<Rightarrow> string \<Rightarrow> string \<Rightarrow> bool" where
  "decimal_parts w fr ex \<longleftrightarrow>
     w \<noteq> [] \<and> list_all is_digit w \<and> (hd w = CHR ''0'' \<longrightarrow> tl w = []) \<and> list_all is_digit fr \<and>
     (ex \<noteq> [] \<longrightarrow> (hd ex = CHR ''+'' \<or> hd ex = CHR ''-'') \<and> tl ex \<noteq> [] \<and> list_all is_digit (tl ex)) \<and>
     (fr \<noteq> [] \<or> ex \<noteq> [])"

lemma digit_chars:
  assumes "is_digit c"
  shows "\<not> is_exponent c" "c \<noteq> CHR ''.''" "c \<noteq> CHR ''-''"
  using assms by (auto simp: is_digit_def is_exponent_def)

lemma text_parts:
  assumes "decimal_parts w fr ex" "s = decimal_text neg w fr ex"
  shows "dropWhile (\<lambda>c. c = CHR ''-'') (takeWhile (\<lambda>c. \<not> is_exponent c) s) = w @ (if fr = [] then [] else CHR ''.'' # fr)"
    "drop 1 (dropWhile (\<lambda>c. \<not> is_exponent c) s) = ex"
    "s \<noteq> [] \<and> hd s = CHR ''-'' \<longleftrightarrow> neg"
    "takeWhile (\<lambda>c. c \<noteq> CHR ''.'') (w @ (if fr = [] then [] else CHR ''.'' # fr)) = w"
    "drop 1 (dropWhile (\<lambda>c. c \<noteq> CHR ''.'') (w @ (if fr = [] then [] else CHR ''.'' # fr))) = fr"
proof -
  define m where "m = w @ (if fr = [] then [] else CHR ''.'' # fr)"
  have wf: "w \<noteq> []" "\<And>c. c \<in> set w \<Longrightarrow> is_digit c" "\<And>c. c \<in> set fr \<Longrightarrow> is_digit c"
    using assms(1) by (auto simp: decimal_parts_def list_all_iff)
  have m: "\<And>c. c \<in> set m \<Longrightarrow> \<not> is_exponent c"
    using wf digit_chars(1) by (auto simp: m_def is_exponent_def split: if_splits)
  have s: "s = (if neg then ''-'' else []) @ m @ (if ex = [] then [] else CHR ''e'' # ex)"
    by (simp add: assms(2) decimal_text_def m_def)
  have e: "is_exponent (CHR ''e'')" "\<not> is_exponent (CHR ''-'')" by (simp_all add: is_exponent_def)
  have "takeWhile (\<lambda>c. \<not> is_exponent c) s = (if neg then ''-'' else []) @ m"
    using m e by (auto simp: s takeWhile_append2 takeWhile_eq_all_conv)
  moreover have "dropWhile (\<lambda>c. c = CHR ''-'') m = m"
    using wf digit_chars(3) [of "hd w"] by (cases w) (auto simp: m_def)
  ultimately show "dropWhile (\<lambda>c. c = CHR ''-'') (takeWhile (\<lambda>c. \<not> is_exponent c) s) = w @ (if fr = [] then [] else CHR ''.'' # fr)"
    unfolding m_def [symmetric] by simp
  have "dropWhile (\<lambda>c. \<not> is_exponent c) s = (if ex = [] then [] else CHR ''e'' # ex)"
    using m e by (auto simp: s dropWhile_append2 dropWhile_eq_Nil_conv)
  then show "drop 1 (dropWhile (\<lambda>c. \<not> is_exponent c) s) = ex" by simp
  show "s \<noteq> [] \<and> hd s = CHR ''-'' \<longleftrightarrow> neg"
    using wf digit_chars(3) [of "hd w"] by (cases w) (auto simp: s m_def)
  have p: "\<And>c. c \<in> set w \<Longrightarrow> c \<noteq> CHR ''.''" using wf digit_chars(2) by blast
  then show "takeWhile (\<lambda>c. c \<noteq> CHR ''.'') (w @ (if fr = [] then [] else CHR ''.'' # fr)) = w"
    by (auto simp: takeWhile_append2 takeWhile_eq_all_conv)
  show "drop 1 (dropWhile (\<lambda>c. c \<noteq> CHR ''.'') (w @ (if fr = [] then [] else CHR ''.'' # fr))) = fr"
    using p by (auto simp: dropWhile_append2 dropWhile_eq_Nil_conv)
qed

lemma decimal_text_value:
  assumes "decimal_parts w fr ex"
  shows "text_value (decimal_text neg w fr ex) =
    (if neg then - 1 else 1) * (real_of_int (digits_value (w @ fr)) * 10 powi (exponent_value ex - int (length fr)))"
  unfolding text_value_def Let_def text_parts [OF assms refl] by simp

lemma decimal_text_finite:
  assumes "decimal_parts w fr ex" "\<bar>text_value (decimal_text neg w fr ex)\<bar> < 2 ^ 1024 - 2 ^ 970" "0 \<le> digits_value (w @ fr)"
  shows "number_finite (decimal_text neg w fr ex)"
proof -
  define k where "k = exponent_value ex - int (length fr)"
  have "\<bar>text_value (decimal_text neg w fr ex)\<bar> = real_of_int (digits_value (w @ fr)) * 10 powi k"
    using assms(3) by (simp add: decimal_text_value [OF assms(1)] abs_mult k_def)
  moreover have "(10 :: real) powi k = 10 ^ nat k / 10 ^ nat (- k)" by (cases "0 \<le> k") (simp_all add: power_int_def field_simps)
  ultimately have "real_of_int (digits_value (w @ fr)) * 10 ^ nat k < (2 ^ 1024 - 2 ^ 970) * 10 ^ nat (- k)"
    using assms(2) by (simp add: pos_divide_less_eq)
  then have "real_of_int (digits_value (w @ fr) * 10 ^ nat k) < real_of_int ((2 ^ 1024 - 2 ^ 970) * 10 ^ nat (- k))"
    by (simp only: of_int_mult of_int_power of_int_diff of_int_numeral)
  then have "digits_value (w @ fr) * 10 ^ nat k < (2 ^ 1024 - 2 ^ 970) * 10 ^ nat (- k)" by (simp only: of_int_less_iff)
  then show ?thesis unfolding number_finite_def Let_def text_parts [OF assms(1) refl] k_def .
qed

subsection \<open>The scanner on decimal texts\<close>

lemma loop_digits:
  "list_all is_digit ds \<Longrightarrow> q \<in> {NAny1, NDecimal2, NAny2} \<Longrightarrow>
    number_loop q ty buf (ds @ s) = number_loop q ty (buf @ ds) s"
proof (induction ds arbitrary: buf)
  case (Cons c ds)
  then have "number_loop q ty (buf @ [c]) (ds @ s) = number_loop q ty ((buf @ [c]) @ ds) s" by simp
  moreover have "number_step q (Some c) = NumberGoto q" "number_type_at q ty = ty" using Cons.prems by auto
  ultimately show ?case by simp
qed simp

lemma loop_exponent:
  assumes "q \<in> {NZero, NAny1, NDecimal2}" "c = CHR ''+'' \<or> c = CHR ''-''" "is_digit d" "list_all is_digit ds"
  shows "number_loop q ty buf (CHR ''e'' # c # d # ds) = Inr (TFloat, buf @ CHR ''e'' # c # d # ds, [])"
proof -
  have "number_step q (Some (CHR ''e'')) = NumberGoto NExponent" using assms(1) by (auto simp: is_exponent_def is_digit_def)
  moreover have "number_step NExponent (Some c) = NumberGoto NSign" using assms(2) by auto
  moreover have "number_step NSign (Some d) = NumberGoto NAny2" using assms(3) by simp
  moreover have "number_loop NAny2 TFloat buf' (ds @ []) = Inr (TFloat, buf' @ ds, [])" for buf'
    using loop_digits [OF assms(4), of NAny2 TFloat buf' "[]"] by simp
  ultimately show ?thesis by simp
qed

lemma loop_decimal:
  assumes "q = NAny1 \<or> q = NZero \<and> ds = []" "list_all is_digit ds" "list_all is_digit fr"
    and "ex \<noteq> [] \<longrightarrow> (hd ex = CHR ''+'' \<or> hd ex = CHR ''-'') \<and> tl ex \<noteq> [] \<and> list_all is_digit (tl ex)" "fr \<noteq> [] \<or> ex \<noteq> []"
  defines "tail \<equiv> (if fr = [] then [] else CHR ''.'' # fr) @ (if ex = [] then [] else CHR ''e'' # ex)"
  shows "number_loop q ty buf (ds @ tail) = Inr (TFloat, buf @ ds @ tail, [])"
proof -
  have ex: "number_loop q ty buf (if ex = [] then [] else CHR ''e'' # ex) = Inr (TFloat, buf @ (if ex = [] then [] else CHR ''e'' # ex), [])"
    if "q \<in> {NZero, NAny1, NDecimal2}" "ex \<noteq> [] \<or> q = NDecimal2 \<and> ty = TFloat" for q ty buf
  proof (cases "ex = []")
    case False
    then obtain c d ds where "ex = c # d # ds" using assms(4) by (metis list.exhaust_sel)
    with loop_exponent [OF that(1), of c d ds ty buf] assms(4) show ?thesis by simp
  qed (use that in simp)
  have digits: "number_loop q ty buf (ds @ tail) = number_loop q ty (buf @ ds) tail"
    using assms(1,2) by (elim disjE) (simp_all add: loop_digits)
  have q: "q \<in> {NZero, NAny1}" using assms(1) by auto
  show ?thesis
  proof (cases fr)
    case Nil
    have "q \<in> {NZero, NAny1, NDecimal2}" using q by auto
    from ex [OF this, of ty "buf @ ds"] Nil assms(5) digits show ?thesis by (simp add: tail_def)
  next
    case (Cons f fs)
    have "number_step q (Some (CHR ''.'')) = NumberGoto NDecimal1" using q by (auto simp: is_digit_def)
    moreover have "number_step NDecimal1 (Some f) = NumberGoto NDecimal2" using assms(3) Cons by simp
    moreover have "number_loop NDecimal2 TFloat b (fs @ t) = number_loop NDecimal2 TFloat (b @ fs) t" for b t
      by (rule loop_digits) (use assms(3) Cons in simp_all)
    ultimately have "number_loop q ty (buf @ ds) tail =
        number_loop NDecimal2 TFloat (buf @ ds @ CHR ''.'' # fr) (if ex = [] then [] else CHR ''e'' # ex)"
      using Cons by (simp add: tail_def del: number_step.simps)
    with ex [of NDecimal2 TFloat "buf @ ds @ CHR ''.'' # fr"] digits Cons show ?thesis by (simp add: tail_def)
  qed
qed

lemma decimal_text_scans:
  assumes "decimal_parts w fr ex" "number_finite (decimal_text neg w fr ex)"
  shows "float_text (decimal_text neg w fr ex)"
proof -
  let ?tail = "(if fr = [] then [] else CHR ''.'' # fr) @ (if ex = [] then [] else CHR ''e'' # ex)"
  obtain d ds where w: "w = d # ds" "is_digit d" "list_all is_digit ds" "d = CHR ''0'' \<longrightarrow> ds = []"
    using assms(1) by (cases w) (auto simp: decimal_parts_def)
  define q where "q = (if d = CHR ''0'' then NZero else NAny1)"
  have loop: "number_loop q ty buf (ds @ ?tail) = Inr (TFloat, buf @ ds @ ?tail, [])" for ty buf
    by (rule loop_decimal) (use assms(1) w in \<open>auto simp: decimal_parts_def q_def\<close>)
  have "number_start d = q" using digit_chars(3) [OF w(2)] by (simp add: number_start_def q_def)
  moreover have "number_step NMinus (Some d) = NumberGoto q" using w(2) by (simp add: q_def)
  ultimately show ?thesis
    using assms(2) w loop [of TUnsigned "[d]"] loop [of TInteger "[CHR ''-'', d]"]
    by (simp add: float_text_def decimal_text_def number_start_def del: number_step.simps)
qed

subsection \<open>The formats\<close>

definition chars :: "int list \<Rightarrow> string" where
  "chars = map char_of"

lemma chars_simps [simp]: "chars [] = []" "chars (b @ c) = chars b @ chars c" "chars (x # b) = char_of x # chars b"
  "chars b = [] \<longleftrightarrow> b = []" "length (chars b) = length b"
  by (auto simp: chars_def)

lemma const_chars [simp]:
  "char_of (0x2D :: int) = CHR ''-''" "char_of (0x2B :: int) = CHR ''+''" "char_of (0x30 :: int) = CHR ''0''"
  "char_of (0x2E :: int) = CHR ''.''" "char_of (0x65 :: int) = CHR ''e''"
  by code_simp+

lemma digit_char:
  assumes "0x30 \<le> x" "x \<le> 0x39"
  shows "is_digit (char_of x)" "digit_value (char_of x) = x - 0x30"
  using digit_byte [of "x - 0x30"] assms by simp_all

lemma chars_digits:
  assumes "digits b"
  shows "list_all is_digit (chars b)" "digits_value (chars b) = dec b"
proof -
  show "list_all is_digit (chars b)"
    using assms digit_char(1) by (auto simp: chars_def digits_def list_all_iff)
  have "digit_value (char_of c) = c - 0x30" if "c \<in> set b" for c
    using assms that digit_char(2) by (auto simp: digits_def)
  then show "digits_value (chars b) = dec b"
    unfolding digits_value_def dec_def chars_def foldl_map by (intro foldl_cong) simp_all
qed

lemma dec_append: "dec (a @ b) = dec a * 10 ^ length b + dec b"
  by (induction b rule: rev_induct) (simp_all flip: append_assoc add: algebra_simps)

lemma dec_zeros: "dec (replicate n 0x30) = 0"
  by (induction n) (simp_all add: replicate_append_same [symmetric] del: replicate_Suc add: replicate_Suc)

lemma append_exponent_ok:
  assumes "\<bar>e\<bar> < 1000"
  shows "\<exists>c d. append_exponent e = Some (c # d) \<and> (c = 0x2B \<or> c = 0x2D) \<and> d \<noteq> [] \<and> length d \<le> 3 \<and> digits d \<and>
    exponent_value (chars (c # d)) = e"
proof -
  have minus: "exponent_value (chars (0x2D # d)) = - dec d" if "digits d" for d
    using chars_digits(2) [OF that] by (simp add: exponent_value_def)
  have plus: "exponent_value (chars (0x2B # d)) = dec d" if "digits d" for d
    using chars_digits(2) [OF that] by (simp add: exponent_value_def)
  define k where "k = \<bar>e\<bar>"
  define d where "d = (if k < 10 then [0x30, 0x30 + k]
           else if k < 100 then [0x30 + k div 10, 0x30 + k mod 10]
           else [0x30 + k div 100, 0x30 + k mod 100 div 10, 0x30 + k mod 100 mod 10])"
  have k: "0 \<le> k" "k < 1000" using assms by (simp_all add: k_def)
  have "digits d" "dec d = k" "d \<noteq> []" "length d \<le> 3" using k by (auto simp: d_def dec_def)
  moreover have "append_exponent e = Some ((if e < 0 then 0x2D else 0x2B) # d)"
    using assms unfolding append_exponent_def d_def k_def Let_def by simp
  ultimately show ?thesis using minus [of d] plus [of d] by (cases "e < 0") (auto simp: k_def)
qed

lemma chars_leading:
  assumes "digits b" "leading b" "b \<noteq> []"
  shows "hd (chars b) \<noteq> CHR ''0''"
proof -
  obtain x c where b: "b = x # c" "0x31 \<le> x" "x \<le> 0x39" using assms by (cases b) (auto simp: leading_def)
  then have "byte (char_of x) = x" by simp
  moreover have "byte (CHR ''0'') = 48" by simp
  ultimately have "x = 48" if "char_of x = CHR ''0''" using that by (simp only:)
  with b(2) have "char_of x \<noteq> CHR ''0''" by auto
  with b(1) show ?thesis by simp
qed

lemma format_cases:
  fixes e :: int and buf :: "int list"
  defines "k \<equiv> int (length buf)"
  shows "0 < k \<Longrightarrow> 0 \<le> e \<Longrightarrow> k + e \<le> 15 \<Longrightarrow> format_buffer buf e (- 4) 15 = Some (buf @ replicate (nat e) 0x30 @ [0x2E, 0x30])"
    "e < 0 \<Longrightarrow> 0 < k + e \<Longrightarrow> k + e \<le> 15 \<Longrightarrow>
      format_buffer buf e (- 4) 15 = Some (take (nat (k + e)) buf @ [0x2E] @ drop (nat (k + e)) buf)"
    "0 < k \<Longrightarrow> - 4 < k + e \<Longrightarrow> k + e \<le> 0 \<Longrightarrow>
      format_buffer buf e (- 4) 15 = Some ([0x30, 0x2E] @ replicate (nat (- (k + e))) 0x30 @ buf)"
    "0 < k \<Longrightarrow> k + e \<le> - 4 \<or> 15 < k + e \<Longrightarrow> format_buffer buf e (- 4) 15 =
      map_option (\<lambda>x. (if k = 1 then buf else take 1 buf @ [0x2E] @ drop 1 buf) @ [0x65] @ x) (append_exponent (k + e - 1))"
  unfolding k_def format_buffer_def Let_def by (auto simp del: of_nat_0_less_iff length_greater_0_conv)

definition formatted :: "int list \<Rightarrow> int \<Rightarrow> int list \<Rightarrow> int list \<Rightarrow> int list \<Rightarrow> string \<Rightarrow> bool" where
  "formatted buf e t w fr ex \<longleftrightarrow>
     format_buffer buf e (- 4) 15 = Some t \<and> chars t = decimal_text False (chars w) (chars fr) ex \<and>
     decimal_parts (chars w) (chars fr) ex \<and> digits (w @ fr) \<and> length t \<le> 23 \<and>
     (\<exists>m. dec (w @ fr) = dec buf * 10 ^ m \<and> exponent_value ex - int (length fr) + int m = e)"

lemma exponent_value_Nil [simp]: "exponent_value [] = 0"
  by (simp add: exponent_value_def)

lemma format_buffer_ok:
  assumes "buf \<noteq> []" "digits buf" "leading buf" "length buf \<le> 17" "\<bar>e\<bar> \<le> 400"
  shows "\<exists>t w fr ex. formatted buf e t w fr ex"
proof -
  define k where "k = int (length buf)"
  have k: "0 < k" "k \<le> 17" using assms by (simp_all add: k_def)
  note buf = chars_digits [OF assms(2)] chars_leading [OF assms(2,3,1)]
  note cases = format_cases [where buf = buf and e = e, folded k_def]
  consider (whole) "0 \<le> e" "k + e \<le> 15" | (point) "e < 0" "0 < k + e" "k + e \<le> 15" | (small) "- 4 < k + e" "k + e \<le> 0"
    | (exponent) "k + e \<le> - 4 \<or> 15 < k + e" by linarith
  then show ?thesis
  proof cases
    case whole
    define z where "z = replicate (nat e) (0x30 :: int)"
    have z: "digits z" "length z = nat e" "dec z = 0" by (simp_all add: z_def digits_def dec_zeros)
    have "decimal_parts (chars (buf @ z)) (chars [0x30]) []"
      using buf chars_digits(1) [OF z(1)] assms(1) by (auto simp: decimal_parts_def is_digit_def)
    moreover have "dec ((buf @ z) @ [0x30]) = dec buf * 10 ^ (nat e + 1)"
      using z by (simp add: dec_append)
    ultimately have "formatted buf e (buf @ z @ [0x2E, 0x30]) (buf @ z) [0x30] []"
      unfolding formatted_def using whole cases(1) z assms(2) k k_def
      by (intro conjI exI [of _ "nat e + 1"]) (simp_all add: decimal_text_def flip: z_def)
    then show ?thesis by blast
  next
    case point
    define i where "i = nat (k + e)"
    have i: "0 < i" "i < length buf" "int i = k + e" using point by (simp_all add: i_def k_def)
    have d: "digits (take i buf)" "digits (drop i buf)" using assms(2) by (auto simp: digits_def dest: in_set_takeD in_set_dropD)
    have "leading (take i buf)" using assms(3) i by (cases buf) (auto simp: leading_def take_Cons')
    with d i assms(1) have "decimal_parts (chars (take i buf)) (chars (drop i buf)) []"
      using chars_digits(1) [OF d(1)] chars_digits(1) [OF d(2)] chars_leading [OF d(1)] by (auto simp: decimal_parts_def)
    then have "formatted buf e (take i buf @ [0x2E] @ drop i buf) (take i buf) (drop i buf) []"
      unfolding formatted_def using point cases(2) [folded i_def] i assms(2) k
      by (intro conjI exI [of _ 0]) (simp_all add: decimal_text_def k_def flip: i_def)
    then show ?thesis by blast
  next
    case small
    define z where "z = replicate (nat (- (k + e))) (0x30 :: int)"
    have z: "digits z" "int (length z) = - (k + e)" "dec z = 0" "length z \<le> 3"
      using small by (simp_all add: z_def digits_def dec_zeros)
    have "dec ([0x30] @ z @ buf) = dec buf" unfolding dec_append using z(3) by simp
    moreover have "decimal_parts (chars [0x30]) (chars (z @ buf)) []"
      using buf chars_digits(1) [OF z(1)] assms(1) by (auto simp: decimal_parts_def is_digit_def)
    ultimately have "formatted buf e ([0x30, 0x2E] @ z @ buf) [0x30] (z @ buf) []"
      unfolding formatted_def using small cases(3) [folded z_def] z assms k
      by (intro conjI exI [of _ 0]) (simp_all add: decimal_text_def k_def)
    then show ?thesis by blast
  next
    case exponent
    obtain x b where b: "buf = x # b" using assms(1) by (cases buf) auto
    have "\<bar>k + e - 1\<bar> < 1000" using k assms(5) by simp
    then obtain c d where cd: "append_exponent (k + e - 1) = Some (c # d)" "c = 0x2B \<or> c = 0x2D" "d \<noteq> []" "length d \<le> 3"
      "digits d" "exponent_value (chars (c # d)) = k + e - 1" using append_exponent_ok by blast
    have "decimal_parts (chars [x]) (chars b) (chars (c # d))"
      using buf b cd(2,3) chars_digits(1) [OF cd(5)] by (auto simp: decimal_parts_def)
    then have "formatted buf e ((if k = 1 then buf else take 1 buf @ [0x2E] @ drop 1 buf) @ [0x65] @ c # d) [x] b (chars (c # d))"
      unfolding formatted_def using exponent cases(4) cd assms k b
      by (intro conjI exI [of _ 0]) (auto simp: decimal_text_def k_def)
    then show ?thesis by blast
  qed
qed

subsection \<open>Every double\<close>

text \<open>The value of the double with these 64 bits.\<close>

definition double_real :: "int \<Rightarrow> real" where
  "double_real bits = (if bits < 2 ^ 63 then double_value bits else - double_value (bits - 2 ^ 63))"

definition double_bits :: "int \<Rightarrow> bool" where
  "double_bits bits \<longleftrightarrow> 0 \<le> bits \<and> bits < 2 ^ 64 \<and> is_finite bits"

lemma value_zero [simp]: "double_value 0 = 0"
  using value_split [of 0 0] by simp

lemma value_nonneg: "0 \<le> m \<Longrightarrow> 0 \<le> double_value m"
  using value_increases [of 0 m] by (cases "m = 0") auto

lemma value_mono: "0 \<le> a \<Longrightarrow> a \<le> b \<Longrightarrow> double_value a \<le> double_value b"
  using value_increases [of a b] by (cases "a = b") auto

lemma nearest:
  assumes "0 < m" "(double_value (m - 1) + double_value m) / 2 < v" "v < (double_value m + double_value (m + 1)) / 2"
    and "0 \<le> n" "y = double_value n \<or> y = - double_value n" "y \<noteq> double_value m"
  shows "\<bar>v - double_value m\<bar> < \<bar>v - y\<bar>"
proof -
  have "y \<le> double_value (m - 1) \<or> double_value (m + 1) \<le> y"
  proof (cases "y = double_value n")
    case True
    with assms(6) have "n \<noteq> m" by auto
    then consider "n \<le> m - 1" | "m + 1 \<le> n" by linarith
    then show ?thesis using value_mono [of n "m - 1"] value_mono [of "m + 1" n] True assms(1,4) by cases auto
  next
    case False
    then show ?thesis using assms(5) value_nonneg [OF assms(4)] value_nonneg [of "m - 1"] assms(1) by auto
  qed
  moreover have "double_value (m - 1) < double_value m" "double_value m < double_value (m + 1)"
    using value_increases [of "m - 1" m] value_increases [of m "m + 1"] assms(1) by simp_all
  ultimately have "\<bar>v - double_value m\<bar> < v - y \<or> \<bar>v - double_value m\<bar> < y - v"
    using assms(2,3) by (elim disjE) (simp_all add: abs_less_iff)
  then show ?thesis by linarith
qed

lemma largest_value:
  assumes "finite_positive m"
  shows "(double_value m + double_value (m + 1)) / 2 \<le> 2 ^ 1024 - 2 ^ 970"
proof -
  have m: "0 < m" "m < 2047 * 2 ^ 52"
  proof -
    show "0 < m" using assms by (simp add: finite_positive_def is_positive_def)
    have "m div 2 ^ 52 \<le> 2046" using bits_parts(2) [OF assms] by (simp add: exponent_div)
    then show "m < 2047 * 2 ^ 52" by simp
  qed
  have "double_value m \<le> double_value (2046 * 2 ^ 52 + (2 ^ 52 - 1))" "double_value (m + 1) \<le> double_value (2047 * 2 ^ 52 + 0)"
    by (rule value_mono; use m in simp)+
  then show ?thesis
    using value_split [of "2 ^ 52 - 1" 2046] value_split [of 0 2047] by simp
qed

text \<open>The digits of a magnitude, with the sign in front.\<close>

lemma magnitude_text:
  assumes "finite_positive m"
  shows "\<exists>buf x t. grisu2 m = Some (buf, x) \<and> length buf \<le> 17 \<and> format_buffer buf x (- 4) 15 = Some t \<and> length t \<le> 23 \<and>
    (\<forall>neg. float_text ((if neg then ''-'' else []) @ chars t) \<and>
      (\<exists>v. text_value ((if neg then ''-'' else []) @ chars t) = (if neg then - v else v) \<and>
        (double_value (m - 1) + double_value m) / 2 < v \<and> v < (double_value m + double_value (m + 1)) / 2) \<and>
      (hd ((if neg then ''-'' else []) @ chars t) = CHR ''-'' \<longleftrightarrow> neg))"
proof -
  obtain buf x where g: "grisu2 m = Some (buf, x)" "buf \<noteq> []" "digits buf" "leading buf" "length buf \<le> 17" "\<bar>x\<bar> \<le> 400"
    "(double_value (m - 1) + double_value m) / 2 < decimal buf x"
    "decimal buf x < (double_value m + double_value (m + 1)) / 2"
    using grisu2_ok [OF assms] by blast
  obtain t w fr ex where f: "formatted buf x t w fr ex" using format_buffer_ok [OF g(2-6)] by blast
  obtain k where k: "dec (w @ fr) = dec buf * 10 ^ k" "exponent_value ex - int (length fr) + int k = x"
    using f by (auto simp: formatted_def)
  define s where "s neg = decimal_text neg (chars w) (chars fr) ex" for neg
  have s: "(if neg then ''-'' else []) @ chars t = s neg" for neg
    using f by (simp add: formatted_def s_def decimal_text_def)
  have parts: "decimal_parts (chars w) (chars fr) ex" "digits (w @ fr)" using f by (simp_all add: formatted_def)
  have dv: "digits_value (chars w @ chars fr) = dec buf * 10 ^ k" using chars_digits(2) [OF parts(2)] k(1) by simp
  have "(10 :: real) powi x = 10 powi (exponent_value ex - int (length fr)) * 10 ^ k"
    using k(2) by (simp add: power_int_add flip: k(2))
  then have vt: "text_value (s neg) = (if neg then - decimal buf x else decimal buf x)" for neg
    unfolding s_def decimal_text_value [OF parts(1)] dv decimal_def by simp
  have pos: "0 < m" using assms by (simp add: finite_positive_def is_positive_def)
  have "0 \<le> (double_value (m - 1) + double_value m) / 2" using value_nonneg [of "m - 1"] value_nonneg [of m] pos by simp
  then have "0 \<le> decimal buf x" using g(7) by linarith
  moreover have "decimal buf x < 2 ^ 1024 - 2 ^ 970" using g(8) largest_value [OF assms] by linarith
  ultimately have small: "\<bar>text_value (s neg)\<bar> < 2 ^ 1024 - 2 ^ 970" for neg by (simp add: vt)
  have "0 \<le> dec buf" using leading_dec [OF g(3,4,2)] zero_le_power [of "10 :: int"] by (meson order_trans zero_le_numeral)
  then have "float_text (s neg)" for neg
    using decimal_text_scans [OF parts(1)] decimal_text_finite [OF parts(1) small [unfolded s_def]] dv unfolding s_def by simp
  moreover have "hd (s neg) = CHR ''-'' \<longleftrightarrow> neg" for neg
  proof -
    have "chars w \<noteq> []" using parts(1) unfolding decimal_parts_def by blast
    then have "s neg \<noteq> []" by (simp add: s_def decimal_text_def)
    then show ?thesis using text_parts(3) [OF parts(1) s_def] by blast
  qed
  ultimately have all: "float_text (s neg) \<and>
      (\<exists>v. text_value (s neg) = (if neg then - v else v) \<and>
        (double_value (m - 1) + double_value m) / 2 < v \<and> v < (double_value m + double_value (m + 1)) / 2) \<and>
      (hd (s neg) = CHR ''-'' \<longleftrightarrow> neg)" for neg
    using vt [of neg] g(7,8) by blast
  have fb: "format_buffer buf x (- 4) 15 = Some t" "length t \<le> 23" using f unfolding formatted_def by blast+
  show ?thesis
    by (rule exI [of _ buf], rule exI [of _ x], rule exI [of _ t])
      (rule conjI [OF g(1) conjI [OF g(5) conjI [OF fb(1) conjI [OF fb(2) allI [OF all [folded s]]]]]])
qed

lemma sign_split:
  assumes "double_bits bits"
  obtains neg m where "drop_bit 63 bits = 1 \<longleftrightarrow> neg" "neg \<longleftrightarrow> 2 ^ 63 \<le> bits" "m = (if neg then bits - 2 ^ 63 else bits)"
    "m = 0 \<or> finite_positive m" "0 \<le> m" "double_real bits = (if neg then - double_value m else double_value m)"
proof -
  define neg where "neg \<longleftrightarrow> 2 ^ 63 \<le> bits"
  define m where "m = (if neg then bits - 2 ^ 63 else bits)"
  have m: "0 \<le> m" "m < 2 ^ 63" and b: "bits = m + (if neg then 2 ^ 63 else 0)"
    using assms unfolding m_def neg_def double_bits_def by auto
  have "bits div 2 ^ 52 = m div 2 ^ 52 + (if neg then 2 ^ 11 else 0)" unfolding b by (auto simp: neg_def)
  then have "exponent_bits bits mod 2 ^ 11 = exponent_bits m mod 2 ^ 11" by (simp add: exponent_div)
  then have "is_finite m" using assms and_low [of "exponent_bits bits" 11] and_low [of "exponent_bits m" 11]
    by (simp add: double_bits_def is_finite_def)
  then have "m = 0 \<or> finite_positive m" using m by (auto simp: finite_positive_def is_positive_def shift_right)
  moreover have "drop_bit 63 bits = 1 \<longleftrightarrow> neg" using m b by (auto simp: shift_right neg_def)
  moreover have "double_real bits = (if neg then - double_value m else double_value m)"
    by (auto simp: double_real_def neg_def m_def)
  ultimately show thesis using that m neg_def m_def by blast
qed

lemma dump_float_ok:
  assumes "double_bits bits"
  shows "\<exists>t. dump_float bits = Some t \<and> float_text t \<and> length t \<le> 24 \<and> (hd t = CHR ''-'' \<longleftrightarrow> 2 ^ 63 \<le> bits) \<and>
    (\<forall>y. double_bits y \<and> double_real y \<noteq> double_real bits \<longrightarrow>
      \<bar>text_value t - double_real bits\<bar> < \<bar>text_value t - double_real y\<bar>)"
proof -
  obtain neg m where m: "drop_bit 63 bits = 1 \<longleftrightarrow> neg" "neg \<longleftrightarrow> 2 ^ 63 \<le> bits" "m = (if neg then bits - 2 ^ 63 else bits)"
    "m = 0 \<or> finite_positive m" "0 \<le> m" "double_real bits = (if neg then - double_value m else double_value m)"
    using sign_split [OF assms] .
  have fin: "is_finite bits" using assms by (simp add: double_bits_def)
  show ?thesis
  proof (cases "m = 0")
    case True
    have texts: "float_text ((if neg then ''-'' else []) @ ''0.0'')" "text_value ((if neg then ''-'' else []) @ ''0.0'') = 0"
    proof -
      have "float_text ''-0.0''" "float_text ''0.0''" by code_simp+
      then show "float_text ((if neg then ''-'' else []) @ ''0.0'')" by simp
      have "decimal_parts ''0'' ''0'' []" by code_simp
      moreover have "digits_value ''00'' = 0" by code_simp
      ultimately show "text_value ((if neg then ''-'' else []) @ ''0.0'') = 0"
        using decimal_text_value [of "''0''" "''0''" "[]" neg] by (simp add: decimal_text_def)
    qed
    have "to_chars 64 bits = Some ((if neg then [0x2D] else []) @ [0x30, 0x2E, 0x30])"
      using fin m True unfolding to_chars_def Let_def by simp
    then have "dump_float bits = Some ((if neg then ''-'' else []) @ ''0.0'')"
      using fin by (simp add: dump_float_def)
    with texts m True show ?thesis by auto
  next
    case False
    then have fp: "finite_positive m" using m(4) by simp
    obtain buf x t where t: "grisu2 m = Some (buf, x)" "length buf \<le> 17" "format_buffer buf x (- 4) 15 = Some t" "length t \<le> 23"
      and all: "\<forall>neg. float_text ((if neg then ''-'' else []) @ chars t) \<and>
        (\<exists>v. text_value ((if neg then ''-'' else []) @ chars t) = (if neg then - v else v) \<and>
          (double_value (m - 1) + double_value m) / 2 < v \<and> v < (double_value m + double_value (m + 1)) / 2) \<and>
        (hd ((if neg then ''-'' else []) @ chars t) = CHR ''-'' \<longleftrightarrow> neg)"
      using magnitude_text [OF fp] by blast
    define s where "s = (if neg then ''-'' else []) @ chars t"
    have sc: "float_text s" "hd s = CHR ''-'' \<longleftrightarrow> neg" "\<exists>v. text_value s = (if neg then - v else v) \<and>
        (double_value (m - 1) + double_value m) / 2 < v \<and> v < (double_value m + double_value (m + 1)) / 2"
      unfolding s_def using all by blast+
    obtain v where v: "text_value s = (if neg then - v else v)" "(double_value (m - 1) + double_value m) / 2 < v"
      "v < (double_value m + double_value (m + 1)) / 2" using sc(3) by blast
    have "to_chars 64 bits = Some ((if neg then [0x2D] else []) @ t)"
      using fin m t False unfolding to_chars_def Let_def by auto
    then have "dump_float bits = Some s" using fin by (simp add: dump_float_def s_def flip: chars_def)
    moreover have "\<bar>text_value s - double_real bits\<bar> < \<bar>text_value s - double_real y\<bar>"
      if y: "double_bits y" "double_real y \<noteq> double_real bits" for y
    proof -
      obtain yn n where n: "0 \<le> n" "double_real y = (if yn then - double_value n else double_value n)"
        using sign_split [OF y(1)] by metis
      define z where "z = (if neg then - double_real y else double_real y)"
      have "\<bar>v - double_value m\<bar> < \<bar>v - z\<bar>"
        by (rule nearest [OF _ v(2,3) n(1)]) (use False m(5,6) n y(2) in \<open>auto simp: z_def split: if_splits\<close>)
      then show ?thesis by (auto simp: v(1) m(6) z_def abs_minus_commute)
    qed
    moreover have "length s \<le> 24" using t(4) by (simp add: s_def)
    ultimately show ?thesis using sc(1,2) m(2) by blast
  qed
qed

text \<open>
  C19. Printing a finite double never fails an assertion of the digit generation, ends, needs at most
  24 of the 64 characters of the buffer, and its text is a JSON text that the library parses as that
  number.
\<close>

theorem double_printed:
  assumes "double_bits bits"
  shows "\<exists>t. dump_float bits = Some t \<and> length t \<le> 24 \<and> json_parse t = Inr (JFloat t)"
proof -
  obtain t where t: "dump_float bits = Some t" "float_text t" "length t \<le> 24" using dump_float_ok [OF assms] by blast
  have "\<exists>out. json_dump (\<lambda>f. f) False HandlerStrict (JFloat t) = Inr out \<and> json_parse out = Inr (JFloat t)"
    by (rule dump_then_parse) (use t(2) in simp_all)
  then have "json_parse t = Inr (JFloat t)" by (simp add: json_dump_def)
  with t show ?thesis by blast
qed

definition three_tenths :: int where "three_tenths = 0x3FD3333333333333"

lemma three_tenths_facts: "double_bits three_tenths" "dump_float three_tenths = Some ''0.3''"
  by code_simp+

theorem double_printed_witness: "json_parse ''0.3'' = Inr (JFloat ''0.3'')"
  using double_printed [OF three_tenths_facts(1)] three_tenths_facts(2) by simp

text \<open>
  C18. Round trip of doubles: the sign of the text is the sign of the double, and the value of the text is
  nearer to the double than to every other finite double, so a reader that rounds to the nearest gets
  the same double back.
\<close>

theorem double_roundtrip:
  assumes "double_bits bits" "dump_float bits = Some t"
  shows "(hd t = CHR ''-'' \<longleftrightarrow> 2 ^ 63 \<le> bits) \<and>
    (\<forall>y. double_bits y \<and> double_real y \<noteq> double_real bits \<longrightarrow>
      \<bar>text_value t - double_real bits\<bar> < \<bar>text_value t - double_real y\<bar>)"
  using dump_float_ok [OF assms(1)] assms(2) by auto

theorem double_roundtrip_witness:
  "hd ''0.3'' \<noteq> CHR ''-'' \<and>
    \<bar>text_value ''0.3'' - double_real three_tenths\<bar> < \<bar>text_value ''0.3'' - double_real (three_tenths + 1)\<bar>"
proof -
  have "double_bits (three_tenths + 1)" by code_simp
  moreover have "double_real three_tenths < double_real (three_tenths + 1)"
    using value_increases [of three_tenths "three_tenths + 1"] by (simp add: double_real_def three_tenths_def)
  ultimately show ?thesis using double_roundtrip [OF three_tenths_facts] by (simp add: three_tenths_def)
qed

end
