(* ===== verification/NPointer.thy ===== *)
theory NPointer
  imports NSerializer
begin

text \<open>
  JSON pointers (\<^verbatim>\<open>3rd/include/nlohmann/detail/json_pointer.hpp\<close>,
  \<^verbatim>\<open>detail/string_escape.hpp\<close>) and the element access of \<^verbatim>\<open>json.hpp\<close> they call: reading and
  writing a pointer, the checked, the unchecked and the creating walk through a value, and the test
  whether a pointer resolves. A reference into a value is the path to it; a walk that creates
  members also returns the changed value. Exceptions carry their number.
\<close>

subsection \<open>Results\<close>

fun bind_json :: "json_error + 'a \<Rightarrow> ('a \<Rightarrow> json_error + 'b) \<Rightarrow> json_error + 'b" where
  "bind_json (Inl e) f = Inl e"
| "bind_json (Inr x) f = f x"

lemma bind_json_Inr: "bind_json r f = Inr y \<longleftrightarrow> (\<exists>x. r = Inr x \<and> f x = Inr y)"
  by (cases r) auto

lemma bind_json_Inl: "bind_json r f = Inl e \<longleftrightarrow> r = Inl e \<or> (\<exists>x. r = Inr x \<and> f x = Inl e)"
  by (cases r) auto

subsection \<open>Escaping\<close>

text \<open>
  \<^verbatim>\<open>replace_substring\<close>: the search goes on behind the text put in. The code asserts that
  \<open>f\<close> is not empty.
\<close>

function replace_substring :: "string \<Rightarrow> string \<Rightarrow> string \<Rightarrow> string" where
  "replace_substring f t [] = []"
| "replace_substring f t (c # s) =
     (if f \<noteq> [] \<and> is_prefix f (c # s) then t @ replace_substring f t (drop (length f) (c # s))
      else c # replace_substring f t s)"
  by pat_completeness auto
termination by (relation "measure (\<lambda>(f, t, s). length s)") auto

definition escape :: "string \<Rightarrow> string" where
  "escape s = replace_substring ''/'' ''~1'' (replace_substring ''~'' ''~0'' s)"

definition unescape :: "string \<Rightarrow> string" where
  "unescape s = replace_substring ''~0'' ''~'' (replace_substring ''~1'' ''/'' s)"

subsection \<open>Reading and writing pointers\<close>

type_synonym json_pointer = "string list"

text \<open>\<^verbatim>\<open>split\<close>: the texts between the slashes, each checked before it is unescaped.\<close>

fun well_escaped :: "string \<Rightarrow> bool" where
  "well_escaped [] = True"
| "well_escaped (c # s) =
     (if c = CHR ''~''
      then (case s of [] \<Rightarrow> False | d # u \<Rightarrow> (d = CHR ''0'' \<or> d = CHR ''1'') \<and> well_escaped s)
      else well_escaped s)"

function split_from :: "string \<Rightarrow> json_error + json_pointer" where
  "split_from s =
     (let slash = find_char CHR ''/'' s;
          token = (case slash of None \<Rightarrow> s | Some i \<Rightarrow> take i s) in
      if \<not> well_escaped token then Inl (parse_error 108)
      else (case slash of
              None \<Rightarrow> Inr [unescape token]
            | Some i \<Rightarrow> bind_json (split_from (drop (Suc i) s)) (\<lambda>p. Inr (unescape token # p))))"
  by pat_completeness auto
termination
  by (relation "measure length") (auto dest!: find_char_Some [OF sym])

declare split_from.simps [simp del]

fun split_pointer :: "string \<Rightarrow> json_error + json_pointer" where
  "split_pointer [] = Inr []"
| "split_pointer (c # s) = (if c \<noteq> CHR ''/'' then Inl (parse_error 107) else split_from s)"

text \<open>\<^verbatim>\<open>to_string\<close>.\<close>

definition pointer_string :: "json_pointer \<Rightarrow> string" where
  "pointer_string p = foldl (\<lambda>a b. a @ ''/'' @ escape b) [] p"

text \<open>\<^verbatim>\<open>operator/=\<close> with a pointer, a token and an array index, and \<^verbatim>\<open>parent_pointer\<close>.\<close>

definition append_pointer :: "json_pointer \<Rightarrow> json_pointer \<Rightarrow> json_pointer" where
  "append_pointer p q = p @ q"

definition push_token :: "json_pointer \<Rightarrow> string \<Rightarrow> json_pointer" where
  "push_token p token = p @ [token]"

definition push_index :: "json_pointer \<Rightarrow> nat \<Rightarrow> json_pointer" where
  "push_index p i = push_token p (to_string i)"

definition pop_back :: "json_pointer \<Rightarrow> json_error + json_pointer" where
  "pop_back p = (if p = [] then Inl (out_of_range 405) else Inr (butlast p))"

definition pointer_back :: "json_pointer \<Rightarrow> json_error + string" where
  "pointer_back p = (if p = [] then Inl (out_of_range 405) else Inr (last p))"

definition pointer_top :: "json_pointer \<Rightarrow> json_error + json_pointer" where
  "pointer_top p = (if p = [] then Inl (out_of_range 405) else Inr [hd p])"

definition parent_pointer :: "json_pointer \<Rightarrow> json_pointer" where
  "parent_pointer p = (if p = [] then p else butlast p)"

text \<open>
  \<^verbatim>\<open>array_index\<close>. \<^verbatim>\<open>strtoull\<close> reads the longest run of digits; here it is only called on a text
  of one character or one that begins with a digit other than 0, where it skips no space and reads
  no sign that a digit follows. Its results are read at their width of 64 bits.
\<close>

definition nonzero_digit :: "char \<Rightarrow> bool" where
  "nonzero_digit c \<longleftrightarrow> byte (CHR ''1'') \<le> byte c \<and> byte c \<le> byte (CHR ''9'')"

definition array_index :: "string \<Rightarrow> json_error + nat" where
  "array_index s =
     (if 1 < length s \<and> hd s = CHR ''0'' then Inl (parse_error 106)
      else if 1 < length s \<and> \<not> nonzero_digit (hd s) then Inl (parse_error 109)
      else let read_digits = takeWhile is_digit s; res = digits_value read_digits in
        if read_digits = [] \<or> res \<ge> 2 ^ 64 \<or> length read_digits \<noteq> length s
        then Inl (out_of_range 404)
        else if res \<ge> 2 ^ 64 - 1 then Inl (out_of_range 410)
        else Inr (nat res))"

subsection \<open>Element access\<close>

text \<open>The checked access \<^verbatim>\<open>at\<close> with an index and with a key.\<close>

fun at_index :: "nat \<Rightarrow> json \<Rightarrow> json_error + json" where
  "at_index i (JArray a) = (if i < length a then Inr (a ! i) else Inl (out_of_range 401))"
| "at_index i j = Inl (type_error 304 (''cannot use at() with '' @ type_name j))"

fun at_key :: "string \<Rightarrow> json \<Rightarrow> json_error + json" where
  "at_key k (JObject m) =
     (case map_of m k of Some v \<Rightarrow> Inr v | None \<Rightarrow> Inl (out_of_range 403))"
| "at_key k j = Inl (type_error 304 (''cannot use at() with '' @ type_name j))"

text \<open>
  \<^verbatim>\<open>operator[]\<close> of a value that is not constant makes a container of a null, the missing
  elements of an array and the missing member of an object. \<^verbatim>\<open>std::vector\<close>'s limit on its size
  is not modelled.
\<close>

definition grow_array :: "nat \<Rightarrow> json list \<Rightarrow> json list" where
  "grow_array i a = (if i \<ge> length a then a @ replicate (Suc i - length a) JNull else a)"

fun touch_index :: "nat \<Rightarrow> json \<Rightarrow> json_error + json" where
  "touch_index i JNull = Inr (JArray (grow_array i []))"
| "touch_index i (JArray a) = Inr (JArray (grow_array i a))"
| "touch_index i j =
     Inl (type_error 305 (''cannot use operator[] with a numeric argument with '' @ type_name j))"

fun touch_key :: "string \<Rightarrow> json \<Rightarrow> json_error + json" where
  "touch_key k JNull = Inr (JObject (map_touch k []))"
| "touch_key k (JObject m) = Inr (JObject (map_touch k m))"
| "touch_key k j =
     Inl (type_error 305 (''cannot use operator[] with a string argument with '' @ type_name j))"

subsection \<open>Walking along a pointer\<close>

text \<open>\<^verbatim>\<open>get_checked\<close>, which is \<^verbatim>\<open>at(ptr)\<close>: the path of the value pointed to.\<close>

definition extend_path :: "json_step \<Rightarrow> json_error + json_path \<Rightarrow> json_error + json_path" where
  "extend_path s r = bind_json r (\<lambda>p. Inr (s # p))"

fun get_checked :: "json_pointer \<Rightarrow> json \<Rightarrow> json_error + json_path" where
  "get_checked [] j = Inr []"
| "get_checked (token # p) (JObject m) =
     bind_json (at_key token (JObject m)) (\<lambda>x. extend_path (AtKey token) (get_checked p x))"
| "get_checked (token # p) (JArray a) =
     (if token = ''-'' then Inl (out_of_range 402)
      else bind_json (array_index token) (\<lambda>i.
        bind_json (at_index i (JArray a)) (\<lambda>x. extend_path (AtIndex i) (get_checked p x))))"
| "get_checked (token # p) j = Inl (out_of_range 404)"

text \<open>
  \<^verbatim>\<open>operator[](ptr)\<close>: \<^verbatim>\<open>get_unchecked\<close> of a value that is not constant. What it created
  stays when a later token throws.
\<close>

definition unchecked_container :: "string \<Rightarrow> json \<Rightarrow> json" where
  "unchecked_container token j =
     (if j = JNull
      then (if list_all is_digit token \<or> token = ''-'' then JArray [] else JObject [])
      else j)"

definition descend :: "json_step \<Rightarrow> (json \<Rightarrow> json \<times> (json_error + json_path)) \<Rightarrow> json
    \<Rightarrow> json \<times> (json_error + json_path)" where
  "descend s f j =
     (case lookup_step s j of
        None \<Rightarrow> (j, Inr [s])
      | Some x \<Rightarrow> (case f x of (y, r) \<Rightarrow> (update_step s (\<lambda>_. y) j, extend_path s r)))"

fun get_unchecked :: "json_pointer \<Rightarrow> json \<Rightarrow> json \<times> (json_error + json_path)" where
  "get_unchecked [] j = (j, Inr [])"
| "get_unchecked (token # p) j =
     (let j1 = unchecked_container token j in
      case j1 of
        JObject m \<Rightarrow> descend (AtKey token) (get_unchecked p) (JObject (map_touch token m))
      | JArray a \<Rightarrow>
          if token = ''-''
          then descend (AtIndex (length a)) (get_unchecked p) (JArray (grow_array (length a) a))
          else (case array_index token of
                  Inl e \<Rightarrow> (j1, Inl e)
                | Inr i \<Rightarrow> descend (AtIndex i) (get_unchecked p) (JArray (grow_array i a)))
      | _ \<Rightarrow> (j1, Inl (out_of_range 404)))"

text \<open>
  \<^verbatim>\<open>get_unchecked\<close> of a constant value. \<open>None\<close> is what the code does not define: a key that
  is missing (an assertion) and an index behind the end.
\<close>

fun get_const :: "json_pointer \<Rightarrow> json \<Rightarrow> (json_error + json) option" where
  "get_const [] j = Some (Inr j)"
| "get_const (token # p) (JObject m) =
     (case map_of m token of None \<Rightarrow> None | Some x \<Rightarrow> get_const p x)"
| "get_const (token # p) (JArray a) =
     (if token = ''-'' then Some (Inl (out_of_range 402))
      else (case array_index token of
              Inl e \<Rightarrow> Some (Inl e)
            | Inr i \<Rightarrow> if i < length a then get_const p (a ! i) else None))"
| "get_const (token # p) j = Some (Inl (out_of_range 404))"

text \<open>
  \<^verbatim>\<open>get_and_create\<close>, the walk of \<^verbatim>\<open>unflatten\<close>: a null becomes an array for the token 0 only.
\<close>

fun get_and_create :: "json_pointer \<Rightarrow> json \<Rightarrow> json \<times> (json_error + json_path)" where
  "get_and_create [] j = (j, Inr [])"
| "get_and_create (token # p) j =
     (case j of
        JNull \<Rightarrow>
          if token = ''0'' then descend (AtIndex 0) (get_and_create p) (JArray (grow_array 0 []))
          else descend (AtKey token) (get_and_create p) (JObject (map_touch token []))
      | JObject m \<Rightarrow> descend (AtKey token) (get_and_create p) (JObject (map_touch token m))
      | JArray a \<Rightarrow>
          (case array_index token of
             Inl e \<Rightarrow> (j, Inl e)
           | Inr i \<Rightarrow> descend (AtIndex i) (get_and_create p) (JArray (grow_array i a)))
      | _ \<Rightarrow> (j, Inl (type_error 313 ''invalid value to unflatten'')))"

text \<open>\<^verbatim>\<open>contains(ptr)\<close>.\<close>

definition plausible_index :: "string \<Rightarrow> bool" where
  "plausible_index token \<longleftrightarrow>
     (length token = 1 \<longrightarrow> is_digit (hd token)) \<and>
     (1 < length token \<longrightarrow> nonzero_digit (hd token) \<and> list_all is_digit (tl token))"

fun contains_pointer :: "json_pointer \<Rightarrow> json \<Rightarrow> json_error + bool" where
  "contains_pointer [] j = Inr True"
| "contains_pointer (token # p) (JObject m) =
     (case map_of m token of None \<Rightarrow> Inr False | Some x \<Rightarrow> contains_pointer p x)"
| "contains_pointer (token # p) (JArray a) =
     (if token = ''-'' \<or> \<not> plausible_index token then Inr False
      else bind_json (array_index token)
        (\<lambda>i. if i \<ge> length a then Inr False else contains_pointer p (a ! i)))"
| "contains_pointer (token # p) j = Inr False"

subsection \<open>Escaping is undone\<close>

definition escape_char :: "char \<Rightarrow> string" where
  "escape_char c = (if c = CHR ''~'' then ''~0'' else if c = CHR ''/'' then ''~1'' else [c])"

lemma replace_char:
  "replace_substring [d] t s = concat (map (\<lambda>c. if c = d then t else [c]) s)"
  by (induction s) auto

lemma escape_concat: "escape s = concat (map escape_char s)"
  by (induction s) (auto simp: escape_def replace_char escape_char_def)

lemma escape_simps [simp]: "escape [] = []" "escape (c # s) = escape_char c @ escape s"
  by (simp_all add: escape_concat)

lemma replace_pair_escape:
  "replace_substring ''~1'' ''/'' (escape s) = concat (map (\<lambda>c. if c = CHR ''~'' then ''~0'' else [c]) s)"
  by (induction s) (auto simp: escape_char_def)

lemma replace_pair_tilde:
  "replace_substring ''~0'' ''~'' (concat (map (\<lambda>c. if c = CHR ''~'' then ''~0'' else [c]) s)) = s"
  by (induction s) auto

lemma unescape_escape: "unescape (escape s) = s"
  by (simp add: unescape_def replace_pair_escape replace_pair_tilde)

lemma escape_no_slash: "CHR ''/'' \<notin> set (escape s)"
  by (induction s) (auto simp: escape_char_def)

lemma well_escaped_escape: "well_escaped (escape s)"
  by (induction s) (auto simp: escape_char_def)

lemma unescape_steps:
  "unescape (CHR ''~'' # CHR ''0'' # s) = CHR ''~'' # unescape s"
  "unescape (CHR ''~'' # CHR ''1'' # s) = CHR ''/'' # unescape s"
  "c \<noteq> CHR ''~'' \<Longrightarrow> unescape (c # s) = c # unescape s"
  by (auto simp: unescape_def)

lemma escape_unescape: "well_escaped s \<Longrightarrow> CHR ''/'' \<notin> set s \<Longrightarrow> escape (unescape s) = s"
proof (induction s rule: length_induct)
  case (1 s)
  show ?case
  proof (cases s)
    case Nil
    then show ?thesis by (simp add: unescape_def)
  next
    case (Cons c u)
    show ?thesis
    proof (cases "c = CHR ''~''")
      case True
      then obtain d v where v: "u = d # v" "d = CHR ''0'' \<or> d = CHR ''1''"
        using 1(2) Cons by (auto split: list.splits)
      then have "well_escaped v" "CHR ''/'' \<notin> set v" using 1(2,3) Cons True by auto
      then have "escape (unescape v) = v" using 1(1) Cons v by auto
      with v True Cons show ?thesis by (auto simp: unescape_steps escape_char_def)
    next
      case False
      then have "escape (unescape u) = u" using 1 Cons by auto
      moreover have "c \<noteq> CHR ''/''" using 1(3) Cons by auto
      ultimately show ?thesis using False Cons by (simp add: unescape_steps escape_char_def)
    qed
  qed
qed

subsection \<open>Pointers and their texts\<close>

lemma pointer_string_foldl:
  "foldl (\<lambda>a b. a @ CHR ''/'' # escape b) u p = u @ concat (map (\<lambda>t. CHR ''/'' # escape t) p)"
  by (induction p arbitrary: u) simp_all

lemma pointer_string_concat: "pointer_string p = concat (map (\<lambda>t. ''/'' @ escape t) p)"
  by (simp add: pointer_string_def pointer_string_foldl)

lemma pointer_string_append: "pointer_string (p @ q) = pointer_string p @ pointer_string q"
  by (simp add: pointer_string_concat)

lemma split_from_last: "CHR ''/'' \<notin> set t \<Longrightarrow> well_escaped t \<Longrightarrow> split_from t = Inr [unescape t]"
  using find_char_None [of "CHR ''/''" t] by (subst split_from.simps) simp

lemma split_from_token:
  "CHR ''/'' \<notin> set t \<Longrightarrow> well_escaped t \<Longrightarrow>
   split_from (t @ CHR ''/'' # s) = bind_json (split_from s) (\<lambda>p. Inr (unescape t # p))"
  by (subst split_from.simps) (simp add: find_char_append)

lemma split_from_tokens: "split_from (escape t @ pointer_string p) = Inr (t # p)"
proof (induction p arbitrary: t)
  case Nil
  then show ?case
    by (simp add: pointer_string_concat split_from_last escape_no_slash well_escaped_escape unescape_escape)
next
  case (Cons u p)
  then show ?case
    by (simp add: pointer_string_concat split_from_token escape_no_slash well_escaped_escape unescape_escape)
qed

lemma split_pointer_string: "split_pointer (pointer_string p) = Inr p"
  using split_from_tokens by (cases p) (auto simp: pointer_string_concat)

lemma find_char_split: "find_char c s = Some i \<Longrightarrow> s = take i s @ c # drop (Suc i) s"
  using find_char_Some [of c s i] id_take_nth_drop [of i s] by auto

lemma split_from_Inr: "split_from s = Inr p \<Longrightarrow> ''/'' @ s = pointer_string p"
proof (induction s arbitrary: p rule: split_from.induct)
  case (1 s)
  show ?case
  proof (cases "find_char CHR ''/'' s")
    case None
    with 1(2) have "well_escaped s" "p = [unescape s]" "CHR ''/'' \<notin> set s"
      by (auto simp: split_from.simps [of s] Let_def find_char_None split: if_splits)
    then show ?thesis by (simp add: pointer_string_concat escape_unescape)
  next
    case (Some i)
    with 1(2) obtain q where q: "well_escaped (take i s)" "split_from (drop (Suc i) s) = Inr q"
        "p = unescape (take i s) # q"
      by (auto simp: split_from.simps [of s] Let_def bind_json_Inr split: if_splits)
    have "''/'' @ drop (Suc i) s = pointer_string q"
      by (rule "1.IH" [OF refl refl _ Some q(2)]) (simp add: Some q(1))
    moreover have "escape (unescape (take i s)) = take i s"
      using find_char_Some [OF Some] q(1) by (simp add: escape_unescape)
    ultimately have "pointer_string p = ''/'' @ take i s @ CHR ''/'' # drop (Suc i) s"
      by (simp add: q(3) pointer_string_concat)
    then show ?thesis using find_char_split [OF Some] by simp
  qed
qed

lemma split_pointer_iff: "split_pointer s = Inr p \<longleftrightarrow> s = pointer_string p"
proof
  assume "split_pointer s = Inr p"
  then show "s = pointer_string p"
    using split_from_Inr by (cases s) (auto simp: pointer_string_concat split: if_splits)
qed (simp add: split_pointer_string)

subsection \<open>Array indices\<close>

lemma digits_value_snoc: "digits_value (s @ [c]) = 10 * digits_value s + digit_value c"
  by (simp add: digits_value_def)

lemma byte_digit: "d < 10 \<Longrightarrow> byte (char_of (48 + int d)) = 48 + int d"
  by (simp add: of_char_of take_bit_int_eq_self)

lemma is_digit_char: "is_digit c \<Longrightarrow> c = char_of (48 + int (nat (digit_value c))) \<and> nat (digit_value c) < 10"
  by (auto simp: is_digit_def digit_value_def)

lemma to_string_digits:
  "to_string n \<noteq> [] \<and> list_all is_digit (to_string n) \<and> digits_value (to_string n) = int n
    \<and> (n > 0 \<longrightarrow> nonzero_digit (hd (to_string n))) \<and> (length (to_string n) = 1 \<longleftrightarrow> n < 10)"
proof (induction n rule: less_induct)
  case (less n)
  show ?case
  proof (cases "n < 10")
    case True
    then show ?thesis
      by (auto simp: to_string.simps [of n] is_digit_def nonzero_digit_def digits_value_def digit_value_def byte_digit)
  next
    case False
    then have IH: "to_string (n div 10) \<noteq> []" "list_all is_digit (to_string (n div 10))"
        "digits_value (to_string (n div 10)) = int (n div 10)" "nonzero_digit (hd (to_string (n div 10)))"
      using less [of "n div 10"] by auto
    moreover have "is_digit (byte_char (0x30 + int (n mod 10)))"
        "digit_value (byte_char (0x30 + int (n mod 10))) = int (n mod 10)"
      by (simp_all add: is_digit_def digit_value_def byte_digit)
    moreover have "10 * int (n div 10) + int (n mod 10) = int n" by presburger
    ultimately show ?thesis using False
      by (simp add: to_string.simps [of n] digits_value_snoc)
  qed
qed

lemma digits_value_nonneg: "list_all is_digit s \<Longrightarrow> 0 \<le> digits_value s"
proof (induction s rule: rev_induct)
  case (snoc c s)
  then show ?case by (simp add: digits_value_snoc is_digit_def digit_value_def)
qed (simp add: digits_value_def)

lemma digits_value_positive:
  "list_all is_digit s \<Longrightarrow> s \<noteq> [] \<Longrightarrow> nonzero_digit (hd s) \<Longrightarrow> 0 < digits_value s"
proof (induction s rule: rev_induct)
  case (snoc c s)
  have c: "0 \<le> digit_value c" using snoc.prems(1) by (simp add: is_digit_def digit_value_def)
  show ?case
  proof (cases "s = []")
    case True
    then show ?thesis using snoc.prems(3) by (simp add: digits_value_def nonzero_digit_def digit_value_def)
  next
    case False
    then have "0 < digits_value s" using snoc by simp
    with c show ?thesis by (simp add: digits_value_snoc)
  qed
qed simp

lemma to_string_unique:
  "list_all is_digit s \<Longrightarrow> s \<noteq> [] \<Longrightarrow> (1 < length s \<longrightarrow> nonzero_digit (hd s))
    \<Longrightarrow> s = to_string (nat (digits_value s))"
proof (induction s rule: rev_induct)
  case (snoc c s)
  have c: "c = char_of (48 + int (nat (digit_value c)))" "nat (digit_value c) < 10" "0 \<le> digit_value c"
    using is_digit_char [of c] snoc.prems(1) by (auto simp: is_digit_def digit_value_def)
  show ?case
  proof (cases "s = []")
    case True
    have "nat (digits_value (s @ [c])) = nat (digit_value c)" by (simp add: True digits_value_def)
    with c True show ?thesis by (simp add: to_string.simps)
  next
    case False
    have s: "list_all is_digit s" "nonzero_digit (hd s)" using snoc.prems False by auto
    then have IH: "s = to_string (nat (digits_value s))" and pos: "0 < digits_value s"
      using snoc.IH False digits_value_positive by auto
    let ?n = "nat (digits_value (s @ [c]))"
    have n: "?n = 10 * nat (digits_value s) + nat (digit_value c)" using pos c by (simp add: digits_value_snoc)
    then have "?n div 10 = nat (digits_value s)" "?n mod 10 = nat (digit_value c)" "\<not> ?n < 10"
      using c(2) pos by auto
    then have "to_string ?n = to_string (nat (digits_value s)) @ [byte_char (0x30 + int (nat (digit_value c)))]"
      by (subst to_string.simps) simp
    with IH c(1) show ?thesis by simp
  qed
qed simp

lemma takeWhile_digits: "list_all is_digit s \<Longrightarrow> takeWhile is_digit s = s"
  by (simp add: list_all_iff takeWhile_eq_all_conv)

lemma array_index_iff: "array_index s = Inr i \<longleftrightarrow> i < 2 ^ 64 - 1 \<and> s = to_string i"
proof
  assume i: "i < 2 ^ 64 - 1 \<and> s = to_string i"
  then have "int i < int (2 ^ 64 - 1)" by (simp only: of_nat_less_iff)
  then have "int i < 2 ^ 64 - 1" by simp
  with i to_string_digits [of i] show "array_index s = Inr i"
    by (auto simp: array_index_def takeWhile_digits nonzero_digit_def)
next
  assume a: "array_index s = Inr i"
  let ?d = "takeWhile is_digit s"
  from a have "\<not> (1 < length s \<and> hd s = CHR ''0'')" "\<not> (1 < length s \<and> \<not> nonzero_digit (hd s))"
      "?d \<noteq> []" "length ?d = length s" "digits_value ?d < 2 ^ 64 - 1" "i = nat (digits_value ?d)"
    by (auto simp: array_index_def Let_def split: if_splits)
  note d = this
  then have "?d = s" by (metis takeWhile_eq_take take_all order_refl)
  then have "list_all is_digit s" by (metis list_all_iff set_takeWhileD)
  with d \<open>?d = s\<close> show "i < 2 ^ 64 - 1 \<and> s = to_string i"
    using to_string_unique [of s] digits_value_nonneg [of s] by (auto simp: nat_less_iff)
qed

subsection \<open>What a pointer resolves to\<close>

text \<open>The token of a step of a path, and the pointer of a path.\<close>

fun step_token :: "json_step \<Rightarrow> string" where
  "step_token (AtIndex i) = to_string i"
| "step_token (AtKey k) = k"

fun addressable :: "json_step \<Rightarrow> bool" where
  "addressable (AtIndex i) = (i < 2 ^ 64 - 1)"
| "addressable (AtKey k) = True"

lemma extend_path_Inr: "extend_path s r = Inr q \<longleftrightarrow> (\<exists>p. r = Inr p \<and> q = s # p)"
  by (auto simp: extend_path_def bind_json_Inr)

lemma extend_path_simps [simp]: "extend_path s (Inl e) = Inl e" "extend_path s (Inr p) = Inr (s # p)"
  by (simp_all add: extend_path_def)

lemma to_string_not_dash: "to_string i \<noteq> ''-''"
  using to_string_digits [of i] by (auto simp: is_digit_def)

text \<open>One step of the checked walk.\<close>

fun checked_step :: "string \<Rightarrow> json \<Rightarrow> json_error + json_step" where
  "checked_step token (JObject m) =
     (if map_of m token = None then Inl (out_of_range 403) else Inr (AtKey token))"
| "checked_step token (JArray a) =
     (if token = ''-'' then Inl (out_of_range 402)
      else bind_json (array_index token)
        (\<lambda>i. if i < length a then Inr (AtIndex i) else Inl (out_of_range 401)))"
| "checked_step token j = Inl (out_of_range 404)"

lemma get_checked_Cons:
  "get_checked (token # p) j =
     bind_json (checked_step token j) (\<lambda>s. extend_path s (get_checked p (the (lookup_step s j))))"
  by (cases j; cases "array_index token") (auto split: option.splits)

declare get_checked.simps(2-) [simp del]

lemma checked_step_iff:
  "checked_step token j = Inr s \<longleftrightarrow> token = step_token s \<and> lookup_step s j \<noteq> None \<and> addressable s"
proof (cases j)
  case (JArray a)
  then show ?thesis
    by (cases s) (auto simp: bind_json_Inr array_index_iff to_string_not_dash dest: sym split: if_splits)
qed (cases s; auto)+

lemma get_checked_iff:
  "get_checked p j = Inr q \<longleftrightarrow> p = map step_token q \<and> json_at q j \<noteq> None \<and> list_all addressable q"
proof (induction p arbitrary: j q)
  case Nil
  then show ?case by auto
next
  case (Cons token p)
  show ?case
    by (cases q) (auto simp: get_checked_Cons bind_json_Inr extend_path_Inr checked_step_iff Cons.IH
        split: option.splits)
qed

lemma get_checked_append:
  "get_checked (p @ r) j =
     bind_json (get_checked p j) (\<lambda>q. bind_json (get_checked r (the (json_at q j))) (\<lambda>q'. Inr (q @ q')))"
proof (induction p arbitrary: j)
  case Nil
  then show ?case by (cases "get_checked r j") simp_all
next
  case (Cons token p)
  show ?case
  proof (cases "checked_step token j")
    case (Inr s)
    then have "lookup_step s j \<noteq> None" by (simp add: checked_step_iff)
    then obtain x where x: "lookup_step s j = Some x" by blast
    then show ?thesis using Inr Cons.IH [of x]
      by (cases "get_checked p x"; cases "get_checked r (the (json_at (projr (get_checked p x)) x))")
        (auto simp: get_checked_Cons)
  qed (simp add: get_checked_Cons)
qed

text \<open>\<^verbatim>\<open>contains\<close> is the check that \<^verbatim>\<open>at\<close> would succeed, and which tokens it throws for.\<close>

lemma plausible_to_string: "plausible_index (to_string i)"
  using to_string_digits [of i]
  by (cases "to_string i") (auto simp: plausible_index_def nonzero_digit_def)

lemma array_index_plausible:
  "plausible_index token \<Longrightarrow> array_index token =
     (if token = [] \<or> digits_value token \<ge> 2 ^ 64 then Inl (out_of_range 404)
      else if digits_value token = 2 ^ 64 - 1 then Inl (out_of_range 410)
      else Inr (nat (digits_value token)))"
proof -
  assume p: "plausible_index token"
  consider "token = []" | c where "token = [c]" "is_digit c"
    | c u where "token = c # u" "nonzero_digit c" "list_all is_digit u" "u \<noteq> []"
    using p by (cases token) (auto simp: plausible_index_def)
  then show ?thesis
  proof cases
    case 3
    then have d: "list_all is_digit token" by (auto simp: nonzero_digit_def is_digit_def)
    with 3 show ?thesis
      by (auto simp: array_index_def takeWhile_digits nonzero_digit_def Let_def)
  qed (auto simp: array_index_def digits_value_def digit_value_def is_digit_def)
qed

definition huge_index :: "string \<Rightarrow> bool" where
  "huge_index token \<longleftrightarrow> token = [] \<or> plausible_index token \<and> digits_value token \<ge> 2 ^ 64 - 1"

lemma contains_Cons:
  "contains_pointer (token # p) j =
     (case j of
        JArray a \<Rightarrow>
          if huge_index token
          then Inl (out_of_range (if digits_value token = 2 ^ 64 - 1 then 410 else 404))
          else (case checked_step token j of
                  Inl e \<Rightarrow> Inr False
                | Inr s \<Rightarrow> contains_pointer p (the (lookup_step s j)))
      | _ \<Rightarrow> (case checked_step token j of
                  Inl e \<Rightarrow> Inr False
                | Inr s \<Rightarrow> contains_pointer p (the (lookup_step s j))))"
proof (cases j)
  case (JArray a)
  show ?thesis
  proof (cases "plausible_index token")
    case True
    then have "token \<noteq> ''-''" by (auto simp: plausible_index_def is_digit_def)
    with True show ?thesis
      by (auto simp: JArray array_index_plausible huge_index_def digits_value_def)
  next
    case False
    then have "array_index token = Inr i \<Longrightarrow> thesis" for i thesis
      using plausible_to_string by (auto simp: array_index_iff)
    with False show ?thesis
      by (cases "array_index token") (auto simp: JArray huge_index_def plausible_index_def)
  qed
qed (auto split: option.splits)

lemma contains_step:
  "checked_step token j = Inr s \<Longrightarrow> contains_pointer (token # p) j = contains_pointer p (the (lookup_step s j))"
proof -
  assume s: "checked_step token j = Inr s"
  have "\<not> huge_index token" if "j = JArray a" for a
  proof
    assume h: "huge_index token"
    from s that have "\<exists>i. array_index token = Inr i" by (auto simp: bind_json_Inr split: if_splits)
    then obtain i where i: "i < 2 ^ 64 - 1" "token = to_string i" by (auto simp: array_index_iff)
    then have "int i < int (2 ^ 64 - 1)" by (simp only: of_nat_less_iff)
    with i h to_string_digits [of i] show False by (auto simp: huge_index_def)
  qed
  with s show ?thesis by (auto simp: contains_Cons split: json.splits)
qed

lemma contains_iff_at: "contains_pointer p j = Inr True \<longleftrightarrow> (\<exists>q. get_checked p j = Inr q)"
proof (induction p arbitrary: j)
  case Nil
  then show ?case by simp
next
  case (Cons token p)
  show ?case
  proof (cases "checked_step token j")
    case (Inl e)
    then show ?thesis by (auto simp: contains_Cons get_checked_Cons split: json.splits)
  next
    case (Inr s)
    then show ?thesis by (simp add: contains_step get_checked_Cons extend_path_Inr Cons.IH)
  qed
qed

lemma contains_throws_iff:
  "(\<exists>e. contains_pointer p j = Inl e) \<longleftrightarrow>
   (\<exists>p1 token p2 q a. p = p1 @ token # p2 \<and> get_checked p1 j = Inr q \<and> json_at q j = Some (JArray a)
      \<and> huge_index token)"
  (is "?throws p j \<longleftrightarrow> (\<exists>p1 token p2 q a. ?at p j p1 token p2 q a)")
proof (induction p arbitrary: j)
  case Nil
  then show ?case by simp
next
  case (Cons token p)
  have here: "?throws (token # p) j" if "j = JArray a" "huge_index token" for a
    using that by (simp add: contains_Cons)
  show ?case
  proof (cases "checked_step token j")
    case (Inl e)
    have "?throws (token # p) j \<longleftrightarrow> huge_index token \<and> (\<exists>a. j = JArray a)"
      using Inl by (cases j) (auto simp: contains_Cons)
    moreover have "(\<exists>p1 t p2 q a. ?at (token # p) j p1 t p2 q a) \<longleftrightarrow> huge_index token \<and> (\<exists>a. j = JArray a)"
    proof
      assume "\<exists>p1 t p2 q a. ?at (token # p) j p1 t p2 q a"
      then obtain p1 t p2 q a where at: "?at (token # p) j p1 t p2 q a" by blast
      then have "p1 = []" using Inl by (cases p1) (auto simp: get_checked_Cons)
      with at show "huge_index token \<and> (\<exists>a. j = JArray a)" by auto
    next
      assume "huge_index token \<and> (\<exists>a. j = JArray a)"
      then obtain a where "?at (token # p) j [] token p [] a" by auto
      then show "\<exists>p1 t p2 q a. ?at (token # p) j p1 t p2 q a" by blast
    qed
    ultimately show ?thesis by simp
  next
    case (Inr s)
    from Inr obtain x where x: "lookup_step s j = Some x" by (auto simp: checked_step_iff)
    note step = contains_step [OF Inr, unfolded x option.sel]
    have "?at (token # p) j (token # p1) t p2 (s # q) a" if "?at p x p1 t p2 q a" for p1 t p2 q a
      using that Inr x by (simp add: get_checked_Cons)
    moreover have "\<exists>p1 t p2 q a. ?at p x p1 t p2 q a" if at: "?at (token # p) j p1 t p2 q a" for p1 t p2 q a
    proof (cases p1)
      case Nil
      with at have "\<exists>a. j = JArray a" "huge_index token" by auto
      then have "?throws (token # p) j" using here by blast
      then have "?throws p x" by (simp add: step)
      then show ?thesis using Cons.IH by blast
    next
      case (Cons t' p1')
      with at Inr x obtain q' where "q = s # q'" "get_checked p1' x = Inr q'" "json_at q' x = Some (JArray a)"
        by (auto simp: get_checked_Cons extend_path_Inr)
      with at Cons have "?at p x p1' t p2 q' a" by simp
      then show ?thesis by blast
    qed
    ultimately show ?thesis using step [of p] Cons.IH [of x] by metis
  qed
qed

subsection \<open>What the unchecked walks create\<close>

lemma grow_array_length: "length (grow_array i a) = max (length a) (Suc i)"
  by (simp add: grow_array_def)

lemma grow_array_id: "i < length a \<Longrightarrow> grow_array i a = a"
  by (simp add: grow_array_def)

lemma map_touch_id: "map_of m k = Some v \<Longrightarrow> map_touch k m = m"
  by (simp add: map_touch_def)

lemma update_step_id: "lookup_step s j = Some x \<Longrightarrow> update_step s (\<lambda>_. x) j = j"
proof (induction s j rule: lookup_step.induct)
  case (2 k m)
  then have "map_of m k = Some x" by simp
  then have "map_modify k (\<lambda>_. x) m = m" by (induction m) (auto split: if_splits)
  then show ?case by simp
qed (auto simp: list_update_id split: if_splits)

lemma descend_at:
  "lookup_step s j = Some x \<Longrightarrow> f x = (y, r) \<Longrightarrow> descend s f j = (update_step s (\<lambda>_. y) j, extend_path s r)"
  by (simp add: descend_def)

text \<open>Where \<^verbatim>\<open>at\<close> succeeds, \<^verbatim>\<open>operator[]\<close> is \<^verbatim>\<open>at\<close>, for both of its variants.\<close>

lemma unchecked_of_checked:
  "get_checked p j = Inr q \<Longrightarrow>
   get_unchecked p j = (j, Inr q) \<and> get_const p j = Some (Inr (the (json_at q j)))"
proof (induction p arbitrary: j q)
  case Nil
  then show ?case by simp
next
  case (Cons token p)
  then obtain s q' where s: "checked_step token j = Inr s" and q: "q = s # q'"
    and q': "get_checked p (the (lookup_step s j)) = Inr q'"
    by (auto simp: get_checked_Cons bind_json_Inr extend_path_Inr)
  from s obtain x where x: "lookup_step s j = Some x" by (auto simp: checked_step_iff)
  from Cons.IH [of x q'] q' x have IH: "get_unchecked p x = (x, Inr q')"
    "get_const p x = Some (Inr (the (json_at q' x)))" by simp_all
  have d: "descend s (get_unchecked p) j = (j, Inr q)"
    using descend_at [of s j x "get_unchecked p"] x IH(1) update_step_id [OF x] q by simp
  show ?case
  proof (cases j)
    case (JArray a)
    with s obtain i where i: "array_index token = Inr i" "i < length a" "s = AtIndex i" "token \<noteq> ''-''"
      by (auto simp: bind_json_Inr split: if_splits)
    have "get_unchecked (token # p) j = (j, Inr q)"
      using d i by (simp add: JArray unchecked_container_def grow_array_id)
    moreover have "get_const (token # p) j = Some (Inr (the (json_at q j)))"
      using IH(2) i x q by (simp add: JArray)
    ultimately show ?thesis by simp
  next
    case (JObject m)
    with s have s': "map_of m token = Some x" "s = AtKey token"
      using x by (auto split: if_splits)
    then show ?thesis using d IH(2) x q by (simp add: JObject unchecked_container_def map_touch_id)
  qed (use s in simp_all)
qed

text \<open>The walks that create keep every value that is neither null nor a container.\<close>

fun is_leaf :: "json \<Rightarrow> bool" where
  "is_leaf JNull = False"
| "is_leaf (JArray a) = False"
| "is_leaf (JObject m) = False"
| "is_leaf j = True"

definition leaves_kept :: "json \<Rightarrow> json \<Rightarrow> bool" where
  "leaves_kept j j' \<longleftrightarrow> (\<forall>r x. json_at r j = Some x \<and> is_leaf x \<longrightarrow> json_at r j' = Some x)"

lemma kept_refl [simp]: "leaves_kept j j"
  by (simp add: leaves_kept_def)

lemma kept_trans: "leaves_kept i j \<Longrightarrow> leaves_kept j k \<Longrightarrow> leaves_kept i k"
  by (auto simp: leaves_kept_def)

lemma kept_steps:
  assumes "\<not> is_leaf j" "\<forall>s x. lookup_step s j = Some x \<longrightarrow> (\<exists>y. lookup_step s j' = Some y \<and> leaves_kept x y)"
  shows "leaves_kept j j'"
  unfolding leaves_kept_def
proof (intro allI impI)
  fix r x
  assume "json_at r j = Some x \<and> is_leaf x"
  with assms(1) obtain s r' v where r: "r = s # r'" "lookup_step s j = Some v" "json_at r' v = Some x" "is_leaf x"
    by (cases r) (auto split: option.splits)
  with assms(2) obtain y where "lookup_step s j' = Some y" "leaves_kept v y" by blast
  with r show "json_at r j' = Some x" by (simp add: leaves_kept_def)
qed

lemma map_of_touch:
  "map_of (map_touch k m) = (if map_of m k = None then (map_of m)(k \<mapsto> JNull) else map_of m)"
proof -
  have "map_of m k = None \<Longrightarrow> map_of (map_set k v m) = (map_of m)(k \<mapsto> v)" for v
    by (induction m) (auto simp: fun_eq_iff split: if_splits)
  then show ?thesis by (simp add: map_touch_def)
qed

lemma map_of_modify: "map_of (map_modify k g m) k' = (if k' = k then map_option g (map_of m k) else map_of m k')"
  by (induction m) auto

lemma kept_update:
  assumes x: "lookup_step s j = Some x" "leaves_kept x y"
  shows "leaves_kept j (update_step s (\<lambda>_. y) j)"
proof (rule kept_steps)
  show "\<not> is_leaf j" using x by (cases j; cases s) auto
  show "\<forall>t z. lookup_step t j = Some z \<longrightarrow>
      (\<exists>w. lookup_step t (update_step s (\<lambda>_. y) j) = Some w \<and> leaves_kept z w)"
    using x by (cases s; cases j)
      (auto simp: map_of_modify nth_list_update dest!: sym [of "Some _"] elim!: lookup_step.elims split: if_splits)
qed

lemma kept_null: "leaves_kept JNull j"
proof (rule kept_steps)
  show "\<forall>s x. lookup_step s JNull = Some x \<longrightarrow> (\<exists>y. lookup_step s j = Some y \<and> leaves_kept x y)"
    by (auto elim: lookup_step.elims)
qed simp

lemma kept_grow: "leaves_kept (JArray a) (JArray (grow_array i a))"
  by (rule kept_steps) (auto simp: grow_array_def nth_append elim!: lookup_step.elims split: if_splits)

lemma kept_touch: "leaves_kept (JObject m) (JObject (map_touch k m))"
  by (rule kept_steps) (auto simp: map_of_touch dest!: sym [of "Some _"] elim!: lookup_step.elims)

lemma kept_descend:
  assumes "leaves_kept j j'" "\<And>x. leaves_kept x (fst (f x))"
  shows "leaves_kept j (fst (descend s f j'))"
proof (cases "lookup_step s j'")
  case None
  with assms show ?thesis by (simp add: descend_def)
next
  case (Some x)
  then have "leaves_kept j' (update_step s (\<lambda>_. fst (f x)) j')" by (rule kept_update [OF _ assms(2)])
  with assms(1) Some show ?thesis by (auto simp: descend_def split: prod.splits intro: kept_trans)
qed

lemma unchecked_keeps_leaves: "leaves_kept j (fst (get_unchecked p j))"
proof (induction p arbitrary: j)
  case Nil
  then show ?case by simp
next
  case (Cons token p)
  show ?case
    by (cases j) (auto simp: unchecked_container_def kept_null kept_grow kept_touch Let_def Cons.IH
        intro!: kept_descend split: sum.splits)
qed

lemma create_keeps_leaves: "leaves_kept j (fst (get_and_create p j))"
proof (induction p arbitrary: j)
  case Nil
  then show ?case by simp
next
  case (Cons token p)
  show ?case
    by (cases j) (auto simp: kept_null kept_grow kept_touch Cons.IH
        intro!: kept_descend split: sum.splits)
qed

text \<open>What such a walk returns is there.\<close>

lemma descend_ok:
  assumes "descend s f j = (j', Inr q)" "lookup_step s j = Some x"
    and "\<And>y q'. f x = (y, Inr q') \<Longrightarrow> json_at q' y \<noteq> None"
  shows "json_at q j' \<noteq> None \<and> (\<exists>q' y. q = s # q' \<and> f x = (y, Inr q'))"
proof -
  obtain y r where y: "f x = (y, r)" by fastforce
  with assms(1,2) obtain q' where q: "q = s # q'" "r = Inr q'" "j' = update_step s (\<lambda>_. y) j"
    by (auto simp: descend_def extend_path_Inr)
  with assms(2,3) y show ?thesis by (auto simp: lookup_update_step)
qed

lemma grown_lookup: "\<exists>x. lookup_step (AtIndex i) (JArray (grow_array i a)) = Some x"
  by (simp add: grow_array_length)

lemma touched_lookup: "\<exists>x. lookup_step (AtKey k) (JObject (map_touch k m)) = Some x"
  by (auto simp: map_of_touch)

lemma unchecked_resolves: "get_unchecked p j = (j', Inr q) \<Longrightarrow> json_at q j' \<noteq> None"
proof (induction p arbitrary: j j' q)
  case Nil
  then show ?case by auto
next
  case (Cons token p)
  have d: "descend s (get_unchecked p) k = (j', Inr q) \<Longrightarrow> \<exists>x. lookup_step s k = Some x \<Longrightarrow> json_at q j' \<noteq> None" for s k
    using descend_ok [of s "get_unchecked p" k j' q] Cons.IH by blast
  from Cons.prems show ?case
    using d [OF _ grown_lookup] d [OF _ touched_lookup]
    by (auto simp: Let_def simp del: lookup_step.simps split: json.splits sum.splits if_splits)
qed

subsection \<open>The laws of pointers\<close>

text \<open>
  C24. A text is read as a pointer exactly when it is that pointer written out: escaping and splitting
  undo each other in both directions, and every other text is refused.
\<close>

theorem pointer_text: "split_pointer s = Inr p \<longleftrightarrow> pointer_string p = s"
  by (auto simp: split_pointer_iff)

text \<open>
  The checked access resolves a pointer exactly to the path its tokens name: keys as they are, array
  indices in decimal without leading zeros, and every step present in the value.
\<close>

theorem at_resolves_iff:
  "get_checked p j = Inr q \<longleftrightarrow>
   map step_token q = p \<and> json_at q j \<noteq> None \<and> list_all addressable q"
  by (auto simp: get_checked_iff)

text \<open>
  \<^verbatim>\<open>contains\<close> is true exactly when the checked access succeeds. It throws, which its
  documentation does not say, exactly when the walk meets an empty token or an index that does not
  fit into \<^verbatim>\<open>size_type\<close> at an array.
\<close>

theorem contains_characterised:
  "(contains_pointer p j = Inr True \<longleftrightarrow> (\<exists>q. get_checked p j = Inr q))
   \<and> ((\<exists>e. contains_pointer p j = Inl e) \<longleftrightarrow>
      (\<exists>p1 token p2 q a. p = p1 @ token # p2 \<and> get_checked p1 j = Inr q
        \<and> json_at q j = Some (JArray a) \<and> huge_index token))"
  using contains_iff_at contains_throws_iff by blast

text \<open>
  \<^verbatim>\<open>operator[]\<close> with a pointer changes nothing but nulls and absent members, whether it throws
  or not; what it returns is then there; and where the checked access succeeds it returns the same
  reference and changes nothing.
\<close>

theorem unchecked_access:
  "leaves_kept j (fst (get_unchecked p j))
   \<and> (get_unchecked p j = (j', Inr q) \<longrightarrow> json_at q j' \<noteq> None)
   \<and> (get_checked p j = Inr q \<longrightarrow> get_unchecked p j = (j, Inr q) \<and> get_const p j = Some (Inr (the (json_at q j))))"
  using unchecked_keeps_leaves unchecked_resolves unchecked_of_checked by blast

theorem unchecked_access_witness:
  "get_unchecked [''a'', ''0''] JNull = (JObject [(''a'', JArray [JNull])], Inr [AtKey ''a'', AtIndex 0])
   \<and> json_at [AtKey ''a'', AtIndex 0] (JObject [(''a'', JArray [JNull])]) \<noteq> None"
proof -
  have "get_unchecked [''a'', ''0''] JNull = (JObject [(''a'', JArray [JNull])], Inr [AtKey ''a'', AtIndex 0])"
    by code_simp
  with unchecked_access [of JNull "[''a'', ''0'']"] show ?thesis by blast
qed

end
