(* ===== verification/NPatch.thy ===== *)
theory NPatch
  imports NPointer
begin

text \<open>
  Comparison, initializer lists, patches and differences of JSON values
  (\<^verbatim>\<open>3rd/include/nlohmann/json.hpp\<close>): a patch is applied operation by operation to the value it
  changes in place, so a patch that throws leaves what the operations before it did. The difference
  of two values is the patch the library computes; applied to the first it makes the second.
\<close>

subsection \<open>Comparison\<close>

text \<open>
  \<^verbatim>\<open>operator==\<close>. Two floating-point numbers, and a floating-point number with an integer that is
  converted to one, are compared by the machine, which is an argument. An unsigned and a signed
  number are compared as signed ones, that is, as bit patterns.
\<close>

record float_equality =
  fe_floats :: "string \<Rightarrow> string \<Rightarrow> bool"
  fe_integer :: "int \<Rightarrow> string \<Rightarrow> bool"

fun json_eq :: "float_equality \<Rightarrow> json \<Rightarrow> json \<Rightarrow> bool" where
  "json_eq F (JArray a) (JArray b) = list_all2 (json_eq F) a b"
| "json_eq F (JObject m) (JObject n) = list_all2 (\<lambda>(k, v) (k', v'). k = k' \<and> json_eq F v v') m n"
| "json_eq F JNull JNull = True"
| "json_eq F (JString s) (JString t) = (s = t)"
| "json_eq F (JBool b) (JBool c) = (b = c)"
| "json_eq F (JInteger i) (JInteger j) = (i = j)"
| "json_eq F (JUnsigned u) (JUnsigned v) = (u = v)"
| "json_eq F (JFloat f) (JFloat g) = fe_floats F f g"
| "json_eq F (JInteger i) (JFloat f) = fe_integer F (sint i) f"
| "json_eq F (JFloat f) (JInteger i) = fe_integer F (sint i) f"
| "json_eq F (JUnsigned u) (JFloat f) = fe_integer F (uint u) f"
| "json_eq F (JFloat f) (JUnsigned u) = fe_integer F (uint u) f"
| "json_eq F (JUnsigned u) (JInteger i) = (u = i)"
| "json_eq F (JInteger i) (JUnsigned u) = (i = u)"
| "json_eq F x y = False"

text \<open>\<^verbatim>\<open>type()\<close>.\<close>

datatype value_t = TNull | TObject | TArray | TString | TBoolean | TInteger | TUnsigned | TFloat

fun json_type :: "json \<Rightarrow> value_t" where
  "json_type JNull = TNull"
| "json_type (JObject m) = TObject"
| "json_type (JArray a) = TArray"
| "json_type (JString s) = TString"
| "json_type (JBool b) = TBoolean"
| "json_type (JInteger i) = TInteger"
| "json_type (JUnsigned u) = TUnsigned"
| "json_type (JFloat f) = TFloat"

subsection \<open>Values from initializer lists\<close>

text \<open>A list of pairs with a string first is an object, in which the first of two equal keys wins.\<close>

fun is_pair :: "json \<Rightarrow> bool" where
  "is_pair (JArray [JString k, v]) = True"
| "is_pair j = False"

definition map_emplace :: "string \<Rightarrow> json \<Rightarrow> (string \<times> json) list \<Rightarrow> (string \<times> json) list" where
  "map_emplace k v m = (if map_of m k = None then map_set k v m else m)"

fun emplace_pair :: "json \<Rightarrow> (string \<times> json) list \<Rightarrow> (string \<times> json) list" where
  "emplace_pair (JArray [JString k, v]) m = map_emplace k v m"
| "emplace_pair j m = m"

definition json_of_init :: "json list \<Rightarrow> json" where
  "json_of_init init = (if list_all is_pair init then JObject (fold emplace_pair init []) else JArray init)"

definition object_of_init :: "json list \<Rightarrow> json_error + json" where
  "object_of_init init =
     (if list_all is_pair init then Inr (JObject (fold emplace_pair init []))
      else Inl (type_error 301 ''cannot create object from initializer list''))"

subsection \<open>The operations of a patch\<close>

text \<open>
  The outcome of a patch applied in place: the changed value, an exception with the value as it was
  left, or a failed assertion. \<open>ps_asserts\<close> tells whether \<^verbatim>\<open>JSON_ASSERT\<close> is compiled in.
\<close>

datatype patch_outcome = Patched json | PatchFailed json_error json | PatchAborted

fun then_patch :: "patch_outcome \<Rightarrow> (json \<Rightarrow> patch_outcome) \<Rightarrow> patch_outcome" where
  "then_patch (Patched j) f = f j"
| "then_patch r f = r"

definition try_patch :: "json_error + 'a \<Rightarrow> json \<Rightarrow> ('a \<Rightarrow> patch_outcome) \<Rightarrow> patch_outcome" where
  "try_patch r j f = (case r of Inl e \<Rightarrow> PatchFailed e j | Inr x \<Rightarrow> f x)"

lemma try_patch_simps [simp]:
  "try_patch (Inl e) j f = PatchFailed e j" "try_patch (Inr x) j f = f x"
  by (simp_all add: try_patch_def)

definition array_insert :: "nat \<Rightarrow> 'a \<Rightarrow> 'a list \<Rightarrow> 'a list" where
  "array_insert i v a = take i a @ v # drop i a"

definition array_erase :: "nat \<Rightarrow> 'a list \<Rightarrow> 'a list" where
  "array_erase i a = take i a @ drop (Suc i) a"

text \<open>\<^verbatim>\<open>parent[last_path] = val\<close>.\<close>

definition assign_member :: "string \<Rightarrow> json \<Rightarrow> (string \<times> json) list \<Rightarrow> (string \<times> json) list" where
  "assign_member k v m = map_modify k (\<lambda>_. v) (map_touch k m)"

definition add_to_parent :: "bool \<Rightarrow> string \<Rightarrow> json \<Rightarrow> json_path \<Rightarrow> json \<Rightarrow> patch_outcome" where
  "add_to_parent asserts last_path v q j =
     (case the (json_at q j) of
        JNull \<Rightarrow> Patched (json_update q (\<lambda>_. JObject (assign_member last_path v [])) j)
      | JObject m \<Rightarrow> Patched (json_update q (\<lambda>_. JObject (assign_member last_path v m)) j)
      | JArray a \<Rightarrow>
          if last_path = ''-'' then Patched (json_update q (\<lambda>_. JArray (a @ [v])) j)
          else try_patch (array_index last_path) j (\<lambda>idx.
            if idx > length a then PatchFailed (out_of_range 401) j
            else Patched (json_update q (\<lambda>_. JArray (array_insert idx v a)) j))
      | _ \<Rightarrow> if asserts then PatchAborted else Patched j)"

definition operation_add :: "bool \<Rightarrow> json_pointer \<Rightarrow> json \<Rightarrow> json \<Rightarrow> patch_outcome" where
  "operation_add asserts p v j =
     (if p = [] then Patched v
      else try_patch (bind_json (pointer_top p) (\<lambda>t. if t \<noteq> p then get_checked t j else Inr [])) j (\<lambda>_.
        try_patch (pointer_back p) j (\<lambda>last_path.
        try_patch (bind_json (pop_back p) (\<lambda>parent. get_checked parent j)) j (\<lambda>q.
        add_to_parent asserts last_path v q j))))"

definition remove_from_parent :: "string \<Rightarrow> json_path \<Rightarrow> json \<Rightarrow> patch_outcome" where
  "remove_from_parent last_path q j =
     (case the (json_at q j) of
        JObject m \<Rightarrow>
          if map_of m last_path = None then PatchFailed (out_of_range 403) j
          else Patched (json_update q (\<lambda>_. JObject (AList.delete last_path m)) j)
      | JArray a \<Rightarrow>
          try_patch (array_index last_path) j (\<lambda>idx.
            if idx \<ge> length a then PatchFailed (out_of_range 401) j
            else Patched (json_update q (\<lambda>_. JArray (array_erase idx a)) j))
      | _ \<Rightarrow> Patched j)"

definition operation_remove :: "json_pointer \<Rightarrow> json \<Rightarrow> patch_outcome" where
  "operation_remove p j =
     try_patch (pointer_back p) j (\<lambda>last_path.
     try_patch (bind_json (pop_back p) (\<lambda>parent. get_checked parent j)) j (\<lambda>q.
     remove_from_parent last_path q j))"

text \<open>\<^verbatim>\<open>get_value\<close>: a member of an operation, which must be a string where the code asks for one.\<close>

definition get_value :: "json \<Rightarrow> string \<Rightarrow> bool \<Rightarrow> json_error + json" where
  "get_value val member string_type =
     (case json_find member val of
        None \<Rightarrow> Inl (parse_error 105)
      | Some v \<Rightarrow> if string_type \<and> \<not> is_string v then Inl (parse_error 105) else Inr v)"

definition get_pointer :: "json \<Rightarrow> string \<Rightarrow> json_error + json_pointer" where
  "get_pointer val member =
     bind_json (bind_json (get_value val member True) from_json_string) split_pointer"

text \<open>
  \<open>test\<close> compares two operands whose order of evaluation the language leaves open;
  \<open>ps_value_first\<close> chooses it. An \<^verbatim>\<open>out_of_range\<close> of the access is caught.
\<close>

fun is_out_of_range :: "json_error \<Rightarrow> bool" where
  "is_out_of_range (out_of_range n) = True"
| "is_out_of_range e = False"

record patch_setting =
  ps_floats :: float_equality
  ps_print_float :: "string \<Rightarrow> string"
  ps_asserts :: bool
  ps_value_first :: bool

text \<open>The text of the exception is the operation written out, which throws for invalid UTF-8 itself.\<close>

definition unsuccessful :: "patch_setting \<Rightarrow> json \<Rightarrow> json_error" where
  "unsuccessful P val =
     (case json_dump (ps_print_float P) False HandlerStrict val of Inl e \<Rightarrow> e | Inr s \<Rightarrow> other_error 501)"

definition operation_test :: "patch_setting \<Rightarrow> json_pointer \<Rightarrow> json \<Rightarrow> json \<Rightarrow> patch_outcome" where
  "operation_test P p val j =
     (let located = bind_json (get_checked p j) (\<lambda>q. Inr (the (json_at q j)));
          expected = get_value val ''value'' False;
          success =
            (if ps_value_first P
             then bind_json expected (\<lambda>v. bind_json located (\<lambda>x. Inr (json_eq (ps_floats P) x v)))
             else bind_json located (\<lambda>x. bind_json expected (\<lambda>v. Inr (json_eq (ps_floats P) x v)))) in
      case success of
        Inr True \<Rightarrow> Patched j
      | Inr False \<Rightarrow> PatchFailed (unsuccessful P val) j
      | Inl e \<Rightarrow> PatchFailed (if is_out_of_range e then unsuccessful P val else e) j)"

definition patch_operation :: "patch_setting \<Rightarrow> json \<Rightarrow> json \<Rightarrow> patch_outcome" where
  "patch_operation P val j =
     (if \<not> is_object val then PatchFailed (parse_error 104) j
      else try_patch (bind_json (get_value val ''op'' True) from_json_string) j (\<lambda>op.
        try_patch (get_pointer val ''path'') j (\<lambda>p.
        if op = ''add'' then
          try_patch (get_value val ''value'' False) j (\<lambda>v. operation_add (ps_asserts P) p v j)
        else if op = ''remove'' then operation_remove p j
        else if op = ''replace'' then
          try_patch (get_value val ''value'' False) j (\<lambda>v.
          try_patch (get_checked p j) j (\<lambda>q. Patched (json_update q (\<lambda>_. v) j)))
        else if op = ''move'' then
          try_patch (get_pointer val ''from'') j (\<lambda>from.
          try_patch (get_checked from j) j (\<lambda>q.
          then_patch (operation_remove from j) (operation_add (ps_asserts P) p (the (json_at q j)))))
        else if op = ''copy'' then
          try_patch (get_pointer val ''from'') j (\<lambda>from.
          try_patch (get_checked from j) j (\<lambda>q. operation_add (ps_asserts P) p (the (json_at q j)) j))
        else if op = ''test'' then operation_test P p val j
        else PatchFailed (parse_error 105) j)))"

fun patch_loop :: "patch_setting \<Rightarrow> json list \<Rightarrow> json \<Rightarrow> patch_outcome" where
  "patch_loop P [] j = Patched j"
| "patch_loop P (val # vals) j = then_patch (patch_operation P val j) (patch_loop P vals)"

fun patch_inplace :: "patch_setting \<Rightarrow> json \<Rightarrow> json \<Rightarrow> patch_outcome" where
  "patch_inplace P (JArray vals) j = patch_loop P vals j"
| "patch_inplace P p j = PatchFailed (parse_error 104) j"

text \<open>\<^verbatim>\<open>patch\<close> works on a copy; \<open>None\<close> is the failed assertion.\<close>

definition patch_json :: "patch_setting \<Rightarrow> json \<Rightarrow> json \<Rightarrow> (json_error + json) option" where
  "patch_json P p j =
     (case patch_inplace P p j of
        Patched j' \<Rightarrow> Some (Inr j')
      | PatchFailed e j' \<Rightarrow> Some (Inl e)
      | PatchAborted \<Rightarrow> None)"

subsection \<open>Differences\<close>

definition init_pair :: "string \<Rightarrow> json \<Rightarrow> json" where
  "init_pair k v = json_of_init [JString k, v]"

definition replace_op :: "string \<Rightarrow> json \<Rightarrow> json" where
  "replace_op path target =
     json_of_init [init_pair ''op'' (JString ''replace''), init_pair ''path'' (JString path), init_pair ''value'' target]"

definition add_op :: "string \<Rightarrow> json \<Rightarrow> json" where
  "add_op path v =
     json_of_init [init_pair ''op'' (JString ''add''), init_pair ''path'' (JString path), init_pair ''value'' v]"

text \<open>\<^verbatim>\<open>object({...})\<close>, which does not throw for this list.\<close>

definition remove_op :: "string \<Rightarrow> json" where
  "remove_op path =
     projr (object_of_init [init_pair ''op'' (JString ''remove''), init_pair ''path'' (JString path)])"

lemma element_size: "i < length a \<Longrightarrow> size (a ! i) \<le> size_list size (a :: json list)"
  by (rule size_list_estimation') auto

lemma member_size: "(k, v) \<in> set m \<Longrightarrow> size v \<le> size_list (size_prod (\<lambda>x. 0) size) (m :: (string \<times> json) list)"
  by (rule size_list_estimation') auto

function diff :: "float_equality \<Rightarrow> json \<Rightarrow> json \<Rightarrow> string \<Rightarrow> json list" where
  "diff F source target path =
     (if json_eq F source target then []
      else if json_type source \<noteq> json_type target then [replace_op path target]
      else case (source, target) of
        (JArray a, JArray b) \<Rightarrow>
          (let n = min (length a) (length b);
               common = concat (map (\<lambda>i. diff F (a ! i) (b ! i) (path @ ''/'' @ to_string i)) [0..<n]);
               removed = fold (\<lambda>i result. array_insert (length common) (remove_op (path @ ''/'' @ to_string i)) result)
                 [n..<length a] common in
           removed @ map (\<lambda>i. add_op (path @ ''/-'') (b ! i)) [max n (length a)..<length b])
      | (JObject m, JObject m') \<Rightarrow>
          concat (map (\<lambda>(k, v). case map_of m' k of
              Some w \<Rightarrow> diff F v w (path @ ''/'' @ escape k)
            | None \<Rightarrow> [remove_op (path @ ''/'' @ escape k)]) m)
          @ concat (map (\<lambda>(k, w). if map_of m k = None then [add_op (path @ ''/'' @ escape k) w] else []) m')
      | _ \<Rightarrow> [replace_op path target])"
  by pat_completeness auto
termination
  by (relation "measure (\<lambda>(F, source, target, path). size source)")
    (auto simp: less_Suc_eq_le element_size member_size)

declare diff.simps [simp del]

subsection \<open>The operations a difference is made of\<close>

lemma map_of_set_absent: "map_of m k = None \<Longrightarrow> map_of (map_set k v m) = (map_of m)(k \<mapsto> v)"
  by (induction m) (auto simp: fun_eq_iff split: if_splits)

lemma map_of_emplace:
  "map_of (map_emplace k v m) k' = (if k' = k \<and> map_of m k = None then Some v else map_of m k')"
  by (auto simp: map_emplace_def map_of_set_absent)

lemma init_pair_eq: "init_pair k v = JArray [JString k, v]"
  by (simp add: init_pair_def json_of_init_def)

lemma replace_op_members:
  "is_object (replace_op path t)" "json_find ''op'' (replace_op path t) = Some (JString ''replace'')"
  "json_find ''path'' (replace_op path t) = Some (JString path)"
  "json_find ''value'' (replace_op path t) = Some t"
  by (simp_all add: replace_op_def init_pair_eq json_of_init_def map_of_emplace)

lemma add_op_members:
  "is_object (add_op path t)" "json_find ''op'' (add_op path t) = Some (JString ''add'')"
  "json_find ''path'' (add_op path t) = Some (JString path)"
  "json_find ''value'' (add_op path t) = Some t"
  by (simp_all add: add_op_def init_pair_eq json_of_init_def map_of_emplace)

lemma remove_op_members:
  "is_object (remove_op path)" "json_find ''op'' (remove_op path) = Some (JString ''remove'')"
  "json_find ''path'' (remove_op path) = Some (JString path)"
  by (simp_all add: remove_op_def init_pair_eq object_of_init_def map_of_emplace)

lemma perform_replace:
  "patch_operation P (replace_op (pointer_string p) v) j =
     try_patch (get_checked p j) j (\<lambda>q. Patched (json_update q (\<lambda>_. v) j))"
  by (simp add: patch_operation_def get_value_def get_pointer_def replace_op_members split_pointer_string)

lemma perform_add:
  "patch_operation P (add_op (pointer_string p) v) j = operation_add (ps_asserts P) p v j"
  by (simp add: patch_operation_def get_value_def get_pointer_def add_op_members split_pointer_string)

lemma perform_remove:
  "patch_operation P (remove_op (pointer_string p)) j = operation_remove p j"
  by (simp add: patch_operation_def get_value_def get_pointer_def remove_op_members split_pointer_string)

subsection \<open>Operations at a path\<close>

text \<open>A path is the abstract pointer: it determines a pointer, which resolves to it.\<close>

definition path_string :: "json_path \<Rightarrow> string" where
  "path_string q = pointer_string (map step_token q)"

lemma escape_to_string: "escape (to_string i) = to_string i"
proof -
  have "escape s = s" if "list_all is_digit s" for s
    using that by (induction s) (auto simp: escape_char_def is_digit_def)
  then show ?thesis using to_string_digits by blast
qed

lemma path_string_snoc:
  "path_string (q @ [AtKey k]) = path_string q @ ''/'' @ escape k"
  "path_string (q @ [AtIndex i]) = path_string q @ ''/'' @ to_string i"
  by (simp_all add: path_string_def pointer_string_concat escape_to_string)

lemma path_string_dash: "path_string q @ ''/-'' = pointer_string (map step_token q @ [''-''])"
  by (simp add: path_string_def pointer_string_concat escape_char_def)

text \<open>\<open>there q x j\<close>: the pointer of \<open>q\<close> resolves in \<open>j\<close>, to the value \<open>x\<close>.\<close>

definition there :: "json_path \<Rightarrow> json \<Rightarrow> json \<Rightarrow> bool" where
  "there q x j \<longleftrightarrow> list_all addressable q \<and> json_at q j = Some x"

lemma thereD: "there q x j \<Longrightarrow> get_checked (map step_token q) j = Inr q \<and> json_at q j = Some x"
  by (simp add: there_def get_checked_iff)

lemma there_update: "there q x j \<Longrightarrow> there q y (json_update q (\<lambda>_. y) j)"
  by (auto simp: there_def json_at_update)

lemma there_step: "there q x j \<Longrightarrow> lookup_step s x = Some y \<Longrightarrow> addressable s \<Longrightarrow> there (q @ [s]) y j"
  by (simp add: there_def json_at_append)

lemma update_twice: "json_update q (\<lambda>_. y) (json_update q (\<lambda>_. x) j) = json_update q (\<lambda>_. y) j"
  by (simp add: json_update_compose)

lemma update_below: "there q x j \<Longrightarrow> json_update (q @ [s]) (\<lambda>_. y) j = json_update q (\<lambda>_. update_step s (\<lambda>_. y) x) j"
  unfolding json_update_append by (rule json_update_at) (auto simp: there_def)

lemma top_checked:
  assumes "get_checked p j = Inr q"
  shows "\<exists>r. bind_json (pointer_top (p @ [t])) (\<lambda>u. if u \<noteq> p @ [t] then get_checked u j else Inr []) = Inr r"
proof (cases p)
  case (Cons u p')
  then have "\<exists>r. get_checked [u] j = Inr r"
    using assms get_checked_append [of "[u]" p' j] by (cases "get_checked [u] j") simp_all
  then show ?thesis using Cons by (simp add: pointer_top_def)
qed (simp add: pointer_top_def)

lemma add_below: "there q x j \<Longrightarrow>
  operation_add asserts (map step_token q @ [t]) v j = add_to_parent asserts t v q j"
proof -
  assume "there q x j"
  note q = thereD [OF this]
  obtain r where "bind_json (pointer_top (map step_token q @ [t]))
      (\<lambda>u. if u \<noteq> map step_token q @ [t] then get_checked u j else Inr []) = Inr r"
    using top_checked [OF conjunct1 [OF q]] by blast
  then show ?thesis using q by (simp add: operation_add_def pointer_back_def pop_back_def)
qed

lemma remove_below: "there q x j \<Longrightarrow>
  operation_remove (map step_token q @ [t]) j = remove_from_parent t q j"
  using thereD [of q x j] by (simp add: operation_remove_def pointer_back_def pop_back_def)

lemma to_parent_simps:
  "there q (JObject m) j \<Longrightarrow>
    add_to_parent asserts t v q j = Patched (json_update q (\<lambda>_. JObject (assign_member t v m)) j)"
  "there q (JArray a) j \<Longrightarrow>
    add_to_parent asserts ''-'' v q j = Patched (json_update q (\<lambda>_. JArray (a @ [v])) j)"
  "there q (JArray a) j \<Longrightarrow> array_index t = Inr i \<Longrightarrow> i \<le> length a \<Longrightarrow>
    add_to_parent asserts t v q j = Patched (json_update q (\<lambda>_. JArray (array_insert i v a)) j)"
  "there q (JObject m) j \<Longrightarrow> map_of m t \<noteq> None \<Longrightarrow>
    remove_from_parent t q j = Patched (json_update q (\<lambda>_. JObject (AList.delete t m)) j)"
  "there q (JArray a) j \<Longrightarrow> array_index t = Inr i \<Longrightarrow> i < length a \<Longrightarrow>
    remove_from_parent t q j = Patched (json_update q (\<lambda>_. JArray (array_erase i a)) j)"
  "there q x j \<Longrightarrow> is_leaf x \<Longrightarrow>
    add_to_parent asserts t v q j = (if asserts then PatchAborted else Patched j)
    \<and> remove_from_parent t q j = Patched j"
proof -
  show "there q (JArray a) j \<Longrightarrow> array_index t = Inr i \<Longrightarrow> i \<le> length a \<Longrightarrow>
    add_to_parent asserts t v q j = Patched (json_update q (\<lambda>_. JArray (array_insert i v a)) j)"
  proof -
    assume a: "there q (JArray a) j" "array_index t = Inr i" "i \<le> length a"
    then have "t \<noteq> ''-''" using to_string_not_dash [of i] by (simp add: array_index_iff)
    with a show ?thesis by (simp add: add_to_parent_def there_def)
  qed
qed (auto simp: add_to_parent_def remove_from_parent_def there_def split: json.splits)

text \<open>The four operations of a difference.\<close>

lemma replace_there: "there q x j \<Longrightarrow>
  patch_operation P (replace_op (path_string q) v) j = Patched (json_update q (\<lambda>_. v) j)"
  using thereD [of q x j] by (simp add: path_string_def perform_replace)

lemma append_there: "there q (JArray a) j \<Longrightarrow>
  patch_operation P (add_op (path_string q @ ''/-'') v) j = Patched (json_update q (\<lambda>_. JArray (a @ [v])) j)"
  by (simp add: path_string_dash perform_add add_below to_parent_simps)

lemma add_member_there: "there q (JObject m) j \<Longrightarrow>
  patch_operation P (add_op (path_string q @ ''/'' @ escape k) v) j
    = Patched (json_update q (\<lambda>_. JObject (assign_member k v m)) j)"
  unfolding path_string_snoc [symmetric] unfolding path_string_def
  by (simp add: perform_add add_below to_parent_simps)

lemma remove_member_there: "there q (JObject m) j \<Longrightarrow> map_of m k \<noteq> None \<Longrightarrow>
  patch_operation P (remove_op (path_string q @ ''/'' @ escape k)) j
    = Patched (json_update q (\<lambda>_. JObject (AList.delete k m)) j)"
  unfolding path_string_snoc [symmetric] unfolding path_string_def
  by (simp add: perform_remove remove_below to_parent_simps)

lemma remove_index_there: "there q (JArray a) j \<Longrightarrow> i < length a \<Longrightarrow> length a < 2 ^ 64 \<Longrightarrow>
  patch_operation P (remove_op (path_string q @ ''/'' @ to_string i)) j
    = Patched (json_update q (\<lambda>_. JArray (array_erase i a)) j)"
proof -
  assume a: "there q (JArray a) j" "i < length a" "length a < 2 ^ 64"
  then have "array_index (to_string i) = Inr i" by (simp add: array_index_iff)
  with a show ?thesis unfolding path_string_snoc [symmetric] unfolding path_string_def
    by (simp add: perform_remove remove_below to_parent_simps)
qed

end
