(* ===== verification/NDiff.thy ===== *)
theory NDiff
  imports NPatch
begin

text \<open>
  The difference that the library computes of two values, applied as a patch to the first, makes a
  value equal to the second; and where the comparison the library uses for that is too coarse.
\<close>

subsection \<open>Maps with equal keys\<close>

lemma sorted_map_eq:
  assumes "keys_sorted m" "keys_sorted n" "dom (map_of m) = dom (map_of n)"
  shows "map fst m = map fst n"
proof -
  have "set (map fst m) = set (map fst n)" using assms(3) by (simp add: dom_map_of_conv_image_fst)
  with assms(1,2) show ?thesis
    unfolding keys_sorted_def by (meson sorted_distinct_set_unique strict_sorted_iff)
qed

lemma keys_distinct: "keys_sorted m \<Longrightarrow> distinct (map fst m)"
  by (simp add: keys_sorted_def strict_sorted_iff)

lemma members_related:
  assumes "keys_sorted m" "keys_sorted n" "\<And>k. rel_option R (map_of m k) (map_of n k)"
  shows "list_all2 (\<lambda>(k, v) (k', v'). k = k' \<and> R v v') m n"
proof (rule list_all2_all_nthI)
  have "map_of m k = None \<longleftrightarrow> map_of n k = None" for k
    using assms(3) [of k] by (auto simp: option_rel_Some1 option_rel_Some2)
  then have keys: "map fst m = map fst n"
    by (intro sorted_map_eq [OF assms(1,2)]) (auto simp: dom_def)
  then show "length m = length n" by (metis length_map)
  fix i
  assume i: "i < length m"
  then have j: "i < length n" using keys by (metis length_map)
  obtain k v k' v' where kv: "m ! i = (k, v)" "n ! i = (k', v')" by (meson surj_pair)
  note distinct = keys_distinct [OF assms(1)] keys_distinct [OF assms(2)]
  have "k = k'" using keys i j kv by (metis fst_conv nth_map)
  have "map_of m k = Some v" "map_of n k' = Some v'"
    using i j kv nth_mem [OF i] nth_mem [OF j] distinct by simp_all
  with assms(3) [of k] \<open>k = k'\<close> have "R v v'" by simp
  with kv \<open>k = k'\<close> show "(case m ! i of (k, v) \<Rightarrow> \<lambda>(k', v'). k = k' \<and> R v v') (n ! i)" by simp
qed

subsection \<open>Values as they are stored\<close>

text \<open>
  What a \<^verbatim>\<open>std::map\<close> keeps of its keys, and a bound on the length of arrays that no
  \<^verbatim>\<open>std::vector\<close> reaches.
\<close>

fun stored :: "json \<Rightarrow> bool" where
  "stored (JArray a) = (int (length a) < 2 ^ 64 \<and> list_all stored a)"
| "stored (JObject m) = (keys_sorted m \<and> list_all (\<lambda>(k, v). stored v) m)"
| "stored j = True"

text \<open>\<open>turns_into P ops s r\<close>: the operations turn the value \<open>s\<close> into \<open>r\<close> wherever it is.\<close>

definition turns_into :: "patch_setting \<Rightarrow> (string \<Rightarrow> json list) \<Rightarrow> json \<Rightarrow> json \<Rightarrow> bool" where
  "turns_into P ops s r \<longleftrightarrow>
     (\<forall>q j. there q s j \<longrightarrow> patch_loop P (ops (path_string q)) j = Patched (json_update q (\<lambda>_. r) j))"

lemma turns_intoD:
  "turns_into P ops s r \<Longrightarrow> there q s j \<Longrightarrow> patch_loop P (ops (path_string q)) j = Patched (json_update q (\<lambda>_. r) j)"
  by (simp add: turns_into_def)

lemma patch_loop_append: "patch_loop P (xs @ ys) j = then_patch (patch_loop P xs j) (patch_loop P ys)"
proof (induction xs arbitrary: j)
  case (Cons x xs)
  then show ?case by (cases "patch_operation P x j") simp_all
qed simp

lemma update_same: "there q s j \<Longrightarrow> json_update q (\<lambda>_. s) j = j"
proof (induction q arbitrary: j)
  case Nil
  then show ?case by (simp add: there_def)
next
  case (Cons t q)
  then obtain x where x: "lookup_step t j = Some x" "there q s x"
    by (auto simp: there_def split: option.splits)
  have "update_step t (json_update q (\<lambda>_. s)) j = update_step t (\<lambda>_. x) j"
    using update_step_at [of t j x "json_update q (\<lambda>_. s)" "\<lambda>_. x"] x(1) Cons.IH [OF x(2)] by simp
  with x(1) show ?case by (simp add: update_step_id)
qed

lemma turns_nothing: "turns_into P (\<lambda>path. []) s s"
  by (simp add: turns_into_def update_same)

lemma turns_replace: "turns_into P (\<lambda>path. [replace_op path t]) s t"
  by (simp add: turns_into_def replace_there)

lemma turns_then:
  assumes "turns_into P ops s r" "turns_into P ops' r r'"
  shows "turns_into P (\<lambda>path. ops path @ ops' path) s r'"
  unfolding turns_into_def
proof (intro allI impI)
  fix q j
  assume "there q s j"
  with turns_intoD [OF assms(1)] turns_intoD [OF assms(2) there_update]
  show "patch_loop P (ops (path_string q) @ ops' (path_string q)) j = Patched (json_update q (\<lambda>_. r') j)"
    by (simp add: patch_loop_append update_twice)
qed

text \<open>A change below a step of the path.\<close>

lemma turns_below:
  assumes "turns_into P ops x y" "lookup_step s v = Some x" "addressable s"
  shows "turns_into P (\<lambda>path. ops (path @ ''/'' @ escape (step_token s))) v (update_step s (\<lambda>_. y) v)"
  unfolding turns_into_def
proof (intro allI impI)
  fix q j
  assume q: "there q v j"
  have "path_string (q @ [s]) = path_string q @ ''/'' @ escape (step_token s)"
    by (simp add: path_string_def pointer_string_concat)
  with turns_intoD [OF assms(1) there_step [OF q assms(2,3)]]
  show "patch_loop P (ops (path_string q @ ''/'' @ escape (step_token s))) j
      = Patched (json_update q (\<lambda>_. update_step s (\<lambda>_. y) v) j)"
    by (simp add: update_below [OF q])
qed

subsection \<open>Arrays\<close>

lemma turns_elements:
  assumes "k \<le> length rs" "length rs \<le> length a" "length a < 2 ^ 64"
    and "\<And>i. i < length rs \<Longrightarrow> turns_into P (ops i) (a ! i) (rs ! i)"
  shows "turns_into P (\<lambda>path. concat (map (\<lambda>i. ops i (path @ ''/'' @ to_string i)) [0..<k]))
    (JArray a) (JArray (take k rs @ drop k a))"
  using assms(1)
proof (induction k)
  case 0
  then show ?case by (simp add: turns_nothing)
next
  case (Suc k)
  let ?v = "take k rs @ drop k a"
  have k: "k < length rs" "k < length a" using Suc.prems assms(2) by simp_all
  have "turns_into P (ops k) (?v ! k) (rs ! k)" using assms(4) [OF k(1)] k by (simp add: nth_append)
  then have "turns_into P (\<lambda>path. ops k (path @ ''/'' @ escape (step_token (AtIndex k)))) (JArray ?v)
      (update_step (AtIndex k) (\<lambda>_. rs ! k) (JArray ?v))"
    using k assms(3) by (intro turns_below) simp_all
  moreover have "?v[k := rs ! k] = take (Suc k) rs @ drop (Suc k) a"
    using k by (simp add: list_update_append take_Suc_conv_app_nth Cons_nth_drop_Suc [symmetric])
  ultimately have "turns_into P (\<lambda>path. ops k (path @ ''/'' @ to_string k)) (JArray ?v)
      (JArray (take (Suc k) rs @ drop (Suc k) a))"
    by (simp add: escape_to_string)
  from turns_then [OF Suc.IH this] Suc.prems show ?case by simp
qed

lemma turns_removals:
  assumes "n \<le> m" "m \<le> length a" "length a < 2 ^ 64"
  shows "turns_into P (\<lambda>path. map (\<lambda>i. remove_op (path @ ''/'' @ to_string i)) (rev [n..<m]))
    (JArray (take m a)) (JArray (take n a))"
  using assms(1,2)
proof (induction m)
  case 0
  then show ?case by (simp add: turns_nothing)
next
  case (Suc m)
  show ?case
  proof (cases "n = Suc m")
    case True
    then show ?thesis by (simp add: turns_nothing)
  next
    case False
    have erased: "array_erase m (take (Suc m) a) = take m a" by (simp add: array_erase_def min_def)
    have "turns_into P (\<lambda>path. [remove_op (path @ ''/'' @ to_string m)]) (JArray (take (Suc m) a)) (JArray (take m a))"
      unfolding turns_into_def
    proof (intro allI impI)
      fix q j
      assume q: "there q (JArray (take (Suc m) a)) j"
      show "patch_loop P [remove_op (path_string q @ ''/'' @ to_string m)] j
          = Patched (json_update q (\<lambda>_. JArray (take m a)) j)"
        using remove_index_there [OF q, of m] Suc.prems assms(3) erased by simp
    qed
    from turns_then [OF this Suc.IH] False Suc.prems show ?thesis by simp
  qed
qed

lemma turns_appends:
  "turns_into P (\<lambda>path. map (add_op (path @ ''/-'')) vs) (JArray a) (JArray (a @ vs))"
proof (induction vs arbitrary: a)
  case Nil
  then show ?case by (simp add: turns_nothing)
next
  case (Cons v vs)
  have "turns_into P (\<lambda>path. [add_op (path @ ''/-'') v]) (JArray a) (JArray (a @ [v]))"
    by (simp add: turns_into_def append_there)
  from turns_then [OF this Cons.IH] show ?case by simp
qed

lemma fold_array_insert:
  "fold (\<lambda>i result. array_insert (length xs) (f i) result) is (xs @ ys) = xs @ rev (map f is) @ ys"
  by (induction "is" arbitrary: ys) (simp_all add: array_insert_def)

lemma map_nth_upt: "map (\<lambda>i. f (b ! i)) [k..<length b] = map f (drop k b)"
  by (rule nth_equalityI) simp_all

lemma diff_array:
  assumes "\<not> json_eq F (JArray a) (JArray b)" "n = min (length a) (length b)"
  shows "diff F (JArray a) (JArray b) path =
    concat (map (\<lambda>i. diff F (a ! i) (b ! i) (path @ ''/'' @ to_string i)) [0..<n])
    @ map (\<lambda>i. remove_op (path @ ''/'' @ to_string i)) (rev [n..<length a])
    @ map (add_op (path @ ''/-'')) (drop (length a) b)"
proof -
  let ?c = "concat (map (\<lambda>i. diff F (a ! i) (b ! i) (path @ ''/'' @ to_string i)) [0..<n])"
  have "fold (\<lambda>i result. array_insert (length ?c) (remove_op (path @ ''/'' @ to_string i)) result) [n..<length a] ?c
      = ?c @ map (\<lambda>i. remove_op (path @ ''/'' @ to_string i)) (rev [n..<length a])"
    using fold_array_insert [of ?c "\<lambda>i. remove_op (path @ ''/'' @ to_string i)" "[n..<length a]" "[]"]
    by (simp add: rev_map)
  moreover have "max n (length a) = length a" using assms(2) by simp
  ultimately show ?thesis using assms
    by (subst diff.simps) (simp add: Let_def map_nth_upt)
qed

lemma array_diff_builds:
  assumes "\<not> json_eq F (JArray a) (JArray b)" "length a < 2 ^ 64" "list_all2 (json_eq F) b b"
    and rec: "\<And>i. i < length a \<Longrightarrow> i < length b \<Longrightarrow>
      \<exists>r. json_eq F r (b ! i) \<and> turns_into P (diff F (a ! i) (b ! i)) (a ! i) r"
  shows "\<exists>r. json_eq F r (JArray b) \<and> turns_into P (diff F (JArray a) (JArray b)) (JArray a) r"
proof -
  define n where "n = min (length a) (length b)"
  obtain f where f: "\<And>i. i < n \<Longrightarrow> json_eq F (f i) (b ! i) \<and> turns_into P (diff F (a ! i) (b ! i)) (a ! i) (f i)"
    using rec unfolding n_def by (metis min_less_iff_conj)
  define rs where "rs = map f [0..<n]"
  have rs: "length rs = n" "\<And>i. i < n \<Longrightarrow> rs ! i = f i" by (simp_all add: rs_def)
  have "turns_into P (\<lambda>path. concat (map (\<lambda>i. diff F (a ! i) (b ! i) (path @ ''/'' @ to_string i)) [0..<n]))
      (JArray a) (JArray (take n rs @ drop n a))"
    by (rule turns_elements) (use rs f assms(2) in \<open>auto simp: n_def\<close>)
  then have common: "turns_into P (\<lambda>path. concat (map (\<lambda>i. diff F (a ! i) (b ! i) (path @ ''/'' @ to_string i)) [0..<n]))
      (JArray a) (JArray (rs @ drop n a))"
    using rs by simp
  have "turns_into P (\<lambda>path. map (\<lambda>i. remove_op (path @ ''/'' @ to_string i)) (rev [n..<length a]))
      (JArray (take (length a) (rs @ drop n a))) (JArray (take n (rs @ drop n a)))"
    by (rule turns_removals) (use rs assms(2) in \<open>auto simp: n_def\<close>)
  then have removed: "turns_into P (\<lambda>path. map (\<lambda>i. remove_op (path @ ''/'' @ to_string i)) (rev [n..<length a]))
      (JArray (rs @ drop n a)) (JArray rs)"
    using rs by (simp add: n_def)
  have "turns_into P (diff F (JArray a) (JArray b)) (JArray a) (JArray (rs @ drop (length a) b))"
    using turns_then [OF common turns_then [OF removed turns_appends [of P "drop (length a) b"]]]
    unfolding diff_array [OF assms(1) n_def, abs_def] by simp
  moreover have "list_all2 (json_eq F) (rs @ drop (length a) b) b"
  proof (rule list_all2_all_nthI)
    show "length (rs @ drop (length a) b) = length b" by (simp add: rs n_def)
    fix i
    assume i: "i < length (rs @ drop (length a) b)"
    show "json_eq F ((rs @ drop (length a) b) ! i) (b ! i)"
    proof (cases "i < n")
      case True
      then show ?thesis using f [OF True] by (simp add: nth_append rs)
    next
      case False
      with i have "i < length b" "n = length a" by (auto simp: rs n_def)
      with False list_all2_nthD [OF assms(3), of i] show ?thesis by (simp add: nth_append rs)
    qed
  qed
  ultimately show ?thesis by (intro exI [of _ "JArray (rs @ drop (length a) b)"]) simp
qed

subsection \<open>Objects\<close>

lemma keys_sorted_delete: "keys_sorted m \<Longrightarrow> keys_sorted (AList.delete k m)"
  by (simp add: keys_sorted_def AList.delete_eq sorted_wrt_map sorted_wrt_filter)

lemma keys_sorted_modify: "keys_sorted m \<Longrightarrow> keys_sorted (map_modify k g m)"
proof -
  have "map fst (map_modify k g m) = map fst m" by (induction m) auto
  then show "keys_sorted m \<Longrightarrow> keys_sorted (map_modify k g m)" by (simp add: keys_sorted_def)
qed

lemma keys_sorted_assign: "keys_sorted m \<Longrightarrow> keys_sorted (assign_member k v m)"
  by (simp add: assign_member_def keys_sorted_modify map_touch_sorted)

lemma map_of_assign: "map_of (assign_member k v m) = (map_of m)(k \<mapsto> v)"
  by (auto simp: assign_member_def map_of_modify map_of_touch fun_eq_iff)

lemma turns_remove_member: "map_of m k \<noteq> None \<Longrightarrow>
  turns_into P (\<lambda>path. [remove_op (path @ ''/'' @ escape k)]) (JObject m) (JObject (AList.delete k m))"
  unfolding turns_into_def using remove_member_there [of _ m _ k P] by simp

lemma turns_add_member:
  "turns_into P (\<lambda>path. [add_op (path @ ''/'' @ escape k) w]) (JObject m) (JObject (assign_member k w m))"
  unfolding turns_into_def using add_member_there [of _ m _ P k w] by simp

text \<open>The pass over the members of the source, from any member on.\<close>

fun source_op :: "float_equality \<Rightarrow> (string \<times> json) list \<Rightarrow> string \<Rightarrow> string \<times> json \<Rightarrow> json list" where
  "source_op F n path (k, v) = (case map_of n k of
       Some w \<Rightarrow> diff F v w (path @ ''/'' @ escape k)
     | None \<Rightarrow> [remove_op (path @ ''/'' @ escape k)])"

lemma source_pass:
  assumes "distinct (map fst xs)" "keys_sorted c" "\<And>k v. (k, v) \<in> set xs \<Longrightarrow> map_of c k = Some v"
    and "\<And>k v w. (k, v) \<in> set xs \<Longrightarrow> map_of n k = Some w \<Longrightarrow> turns_into P (diff F v w) v (f k)"
  shows "\<exists>d. keys_sorted d
    \<and> (\<forall>k. map_of d k = (if k \<in> fst ` set xs then map_option (\<lambda>_. f k) (map_of n k) else map_of c k))
    \<and> turns_into P (\<lambda>path. concat (map (source_op F n path) xs)) (JObject c) (JObject d)"
  using assms
proof (induction xs arbitrary: c)
  case Nil
  then show ?case by (intro exI [of _ c]) (simp add: turns_nothing)
next
  case (Cons kv xs)
  obtain k v where kv: "kv = (k, v)" by force
  have cv: "map_of c k = Some v" using Cons.prems(3) kv by simp
  have new: "k \<notin> fst ` set xs" "distinct (map fst xs)" using Cons.prems(1) kv by auto
  have "\<exists>e. keys_sorted e \<and> map_of e = (map_of c)(k := map_option (\<lambda>_. f k) (map_of n k))
      \<and> turns_into P (\<lambda>path. source_op F n path kv) (JObject c) (JObject e)"
  proof (cases "map_of n k")
    case None
    have "turns_into P (\<lambda>path. [remove_op (path @ ''/'' @ escape k)]) (JObject c) (JObject (AList.delete k c))"
      by (rule turns_remove_member) (simp add: cv)
    then show ?thesis using None Cons.prems(2) kv
      by (intro exI [of _ "AList.delete k c"]) (simp add: delete_conv' keys_sorted_delete)
  next
    case (Some w)
    have "turns_into P (diff F v w) v (f k)" using Cons.prems(4) kv Some by simp
    then have "turns_into P (\<lambda>path. diff F v w (path @ ''/'' @ escape (step_token (AtKey k)))) (JObject c)
        (update_step (AtKey k) (\<lambda>_. f k) (JObject c))"
      using cv by (intro turns_below) simp_all
    then show ?thesis using Some Cons.prems(2) kv cv
      by (intro exI [of _ "map_modify k (\<lambda>_. f k) c"])
        (simp add: keys_sorted_modify map_of_modify fun_eq_iff)
  qed
  then obtain e where e: "keys_sorted e" "map_of e = (map_of c)(k := map_option (\<lambda>_. f k) (map_of n k))"
    "turns_into P (\<lambda>path. source_op F n path kv) (JObject c) (JObject e)" by blast
  have "\<And>k' v'. (k', v') \<in> set xs \<Longrightarrow> map_of e k' = Some v'"
    using Cons.prems(3) new e(2) kv by (force simp: image_iff)
  then obtain d where d: "keys_sorted d"
    "\<forall>k. map_of d k = (if k \<in> fst ` set xs then map_option (\<lambda>_. f k) (map_of n k) else map_of e k)"
    "turns_into P (\<lambda>path. concat (map (source_op F n path) xs)) (JObject e) (JObject d)"
    using Cons.IH [OF new(2) e(1)] Cons.prems(4) kv by (metis list.set_intros(2))
  from turns_then [OF e(3) d(3)] d(1,2) e(2) new(1) kv show ?case
    by (intro exI [of _ d]) auto
qed

fun target_op :: "(string \<times> json) list \<Rightarrow> string \<Rightarrow> string \<times> json \<Rightarrow> json list" where
  "target_op m path (k, w) = (if map_of m k = None then [add_op (path @ ''/'' @ escape k) w] else [])"

lemma target_pass:
  assumes "distinct (map fst xs)" "keys_sorted c"
  shows "\<exists>d. keys_sorted d
    \<and> (\<forall>k. map_of d k = (if k \<in> fst ` set xs \<and> map_of m k = None then map_of xs k else map_of c k))
    \<and> turns_into P (\<lambda>path. concat (map (target_op m path) xs)) (JObject c) (JObject d)"
  using assms
proof (induction xs arbitrary: c)
  case Nil
  then show ?case by (intro exI [of _ c]) (simp add: turns_nothing)
next
  case (Cons kw xs)
  obtain k w where kw: "kw = (k, w)" by force
  have new: "k \<notin> fst ` set xs" "distinct (map fst xs)" using Cons.prems(1) kw by auto
  define e where "e = (if map_of m k = None then assign_member k w c else c)"
  have e: "keys_sorted e" "map_of e = (if map_of m k = None then (map_of c)(k \<mapsto> w) else map_of c)"
    using Cons.prems(2) by (simp_all add: e_def keys_sorted_assign map_of_assign)
  have step: "turns_into P (\<lambda>path. target_op m path kw) (JObject c) (JObject e)"
    using turns_nothing turns_add_member by (cases "map_of m k") (simp_all add: e_def kw)
  obtain d where d: "keys_sorted d"
    "\<forall>k. map_of d k = (if k \<in> fst ` set xs \<and> map_of m k = None then map_of xs k else map_of e k)"
    "turns_into P (\<lambda>path. concat (map (target_op m path) xs)) (JObject e) (JObject d)"
    using Cons.IH [OF new(2) e(1)] by blast
  from turns_then [OF step d(3)] d(1,2) e(2) new(1) kw show ?case
    by (intro exI [of _ d]) auto
qed

lemma diff_object:
  assumes "\<not> json_eq F (JObject m) (JObject n)"
  shows "diff F (JObject m) (JObject n) path =
    concat (map (source_op F n path) m) @ concat (map (target_op m path) n)"
proof -
  have "source_op F n path = (\<lambda>(k, v). case map_of n k of
       Some w \<Rightarrow> diff F v w (path @ ''/'' @ escape k) | None \<Rightarrow> [remove_op (path @ ''/'' @ escape k)])"
    "target_op m path = (\<lambda>(k, w). if map_of m k = None then [add_op (path @ ''/'' @ escape k) w] else [])"
    by (auto simp: fun_eq_iff)
  with assms show ?thesis by (subst diff.simps) (simp only: json_type.simps if_False if_True prod.case json.case simp_thms)
qed

lemma object_diff_builds:
  assumes "\<not> json_eq F (JObject m) (JObject n)" "keys_sorted m" "keys_sorted n" "json_eq F (JObject n) (JObject n)"
    and rec: "\<And>k v w. (k, v) \<in> set m \<Longrightarrow> map_of n k = Some w \<Longrightarrow>
      \<exists>r. json_eq F r w \<and> turns_into P (diff F v w) v r"
  shows "\<exists>r. json_eq F r (JObject n) \<and> turns_into P (diff F (JObject m) (JObject n)) (JObject m) r"
proof -
  have "\<forall>k. \<exists>r. \<forall>v w. map_of m k = Some v \<and> map_of n k = Some w \<longrightarrow> json_eq F r w \<and> turns_into P (diff F v w) v r"
  proof
    fix k
    show "\<exists>r. \<forall>v w. map_of m k = Some v \<and> map_of n k = Some w \<longrightarrow> json_eq F r w \<and> turns_into P (diff F v w) v r"
      using rec [OF map_of_SomeD] by (cases "map_of m k"; cases "map_of n k") auto
  qed
  then obtain f where f: "\<And>k v w. map_of m k = Some v \<Longrightarrow> map_of n k = Some w \<Longrightarrow>
      json_eq F (f k) w \<and> turns_into P (diff F v w) v (f k)" by metis
  have mem: "(k, v) \<in> set m \<longleftrightarrow> map_of m k = Some v" for k v
    using map_of_eq_Some_iff [OF keys_distinct [OF assms(2)]] by blast
  obtain d where d: "keys_sorted d"
    "\<forall>k. map_of d k = (if k \<in> fst ` set m then map_option (\<lambda>_. f k) (map_of n k) else map_of m k)"
    "turns_into P (\<lambda>path. concat (map (source_op F n path) m)) (JObject m) (JObject d)"
    using source_pass [OF keys_distinct [OF assms(2)] assms(2), of n P F f] mem f by blast
  obtain e where e: "keys_sorted e"
    "\<forall>k. map_of e k = (if k \<in> fst ` set n \<and> map_of m k = None then map_of n k else map_of d k)"
    "turns_into P (\<lambda>path. concat (map (target_op m path) n)) (JObject d) (JObject e)"
    using target_pass [OF keys_distinct [OF assms(3)] d(1), of m P] by blast
  have "rel_option (json_eq F) (map_of e k) (map_of n k)" for k
  proof (cases "map_of n k")
    case None
    then have "map_of e k = None"
      using d(2) e(2) by (auto simp: map_of_eq_None_iff)
    with None show ?thesis by simp
  next
    case (Some w)
    then have "json_eq F w w"
      using assms(4) map_of_SomeD [OF Some] by (auto simp: list.rel_refl_strong list_all2_same)
    moreover have "k \<in> fst ` set n" using Some by (metis domI dom_map_of_conv_image_fst)
    ultimately show ?thesis using Some d(2) e(2) f [of k]
      by (cases "map_of m k") (auto simp: map_of_eq_None_iff image_iff mem dest: map_of_SomeD)
  qed
  from members_related [OF e(1) assms(3) this]
  have "json_eq F (JObject e) (JObject n)" by simp
  moreover have "turns_into P (diff F (JObject m) (JObject n)) (JObject m) (JObject e)"
    using turns_then [OF d(3) e(3)] unfolding diff_object [OF assms(1), abs_def] .
  ultimately show ?thesis by blast
qed

lemma diff_same: "json_eq F s t \<Longrightarrow> diff F s t = (\<lambda>path. [])"
  by (rule ext) (simp add: diff.simps)

lemma diff_replaces:
  "\<not> json_eq F s t \<Longrightarrow> (\<nexists>a b. s = JArray a \<and> t = JArray b) \<Longrightarrow> (\<nexists>m n. s = JObject m \<and> t = JObject n)
    \<Longrightarrow> diff F s t = (\<lambda>path. [replace_op path t])"
  by (rule ext, subst diff.simps) (auto split: json.split)

lemma diff_builds:
  "stored s \<Longrightarrow> stored t \<Longrightarrow> json_eq F t t \<Longrightarrow> \<exists>r. json_eq F r t \<and> turns_into P (diff F s t) s r"
proof (induction s arbitrary: t rule: measure_induct_rule [where f = size])
  case (less s)
  consider (same) "json_eq F s t"
    | (arrays) a b where "\<not> json_eq F s t" "s = JArray a" "t = JArray b"
    | (objects) m n where "\<not> json_eq F s t" "s = JObject m" "t = JObject n"
    | (other) "\<not> json_eq F s t" "\<nexists>a b. s = JArray a \<and> t = JArray b" "\<nexists>m n. s = JObject m \<and> t = JObject n"
    by blast
  then show ?case
  proof cases
    case same
    then show ?thesis using turns_nothing [of P s] by (intro exI [of _ s]) (simp add: diff_same)
  next
    case arrays
    have "\<exists>r. json_eq F r (b ! i) \<and> turns_into P (diff F (a ! i) (b ! i)) (a ! i) r"
      if "i < length a" "i < length b" for i
    proof (rule less.IH)
      show "size (a ! i) < size s" using arrays(2) element_size [OF that(1)] by simp
      show "stored (a ! i)" "stored (b ! i)" using less.prems arrays(2,3) that by (simp_all add: list_all_length)
      show "json_eq F (b ! i) (b ! i)" using less.prems(3) arrays(3) that(2) by (simp add: list_all2_same)
    qed
    then show ?thesis using array_diff_builds [of F a b P] less.prems arrays by simp
  next
    case objects
    have "\<exists>r. json_eq F r w \<and> turns_into P (diff F v w) v r" if "(k, v) \<in> set m" "map_of n k = Some w" for k v w
    proof (rule less.IH)
      show "size v < size s" using objects(2) member_size [OF that(1)] by simp
      show "stored v" "stored w"
        using less.prems objects(2,3) that(1) map_of_SomeD [OF that(2)] by (auto simp: list_all_iff)
      show "json_eq F w w"
        using less.prems(3) objects(3) map_of_SomeD [OF that(2)] by (auto simp: list_all2_same)
    qed
    then show ?thesis using object_diff_builds [of F m n P] less.prems objects by simp
  next
    case other
    then show ?thesis using less.prems(3) turns_replace [of P t s]
      by (intro exI [of _ t]) (simp add: diff_replaces [OF other])
  qed
qed

text \<open>
  C15. The patch that \<^verbatim>\<open>diff\<close> computes applies without an exception and makes the source equal to the
  target, for all values a target without a NaN, whose comparison with itself fails, can have.
\<close>

theorem patch_of_diff:
  assumes "stored source" "stored target" "json_eq F target target"
  shows "\<exists>r. patch_json P (JArray (diff F source target [])) source = Some (Inr r) \<and> json_eq F r target"
proof -
  obtain r where r: "json_eq F r target" "turns_into P (diff F source target) source r"
    using diff_builds [OF assms] by blast
  have "there [] source source" by (simp add: there_def)
  from turns_intoD [OF r(2) this] have "patch_loop P (diff F source target []) source = Patched r"
    by (simp add: path_string_def pointer_string_concat)
  with r(1) show ?thesis by (simp add: patch_json_def)
qed

text \<open>Values that differ in an element, in lengths, in keys and in types.\<close>

definition demo_source :: json where
  "demo_source = JObject [(''a/b'', JArray [JUnsigned 1, JBool True, JNull]), (''c'', JString ''x''), (''d'', JObject [])]"

definition demo_target :: json where
  "demo_target = JObject [(''a/b'', JArray [JUnsigned 2]), (''d'', JArray []), (''e'', JFloat ''0.5'')]"

definition demo_floats :: float_equality where
  "demo_floats = \<lparr>fe_floats = (=), fe_integer = (\<lambda>i f. False)\<rparr>"

definition demo_setting :: patch_setting where
  "demo_setting = \<lparr>ps_floats = demo_floats, ps_print_float = (\<lambda>f. f), ps_asserts = True, ps_value_first = False\<rparr>"

theorem patch_of_diff_witness:
  "\<exists>r. patch_json demo_setting (JArray (diff demo_floats demo_source demo_target [])) demo_source = Some (Inr r)
    \<and> json_eq demo_floats r demo_target \<and> length (diff demo_floats demo_source demo_target []) = 6"
proof -
  have "stored demo_source" "stored demo_target" "json_eq demo_floats demo_target demo_target" by code_simp+
  from patch_of_diff [OF this, of demo_setting] obtain r where
    "patch_json demo_setting (JArray (diff demo_floats demo_source demo_target [])) demo_source = Some (Inr r)"
    "json_eq demo_floats r demo_target" by blast
  moreover have "length (diff demo_floats demo_source demo_target []) = 6" by code_simp
  ultimately show ?thesis by blast
qed

text \<open>
  The comparison converts an unsigned number to a signed one of the same width, so a number from
  \<open>2 ^ 63\<close> on is equal to the negative one with the same bits, and the difference of such values
  is empty although they are different numbers: the patch does not make the target.
\<close>

theorem diff_misses_change:
  assumes "sint u < 0"
  shows "diff F (JUnsigned u) (JInteger u) path = []
    \<and> patch_json P (JArray (diff F (JUnsigned u) (JInteger u) [])) (JUnsigned u) = Some (Inr (JUnsigned u))
    \<and> uint u \<noteq> sint u"
proof -
  have "uint u \<noteq> sint u" using assms uint_ge_0 [of u] by linarith
  then show ?thesis by (simp add: diff_same patch_json_def)
qed

theorem diff_misses_change_witness:
  "diff demo_floats (JUnsigned (- 1)) (JInteger (- 1)) [] = [] \<and> uint (- 1 :: u64) = 2 ^ 64 - 1 \<and> sint (- 1 :: u64) = - 1"
proof -
  have "sint (- 1 :: u64) < 0" by simp
  from diff_misses_change [OF this, of demo_floats "[]" demo_setting] show ?thesis by (simp add: unsigned_minus_1_eq_mask mask_eq_exp_minus_1)
qed

end
