(* ===== verification/NMerge.thy ===== *)
theory NMerge
  imports NDiff
begin

text \<open>
  Merge patches (\<^verbatim>\<open>merge_patch\<close> in \<^verbatim>\<open>3rd/include/nlohmann/json.hpp\<close>), and that they do what RFC 7386
  says: the recursion over the members of the patch in the order of the map has one result.
\<close>

subsection \<open>Merging\<close>

text \<open>
  The patch is the second argument. A member that is null erases the key; any other one is merged
  into the member of that key, which \<^verbatim>\<open>operator[]\<close> makes null where it is missing.
\<close>

function merge_patch :: "json \<Rightarrow> json \<Rightarrow> json" where
  "merge_patch j (JObject p) =
     JObject (fold (\<lambda>(k, v) m.
         if v = JNull then AList.delete k m
         else let m' = map_touch k m in map_modify k (\<lambda>_. merge_patch (the (map_of m' k)) v) m')
       p (case j of JObject m \<Rightarrow> m | _ \<Rightarrow> []))"
| "merge_patch j JNull = JNull"
| "merge_patch j (JBool b) = JBool b"
| "merge_patch j (JUnsigned u) = JUnsigned u"
| "merge_patch j (JInteger i) = JInteger i"
| "merge_patch j (JFloat f) = JFloat f"
| "merge_patch j (JString s) = JString s"
| "merge_patch j (JArray a) = JArray a"
  by pat_completeness auto
termination
  by (relation "measure (\<lambda>(j, p). size p)") (auto simp: less_Suc_eq_le member_size)

declare merge_patch.simps(1) [simp del]

definition members :: "json \<Rightarrow> (string \<times> json) list" where
  "members j = (case j of JObject m \<Rightarrow> m | _ \<Rightarrow> [])"

definition merge_member :: "string \<times> json \<Rightarrow> (string \<times> json) list \<Rightarrow> (string \<times> json) list" where
  "merge_member kv m =
     (if snd kv = JNull then AList.delete (fst kv) m
      else map_modify (fst kv) (\<lambda>_. merge_patch (the (map_of (map_touch (fst kv) m) (fst kv))) (snd kv))
        (map_touch (fst kv) m))"

lemma merge_object: "merge_patch j (JObject p) = JObject (fold merge_member p (members j))"
proof -
  have "merge_member = (\<lambda>(k, v) m. if v = JNull then AList.delete k m
      else let m' = map_touch k m in map_modify k (\<lambda>_. merge_patch (the (map_of m' k)) v) m')"
    by (auto simp: merge_member_def fun_eq_iff Let_def)
  then show ?thesis by (simp add: merge_patch.simps(1) members_def)
qed

text \<open>What RFC 7386 makes of one member, given the value of the same key.\<close>

definition merged :: "json option \<Rightarrow> json \<Rightarrow> json option" where
  "merged x v = (if v = JNull then None else Some (merge_patch (case x of None \<Rightarrow> JNull | Some y \<Rightarrow> y) v))"

lemma merge_member_of:
  "map_of (merge_member (k, v) m) = (map_of m)(k := merged (map_of m k) v)"
  by (auto simp: merge_member_def merged_def delete_conv' map_of_modify map_of_touch fun_eq_iff split: option.split)

lemma merge_member_sorted: "keys_sorted m \<Longrightarrow> keys_sorted (merge_member kv m)"
  by (simp add: merge_member_def keys_sorted_delete keys_sorted_modify map_touch_sorted)

lemma merge_members_of:
  "distinct (map fst p) \<Longrightarrow>
   map_of (fold merge_member p m) k = (case map_of p k of None \<Rightarrow> map_of m k | Some v \<Rightarrow> merged (map_of m k) v)"
proof (induction p arbitrary: m)
  case (Cons kv p)
  obtain k' v where kv: "kv = (k', v)" by force
  with Cons.prems have "map_of p k' = None" "distinct (map fst p)" by (auto simp: map_of_eq_None_iff)
  then show ?case using Cons.IH by (auto simp: kv merge_member_of split: option.split)
qed simp

lemma merge_members_sorted: "keys_sorted m \<Longrightarrow> keys_sorted (fold merge_member p m)"
  by (induction p arbitrary: m) (simp_all add: merge_member_sorted)

subsection \<open>Maps in order\<close>

fun ordered :: "json \<Rightarrow> bool" where
  "ordered (JArray a) = list_all ordered a"
| "ordered (JObject m) = (keys_sorted m \<and> list_all (\<lambda>(k, v). ordered v) m)"
| "ordered j = True"

lemma ordered_object:
  "ordered (JObject m) \<longleftrightarrow> keys_sorted m \<and> (\<forall>k v. map_of m k = Some v \<longrightarrow> ordered v)"
  using map_of_eq_Some_iff [OF keys_distinct, of m] by (auto simp: list_all_iff)

lemma ordered_members: "ordered j \<Longrightarrow> ordered (JObject (members j))"
  by (cases j) (auto simp: members_def keys_sorted_def)

lemma sorted_map_unique: "keys_sorted m \<Longrightarrow> keys_sorted n \<Longrightarrow> map_of m = map_of n \<Longrightarrow> m = n"
proof -
  assume a: "keys_sorted m" "keys_sorted n" "map_of m = map_of n"
  have "list_all2 (\<lambda>(k, v) (k', v'). k = k' \<and> v = v') m n"
    by (rule members_related [OF a(1,2)]) (simp add: a(3) option.rel_refl)
  then have "list_all2 (=) m n" by (rule list_all2_mono) auto
  then show "m = n" by (simp add: list.rel_eq)
qed

lemma merge_ordered: "ordered j \<Longrightarrow> ordered p \<Longrightarrow> ordered (merge_patch j p)"
proof (induction p arbitrary: j)
  case (JObject p)
  let ?r = "fold merge_member p (members j)"
  have p: "keys_sorted p" "\<And>k v. map_of p k = Some v \<Longrightarrow> ordered v"
    and m: "keys_sorted (members j)" "\<And>k v. map_of (members j) k = Some v \<Longrightarrow> ordered v"
    using JObject.prems ordered_members by (auto simp: ordered_object simp del: ordered.simps)
  have "ordered x" if "map_of ?r k = Some x" for k x
  proof (cases "map_of p k")
    case None
    then show ?thesis using that m(2) by (simp add: merge_members_of keys_distinct p(1))
  next
    case (Some v)
    then have "merged (map_of (members j) k) v = Some x"
      using that by (simp add: merge_members_of keys_distinct p(1))
    moreover have "ordered (case map_of (members j) k of None \<Rightarrow> JNull | Some y \<Rightarrow> y)"
      using m(2) by (auto split: option.split)
    ultimately show ?thesis
      using JObject.IH map_of_SomeD [OF Some] p(2) [OF Some] by (auto simp: merged_def split: if_splits)
  qed
  then show ?case
    by (simp add: merge_object ordered_object merge_members_sorted m(1) del: ordered.simps)
qed simp_all

text \<open>
  C16. What RFC 7386 asks for, which determines the result. A patch that is not an object replaces
  the target. One that is an object makes an object of the target: a key the patch does not have
  keeps its member, a key it has with null is gone, and a key it has with another value holds that
  value merged into the old member, or into null where there is none.
\<close>

theorem merge_patch_members:
  assumes "ordered target" "ordered patch"
  shows "ordered (merge_patch target patch) \<and>
    (case patch of
       JObject p \<Rightarrow> \<exists>r. merge_patch target patch = JObject r
         \<and> (\<forall>k. map_of r k = (case map_of p k of
              None \<Rightarrow> map_of (members target) k
            | Some v \<Rightarrow> if v = JNull then None
                else Some (merge_patch (case map_of (members target) k of None \<Rightarrow> JNull | Some x \<Rightarrow> x) v)))
     | _ \<Rightarrow> merge_patch target patch = patch)"
proof (cases patch)
  case (JObject p)
  have "keys_sorted p" using assms(2) by (simp add: JObject)
  then have "map_of (fold merge_member p (members target)) k = (case map_of p k of
        None \<Rightarrow> map_of (members target) k
      | Some v \<Rightarrow> if v = JNull then None
          else Some (merge_patch (case map_of (members target) k of None \<Rightarrow> JNull | Some x \<Rightarrow> x) v))" for k
    by (simp add: merge_members_of keys_distinct merged_def cong: option.case_cong)
  with merge_ordered [OF assms] show ?thesis by (simp add: JObject merge_object)
qed (use merge_ordered [OF assms] in simp_all)

text \<open>Applying a merge patch a second time changes nothing.\<close>

theorem merge_patch_idempotent:
  assumes "ordered target" "ordered p"
  shows "merge_patch (merge_patch target p) p = merge_patch target p"
  using assms
proof (induction p arbitrary: target)
  case (JObject p)
  let ?m = "members target"
  let ?r = "fold merge_member p ?m"
  have p: "keys_sorted p" and m: "ordered (JObject ?m)" and po: "ordered (JObject p)"
    using JObject.prems ordered_members by auto
  have "map_of (fold merge_member p ?r) k = map_of ?r k" for k
  proof (cases "map_of p k")
    case None
    then show ?thesis by (simp add: merge_members_of keys_distinct p)
  next
    case (Some v)
    let ?x = "case map_of ?m k of None \<Rightarrow> JNull | Some x \<Rightarrow> x"
    have x: "ordered ?x" "ordered v"
      using m po Some unfolding ordered_object by (auto split: option.split)
    have "merge_patch (merge_patch ?x v) v = merge_patch ?x v"
      by (rule JObject.IH [OF map_of_SomeD [OF Some] _ x]) simp
    with Some show ?thesis by (simp add: merge_members_of keys_distinct p merged_def)
  qed
  then have "fold merge_member p ?r = ?r"
    using m p by (intro sorted_map_unique ext) (simp_all add: merge_members_sorted)
  then show ?case by (simp add: merge_object members_def)
qed simp_all

text \<open>Witnesses: a target with a member to erase, one to merge into and one to keep.\<close>

definition demo_merge_target :: json where
  "demo_merge_target = JObject [(''a'', JString ''b''), (''c'', JObject [(''d'', JString ''e''), (''f'', JString ''g'')]), (''k'', JBool True)]"

definition demo_merge_patch :: "(string \<times> json) list" where
  "demo_merge_patch = [(''a'', JString ''z''), (''c'', JObject [(''f'', JNull)])]"

lemma demo_merge_ordered: "ordered demo_merge_target" "ordered (JObject demo_merge_patch)"
  by code_simp+

theorem merge_patch_members_witness:
  "\<exists>r. merge_patch demo_merge_target (JObject demo_merge_patch) = JObject r
    \<and> map_of r ''a'' = Some (JString ''z'') \<and> map_of r ''k'' = Some (JBool True)
    \<and> map_of r ''c'' = Some (JObject [(''d'', JString ''e'')])"
proof -
  from merge_patch_members [OF demo_merge_ordered] obtain r where
    r: "merge_patch demo_merge_target (JObject demo_merge_patch) = JObject r" by auto
  have "merge_patch demo_merge_target (JObject demo_merge_patch)
      = JObject [(''a'', JString ''z''), (''c'', JObject [(''d'', JString ''e'')]), (''k'', JBool True)]"
    by code_simp
  with r show ?thesis by auto
qed

theorem merge_patch_idempotent_witness:
  "\<exists>r. merge_patch demo_merge_target (JObject demo_merge_patch) = r \<and> merge_patch r (JObject demo_merge_patch) = r
    \<and> r \<noteq> demo_merge_target"
proof -
  have "merge_patch demo_merge_target (JObject demo_merge_patch) \<noteq> demo_merge_target" by code_simp
  with merge_patch_idempotent [OF demo_merge_ordered] show ?thesis by blast
qed

end
