(* ===== verification/NPatchLaws.thy ===== *)
theory NPatchLaws
  imports NMerge
begin

text \<open>
  What the operations of a patch do: objects keep their keys in order whatever happens, an addition
  is undone by the removal at the same place, \<open>test\<close> succeeds exactly for an equal value, and
  what the code does below a value that is neither an object nor an array.
\<close>

subsection \<open>Objects stay in order\<close>

lemma ordered_lookup: "ordered j \<Longrightarrow> lookup_step s j = Some x \<Longrightarrow> ordered x"
  by (cases "(s, j)" rule: lookup_step.cases) (auto simp: list_all_length ordered_object simp del: ordered.simps(2) split: if_splits)

lemma ordered_at: "ordered j \<Longrightarrow> json_at q j = Some x \<Longrightarrow> ordered x"
  by (induction q arbitrary: j) (auto dest: ordered_lookup split: option.splits)

lemma ordered_update_step: "ordered j \<Longrightarrow> (\<And>x. ordered x \<Longrightarrow> ordered (g x)) \<Longrightarrow> ordered (update_step s g j)"
proof (cases "(s, j)" rule: lookup_step.cases)
  case (1 i a)
  assume "ordered j" "\<And>x. ordered x \<Longrightarrow> ordered (g x)"
  with 1 show ?thesis by (cases "i < length a") (auto simp: list_all_length nth_list_update)
next
  case (2 k m)
  assume "ordered j" "\<And>x. ordered x \<Longrightarrow> ordered (g x)"
  with 2 show ?thesis by (auto simp: ordered_object map_of_modify keys_sorted_modify simp del: ordered.simps)
qed auto

lemma ordered_update: "ordered j \<Longrightarrow> ordered y \<Longrightarrow> ordered (json_update q (\<lambda>_. y) j)"
  by (induction q arbitrary: j) (simp_all add: ordered_update_step)

lemma ordered_assign: "ordered (JObject m) \<Longrightarrow> ordered v \<Longrightarrow> ordered (JObject (assign_member k v m))"
  by (auto simp: ordered_object keys_sorted_assign map_of_assign simp del: ordered.simps)

lemma ordered_delete: "ordered (JObject m) \<Longrightarrow> ordered (JObject (AList.delete k m))"
  by (auto simp: ordered_object keys_sorted_delete delete_conv' simp del: ordered.simps)

lemma ordered_lists:
  "list_all ordered a \<Longrightarrow> ordered v \<Longrightarrow> list_all ordered (array_insert i v a)"
  "list_all ordered a \<Longrightarrow> list_all ordered (array_erase i a)"
  by (auto simp: array_insert_def array_erase_def list_all_iff dest: in_set_takeD in_set_dropD)

text \<open>\<open>leaves P r\<close>: the value an outcome leaves, if there is one, satisfies \<open>P\<close>.\<close>

fun leaves :: "(json \<Rightarrow> bool) \<Rightarrow> patch_outcome \<Rightarrow> bool" where
  "leaves Q (Patched j) = Q j"
| "leaves Q (PatchFailed e j) = Q j"
| "leaves Q PatchAborted = True"

lemma leaves_then: "leaves Q r \<Longrightarrow> (\<And>j. Q j \<Longrightarrow> leaves Q (f j)) \<Longrightarrow> leaves Q (then_patch r f)"
  by (cases r) auto

lemma leaves_try: "Q j \<Longrightarrow> (\<And>x. r = Inr x \<Longrightarrow> leaves Q (f x)) \<Longrightarrow> leaves Q (try_patch r j f)"
  by (cases r) auto

lemma leaves_if: "(c \<Longrightarrow> leaves Q r) \<Longrightarrow> (\<not> c \<Longrightarrow> leaves Q s) \<Longrightarrow> leaves Q (if c then r else s)"
  by simp

lemma checked_at: "get_checked p j = Inr q \<Longrightarrow> \<exists>x. json_at q j = Some x"
  by (auto simp: get_checked_iff)

lemma to_parent_ordered:
  assumes "ordered j" "ordered v" "get_checked p j = Inr q"
  shows "leaves ordered (add_to_parent asserts t v q j)" "leaves ordered (remove_from_parent t q j)"
proof -
  obtain x where x: "json_at q j = Some x" "ordered x"
    using checked_at [OF assms(3)] ordered_at [OF assms(1)] by blast
  moreover have "ordered (JObject (assign_member t v []))"
    using assms(2) by (intro ordered_assign) (simp_all add: keys_sorted_def)
  ultimately show "leaves ordered (add_to_parent asserts t v q j)" using assms(1,2)
    by (cases x) (auto simp: add_to_parent_def ordered_update ordered_assign ordered_lists
        simp del: ordered.simps(2) intro!: leaves_try)
  from x show "leaves ordered (remove_from_parent t q j)" using assms(1)
    by (cases x) (auto simp: remove_from_parent_def ordered_update ordered_delete ordered_lists
        simp del: ordered.simps(2) intro!: leaves_try)
qed

lemma add_ordered: "ordered j \<Longrightarrow> ordered v \<Longrightarrow> leaves ordered (operation_add asserts p v j)"
  by (auto simp: operation_add_def bind_json_Inr to_parent_ordered intro!: leaves_try)

lemma remove_ordered: "ordered j \<Longrightarrow> leaves ordered (operation_remove p j)"
  by (auto simp: operation_remove_def bind_json_Inr to_parent_ordered(2) [where v = JNull] intro!: leaves_try)

lemma operation_ordered: "ordered j \<Longrightarrow> ordered val \<Longrightarrow> leaves ordered (patch_operation P val j)"
proof -
  assume j: "ordered j" and val: "ordered val"
  have member: "get_value val k s = Inr v \<Longrightarrow> ordered v" for k s v
    using val by (cases val) (auto simp: get_value_def ordered_object simp del: ordered.simps
        split: option.splits if_splits)
  have moved: "get_checked p j = Inr q \<Longrightarrow> ordered (the (json_at q j))" for p q
    using checked_at ordered_at [OF j] by fastforce
  have test: "leaves ordered (operation_test P p val j)" for p
    using j by (simp add: operation_test_def Let_def split: sum.split bool.split)
  show ?thesis unfolding patch_operation_def
    by (intro leaves_if leaves_try leaves_then add_ordered remove_ordered test j)
      (simp_all add: j, auto intro: member moved ordered_update [OF j])
qed

lemma loop_ordered: "list_all ordered vals \<Longrightarrow> ordered j \<Longrightarrow> leaves ordered (patch_loop P vals j)"
  by (induction vals arbitrary: j) (simp_all add: leaves_then operation_ordered)

text \<open>
  Whatever a patch does to a value in place, the objects of the value it leaves have distinct
  keys in order, also when an operation throws in the middle.
\<close>

theorem patch_keeps_order:
  assumes "ordered j" "ordered p"
  shows "leaves ordered (patch_inplace P p j)"
  using assms by (cases p) (simp_all add: loop_ordered)

subsection \<open>Laws of single operations\<close>

lemma there_pointer: "get_checked p j = Inr q \<Longrightarrow> json_at q j = Some x \<Longrightarrow> there q x j \<and> p = map step_token q"
  by (simp add: get_checked_iff there_def)

lemma delete_assigned: "keys_sorted m \<Longrightarrow> map_of m k = None \<Longrightarrow> AList.delete k (assign_member k v m) = m"
  by (rule sorted_map_unique) (auto simp: keys_sorted_delete keys_sorted_assign delete_conv' map_of_assign)

lemma erase_inserted: "i \<le> length a \<Longrightarrow> array_erase i (array_insert i v a) = a"
  by (simp add: array_erase_def array_insert_def min_def)

text \<open>Where an addition puts something new: under an absent key, or between elements.\<close>

fun new_place :: "string \<Rightarrow> json \<Rightarrow> bool" where
  "new_place t (JObject m) = (map_of m t = None)"
| "new_place t (JArray a) = (case array_index t of Inr i \<Rightarrow> i \<le> length a | Inl e \<Rightarrow> False)"
| "new_place t j = False"

text \<open>
  A value that \<open>add\<close> puts under an absent key or between the elements of an array is taken out
  again by \<open>remove\<close> with the same path, and nothing else has changed.
\<close>

theorem added_then_removed:
  assumes "ordered j" "get_checked p j = Inr q" "json_at q j = Some parent" "new_place token parent"
  shows "patch_loop P [add_op (pointer_string (p @ [token])) v, remove_op (pointer_string (p @ [token]))] j = Patched j"
proof -
  have q: "there q parent j" and p: "p = map step_token q" using there_pointer [OF assms(2,3)] by auto
  show ?thesis
  proof (cases parent)
    case (JObject m)
    let ?y = "JObject (assign_member token v m)"
    have m: "keys_sorted m" "map_of m token = None"
      using ordered_at [OF assms(1,3)] assms(4) JObject by auto
    have "map_of (assign_member token v m) token \<noteq> None" by (simp add: map_of_assign)
    then have "patch_loop P [add_op (pointer_string (p @ [token])) v, remove_op (pointer_string (p @ [token]))] j
        = Patched (json_update q (\<lambda>_. JObject (AList.delete token (assign_member token v m))) j)"
      using q there_update [OF q, of ?y] JObject
      by (simp add: p perform_add perform_remove add_below remove_below to_parent_simps update_twice)
    then show ?thesis using m update_same [OF q] JObject by (simp add: delete_assigned)
  next
    case (JArray a)
    obtain i where i: "array_index token = Inr i" "i \<le> length a"
      using assms(4) JArray by (auto split: sum.splits)
    let ?y = "JArray (array_insert i v a)"
    have "i < length (array_insert i v a)" using i(2) by (simp add: array_insert_def)
    then have "patch_loop P [add_op (pointer_string (p @ [token])) v, remove_op (pointer_string (p @ [token]))] j
        = Patched (json_update q (\<lambda>_. JArray (array_erase i (array_insert i v a))) j)"
      using q there_update [OF q, of ?y] JArray i
      by (simp add: p perform_add perform_remove add_below remove_below to_parent_simps update_twice)
    then show ?thesis using i(2) update_same [OF q] JArray by (simp add: erase_inserted)
  qed (use assms(4) in simp_all)
qed

text \<open>
  \<open>test\<close> never changes the value, and it succeeds exactly when its path resolves to a value
  equal to the expected one, whatever order its operands are evaluated in.
\<close>

theorem test_succeeds_iff:
  assumes "json_find ''op'' val = Some (JString ''test'')"
    and "json_find ''path'' val = Some (JString (pointer_string p))" "json_find ''value'' val = Some v"
  shows "(patch_operation P val j = Patched j \<longleftrightarrow>
        (\<exists>q x. get_checked p j = Inr q \<and> json_at q j = Some x \<and> json_eq (ps_floats P) x v))
    \<and> (patch_operation P val j = Patched j \<or> (\<exists>e. patch_operation P val j = PatchFailed e j))"
proof -
  have obj: "is_object val" using assms(1) by (cases val) simp_all
  have op: "patch_operation P val j = operation_test P p val j"
    using obj assms(1,2)
    by (simp add: patch_operation_def get_value_def get_pointer_def split_pointer_string)
  show ?thesis
  proof (cases "get_checked p j")
    case (Inl e)
    then show ?thesis using assms(3) by (simp add: op operation_test_def get_value_def Let_def)
  next
    case (Inr q)
    then obtain x where "json_at q j = Some x" using checked_at by blast
    with Inr assms(3) show ?thesis
      by (simp add: op operation_test_def get_value_def Let_def split: bool.split)
  qed
qed

text \<open>
  Below a value that is neither null nor a container, \<open>remove\<close> reports success and changes
  nothing, and \<open>add\<close> does the same, or ends the process where assertions are compiled in: the
  comment that a parent \<^verbatim>\<open>cannot be primitive\<close> is wrong, since any scalar member can be a parent.
\<close>

theorem scalar_parent:
  assumes "get_checked p j = Inr q" "json_at q j = Some scalar" "is_leaf scalar"
  shows "patch_json P (JArray [remove_op (pointer_string (p @ [token]))]) j = Some (Inr j)
    \<and> patch_json P (JArray [add_op (pointer_string (p @ [token])) v]) j
        = (if ps_asserts P then None else Some (Inr j))"
proof -
  have q: "there q scalar j" and p: "p = map step_token q" using there_pointer [OF assms(1,2)] by auto
  from to_parent_simps(6) [OF q assms(3)] show ?thesis
    by (simp add: patch_json_def p perform_add perform_remove add_below [OF q] remove_below [OF q])
qed

subsection \<open>Witnesses\<close>

text \<open>A patch that fails in its second operation, after the first has changed the value.\<close>

definition demo_patch :: json where
  "demo_patch = JArray [add_op ''/b'' JNull, remove_op ''/x'']"

definition demo_object :: json where
  "demo_object = JObject [(''a'', JUnsigned 1), (''c'', JArray [JBool True])]"

theorem patch_keeps_order_witness:
  "\<exists>j. patch_inplace demo_setting demo_patch demo_object = PatchFailed (out_of_range 403) j
    \<and> ordered j \<and> json_find ''b'' j = Some JNull"
proof -
  have "ordered demo_object" "ordered demo_patch" by code_simp+
  note kept = patch_keeps_order [OF this, of demo_setting]
  have "patch_inplace demo_setting demo_patch demo_object = PatchFailed (out_of_range 403)
      (JObject [(''a'', JUnsigned 1), (''b'', JNull), (''c'', JArray [JBool True])])"
    by code_simp
  with kept show ?thesis by simp
qed

theorem added_then_removed_witness:
  "patch_loop demo_setting [add_op (pointer_string [''c'', ''0'']) JNull, remove_op (pointer_string [''c'', ''0''])] demo_object
    = Patched demo_object"
proof -
  have "ordered demo_object" "get_checked [''c''] demo_object = Inr [AtKey ''c'']"
    "json_at [AtKey ''c''] demo_object = Some (JArray [JBool True])" "new_place ''0'' (JArray [JBool True])"
    by code_simp+
  from added_then_removed [OF this, of demo_setting JNull] show ?thesis by simp
qed

definition demo_test :: json where
  "demo_test = JObject [(''op'', JString ''test''), (''path'', JString ''/c/0''), (''value'', JBool True)]"

theorem test_succeeds_iff_witness: "patch_operation demo_setting demo_test demo_object = Patched demo_object"
proof -
  have "json_find ''op'' demo_test = Some (JString ''test'')"
    "json_find ''path'' demo_test = Some (JString (pointer_string [''c'', ''0'']))"
    "json_find ''value'' demo_test = Some (JBool True)"
    by code_simp+
  note test = test_succeeds_iff [OF this, of demo_setting demo_object]
  have "get_checked [''c'', ''0''] demo_object = Inr [AtKey ''c'', AtIndex 0]"
    "json_at [AtKey ''c'', AtIndex 0] demo_object = Some (JBool True)"
    "json_eq (ps_floats demo_setting) (JBool True) (JBool True)"
    by code_simp+
  with test show ?thesis by blast
qed

theorem scalar_parent_witness:
  "patch_json demo_setting (JArray [remove_op (pointer_string [''a'', ''x''])]) demo_object = Some (Inr demo_object)
    \<and> patch_json demo_setting (JArray [add_op (pointer_string [''a'', ''x'']) JNull]) demo_object = None"
proof -
  have "get_checked [''a''] demo_object = Inr [AtKey ''a'']"
    "json_at [AtKey ''a''] demo_object = Some (JUnsigned 1)" "is_leaf (JUnsigned 1)"
    by code_simp+
  from scalar_parent [OF this, of demo_setting "''x''" JNull] show ?thesis by (simp add: demo_setting_def)
qed

end
