(* ===== verification/NPatchRfc.thy ===== *)
theory NPatchRfc
  imports NPatchLaws
begin

text \<open>
  The six operations of RFC 6902 as functions on values, written without the pointers, exceptions and
  in-place changes of the code: they walk down a pointer's tokens and rebuild what is above. The
  library's patch is proved to follow them, and the places where it accepts more are named.
\<close>

subsection \<open>The operations of the standard\<close>

text \<open>
  An array index is a decimal number without leading zeros; the library reads those below
  \<open>2 ^ 64 - 1\<close>.
\<close>

definition rfc_index :: "string \<Rightarrow> nat option" where
  "rfc_index t =
     (let d = digits_value t in if t = to_string (nat d) \<and> d < 2 ^ 64 - 1 then Some (nat d) else None)"

fun rfc_get :: "json_pointer \<Rightarrow> json \<Rightarrow> json option" where
  "rfc_get [] j = Some j"
| "rfc_get (t # p) (JObject m) = (case map_of m t of None \<Rightarrow> None | Some x \<Rightarrow> rfc_get p x)"
| "rfc_get (t # p) (JArray a) =
     (case rfc_index t of None \<Rightarrow> None | Some i \<Rightarrow> if i < length a then rfc_get p (a ! i) else None)"
| "rfc_get (t # p) j = None"

text \<open>The value at a pointer is changed; what is above it is rebuilt around the new one.\<close>

fun rfc_change :: "json_pointer \<Rightarrow> (json \<Rightarrow> json option) \<Rightarrow> json \<Rightarrow> json option" where
  "rfc_change [] f j = f j"
| "rfc_change (t # p) f (JObject m) =
     (case map_of m t of None \<Rightarrow> None
      | Some x \<Rightarrow> map_option (\<lambda>y. JObject (map_set t y m)) (rfc_change p f x))"
| "rfc_change (t # p) f (JArray a) =
     (case rfc_index t of None \<Rightarrow> None
      | Some i \<Rightarrow> if i < length a then map_option (\<lambda>y. JArray (a[i := y])) (rfc_change p f (a ! i)) else None)"
| "rfc_change (t # p) f j = None"

text \<open>
  \<open>add\<close>: into an object under the key, which may exist; into an array before the element of the
  index, which may be one behind the last, or behind the last for the token \<open>-\<close>.
\<close>

fun rfc_put :: "string \<Rightarrow> json \<Rightarrow> json \<Rightarrow> json option" where
  "rfc_put t v (JObject m) = Some (JObject (map_set t v m))"
| "rfc_put t v (JArray a) =
     (if t = ''-'' then Some (JArray (a @ [v]))
      else case rfc_index t of None \<Rightarrow> None
        | Some i \<Rightarrow> if i \<le> length a then Some (JArray (take i a @ v # drop i a)) else None)"
| "rfc_put t v j = None"

definition rfc_add :: "json_pointer \<Rightarrow> json \<Rightarrow> json \<Rightarrow> json option" where
  "rfc_add p v j = (if p = [] then Some v else rfc_change (butlast p) (rfc_put (last p) v) j)"

text \<open>\<open>remove\<close>: the member or the element must exist; the root cannot be removed.\<close>

fun rfc_take :: "string \<Rightarrow> json \<Rightarrow> json option" where
  "rfc_take t (JObject m) = (if map_of m t = None then None else Some (JObject (AList.delete t m)))"
| "rfc_take t (JArray a) =
     (case rfc_index t of None \<Rightarrow> None
      | Some i \<Rightarrow> if i < length a then Some (JArray (take i a @ drop (Suc i) a)) else None)"
| "rfc_take t j = None"

definition rfc_remove :: "json_pointer \<Rightarrow> json \<Rightarrow> json option" where
  "rfc_remove p j = (if p = [] then None else rfc_change (butlast p) (rfc_take (last p)) j)"

definition rfc_replace :: "json_pointer \<Rightarrow> json \<Rightarrow> json \<Rightarrow> json option" where
  "rfc_replace p v j = rfc_change p (\<lambda>_. Some v) j"

datatype patch_op =
    OpAdd json_pointer json
  | OpRemove json_pointer
  | OpReplace json_pointer json
  | OpMove json_pointer json_pointer
  | OpCopy json_pointer json_pointer
  | OpTest json_pointer json

text \<open>A location cannot be moved into one of its children.\<close>

definition child_of :: "json_pointer \<Rightarrow> json_pointer \<Rightarrow> bool" where
  "child_of from p \<longleftrightarrow> from \<noteq> p \<and> take (length from) p = from"

fun rfc_apply :: "(json \<Rightarrow> json \<Rightarrow> bool) \<Rightarrow> patch_op \<Rightarrow> json \<Rightarrow> json option" where
  "rfc_apply E (OpAdd p v) j = rfc_add p v j"
| "rfc_apply E (OpRemove p) j = rfc_remove p j"
| "rfc_apply E (OpReplace p v) j = rfc_replace p v j"
| "rfc_apply E (OpMove from p) j =
     (if child_of from p then None
      else case rfc_get from j of None \<Rightarrow> None
        | Some x \<Rightarrow> (case rfc_remove from j of None \<Rightarrow> None | Some j' \<Rightarrow> rfc_add p x j'))"
| "rfc_apply E (OpCopy from p) j = (case rfc_get from j of None \<Rightarrow> None | Some x \<Rightarrow> rfc_add p x j)"
| "rfc_apply E (OpTest p v) j =
     (case rfc_get p j of None \<Rightarrow> None | Some x \<Rightarrow> if E x v then Some j else None)"

fun rfc_patch :: "(json \<Rightarrow> json \<Rightarrow> bool) \<Rightarrow> patch_op list \<Rightarrow> json \<Rightarrow> json option" where
  "rfc_patch E [] j = Some j"
| "rfc_patch E (op # ops) j =
     (case rfc_apply E op j of None \<Rightarrow> None | Some j' \<Rightarrow> rfc_patch E ops j')"







subsection \<open>The walk of the code\<close>








subsection \<open>The operations of the code\<close>

text \<open>What an operation of the code must give for a result of the standard.\<close>

definition follows :: "bool \<Rightarrow> patch_outcome \<Rightarrow> json option \<Rightarrow> bool" where
  "follows d out r \<longleftrightarrow> (case r of Some x \<Rightarrow> out = Patched x
     | None \<Rightarrow> d \<or> (\<exists>e j. out = PatchFailed e j))"

lemma follows_simps [simp]:
  "follows d out (Some x) \<longleftrightarrow> out = Patched x"
  "follows d out None \<longleftrightarrow> d \<or> (\<exists>e j. out = PatchFailed e j)"
  by (simp_all add: follows_def)














subsection \<open>A patch follows the standard\<close>


text \<open>A patch with all six operations, and a move into a child, which the library carries out.\<close>

definition op_object :: "(string \<times> json) list \<Rightarrow> json" where
  "op_object kvs = JObject (fold (\<lambda>(k, v). map_set k v) kvs [])"




lemma move_into_child:
  "rfc_patch (json_eq (ps_floats demo_setting)) [OpMove [''0''] [''0'', ''k'']] (JArray [JNull, JObject []]) = None
    \<and> patch_json demo_setting
        (JArray [op_object [(''op'', JString ''move''), (''from'', JString ''/0''), (''path'', JString ''/0/k'')]])
        (JArray [JNull, JObject []]) = Some (Inr (JArray [JObject [(''k'', JNull)]]))"
  by code_simp

end
