(* ===== verification/NCbor.thy ===== *)
theory NCbor
  imports NDom
begin

text \<open>
  The CBOR format of the bundled JSON library: the reader
  (\<^verbatim>\<open>3rd/include/nlohmann/detail/input/binary_reader.hpp\<close>) with the handler that builds values, and
  the writer (\<^verbatim>\<open>detail/output/binary_writer.hpp\<close>). Here a value may be binary, and a floating-point
  number is given by its 64 bits. The reader calls itself for nested values; the depth of the
  stack is an argument of it. Exceptions carry their number.
\<close>

subsection \<open>Values\<close>

datatype bvalue =
    BNull
  | BBool bool
  | BUnsigned u64
  | BInteger u64
  | BFloat u64
  | BString string
  | BBinary string "u64 option"
  | BArray "bvalue list"
  | BObject "(string \<times> bvalue) list"

subsection \<open>Floating-point formats\<close>

text \<open>The bits of the double \<open>m * 2 ^ e\<close>, for \<open>0 \<le> m < 2 ^ 53\<close> (\<^verbatim>\<open>std::ldexp\<close>); it is not subnormal here.\<close>

function bit_width :: "int \<Rightarrow> int" where
  "bit_width m = (if m \<le> 1 then 1 else 1 + bit_width (m div 2))"
  by pat_completeness auto
termination by (relation "measure nat") (auto simp: nat_less_iff)

declare bit_width.simps [simp del]

definition ldexp :: "int \<Rightarrow> int \<Rightarrow> int" where
  "ldexp m e =
     (if m = 0 then 0
      else (e + bit_width m + 1022) * 2 ^ 52 + (m * 2 ^ nat (53 - bit_width m) - 2 ^ 52))"

definition infinity_bits :: int where "infinity_bits = 0x7FF0000000000000"
definition quiet_nan_bits :: int where "quiet_nan_bits = 0x7FF8000000000000"

text \<open>The half of two bytes, and the single of four bytes that is converted to a double.\<close>

definition half_to_double :: "int \<Rightarrow> u64" where
  "half_to_double half =
     (let exp = half div 2 ^ 10 mod 2 ^ 5; mant = half mod 2 ^ 10;
          val = (if exp = 0 then ldexp mant (- 24)
                 else if exp = 31 then if mant = 0 then infinity_bits else quiet_nan_bits
                 else ldexp (mant + 1024) (exp - 25)) in
      word_of_int (if half div 2 ^ 15 mod 2 \<noteq> 0 then 2 ^ 63 + val else val))"

definition single_to_double :: "int \<Rightarrow> u64" where
  "single_to_double f =
     (let exp = f div 2 ^ 23 mod 2 ^ 8; mant = f mod 2 ^ 23;
          val = (if exp = 0 then ldexp mant (- 149)
                 else if exp = 255 then if mant = 0 then infinity_bits else quiet_nan_bits + mant mod 2 ^ 22 * 2 ^ 29
                 else ldexp (mant + 2 ^ 23) (exp - 150)) in
      word_of_int (if f div 2 ^ 31 mod 2 \<noteq> 0 then 2 ^ 63 + val else val))"

definition double_sign :: "int \<Rightarrow> int" where "double_sign bits = bits div 2 ^ 63"
definition double_exponent :: "int \<Rightarrow> int" where "double_exponent bits = bits div 2 ^ 52 mod 2 ^ 11"
definition double_fraction :: "int \<Rightarrow> int" where "double_fraction bits = bits mod 2 ^ 52"

definition is_nan :: "u64 \<Rightarrow> bool" where
  "is_nan w \<longleftrightarrow> double_exponent (uint w) = 2047 \<and> double_fraction (uint w) \<noteq> 0"

definition is_inf :: "u64 \<Rightarrow> bool" where
  "is_inf w \<longleftrightarrow> double_exponent (uint w) = 2047 \<and> double_fraction (uint w) = 0"

text \<open>
  The single that \<^verbatim>\<open>write_compact_float\<close> writes, if it does: a finite double is compared with the
  converted number, one that is not finite is converted always. The conversion keeps the leading bits
  of a NaN and makes it quiet.
\<close>

definition as_single :: "u64 \<Rightarrow> int option" where
  "as_single w =
     (let s = double_sign (uint w); e = double_exponent (uint w) - 1023; m = double_fraction (uint w) in
      if e = 1024
      then Some (s * 2 ^ 31 + 255 * 2 ^ 23 + (if m = 0 then 0 else 2 ^ 22 + m mod 2 ^ 51 div 2 ^ 29))
      else if e = - 1023 \<and> m = 0 then Some (s * 2 ^ 31)
      else if - 126 \<le> e \<and> e \<le> 127 \<and> m mod 2 ^ 29 = 0
      then Some (s * 2 ^ 31 + (e + 127) * 2 ^ 23 + m div 2 ^ 29)
      else if - 149 \<le> e \<and> e < - 126 \<and> (2 ^ 52 + m) mod 2 ^ nat (- 97 - e) = 0
      then Some (s * 2 ^ 31 + (2 ^ 52 + m) div 2 ^ nat (- 97 - e))
      else None)"

subsection \<open>The writer\<close>

text \<open>\<^verbatim>\<open>write_number\<close>: the bytes of a number, the most significant first, on any machine.\<close>

fun write_number :: "nat \<Rightarrow> int \<Rightarrow> string" where
  "write_number 0 n = []"
| "write_number (Suc k) n = write_number k (n div 256) @ [byte_char (n mod 256)]"

text \<open>
  The first byte with its argument: for \<open>base\<close> each of the major types the code has the same five
  branches.
\<close>

definition write_argument :: "int \<Rightarrow> int \<Rightarrow> string" where
  "write_argument base n =
     (if n \<le> 0x17 then write_number 1 (base + n)
      else if n \<le> 0xFF then byte_char (base + 0x18) # write_number 1 n
      else if n \<le> 0xFFFF then byte_char (base + 0x19) # write_number 2 n
      else if n \<le> 0xFFFFFFFF then byte_char (base + 0x1A) # write_number 4 n
      else byte_char (base + 0x1B) # write_number 8 n)"

definition write_subtype :: "int \<Rightarrow> string" where
  "write_subtype n =
     (if n \<le> 0xFF then write_number 1 0xD8 @ write_number 1 n
      else if n \<le> 0xFFFF then write_number 1 0xD9 @ write_number 2 n
      else if n \<le> 0xFFFFFFFF then write_number 1 0xDA @ write_number 4 n
      else write_number 1 0xDB @ write_number 8 n)"

text \<open>The two prefixes are those of the format for a single and for a double.\<close>

definition write_compact_float :: "int \<Rightarrow> int \<Rightarrow> u64 \<Rightarrow> string" where
  "write_compact_float single double w =
     (case as_single w of
        Some f \<Rightarrow> byte_char single # write_number 4 f
      | None \<Rightarrow> byte_char double # write_number 8 (uint w))"

definition write_float :: "u64 \<Rightarrow> string" where
  "write_float w =
     (if is_nan w then [byte_char 0xF9, byte_char 0x7E, byte_char 0x00]
      else if is_inf w
      then [byte_char 0xF9, byte_char (if double_sign (uint w) = 0 then 0x7C else 0xFC), byte_char 0x00]
      else write_compact_float 0xFA 0xFB w)"

definition write_integer :: "u64 \<Rightarrow> string" where
  "write_integer i =
     (if sint i \<ge> 0 then write_argument 0x00 (sint i) else write_argument 0x20 (- 1 - sint i))"

definition cbor_string :: "int \<Rightarrow> string \<Rightarrow> string" where
  "cbor_string base s = write_argument base (int (length s)) @ s"

fun write_cbor :: "bvalue \<Rightarrow> string" where
  "write_cbor BNull = [byte_char 0xF6]"
| "write_cbor (BBool b) = [byte_char (if b then 0xF5 else 0xF4)]"
| "write_cbor (BInteger i) = write_integer i"
| "write_cbor (BUnsigned u) = write_argument 0x00 (uint u)"
| "write_cbor (BFloat w) = write_float w"
| "write_cbor (BString s) = cbor_string 0x60 s"
| "write_cbor (BArray a) = write_argument 0x80 (int (length a)) @ concat (map write_cbor a)"
| "write_cbor (BBinary b t) =
     (case t of None \<Rightarrow> [] | Some n \<Rightarrow> write_subtype (uint n)) @ cbor_string 0x40 b"
| "write_cbor (BObject m) =
     write_argument 0xA0 (int (length m)) @ concat (map (\<lambda>(k, v). cbor_string 0x60 k @ write_cbor v) m)"

subsection \<open>Reading from the input\<close>

text \<open>
  A read takes the bytes left and gives the bytes left. \<open>StackExhausted\<close> is what the code does not
  survive: calls nested deeper than the stack. \<open>Unreported\<close> is a read that returns false and throws
  nothing, so that the caller gets a discarded value; in CBOR none does.
\<close>

datatype cbor_fault = CborError json_error | Unreported | StackExhausted

type_synonym 'a cbor_read = "string \<Rightarrow> cbor_fault + 'a \<times> string"

definition then_read :: "cbor_fault + 'a \<times> string \<Rightarrow> ('a \<Rightarrow> 'b cbor_read) \<Rightarrow> cbor_fault + 'b \<times> string" where
  "then_read r f = (case r of Inl e \<Rightarrow> Inl e | Inr (x, s) \<Rightarrow> f x s)"

lemma then_read_simps [simp]:
  "then_read (Inl e) f = Inl e" "then_read (Inr (x, s)) f = f x s"
  by (simp_all add: then_read_def)

text \<open>\<^verbatim>\<open>unexpect_eof\<close> and \<^verbatim>\<open>get_to\<close>: error 110 at the end of the input.\<close>

fun read_bytes :: "int \<Rightarrow> string cbor_read" where
  "read_bytes k [] = (if k \<le> 0 then Inr ([], []) else Inl (CborError (parse_error 110)))"
| "read_bytes k (c # s) =
     (if k \<le> 0 then Inr ([], c # s)
      else then_read (read_bytes (k - 1) s) (\<lambda>bs u. Inr (c # bs, u)))"

definition number_value :: "string \<Rightarrow> int" where
  "number_value bs = foldl (\<lambda>n c. 256 * n + byte c) 0 bs"

definition get_number :: "int \<Rightarrow> int cbor_read" where
  "get_number width s = then_read (read_bytes width s) (\<lambda>bs u. Inr (number_value bs, u))"

text \<open>The argument behind the first byte \<open>b\<close>, of 1, 2, 4 or 8 bytes.\<close>

definition get_argument :: "int \<Rightarrow> int \<Rightarrow> int cbor_read" where
  "get_argument first b =
     get_number (if b = first then 1 else if b = first + 1 then 2 else if b = first + 2 then 4 else 8)"

text \<open>
  The loops over \<open>len\<close> items, and over items until the byte 0xFF. An item is read from its first
  byte on, which an indefinite loop has already looked at. The test of the length is for the
  termination of the definition only: no read that succeeds leaves the input as it is.
\<close>

function read_times :: "'a cbor_read \<Rightarrow> int \<Rightarrow> 'a list cbor_read" where
  "read_times p len s =
     (if len \<le> 0 then Inr ([], s)
      else (case p s of
              Inl e \<Rightarrow> Inl e
            | Inr (x, u) \<Rightarrow> then_read (read_times p (len - 1) u) (\<lambda>xs v. Inr (x # xs, v))))"
  by pat_completeness auto
termination by (relation "measure (\<lambda>(p, len, s). nat len)") auto

declare read_times.simps [simp del]

function read_until :: "'a cbor_read \<Rightarrow> 'a list cbor_read" where
  "read_until p s =
     (if s \<noteq> [] \<and> byte (hd s) = 0xFF then Inr ([], tl s)
      else (case p s of
              Inl e \<Rightarrow> Inl e
            | Inr (x, u) \<Rightarrow>
                if length u < length s then then_read (read_until p u) (\<lambda>xs v. Inr (x # xs, v))
                else Inl StackExhausted))"
  by pat_completeness auto
termination by (relation "measure (\<lambda>(p, s). length s)") auto

declare read_until.simps [simp del]

subsection \<open>Strings and byte arrays\<close>

text \<open>
  \<^verbatim>\<open>get_cbor_string\<close> with \<open>base\<close> 0x60 and \<^verbatim>\<open>get_cbor_binary\<close> with 0x40, from the byte that is
  current. Chunks of an indefinite one may be indefinite again.
\<close>

definition read_chunk :: "int \<Rightarrow> string cbor_read \<Rightarrow> string cbor_read" where
  "read_chunk base chunks s =
     (case s of
        [] \<Rightarrow> Inl (CborError (parse_error 110))
      | c # u \<Rightarrow>
          if base \<le> byte c \<and> byte c \<le> base + 0x17 then read_bytes (byte c mod 32) u
          else if base + 0x18 \<le> byte c \<and> byte c \<le> base + 0x1B
          then then_read (get_argument (base + 0x18) (byte c) u) read_bytes
          else if byte c = base + 0x1F then chunks u
          else Inl (CborError (parse_error 113)))"

primrec read_chunks :: "int \<Rightarrow> nat \<Rightarrow> string cbor_read" where
  "read_chunks base 0 = read_chunk base (\<lambda>u. Inl StackExhausted)"
| "read_chunks base (Suc depth) =
     read_chunk base (\<lambda>u. then_read (read_until (read_chunks base depth) u) (\<lambda>cs v. Inr (concat cs, v)))"

definition get_cbor_string :: "nat \<Rightarrow> string cbor_read" where
  "get_cbor_string = read_chunks 0x60"

definition get_cbor_binary :: "nat \<Rightarrow> string cbor_read" where
  "get_cbor_binary = read_chunks 0x40"

subsection \<open>Arrays, objects and tags\<close>

datatype cbor_tag_handler = TagError | TagIgnore | TagStore

text \<open>\<^verbatim>\<open>max_size()\<close> of the array and object types limits what the handler accepts.\<close>

record cbor_setting =
  cs_tags :: cbor_tag_handler
  cs_array_max :: int
  cs_object_max :: int

text \<open>\<^verbatim>\<open>unknown_size()\<close> is the largest \<^verbatim>\<open>size_t\<close>.\<close>

definition unknown_size :: int where "unknown_size = 2 ^ 64 - 1"

definition get_cbor_array :: "cbor_setting \<Rightarrow> bvalue cbor_read \<Rightarrow> int \<Rightarrow> bvalue cbor_read" where
  "get_cbor_array C p len s =
     (if len \<noteq> unknown_size \<and> len > cs_array_max C then Inl (CborError (out_of_range 408))
      else then_read (if len \<noteq> unknown_size then read_times p len s else read_until p s)
        (\<lambda>xs u. Inr (BArray xs, u)))"

definition read_member :: "string cbor_read \<Rightarrow> bvalue cbor_read \<Rightarrow> (string \<times> bvalue) cbor_read" where
  "read_member k p s = then_read (k s) (\<lambda>key u. then_read (p u) (\<lambda>v w. Inr ((key, v), w)))"

definition object_of :: "(string \<times> bvalue) list \<Rightarrow> bvalue" where
  "object_of kvs = BObject (fold (\<lambda>(k, v). map_set k v) kvs [])"

definition get_cbor_object ::
    "cbor_setting \<Rightarrow> nat \<Rightarrow> bvalue cbor_read \<Rightarrow> int \<Rightarrow> bvalue cbor_read" where
  "get_cbor_object C depth p len s =
     (if len \<noteq> unknown_size \<and> len > cs_object_max C then Inl (CborError (out_of_range 408))
      else then_read
        (if len = 0 then Inr ([], s)
         else if len \<noteq> unknown_size then read_times (read_member (get_cbor_string depth) p) len s
         else read_until (read_member (get_cbor_string depth) p) s)
        (\<lambda>kvs u. Inr (object_of kvs, u)))"

definition cbor_tagged :: "cbor_setting \<Rightarrow> nat \<Rightarrow> bvalue cbor_read \<Rightarrow> int \<Rightarrow> bvalue cbor_read" where
  "cbor_tagged C depth p b s =
     (case cs_tags C of
        TagError \<Rightarrow> Inl (CborError (parse_error 112))
      | TagIgnore \<Rightarrow>
          if b \<ge> 0xD8 then then_read (get_argument 0xD8 b s) (\<lambda>n. p) else p s
      | TagStore \<Rightarrow>
          if b \<ge> 0xD8
          then then_read (get_argument 0xD8 b s) (\<lambda>n u.
            then_read (get_cbor_binary depth u) (\<lambda>bs v. Inr (BBinary bs (Some (word_of_int n)), v)))
          else p s)"

subsection \<open>Values by their first byte\<close>

definition cbor_unsigned :: "int \<Rightarrow> bvalue cbor_read" where
  "cbor_unsigned b s =
     (if b \<le> 0x17 then Inr (BUnsigned (word_of_int b), s)
      else then_read (get_argument 0x18 b s) (\<lambda>n u. Inr (BUnsigned (word_of_int n), u)))"

definition cbor_negative :: "int \<Rightarrow> bvalue cbor_read" where
  "cbor_negative b s =
     (if b \<le> 0x37 then Inr (BInteger (word_of_int (0x20 - 1 - b)), s)
      else then_read (get_argument 0x38 b s) (\<lambda>n u. Inr (BInteger (- 1 - word_of_int n), u)))"

definition cbor_array :: "cbor_setting \<Rightarrow> bvalue cbor_read \<Rightarrow> int \<Rightarrow> bvalue cbor_read" where
  "cbor_array C p b s =
     (if b \<le> 0x97 then get_cbor_array C p (b mod 32) s
      else if b = 0x9F then get_cbor_array C p unknown_size s
      else then_read (get_argument 0x98 b s) (get_cbor_array C p))"

definition cbor_object :: "cbor_setting \<Rightarrow> nat \<Rightarrow> bvalue cbor_read \<Rightarrow> int \<Rightarrow> bvalue cbor_read" where
  "cbor_object C depth p b s =
     (if b \<le> 0xB7 then get_cbor_object C depth p (b mod 32) s
      else if b = 0xBF then get_cbor_object C depth p unknown_size s
      else then_read (get_argument 0xB8 b s) (get_cbor_object C depth p))"

definition cbor_simple :: "int \<Rightarrow> bvalue cbor_read" where
  "cbor_simple b s =
     (if b = 0xF4 then Inr (BBool False, s)
      else if b = 0xF5 then Inr (BBool True, s)
      else if b = 0xF6 then Inr (BNull, s)
      else if b = 0xF9 then then_read (get_number 2 s) (\<lambda>n u. Inr (BFloat (half_to_double n), u))
      else if b = 0xFA then then_read (get_number 4 s) (\<lambda>n u. Inr (BFloat (single_to_double n), u))
      else if b = 0xFB then then_read (get_number 8 s) (\<lambda>n u. Inr (BFloat (word_of_int n), u))
      else Inl (CborError (parse_error 112)))"

text \<open>
  \<^verbatim>\<open>parse_cbor_internal\<close> from the first byte of a value on; \<open>p\<close> is the call of itself. A byte that
  has been read as the end of an indefinite loop and is not it is the first byte of the value
  (\<^verbatim>\<open>get_char\<close> is false).
\<close>

definition cbor_switch :: "cbor_setting \<Rightarrow> nat \<Rightarrow> bvalue cbor_read \<Rightarrow> bvalue cbor_read" where
  "cbor_switch C depth p input =
     (case input of
        [] \<Rightarrow> Inl (CborError (parse_error 110))
      | c # s \<Rightarrow>
         (let b = byte c in
          if b \<le> 0x1B then cbor_unsigned b s
          else if 0x20 \<le> b \<and> b \<le> 0x3B then cbor_negative b s
          else if 0x40 \<le> b \<and> b \<le> 0x5B \<or> b = 0x5F
          then then_read (get_cbor_binary depth input) (\<lambda>bs u. Inr (BBinary bs None, u))
          else if 0x60 \<le> b \<and> b \<le> 0x7B \<or> b = 0x7F
          then then_read (get_cbor_string depth input) (\<lambda>t u. Inr (BString t, u))
          else if 0x80 \<le> b \<and> b \<le> 0x9B \<or> b = 0x9F then cbor_array C p b s
          else if 0xA0 \<le> b \<and> b \<le> 0xBB \<or> b = 0xBF then cbor_object C depth p b s
          else if 0xC6 \<le> b \<and> b \<le> 0xD4 \<or> 0xD8 \<le> b \<and> b \<le> 0xDB then cbor_tagged C depth p b s
          else cbor_simple b s))"

lemmas switch_defs =
  cbor_switch_def cbor_unsigned_def cbor_negative_def cbor_array_def cbor_object_def cbor_simple_def

primrec parse_cbor :: "cbor_setting \<Rightarrow> nat \<Rightarrow> bvalue cbor_read" where
  "parse_cbor C 0 = cbor_switch C 0 (\<lambda>s. Inl StackExhausted)"
| "parse_cbor C (Suc depth) = cbor_switch C (Suc depth) (parse_cbor C depth)"

text \<open>\<^verbatim>\<open>from_cbor\<close>: with \<open>strict\<close>, nothing may follow.\<close>

definition from_cbor :: "cbor_setting \<Rightarrow> nat \<Rightarrow> bool \<Rightarrow> string \<Rightarrow> cbor_fault + bvalue" where
  "from_cbor C depth strict s =
     (case parse_cbor C depth s of
        Inl e \<Rightarrow> Inl e
      | Inr (v, u) \<Rightarrow> if strict \<and> u \<noteq> [] then Inl (CborError (parse_error 110)) else Inr v)"

end
