(* ===== verification/NBson.thy ===== *)
theory NBson
  imports NCbor NPointer
begin

text \<open>
  The BSON format of the bundled JSON library (\<^verbatim>\<open>detail/output/binary_writer.hpp\<close>,
  \<^verbatim>\<open>detail/input/binary_reader.hpp\<close>): documents of elements with a type, a key and a value. The writer
  computes the size of each document before it writes it; the reader does not use it.
\<close>

subsection \<open>Sizes\<close>

text \<open>
  The sizes are of type \<^verbatim>\<open>size_t\<close>; the theory takes them as integers, which a document in memory
  does not exceed. A key with the character 0 throws error 409.
\<close>

definition entry_header_size :: "string \<Rightarrow> json_error + int" where
  "entry_header_size name =
     (if CHR 0x00 \<in> set name then Inl (out_of_range 409) else Inr (1 + int (length name) + 1))"

definition bson_string_size :: "string \<Rightarrow> int" where
  "bson_string_size s = 4 + int (length s) + 1"

definition bson_integer_size :: "int \<Rightarrow> int" where
  "bson_integer_size n = (if - (2 ^ 31) \<le> n \<and> n \<le> 2 ^ 31 - 1 then 4 else 8)"

definition bson_unsigned_size :: "int \<Rightarrow> int" where
  "bson_unsigned_size n = (if n \<le> 2 ^ 31 - 1 then 4 else 8)"

definition bson_binary_size :: "string \<Rightarrow> int" where
  "bson_binary_size b = 4 + int (length b) + 1"

text \<open>The sum over the elements, which the first exception leaves.\<close>

fun sum_sizes :: "(json_error + int) list \<Rightarrow> json_error + int" where
  "sum_sizes [] = Inr 0"
| "sum_sizes (r # rs) =
     (case r of Inl e \<Rightarrow> Inl e
      | Inr n \<Rightarrow> (case sum_sizes rs of Inl e \<Rightarrow> Inl e | Inr k \<Rightarrow> Inr (n + k)))"

definition document_size :: "(json_error + int) list \<Rightarrow> json_error + int" where
  "document_size rs = (case sum_sizes rs of Inl e \<Rightarrow> Inl e | Inr n \<Rightarrow> Inr (4 + n + 1))"

text \<open>
  \<^verbatim>\<open>calc_bson_element_size\<close> of a value alone; with its key it is the sum with the size of the header.
\<close>

definition with_header :: "string \<Rightarrow> json_error + int \<Rightarrow> json_error + int" where
  "with_header name r = sum_sizes [entry_header_size name, r]"

definition indexed_keys :: "'a list \<Rightarrow> (string \<times> 'a) list" where
  "indexed_keys xs = map (\<lambda>(i, x). (to_string i, x)) (enumerate 0 xs)"

fun value_size :: "bvalue \<Rightarrow> json_error + int" where
  "value_size (BObject m) = document_size (map (\<lambda>(k, v). with_header k (value_size v)) m)"
| "value_size (BArray a) = document_size (map (\<lambda>(k, r). with_header k r) (indexed_keys (map value_size a)))"
| "value_size (BBinary b t) = Inr (bson_binary_size b)"
| "value_size (BBool b) = Inr 1"
| "value_size (BFloat w) = Inr 8"
| "value_size (BInteger i) = Inr (bson_integer_size (sint i))"
| "value_size (BUnsigned u) = Inr (bson_unsigned_size (uint u))"
| "value_size (BString s) = Inr (bson_string_size s)"
| "value_size BNull = Inr 0"

subsection \<open>The writer\<close>

text \<open>What has been written, and the exception that ended it.\<close>

type_synonym bson_output = "string \<times> json_error option"

definition then_write :: "bson_output \<Rightarrow> bson_output \<Rightarrow> bson_output" where
  "then_write r q = (case snd r of None \<Rightarrow> (fst r @ fst q, snd q) | Some e \<Rightarrow> r)"

fun write_all :: "bson_output list \<Rightarrow> bson_output" where
  "write_all [] = ([], None)"
| "write_all (r # rs) = then_write r (write_all rs)"

text \<open>Numbers are little-endian here; a number too large for its type is cut.\<close>

definition write_little :: "nat \<Rightarrow> int \<Rightarrow> string" where
  "write_little k n = rev (write_number k n)"

definition entry_header :: "string \<Rightarrow> int \<Rightarrow> string" where
  "entry_header name element_type = byte_char element_type # name @ [CHR 0x00]"

definition bson_integer :: "string \<Rightarrow> int \<Rightarrow> string" where
  "bson_integer name n =
     (if - (2 ^ 31) \<le> n \<and> n \<le> 2 ^ 31 - 1
      then entry_header name 0x10 @ write_little 4 n
      else entry_header name 0x12 @ write_little 8 n)"

definition bson_unsigned :: "string \<Rightarrow> int \<Rightarrow> string" where
  "bson_unsigned name n =
     (if n \<le> 2 ^ 31 - 1 then entry_header name 0x10 @ write_little 4 n
      else if n \<le> 2 ^ 63 - 1 then entry_header name 0x12 @ write_little 8 n
      else entry_header name 0x11 @ write_little 8 n)"

definition bson_string :: "string \<Rightarrow> string \<Rightarrow> string" where
  "bson_string name s =
     entry_header name 0x02 @ write_little 4 (int (length s) + 1) @ s @ [CHR 0x00]"

definition bson_binary :: "string \<Rightarrow> string \<Rightarrow> u64 option \<Rightarrow> string" where
  "bson_binary name b t =
     entry_header name 0x05 @ write_little 4 (int (length b))
     @ write_number 1 (case t of Some n \<Rightarrow> uint n | None \<Rightarrow> 0x00) @ b"

definition bson_boolean :: "string \<Rightarrow> bool \<Rightarrow> string" where
  "bson_boolean name b = entry_header name 0x08 @ [byte_char (if b then 0x01 else 0x00)]"

definition bson_double :: "string \<Rightarrow> u64 \<Rightarrow> string" where
  "bson_double name w = entry_header name 0x01 @ write_little 8 (uint w)"

definition bson_null :: "string \<Rightarrow> string" where
  "bson_null name = entry_header name 0x0A"

text \<open>
  A document: its size, the elements and a 0. \<^verbatim>\<open>write_bson_object\<close> computes the size of what it
  writes first; an exception of that comes before all output of the document.
\<close>

definition write_document :: "json_error + int \<Rightarrow> bson_output list \<Rightarrow> bson_output" where
  "write_document sz elements =
     (case sz of
        Inl e \<Rightarrow> ([], Some e)
      | Inr n \<Rightarrow> then_write (write_little 4 n, None) (then_write (write_all elements) ([CHR 0x00], None)))"

fun write_element :: "string \<Rightarrow> bvalue \<Rightarrow> bson_output" where
  "write_element name (BObject m) =
     then_write (entry_header name 0x03, None)
       (write_document (value_size (BObject m)) (map (\<lambda>(k, v). write_element k v) m))"
| "write_element name (BArray a) =
     then_write (entry_header name 0x04, None)
       (write_document (value_size (BArray a))
         (map (\<lambda>(k, w). w k) (indexed_keys (map (\<lambda>v k. write_element k v) a))))"
| "write_element name (BBinary b t) = (bson_binary name b t, None)"
| "write_element name (BBool b) = (bson_boolean name b, None)"
| "write_element name (BFloat w) = (bson_double name w, None)"
| "write_element name (BInteger i) = (bson_integer name (sint i), None)"
| "write_element name (BUnsigned u) = (bson_unsigned name (uint u), None)"
| "write_element name (BString s) = (bson_string name s, None)"
| "write_element name BNull = (bson_null name, None)"

fun bvalue_type_name :: "bvalue \<Rightarrow> string" where
  "bvalue_type_name BNull = ''null''"
| "bvalue_type_name (BObject m) = ''object''"
| "bvalue_type_name (BArray a) = ''array''"
| "bvalue_type_name (BString s) = ''string''"
| "bvalue_type_name (BBool b) = ''boolean''"
| "bvalue_type_name (BBinary b t) = ''binary''"
| "bvalue_type_name v = ''number''"

definition to_bson :: "bvalue \<Rightarrow> bson_output" where
  "to_bson v =
     (case v of
        BObject m \<Rightarrow> write_document (value_size (BObject m)) (map (\<lambda>(k, w). write_element k w) m)
      | _ \<Rightarrow> ([], Some (type_error 317
          (''to serialize to BSON, top-level type must be object, but is '' @ bvalue_type_name v))))"

subsection \<open>The reader\<close>

definition get_little :: "nat \<Rightarrow> int cbor_read" where
  "get_little width s = then_read (read_bytes (int width) s) (\<lambda>bs u. Inr (number_value (rev bs), u))"

definition get_little_signed :: "nat \<Rightarrow> int cbor_read" where
  "get_little_signed width s =
     then_read (get_little width s)
       (\<lambda>n u. Inr (if n < 2 ^ (8 * width - 1) then n else n - 2 ^ (8 * width), u))"

primrec get_bson_cstr :: "string cbor_read" where
  "get_bson_cstr [] = Inl (CborError (parse_error 110))"
| "get_bson_cstr (c # s) =
     (if byte c = 0x00 then Inr ([], s)
      else then_read (get_bson_cstr s) (\<lambda>result u. Inr (c # result, u)))"

text \<open>
  The byte behind a string is read and not looked at. At the end of the input the function returns
  false, without an exception.
\<close>

definition get_bson_string :: "int \<Rightarrow> string cbor_read" where
  "get_bson_string len s =
     (if len < 1 then Inl (CborError (parse_error 112))
      else then_read (read_bytes (len - 1) s)
        (\<lambda>result u. case u of [] \<Rightarrow> Inl Unreported | c # v \<Rightarrow> Inr (result, v)))"

definition get_bson_binary :: "int \<Rightarrow> bvalue cbor_read" where
  "get_bson_binary len s =
     (if len < 0 then Inl (CborError (parse_error 112))
      else then_read (get_number 1 s) (\<lambda>subtype u.
        then_read (read_bytes len u) (\<lambda>bs v. Inr (BBinary bs (Some (word_of_int subtype)), v))))"

text \<open>Every byte but 0 is true, and so is the end of the input.\<close>

definition get_bson_boolean :: "bvalue cbor_read" where
  "get_bson_boolean s = (case s of [] \<Rightarrow> Inr (BBool True, []) | c # u \<Rightarrow> Inr (BBool (byte c \<noteq> 0), u))"

text \<open>\<^verbatim>\<open>parse_bson_element_internal\<close>; \<open>p\<close> and \<open>q\<close> read a document and an array.\<close>

definition bson_element :: "bvalue cbor_read \<Rightarrow> bvalue cbor_read \<Rightarrow> int \<Rightarrow> bvalue cbor_read" where
  "bson_element p q element_type s =
     (if element_type = 0x01 then then_read (get_little 8 s) (\<lambda>n u. Inr (BFloat (word_of_int n), u))
      else if element_type = 0x02
      then then_read (get_little_signed 4 s) (\<lambda>len u.
        then_read (get_bson_string len u) (\<lambda>t v. Inr (BString t, v)))
      else if element_type = 0x03 then p s
      else if element_type = 0x04 then q s
      else if element_type = 0x05 then then_read (get_little_signed 4 s) get_bson_binary
      else if element_type = 0x08 then get_bson_boolean s
      else if element_type = 0x0A then Inr (BNull, s)
      else if element_type = 0x10
      then then_read (get_little_signed 4 s) (\<lambda>n u. Inr (BInteger (word_of_int n), u))
      else if element_type = 0x12
      then then_read (get_little_signed 8 s) (\<lambda>n u. Inr (BInteger (word_of_int n), u))
      else if element_type = 0x11
      then then_read (get_little 8 s) (\<lambda>n u. Inr (BUnsigned (word_of_int n), u))
      else Inl (CborError (parse_error 114)))"

text \<open>
  The elements up to a byte 0. The test of the length is for the termination of the definition only.
\<close>

function element_list :: "(int \<Rightarrow> bvalue cbor_read) \<Rightarrow> (string \<times> bvalue) list cbor_read" where
  "element_list p [] = Inl (CborError (parse_error 110))"
| "element_list p (c # s) =
     (if byte c = 0x00 then Inr ([], s)
      else (case read_member get_bson_cstr (p (byte c)) s of
              Inl e \<Rightarrow> Inl e
            | Inr (kv, u) \<Rightarrow>
                if length u \<le> length s then then_read (element_list p u) (\<lambda>kvs v. Inr (kv # kvs, v))
                else Inl StackExhausted))"
  by pat_completeness auto
termination by (relation "measure (\<lambda>(p, s). length s)") auto

text \<open>The size is read and not used.\<close>

definition bson_document ::
    "((string \<times> bvalue) list \<Rightarrow> bvalue) \<Rightarrow> (int \<Rightarrow> bvalue cbor_read) \<Rightarrow> bvalue cbor_read" where
  "bson_document build p s =
     then_read (get_little_signed 4 s) (\<lambda>sz u.
       then_read (element_list p u) (\<lambda>kvs v. Inr (build kvs, v)))"

definition array_of :: "(string \<times> bvalue) list \<Rightarrow> bvalue" where
  "array_of kvs = BArray (map snd kvs)"

primrec parse_element :: "nat \<Rightarrow> int \<Rightarrow> bvalue cbor_read" where
  "parse_element 0 = bson_element (\<lambda>s. Inl StackExhausted) (\<lambda>s. Inl StackExhausted)"
| "parse_element (Suc depth) =
     bson_element (bson_document object_of (parse_element depth)) (bson_document array_of (parse_element depth))"

definition parse_bson :: "nat \<Rightarrow> bvalue cbor_read" where
  "parse_bson depth = bson_document object_of (parse_element depth)"

definition from_bson :: "nat \<Rightarrow> bool \<Rightarrow> string \<Rightarrow> cbor_fault + bvalue" where
  "from_bson depth strict s =
     (case parse_bson depth s of
        Inl e \<Rightarrow> Inl e
      | Inr (v, u) \<Rightarrow> if strict \<and> u \<noteq> [] then Inl (CborError (parse_error 110)) else Inr v)"

end
