(* ===== verification/NCborLaws.thy ===== *)
theory NCborLaws
  imports NCbor
begin

text \<open>
  The reader of CBOR reads what the writer wrote, consumes its input, and never needs a stack deeper
  than the input is long; and where it reads something else than the format means.
\<close>

subsection \<open>Numbers\<close>

lemma byte_of_int: "0 \<le> n \<Longrightarrow> n < 256 \<Longrightarrow> byte (char_of n) = n"
  by (simp add: of_char_of take_bit_int_eq_self)

lemma write_number_length: "length (write_number k n) = k"
  by (induction k arbitrary: n) simp_all

lemma number_value_snoc: "number_value (bs @ [c]) = 256 * number_value bs + byte c"
  by (simp add: number_value_def)

lemma number_value_write: "0 \<le> n \<Longrightarrow> n < 256 ^ k \<Longrightarrow> number_value (write_number k n) = n"
proof (induction k arbitrary: n)
  case 0
  then show ?case by (simp add: number_value_def)
next
  case (Suc k)
  have "256 * (n div 256) \<le> n" by simp
  then have "256 * (n div 256) < 256 * 256 ^ k" using Suc.prems(2) unfolding power_Suc by (rule order.strict_trans1)
  then have "n div 256 < 256 ^ k" by simp
  then have "number_value (write_number k (n div 256)) = n div 256" using Suc by simp
  moreover have "byte (byte_char (n mod 256)) = n mod 256" by (rule byte_of_int) simp_all
  ultimately show ?case by (simp add: number_value_snoc del: of_char_of)
qed

lemma read_bytes_append: "read_bytes (int (length bs)) (bs @ s) = Inr (bs, s)"
  by (induction bs) (cases s, simp_all)

lemma get_number_write:
  "0 \<le> n \<Longrightarrow> n < 256 ^ k \<Longrightarrow> get_number (int k) (write_number k n @ s) = Inr (n, s)"
  using read_bytes_append [of "write_number k n" s]
  by (simp add: get_number_def write_number_length number_value_write)

text \<open>What the writer writes in front of an argument is read back.\<close>

definition argument_read :: "int \<Rightarrow> int \<Rightarrow> int \<Rightarrow> string \<Rightarrow> bool" where
  "argument_read base n b t \<longleftrightarrow>
     (n \<le> 0x17 \<and> b = base + n \<and> t = []
      \<or> base + 0x18 \<le> b \<and> b \<le> base + 0x1B \<and> (\<forall>s. get_argument (base + 0x18) b (t @ s) = Inr (n, s)))"

lemma write_argument_cases:
  assumes "0 \<le> n" "n < 2 ^ 64" "0 \<le> base" "base \<le> 0xC0"
  obtains b t where "write_argument base n = byte_char b # t" "argument_read base n b t" "byte (byte_char b) = b"
    "base \<le> b" "b \<le> base + 0x1B"
proof -
  have g: "get_number 1 (write_number 1 n @ s) = Inr (n, s)" if "n \<le> 0xFF" for s
    using get_number_write [of n 1 s] assms(1) that by simp
  have g2: "get_number 2 (write_number 2 n @ s) = Inr (n, s)" if "n \<le> 0xFFFF" for s
    using get_number_write [of n 2 s] assms(1) that by simp
  have g4: "get_number 4 (write_number 4 n @ s) = Inr (n, s)" if "n \<le> 0xFFFFFFFF" for s
    using get_number_write [of n 4 s] assms(1) that by simp
  have g8: "get_number 8 (write_number 8 n @ s) = Inr (n, s)" for s
    using get_number_write [of n 8 s] assms(1,2) by simp
  consider "n \<le> 0x17" | "\<not> n \<le> 0x17" "n \<le> 0xFF" | "\<not> n \<le> 0xFF" "n \<le> 0xFFFF"
    | "\<not> n \<le> 0xFFFF" "n \<le> 0xFFFFFFFF" | "\<not> n \<le> 0xFFFFFFFF" by linarith
  then show thesis
  proof cases
    case 1
    then have "write_argument base n = [byte_char ((base + n) mod 256)]"
      by (simp add: write_argument_def numeral_eq_Suc)
    moreover have "(base + n) mod 256 = base + n" using 1 assms by simp
    ultimately show thesis using 1 assms
      by (intro that [of "base + n" "[]"]) (simp_all add: argument_read_def byte_of_int)
  next
    case 2
    then show thesis using assms g
      by (intro that [of "base + 0x18" "write_number 1 n"])
        (simp_all add: write_argument_def argument_read_def get_argument_def byte_of_int del: write_number.simps One_nat_def)
  next
    case 3
    then show thesis using assms g2
      by (intro that [of "base + 0x19" "write_number 2 n"])
        (simp_all add: write_argument_def argument_read_def get_argument_def byte_of_int del: write_number.simps)
  next
    case 4
    then show thesis using assms g4
      by (intro that [of "base + 0x1A" "write_number 4 n"])
        (simp_all add: write_argument_def argument_read_def get_argument_def byte_of_int del: write_number.simps)
  next
    case 5
    then show thesis using assms g8
      by (intro that [of "base + 0x1B" "write_number 8 n"])
        (simp_all add: write_argument_def argument_read_def get_argument_def byte_of_int del: write_number.simps)
  qed
qed

subsection \<open>Floating-point numbers\<close>

lemma bit_width_eq: "2 ^ k \<le> m \<Longrightarrow> m < 2 ^ Suc k \<Longrightarrow> bit_width m = int k + 1"
proof (induction k arbitrary: m)
  case 0
  then have "m = 1" by simp
  then show ?case by (simp add: bit_width.simps)
next
  case (Suc k)
  then have "2 ^ k \<le> m div 2" "m div 2 < 2 ^ Suc k" by auto
  then have "bit_width (m div 2) = int k + 1" by (rule Suc.IH)
  moreover have "1 < m" using Suc.prems(1) one_le_power [of "2 :: int" k] unfolding power_Suc by linarith
  ultimately show ?case by (simp add: bit_width.simps [of m])
qed

lemma ldexp_eq:
  "2 ^ k \<le> m \<Longrightarrow> m < 2 ^ Suc k \<Longrightarrow> k \<le> 52 \<Longrightarrow>
   ldexp m e = (e + int k + 1023) * 2 ^ 52 + (m * 2 ^ (52 - k) - 2 ^ 52)"
proof -
  assume a: "2 ^ k \<le> m" "m < 2 ^ Suc k" "k \<le> 52"
  have "m \<noteq> 0" using a(1) zero_less_power [of "2 :: int" k] by linarith
  moreover have "nat (53 - (int k + 1)) = 52 - k" using a(3) by simp
  ultimately show ?thesis by (simp add: ldexp_def bit_width_eq [OF a(1,2)])
qed

lemma double_fields:
  "uint w = double_sign (uint w) * 2 ^ 63 + double_exponent (uint w) * 2 ^ 52 + double_fraction (uint w)"
  "0 \<le> double_sign (uint (w :: u64))" "double_sign (uint w) \<le> 1"
  "0 \<le> double_exponent (uint w)" "double_exponent (uint w) < 2 ^ 11"
  "0 \<le> double_fraction (uint w)" "double_fraction (uint w) < 2 ^ 52"
proof -
  have w: "0 \<le> uint w" "uint w < 2 ^ 64" using uint_lt2p [of w] by simp_all
  let ?q = "uint w div 2 ^ 52"
  have "?q = 2 ^ 11 * (?q div 2 ^ 11) + ?q mod 2 ^ 11" by simp
  moreover have "?q div 2 ^ 11 = uint w div 2 ^ 63" by (simp add: zdiv_zmult2_eq [symmetric])
  ultimately have q: "?q = 2 ^ 11 * (uint w div 2 ^ 63) + ?q mod 2 ^ 11" by metis
  have join: "x = a * 2 ^ 63 + b * 2 ^ 52 + r" if "x = 2 ^ 52 * y + r" "y = 2 ^ 11 * a + b" for x y a b r :: int
    using that by simp
  have "uint w = 2 ^ 52 * ?q + uint w mod 2 ^ 52" by simp
  from join [OF this q]
  show "uint w = double_sign (uint w) * 2 ^ 63 + double_exponent (uint w) * 2 ^ 52 + double_fraction (uint w)"
    unfolding double_sign_def double_exponent_def double_fraction_def .
  show "0 \<le> double_sign (uint w)" "double_sign (uint w) \<le> 1"
    using w by (simp_all add: double_sign_def pos_imp_zdiv_nonneg_iff)
qed (simp_all add: double_exponent_def double_fraction_def)

lemma single_fields:
  assumes "0 \<le> s" "s \<le> (1 :: int)" "0 \<le> x" "x < 2 ^ 8" "0 \<le> y" "y < 2 ^ 23"
  shows "(s * 2 ^ 31 + x * 2 ^ 23 + y) div 2 ^ 23 mod 2 ^ 8 = x"
    "(s * 2 ^ 31 + x * 2 ^ 23 + y) mod 2 ^ 23 = y"
    "(s * 2 ^ 31 + x * 2 ^ 23 + y) div 2 ^ 31 mod 2 = s"
    "0 \<le> s * 2 ^ 31 + x * 2 ^ 23 + y" "s * 2 ^ 31 + x * 2 ^ 23 + y < 256 ^ 4"
proof -
  have e: "s * 2 ^ 31 + x * 2 ^ 23 + y = y + (s * 2 ^ 8 + x) * 2 ^ 23" by simp
  have d: "(y + (s * 2 ^ 8 + x) * 2 ^ 23) div 2 ^ 23 = x + s * 2 ^ 8" using assms(5,6) by simp
  show "(s * 2 ^ 31 + x * 2 ^ 23 + y) div 2 ^ 23 mod 2 ^ 8 = x"
    unfolding e d using assms(3,4) by simp
  show "(s * 2 ^ 31 + x * 2 ^ 23 + y) mod 2 ^ 23 = y"
    unfolding e mod_mult_self1 using assms(5,6) by simp
  have "(s * 2 ^ 31 + x * 2 ^ 23 + y) div 2 ^ 31 = (s * 2 ^ 31 + x * 2 ^ 23 + y) div 2 ^ 23 div 2 ^ 8"
    by (simp add: zdiv_zmult2_eq [symmetric])
  also have "\<dots> = s" unfolding e d using assms(3,4) by simp
  finally show "(s * 2 ^ 31 + x * 2 ^ 23 + y) div 2 ^ 31 mod 2 = s" using assms(1,2) by simp
  show "0 \<le> s * 2 ^ 31 + x * 2 ^ 23 + y" "s * 2 ^ 31 + x * 2 ^ 23 + y < 256 ^ 4"
    using assms by simp_all
qed

text \<open>A double that is written as a single is read back with the same bits.\<close>

lemma signed_double:
  assumes "single_to_double f = word_of_int (if s \<noteq> 0 then 2 ^ 63 + v else v)"
    and "uint w = s * 2 ^ 63 + v" "0 \<le> s" "s \<le> 1"
  shows "single_to_double f = w"
proof -
  have "s = 0 \<or> s = 1" using assms(3,4) by linarith
  then have "(if s \<noteq> 0 then 2 ^ 63 + v else v) = uint w" using assms(2) by auto
  with assms(1) show ?thesis by simp
qed

lemma nan_fraction:
  assumes "2 ^ 51 \<le> m" "m < (2 :: int) ^ 52" "m mod 2 ^ 29 = 0"
  shows "2 ^ 22 + m mod 2 ^ 51 div 2 ^ 29 = m div 2 ^ 29" "m div 2 ^ 29 mod 2 ^ 22 = m div 2 ^ 29 - 2 ^ 22"
    "m div 2 ^ 29 * 2 ^ 29 = m" "m div 2 ^ 29 \<noteq> 0"
proof -
  obtain q where q: "m = q * 2 ^ 29" using assms(3) by (auto simp: zmod_eq_0_iff mult.commute)
  then have r: "2 ^ 22 \<le> q" "q < 2 ^ 23" using assms(1,2) by simp_all
  then have "(q - 2 ^ 22) mod 2 ^ 22 = q - 2 ^ 22" by (intro mod_pos_pos_trivial) simp_all
  moreover have "(q - 2 ^ 22) mod 2 ^ 22 = q mod 2 ^ 22" by (rule minus_mod_self2)
  ultimately have l: "q mod 2 ^ 22 = q - 2 ^ 22" by simp
  have d: "m div 2 ^ 29 = q" using q by simp
  have "m mod (2 ^ 22 * 2 ^ 29) = (q mod 2 ^ 22) * 2 ^ 29" unfolding q by (rule mod_mult_mult2)
  then have "m mod 2 ^ 51 div 2 ^ 29 = q mod 2 ^ 22" by simp
  with l d show "2 ^ 22 + m mod 2 ^ 51 div 2 ^ 29 = m div 2 ^ 29" by simp
  from l d r q show "m div 2 ^ 29 mod 2 ^ 22 = m div 2 ^ 29 - 2 ^ 22" "m div 2 ^ 29 * 2 ^ 29 = m" "m div 2 ^ 29 \<noteq> 0"
    by simp_all
qed

definition single_nan :: "u64 \<Rightarrow> bool" where
  "single_nan w \<longleftrightarrow> 2 ^ 51 \<le> double_fraction (uint w) \<and> double_fraction (uint w) mod 2 ^ 29 = 0"

lemma single_read_back:
  assumes "as_single w = Some f" "is_nan w \<longrightarrow> single_nan w"
  shows "single_to_double f = w" "0 \<le> f" "f < 256 ^ 4"
proof -
  let ?s = "double_sign (uint w)" and ?E = "double_exponent (uint w)" and ?m = "double_fraction (uint w)"
  note f = double_fields [of w]
  have "single_to_double f = w \<and> 0 \<le> f \<and> f < 256 ^ 4"
  proof -
    consider (special) "?E = 2047" "f = ?s * 2 ^ 31 + 255 * 2 ^ 23 + (if ?m = 0 then 0 else 2 ^ 22 + ?m mod 2 ^ 51 div 2 ^ 29)"
      | (zero) "?E = 0" "?m = 0" "f = ?s * 2 ^ 31 + 0 * 2 ^ 23 + 0"
      | (normal) "897 \<le> ?E" "?E \<le> 1150" "?m mod 2 ^ 29 = 0" "f = ?s * 2 ^ 31 + (?E - 896) * 2 ^ 23 + ?m div 2 ^ 29"
      | (subnormal) "874 \<le> ?E" "?E < 897" "(2 ^ 52 + ?m) mod 2 ^ nat (926 - ?E) = 0"
          "f = ?s * 2 ^ 31 + 0 * 2 ^ 23 + (2 ^ 52 + ?m) div 2 ^ nat (926 - ?E)"
    proof (cases "?E = 2047")
      case True
      with assms(1) show thesis by (intro that(1)) (simp_all add: as_single_def Let_def)
    next
      case False
      then have "?E - 1023 \<noteq> 1024" by simp
      note assms(1) [unfolded as_single_def Let_def if_not_P [OF this]]
      with that(2-4) f(4) show thesis by (auto simp: algebra_simps split: if_splits)
    qed
    then show ?thesis
    proof cases
      case special
      let ?y = "if ?m = 0 then 0 else 2 ^ 22 + ?m mod 2 ^ 51 div 2 ^ 29"
      have m: "?m = 0 \<or> 2 ^ 51 \<le> ?m \<and> ?m mod 2 ^ 29 = 0"
        using assms(2) special(1) by (auto simp: is_nan_def single_nan_def)
      have y: "?y = ?m div 2 ^ 29"
        using m nan_fraction(1) [OF _ f(7)] by (cases "?m = 0") simp_all
      have q: "0 \<le> ?m div 2 ^ 29" "?m div 2 ^ 29 < 2 ^ 23" using f(6,7) by simp_all
      have x: "(0 :: int) \<le> 255" "(255 :: int) < 2 ^ 8" by simp_all
      note sf = single_fields [OF f(2,3) x q]
      have val: "(if ?m div 2 ^ 29 = 0 then infinity_bits else quiet_nan_bits + ?m div 2 ^ 29 mod 2 ^ 22 * 2 ^ 29)
          = 2047 * 2 ^ 52 + ?m"
        using m nan_fraction(2-4) [OF _ f(7)]
        by (cases "?m = 0") (simp_all add: infinity_bits_def quiet_nan_bits_def)
      have "single_to_double f = word_of_int (if ?s \<noteq> 0 then 2 ^ 63 + (2047 * 2 ^ 52 + ?m) else 2047 * 2 ^ 52 + ?m)"
        unfolding special(2) y single_to_double_def Let_def sf(1,2,3) using val by simp
      then have "single_to_double f = w" by (rule signed_double) (use special(1) f in simp_all)
      with sf(4,5) show ?thesis unfolding special(2) y by simp
    next
      case zero
      note sf = single_fields [OF f(2,3), of 0 0]
      have "single_to_double f = word_of_int (if ?s \<noteq> 0 then 2 ^ 63 + 0 else 0)"
        unfolding zero(3) using sf by (simp add: single_to_double_def Let_def ldexp_def del: power_numeral)
      then have "single_to_double f = w" by (rule signed_double) (use zero f in simp_all)
      with sf(4,5) show ?thesis unfolding zero(3) by simp
    next
      case normal
      let ?y = "?m div 2 ^ 29"
      have y: "0 \<le> ?y" "?y < 2 ^ 23" "?m = ?y * 2 ^ 29"
        using f(6,7) normal(3) by (auto simp: zmod_eq_0_iff)
      note sf = single_fields [OF f(2,3) _ _ y(1,2), of "?E - 896"]
      have x: "0 \<le> ?E - 896" "?E - 896 < 2 ^ 8" using normal by simp_all
      have "ldexp (?y + 2 ^ 23) (?E - 896 - 150) = (?E - 896 - 150 + int 23 + 1023) * 2 ^ 52 + ((?y + 2 ^ 23) * 2 ^ (52 - 23) - 2 ^ 52)"
        by (rule ldexp_eq) (use y in simp_all)
      also have "\<dots> = ?E * 2 ^ 52 + ?m" using y(3) by simp
      finally have "ldexp (?y + 2 ^ 23) (?E - 896 - 150) = ?E * 2 ^ 52 + ?m" .
      then have "single_to_double f = word_of_int (if ?s \<noteq> 0 then 2 ^ 63 + (?E * 2 ^ 52 + ?m) else ?E * 2 ^ 52 + ?m)"
        unfolding normal(4) single_to_double_def Let_def sf(1,2,3) [OF x] using normal(1,2) by simp
      then have "single_to_double f = w" by (rule signed_double) (use f in simp_all)
      with sf(4,5) [OF x] show ?thesis unfolding normal(4) by simp
    next
      case subnormal
      define k where "k = nat (926 - ?E)"
      have k: "?E = 926 - int k" "30 \<le> k" "k \<le> 52" using subnormal(1,2) by (auto simp: k_def)
      let ?y = "(2 ^ 52 + ?m) div 2 ^ k"
      have y: "?y * 2 ^ k = 2 ^ 52 + ?m" using subnormal(3) by (auto simp: k_def zmod_eq_0_iff)
      have split: "(2 :: int) ^ 52 = 2 ^ (52 - k) * 2 ^ k" "(2 :: int) ^ 53 = 2 ^ Suc (52 - k) * 2 ^ k"
        using k(3) by (simp_all only: power_add [symmetric]) simp_all
      have "2 ^ (52 - k) * 2 ^ k \<le> ?y * 2 ^ k" "?y * 2 ^ k < 2 ^ Suc (52 - k) * 2 ^ k"
        unfolding split [symmetric] y using f(6,7) by simp_all
      then have b: "2 ^ (52 - k) \<le> ?y" "?y < 2 ^ Suc (52 - k)" by simp_all
      have "Suc (52 - k) \<le> 23" using k(2) by simp
      then have "(2 :: int) ^ Suc (52 - k) \<le> 2 ^ 23" by (rule power_increasing) simp
      then have "?y < 2 ^ 23" "0 \<le> ?y" using b zero_less_power [of "2 :: int" "52 - k"] by linarith+
      note sf = single_fields [OF f(2,3) _ _ this(2,1), of 0]
      have z: "(0 :: int) \<le> 0" "(0 :: int) < 2 ^ 8" by simp_all
      have "ldexp ?y (- 149) = (- 149 + int (52 - k) + 1023) * 2 ^ 52 + (?y * 2 ^ (52 - (52 - k)) - 2 ^ 52)"
        by (rule ldexp_eq [OF b]) simp
      also have "\<dots> = ?E * 2 ^ 52 + ?m" using y k by simp
      finally have "ldexp ?y (- 149) = ?E * 2 ^ 52 + ?m" .
      then have "single_to_double f = word_of_int (if ?s \<noteq> 0 then 2 ^ 63 + (?E * 2 ^ 52 + ?m) else ?E * 2 ^ 52 + ?m)"
        unfolding subnormal(4) k_def [symmetric] single_to_double_def Let_def sf(1,2,3) [OF z] by simp
      then have "single_to_double f = w" by (rule signed_double) (use f in simp_all)
      with sf(4,5) show ?thesis unfolding subnormal(4) k_def [symmetric] by simp
    qed
  qed
  then show "single_to_double f = w" "0 \<le> f" "f < 256 ^ 4" by simp_all
qed

subsection \<open>The reader reads what the writer wrote\<close>

text \<open>
  What can be written so that it is read: lengths fit into 64 bits and into the reader's containers,
  and the keys of objects are in order. \<open>cbor_received\<close> is what comes back: an integer that is not
  negative as an unsigned one, every NaN as the one NaN the writer has, and the subtype of a binary
  value only where tags are stored.
\<close>

fun cbor_fits :: "cbor_setting \<Rightarrow> bvalue \<Rightarrow> bool" where
  "cbor_fits C (BString s) = (int (length s) < 2 ^ 64)"
| "cbor_fits C (BBinary b t) = (int (length b) < 2 ^ 64)"
| "cbor_fits C (BArray a) =
     (int (length a) < unknown_size \<and> int (length a) \<le> cs_array_max C \<and> list_all (cbor_fits C) a)"
| "cbor_fits C (BObject m) =
     (int (length m) < unknown_size \<and> int (length m) \<le> cs_object_max C \<and> keys_sorted m
      \<and> list_all (\<lambda>(k, v). int (length k) < 2 ^ 64 \<and> cbor_fits C v) m)"
| "cbor_fits C v = True"

fun cbor_received :: "cbor_setting \<Rightarrow> bvalue \<Rightarrow> bvalue" where
  "cbor_received C (BInteger i) = (if sint i < 0 then BInteger i else BUnsigned i)"
| "cbor_received C (BFloat w) = BFloat (if is_nan w then word_of_int quiet_nan_bits else w)"
| "cbor_received C (BBinary b t) = BBinary b (if cs_tags C = TagStore then t else None)"
| "cbor_received C (BArray a) = BArray (map (cbor_received C) a)"
| "cbor_received C (BObject m) = BObject (map (\<lambda>(k, v). (k, cbor_received C v)) m)"
| "cbor_received C v = v"

text \<open>The values the default tag handler refuses: a binary value with a subtype somewhere in them.\<close>

fun has_subtype :: "bvalue \<Rightarrow> bool" where
  "has_subtype (BBinary b t) = (t \<noteq> None)"
| "has_subtype (BArray a) = list_ex has_subtype a"
| "has_subtype (BObject m) = list_ex (\<lambda>(k, v). has_subtype v) m"
| "has_subtype v = False"

definition refused :: "cbor_setting \<Rightarrow> bvalue \<Rightarrow> bool" where
  "refused C v \<longleftrightarrow> cs_tags C = TagError \<and> has_subtype v"

text \<open>The depth of calls a value takes; an ignored tag takes one, too.\<close>

fun cbor_depth :: "cbor_setting \<Rightarrow> bvalue \<Rightarrow> nat" where
  "cbor_depth C (BArray a) = Suc (fold max (map (cbor_depth C) a) 0)"
| "cbor_depth C (BObject m) = Suc (fold max (map (\<lambda>(k, v). cbor_depth C v) m) 0)"
| "cbor_depth C (BBinary b t) = (if t \<noteq> None \<and> cs_tags C = TagIgnore then 1 else 0)"
| "cbor_depth C v = 0"

fun nesting :: "bvalue \<Rightarrow> nat" where
  "nesting (BArray a) = Suc (fold max (map nesting a) 0)"
| "nesting (BObject m) = Suc (fold max (map (\<lambda>(k, v). nesting v) m) 0)"
| "nesting v = 0"

lemma fold_max_le: "fold max ns (n :: nat) \<le> d \<longleftrightarrow> n \<le> d \<and> (\<forall>m \<in> set ns. m \<le> d)"
  by (induction ns arbitrary: n) auto

lemma read_times_mapped:
  "(\<And>x s. x \<in> set xs \<Longrightarrow> p (w x @ s) = Inr (r x, s)) \<Longrightarrow>
   read_times p (int (length xs)) (concat (map w xs) @ s) = Inr (map r xs, s)"
proof (induction xs)
  case Nil
  then show ?case by (simp add: read_times.simps)
next
  case (Cons x xs)
  then show ?case by (subst read_times.simps) simp
qed

text \<open>The same when some of the items are refused with an error.\<close>

lemma read_times_refused:
  "(\<And>x s. x \<in> set xs \<Longrightarrow> p (w x @ s) = (if bad x then Inl e else Inr (r x, s))) \<Longrightarrow>
   read_times p (int (length xs)) (concat (map w xs) @ s)
     = (if list_ex bad xs then Inl e else Inr (map r xs, s))"
proof (induction xs)
  case Nil
  then show ?case by (simp add: read_times.simps)
next
  case (Cons x xs)
  then show ?case by (subst read_times.simps) simp
qed

lemma string_read_back:
  assumes "int (length t) < 2 ^ 64" "base = 0x40 \<or> base = 0x60"
  shows "read_chunks base depth (cbor_string base t @ s) = Inr (t, s)"
proof -
  obtain b u where bu: "write_argument base (int (length t)) = byte_char b # u"
    "argument_read base (int (length t)) b u" "byte (byte_char b) = b" "base \<le> b" "b \<le> base + 0x1B"
    by (rule write_argument_cases [of "int (length t)" base]) (use assms in auto)
  have "(base + int (length t)) mod 32 = int (length t)" if "length t \<le> 0x17"
  proof -
    have "(int (length t) + 32 * k) mod 32 = int (length t)" for k
      using that unfolding mod_mult_self2 by simp
    from this [of 2] this [of 3] show ?thesis using assms(2) by (auto simp: add.commute)
  qed
  then have "read_chunk base chunks (cbor_string base t @ s) = Inr (t, s)" for chunks
    using bu assms(2) read_bytes_append [of t s]
    by (auto simp: cbor_string_def read_chunk_def argument_read_def simp del: of_char_of)
  then show ?thesis by (cases depth) simp_all
qed

lemma float_read_back:
  "cbor_switch C depth p (write_float w @ s) = Inr (cbor_received C (BFloat w), s)"
proof -
  have half: "cbor_switch C depth p (byte_char 0xF9 # write_number 2 n @ s) = Inr (BFloat (half_to_double n), s)"
    if n: "0 \<le> n" "n < 256 ^ 2" for n
    using get_number_write [OF n]
    by (simp add: switch_defs Let_def byte_of_int del: write_number.simps of_char_of)
  consider "is_nan w" | "is_inf w" | "\<not> is_nan w" "\<not> is_inf w" by blast
  then show ?thesis
  proof cases
    case 1
    have "half_to_double 0x7E00 = word_of_int quiet_nan_bits" by code_simp
    moreover have "write_number 2 0x7E00 = [byte_char 0x7E, byte_char 0x00]" by (simp add: numeral_eq_Suc)
    ultimately show ?thesis using 1 half [of "0x7E00"] by (simp add: write_float_def)
  next
    case 2
    then have n: "\<not> is_nan w" and u: "uint w = double_sign (uint w) * 2 ^ 63 + infinity_bits"
      using double_fields(1) [of w] by (auto simp: is_inf_def is_nan_def infinity_bits_def)
    consider "double_sign (uint w) = 0" | "double_sign (uint w) = 1"
      using double_fields(2,3) [of w] by linarith
    then show ?thesis
    proof cases
      case 1
      with u have "w = word_of_int infinity_bits" by (metis add_0 mult_zero_left word_of_int_uint)
      moreover have "half_to_double 0x7C00 = word_of_int infinity_bits" by code_simp
      moreover have "write_number 2 0x7C00 = [byte_char 0x7C, byte_char 0x00]" by (simp add: numeral_eq_Suc)
      ultimately show ?thesis using n 1 \<open>is_inf w\<close> half [of "0x7C00"] by (simp add: write_float_def)
    next
      case 2
      with u have "w = word_of_int (2 ^ 63 + infinity_bits)" by (metis mult_1 word_of_int_uint)
      moreover have "half_to_double 0xFC00 = word_of_int (2 ^ 63 + infinity_bits)" by code_simp
      moreover have "write_number 2 0xFC00 = [byte_char 0xFC, byte_char 0x00]" by (simp add: numeral_eq_Suc)
      ultimately show ?thesis using n 2 \<open>is_inf w\<close> half [of "0xFC00"] by (simp add: write_float_def)
    qed
  next
    case 3
    show ?thesis
    proof (cases "as_single w")
      case None
      have "0 \<le> uint w" "uint w < 256 ^ 8" using uint_lt2p [of w] by simp_all
      from get_number_write [OF this, of s] None 3 show ?thesis
        by (simp add: write_float_def write_compact_float_def switch_defs Let_def byte_of_int
            del: write_number.simps of_char_of)
    next
      case (Some f)
      note f = single_read_back [OF Some] 3
      from get_number_write [OF f(2,3), of s] Some 3 f(1) show ?thesis
        by (simp add: write_float_def write_compact_float_def switch_defs Let_def byte_of_int
            del: write_number.simps of_char_of)
    qed
  qed
qed

lemma switch_argument:
  assumes "0 \<le> n" "n < 2 ^ 64"
  shows "cbor_switch C depth p (write_argument 0x00 n @ s) = Inr (BUnsigned (word_of_int n), s)"
    "cbor_switch C depth p (write_argument 0x20 n @ s) = Inr (BInteger (- 1 - word_of_int n), s)"
    "cbor_switch C depth p (write_argument 0x80 n @ s) = get_cbor_array C p n s"
    "cbor_switch C depth p (write_argument 0xA0 n @ s) = get_cbor_object C depth p n s"
proof -
  show "cbor_switch C depth p (write_argument 0x00 n @ s) = Inr (BUnsigned (word_of_int n), s)"
    by (rule write_argument_cases [OF assms, of "0x00"])
      (auto simp: switch_defs argument_read_def Let_def simp del: of_char_of)
  show "cbor_switch C depth p (write_argument 0x20 n @ s) = Inr (BInteger (- 1 - word_of_int n), s)"
    by (rule write_argument_cases [OF assms, of "0x20"])
      (auto simp: switch_defs argument_read_def Let_def simp del: of_char_of)
  have "(n + 32 * k) mod 32 = n" if "n \<le> 0x17" for k
    using that assms(1) unfolding mod_mult_self2 by simp
  from this [of 4] this [of 5] have m: "n \<le> 0x17 \<Longrightarrow> (0x80 + n) mod 32 = n" "n \<le> 0x17 \<Longrightarrow> (0xA0 + n) mod 32 = n"
    by (simp_all add: add.commute)
  show "cbor_switch C depth p (write_argument 0x80 n @ s) = get_cbor_array C p n s"
    by (rule write_argument_cases [OF assms, of "0x80"])
      (auto simp: switch_defs argument_read_def Let_def m simp del: of_char_of)
  show "cbor_switch C depth p (write_argument 0xA0 n @ s) = get_cbor_object C depth p n s"
    by (rule write_argument_cases [OF assms, of "0xA0"])
      (auto simp: switch_defs argument_read_def Let_def m simp del: of_char_of)
qed

lemma switch_chunk:
  assumes "int (length t) < 2 ^ 64"
  shows "cbor_switch C depth p (cbor_string 0x60 t @ s) = Inr (BString t, s)"
    "cbor_switch C depth p (cbor_string 0x40 t @ s) = Inr (BBinary t None, s)"
proof -
  have n: "0 \<le> int (length t)" by simp
  obtain b u where b: "write_argument 0x60 (int (length t)) = byte_char b # u" "byte (byte_char b) = b"
    "0x60 \<le> b" "b \<le> 0x7B"
    by (rule write_argument_cases [OF n assms, of "0x60"]) auto
  show "cbor_switch C depth p (cbor_string 0x60 t @ s) = Inr (BString t, s)"
    using string_read_back [OF assms, of "0x60" depth s] b
    by (simp add: switch_defs Let_def get_cbor_string_def cbor_string_def del: of_char_of)
  obtain b u where b: "write_argument 0x40 (int (length t)) = byte_char b # u" "byte (byte_char b) = b"
    "0x40 \<le> b" "b \<le> 0x5B"
    by (rule write_argument_cases [OF n assms, of "0x40"]) auto
  show "cbor_switch C depth p (cbor_string 0x40 t @ s) = Inr (BBinary t None, s)"
    using string_read_back [OF assms, of "0x40" depth s] b
    by (simp add: switch_defs Let_def get_cbor_binary_def cbor_string_def del: of_char_of)
qed

lemma subtype_first:
  fixes n :: u64
  obtains b u where "write_subtype (uint n) = byte_char b # u" "byte (byte_char b) = b" "0xD8 \<le> b" "b \<le> 0xDB"
    "\<And>v. get_argument 0xD8 b (u @ v) = Inr (uint n, v)"
proof -
  have n: "0 \<le> uint n" "uint n < 2 ^ 64" using uint_lt2p [of n] by simp_all
  have head: "write_number 1 b = [byte_char b]" if "0 \<le> b" "b < 256" for b
    using that by simp
  consider "uint n \<le> 0xFF" | "\<not> uint n \<le> 0xFF" "uint n \<le> 0xFFFF"
    | "\<not> uint n \<le> 0xFFFF" "uint n \<le> 0xFFFFFFFF" | "\<not> uint n \<le> 0xFFFFFFFF" by linarith
  then show thesis
  proof cases
    case 1
    with get_number_write [of "uint n" 1] n show thesis
      by (intro that [of "0xD8" "write_number 1 (uint n)"])
        (simp_all add: write_subtype_def get_argument_def head byte_of_int del: write_number.simps One_nat_def)
  next
    case 2
    with get_number_write [of "uint n" 2] n show thesis
      by (intro that [of "0xD9" "write_number 2 (uint n)"])
        (simp_all add: write_subtype_def get_argument_def head byte_of_int del: write_number.simps One_nat_def)
  next
    case 3
    with get_number_write [of "uint n" 4] n show thesis
      by (intro that [of "0xDA" "write_number 4 (uint n)"])
        (simp_all add: write_subtype_def get_argument_def head byte_of_int del: write_number.simps One_nat_def)
  next
    case 4
    with get_number_write [of "uint n" 8] n show thesis
      by (intro that [of "0xDB" "write_number 8 (uint n)"])
        (simp_all add: write_subtype_def get_argument_def head byte_of_int del: write_number.simps One_nat_def)
  qed
qed

lemma switch_subtype:
  assumes "int (length t) < 2 ^ 64"
  shows "cbor_switch C depth p (write_subtype (uint n) @ cbor_string 0x40 t @ s) =
    (case cs_tags C of TagError \<Rightarrow> Inl (CborError (parse_error 112))
     | TagIgnore \<Rightarrow> p (cbor_string 0x40 t @ s)
     | TagStore \<Rightarrow> Inr (BBinary t (Some n), s))"
proof -
  obtain b u where b: "write_subtype (uint n) = byte_char b # u" "byte (byte_char b) = b" "0xD8 \<le> b" "b \<le> 0xDB"
    "\<And>v. get_argument 0xD8 b (u @ v) = Inr (uint n, v)" by (rule subtype_first [of n]) (rule that)
  then show ?thesis
    using string_read_back [OF assms, of "0x40" depth s]
    by (simp add: switch_defs Let_def cbor_tagged_def get_cbor_binary_def split: cbor_tag_handler.split del: of_char_of)
qed

lemma fold_set_sorted: "keys_sorted (m @ n) \<Longrightarrow> fold (\<lambda>(k, v). map_set k v) n m = m @ n"
proof (induction n arbitrary: m)
  case (Cons kv n)
  obtain k v where kv: "kv = (k, v)" by force
  have "map_set k v m = m @ [(k, v)]"
    using Cons.prems kv by (induction m) (auto simp: keys_sorted_def)
  with Cons kv show ?case by simp
qed simp

lemma keyed_object:
  assumes "keys_sorted m"
  shows "object_of (map (\<lambda>(k, v). (k, r v)) m) = BObject (map (\<lambda>(k, v). (k, r v)) m)"
proof -
  have keys: "map fst (map (\<lambda>(k, v). (k, r v)) m) = map fst m" by (induction m) auto
  have "keys_sorted (map (\<lambda>(k, v). (k, r v)) m)" using assms by (simp only: keys_sorted_def keys)
  then show ?thesis using fold_set_sorted [of "[]" "map (\<lambda>(k, v). (k, r v)) m"] by (simp add: object_of_def)
qed

primrec inner_parser :: "cbor_setting \<Rightarrow> nat \<Rightarrow> bvalue cbor_read" where
  "inner_parser C 0 = (\<lambda>s. Inl StackExhausted)"
| "inner_parser C (Suc depth) = parse_cbor C depth"

lemma parse_cbor_switch: "parse_cbor C depth = cbor_switch C depth (inner_parser C depth)"
  by (cases depth) simp_all

lemma parse_written:
  "cbor_fits C v \<Longrightarrow> cbor_depth C v \<le> depth \<Longrightarrow> parse_cbor C depth (write_cbor v @ s) =
     (if refused C v then Inl (CborError (parse_error 112)) else Inr (cbor_received C v, s))"
proof (induction v arbitrary: depth s)
  case BNull
  show ?case by (simp add: refused_def parse_cbor_switch switch_defs byte_of_int del: of_char_of)
next
  case (BBool b)
  show ?case by (simp add: refused_def parse_cbor_switch switch_defs byte_of_int del: of_char_of)
next
  case (BUnsigned u)
  show ?case using switch_argument(1) [of "uint u"] uint_lt2p [of u] by (simp add: refused_def parse_cbor_switch)
next
  case (BInteger i)
  show ?case
  proof (cases "sint i < 0")
    case True
    then have "0 \<le> - 1 - sint i" by simp
    moreover have "- 1 - sint i < 2 ^ 64" using sint_ge [of i] by simp
    moreover have "- 1 - word_of_int (- 1 - sint i) = i" by simp
    ultimately show ?thesis using True switch_argument(2) [of "- 1 - sint i"]
      by (simp add: refused_def parse_cbor_switch write_integer_def)
  next
    case False
    then have "0 \<le> sint i" by simp
    moreover have "sint i < 2 ^ 64" using sint_lt [of i] by simp
    ultimately show ?thesis using False switch_argument(1) [of "sint i"]
      by (simp add: refused_def parse_cbor_switch write_integer_def)
  qed
next
  case (BFloat w)
  then show ?case by (simp add: refused_def parse_cbor_switch float_read_back del: cbor_received.simps)
next
  case (BString t)
  then show ?case using switch_chunk(1) [of t] by (simp add: refused_def parse_cbor_switch)
next
  case (BBinary b t)
  then have len: "int (length b) < 2 ^ 64" by simp
  show ?case
  proof (cases t)
    case None
    then show ?thesis using switch_chunk(2) [OF len] by (simp add: refused_def parse_cbor_switch)
  next
    case (Some n)
    note sub = switch_subtype [OF len, of C depth "inner_parser C depth" n s]
    show ?thesis
    proof (cases "cs_tags C = TagIgnore")
      case True
      then obtain d where "depth = Suc d" using BBinary.prems(2) Some by (cases depth) simp_all
      with sub True Some switch_chunk(2) [OF len, of C d "inner_parser C d" s] show ?thesis
        by (simp add: refused_def parse_cbor_switch)
    next
      case False
      with sub Some show ?thesis by (cases "cs_tags C") (simp_all add: refused_def parse_cbor_switch)
    qed
  qed
next
  case (BArray a)
  obtain d where d: "depth = Suc d" using BArray.prems(2) by (cases depth) simp_all
  have "read_times (parse_cbor C d) (int (length a)) (concat (map write_cbor a) @ s)
      = (if list_ex (refused C) a then Inl (CborError (parse_error 112)) else Inr (map (cbor_received C) a, s))"
    by (rule read_times_refused)
      (use BArray d in \<open>auto simp: list_all_iff fold_max_le\<close>)
  moreover have "list_ex (refused C) a = refused C (BArray a)" by (auto simp: refused_def list_ex_iff)
  ultimately show ?case using BArray.prems(1) switch_argument(3) [of "int (length a)" C depth "inner_parser C depth"]
    by (simp add: parse_cbor_switch d get_cbor_array_def unknown_size_def)
next
  case (BObject m)
  obtain d where d: "depth = Suc d" using BObject.prems(2) by (cases depth) simp_all
  let ?item = "read_member (get_cbor_string depth) (parse_cbor C d)"
  let ?w = "\<lambda>(k, v). cbor_string 0x60 k @ write_cbor v" and ?r = "\<lambda>(k, v). (k, cbor_received C v)"
    and ?bad = "\<lambda>(k, v). refused C v"
  have item: "?item (?w x @ u) = (if ?bad x then Inl (CborError (parse_error 112)) else Inr (?r x, u))"
    if "x \<in> set m" for x u
  proof -
    obtain k v where x: "x = (k, v)" by force
    then have "cbor_fits C v" "cbor_depth C v \<le> d" "int (length k) < 2 ^ 64"
      using that BObject.prems d by (auto simp: list_all_iff fold_max_le)
    then show ?thesis using BObject.IH [of x v d] string_read_back [of k "0x60" depth] that x
      by (simp add: read_member_def get_cbor_string_def)
  qed
  have "read_times ?item (int (length m)) (concat (map ?w m) @ s)
      = (if list_ex ?bad m then Inl (CborError (parse_error 112)) else Inr (map ?r m, s))"
    by (rule read_times_refused) (rule item)
  moreover have "list_ex ?bad m = refused C (BObject m)" by (auto simp: refused_def list_ex_iff)
  moreover have "object_of (map ?r m) = BObject (map ?r m)"
    using BObject.prems(1) keyed_object [of m "cbor_received C"] by simp
  ultimately show ?case
    using BObject.prems(1) switch_argument(4) [of "int (length m)" C depth "inner_parser C depth"]
    by (auto simp: parse_cbor_switch d get_cbor_object_def unknown_size_def)
qed

text \<open>
  C25. What the writer writes of a value whose lengths fit and whose keys are in order, the reader
  reads back, at a stack as deep as the value is nested, and leaves what follows. What comes back is
  the value with every NaN as the one the writer has, integers that are not negative as unsigned ones,
  and the subtypes of binary values only with the tag handler that stores them: the one that ignores
  tags drops them, and the default one refuses exactly the values with a subtype, with error 112.
\<close>

theorem cbor_roundtrip:
  assumes "cbor_fits C v" "cbor_depth C v \<le> depth"
  shows "if cs_tags C = TagError \<and> has_subtype v
    then parse_cbor C depth (write_cbor v @ rest) = Inl (CborError (parse_error 112))
      \<and> from_cbor C depth True (write_cbor v) = Inl (CborError (parse_error 112))
    else parse_cbor C depth (write_cbor v @ rest) = Inr (cbor_received C v, rest)
      \<and> from_cbor C depth True (write_cbor v) = Inr (cbor_received C v)"
  using parse_written [OF assms, of rest] parse_written [OF assms, of "[]"]
  by (simp add: from_cbor_def refused_def)

subsection \<open>Every read consumes its input and returns\<close>

text \<open>
  \<open>within safe s r\<close>: the result leaves at most the bytes of \<open>s\<close>, and when it is \<open>safe\<close> the stack
  was not exhausted. \<open>item safe s p\<close>: \<open>p\<close> does so wherever it begins in \<open>s\<close>, and takes a byte at least.
\<close>

definition within :: "bool \<Rightarrow> string \<Rightarrow> cbor_fault + 'a \<times> string \<Rightarrow> bool" where
  "within safe s r \<longleftrightarrow>
     (\<forall>x u. r = Inr (x, u) \<longrightarrow> length u \<le> length s) \<and> (safe \<longrightarrow> r \<noteq> Inl StackExhausted)"

definition item :: "bool \<Rightarrow> string \<Rightarrow> 'a cbor_read \<Rightarrow> bool" where
  "item safe s p \<longleftrightarrow>
     (\<forall>u. length u \<le> length s \<longrightarrow>
       (\<forall>x v. p u = Inr (x, v) \<longrightarrow> length v < length u) \<and> (safe \<longrightarrow> p u \<noteq> Inl StackExhausted))"

lemma within_Inr: "length u \<le> length s \<Longrightarrow> within safe s (Inr (x, u))"
  by (simp add: within_def)

lemma within_error: "within safe s (Inl (CborError e))"
  by (simp add: within_def)

lemma within_if: "(c \<Longrightarrow> within safe s r) \<Longrightarrow> (\<not> c \<Longrightarrow> within safe s t) \<Longrightarrow> within safe s (if c then r else t)"
  by simp

lemma within_then:
  "within safe s r \<Longrightarrow> (\<And>x u. length u \<le> length s \<Longrightarrow> within safe s (f x u)) \<Longrightarrow> within safe s (then_read r f)"
  by (cases r) (auto simp: within_def)

lemma within_item: "item safe s p \<Longrightarrow> length u \<le> length s \<Longrightarrow> within safe s (p u)"
  by (fastforce simp: item_def within_def)

lemma item_shorter: "item safe s p \<Longrightarrow> length t \<le> length s \<Longrightarrow> item safe t p"
  by (simp add: item_def)

lemma within_bytes: "length u \<le> length s \<Longrightarrow> within safe s (read_bytes k u)"
proof (induction u arbitrary: k)
  case (Cons c u)
  then show ?case by (auto intro!: within_Inr within_then)
qed (simp add: within_Inr within_error)

lemma within_number: "length u \<le> length s \<Longrightarrow> within safe s (get_number k u)"
  unfolding get_number_def by (intro within_then within_bytes within_Inr)

lemma within_argument: "length u \<le> length s \<Longrightarrow> within safe s (get_argument first b u)"
  unfolding get_argument_def by (rule within_number)

lemma within_times: "item safe s p \<Longrightarrow> length u \<le> length s \<Longrightarrow> within safe s (read_times p len u)"
proof (induction p len u rule: read_times.induct)
  case (1 p len u)
  show ?case
  proof (cases "len \<le> 0")
    case True
    then show ?thesis using 1(3) by (simp add: read_times.simps within_Inr)
  next
    case False
    have w: "within safe s (p u)" by (rule within_item [OF 1(2,3)])
    show ?thesis
    proof (cases "p u")
      case (Inl e)
      with w False show ?thesis by (simp add: read_times.simps within_def)
    next
      case (Inr r)
      obtain x v where r: "r = (x, v)" by force
      with Inr w have "length v \<le> length s" by (simp add: within_def)
      then have "within safe s (read_times p (len - 1) v)"
        using 1(1) [OF False Inr r [symmetric]] 1(2) by blast
      then show ?thesis using False Inr r
        by (subst read_times.simps) (auto intro!: within_then within_Inr)
    qed
  qed
qed

lemma within_until: "item safe s p \<Longrightarrow> length u \<le> length s \<Longrightarrow> within safe s (read_until p u)"
proof (induction "length u" arbitrary: u rule: less_induct)
  case less
  have p: "p u = Inr (x, v) \<Longrightarrow> length v < length u" "safe \<Longrightarrow> p u \<noteq> Inl StackExhausted" for x v
    using less.prems by (auto simp: item_def)
  show ?case
  proof (cases "u \<noteq> [] \<and> byte (hd u) = 0xFF")
    case True
    then show ?thesis using less.prems(2) by (cases u) (simp_all add: read_until.simps within_Inr)
  next
    case False
    show ?thesis
    proof (cases "p u")
      case (Inl e)
      with p(2) False show ?thesis by (auto simp: read_until.simps [of p u] within_def)
    next
      case (Inr r)
      obtain x v where r: "r = (x, v)" by force
      have l: "length v < length u" by (rule p(1)) (simp add: Inr r)
      then have "within safe s (read_until p v)" using less by simp
      then have "within safe s (then_read (read_until p v) (\<lambda>xs w. Inr (x # xs, w)))"
        by (intro within_then within_Inr)
      then show ?thesis using l False Inr r by (subst read_until.simps) auto
    qed
  qed
qed

lemma chunk_consumes:
  assumes "\<And>t. length t < length s \<Longrightarrow> within safe t (chunks t)"
  shows "(\<forall>x u. read_chunk base chunks s = Inr (x, u) \<longrightarrow> length u < length s)
    \<and> (safe \<longrightarrow> read_chunk base chunks s \<noteq> Inl StackExhausted)"
proof (cases s)
  case Nil
  then show ?thesis by (simp add: read_chunk_def)
next
  case (Cons c t)
  have "within safe t (read_chunk base chunks s)"
    unfolding read_chunk_def Cons list.case
    by (intro within_if within_bytes within_then within_argument within_error assms) (simp_all add: Cons)
  then show ?thesis using Cons by (auto simp: within_def)
qed

lemma item_chunks: "(safe \<Longrightarrow> length s \<le> depth) \<Longrightarrow> item safe s (read_chunks base depth)"
proof (induction depth arbitrary: s)
  case 0
  have "(\<forall>x v. read_chunks base 0 u = Inr (x, v) \<longrightarrow> length v < length u)
      \<and> (safe \<longrightarrow> read_chunks base 0 u \<noteq> Inl StackExhausted)" if "length u \<le> length s" for u
    using chunk_consumes [of u False "\<lambda>u. Inl StackExhausted" base] 0 that
    by (auto simp: within_def) (simp add: read_chunk_def)
  then show ?case by (simp add: item_def)
next
  case (Suc depth)
  have "(\<forall>x v. read_chunks base (Suc depth) u = Inr (x, v) \<longrightarrow> length v < length u)
      \<and> (safe \<longrightarrow> read_chunks base (Suc depth) u \<noteq> Inl StackExhausted)" if u: "length u \<le> length s" for u
  proof -
    have "within safe t (then_read (read_until (read_chunks base depth) t) (\<lambda>cs v. Inr (concat cs, v)))"
      if "length t < length u" for t
      by (intro within_then within_until within_Inr Suc.IH) (use that u Suc.prems in simp_all)
    from chunk_consumes [of u safe, OF this] show ?thesis by simp
  qed
  then show ?case by (simp add: item_def)
qed

lemma item_string: "(safe \<Longrightarrow> length s \<le> depth) \<Longrightarrow> item safe s (get_cbor_string depth)"
  unfolding get_cbor_string_def by (rule item_chunks)

lemma item_binary: "(safe \<Longrightarrow> length s \<le> depth) \<Longrightarrow> item safe s (get_cbor_binary depth)"
  unfolding get_cbor_binary_def by (rule item_chunks)

lemma item_member:
  assumes "item safe s k" "item safe s p"
  shows "item safe s (read_member k p)"
  unfolding item_def
proof (intro allI impI)
  fix u :: string
  assume u: "length u \<le> length s"
  show "(\<forall>x v. read_member k p u = Inr (x, v) \<longrightarrow> length v < length u)
      \<and> (safe \<longrightarrow> read_member k p u \<noteq> Inl StackExhausted)"
  proof (cases "k u")
    case (Inl e)
    then show ?thesis using assms(1) u by (auto simp: read_member_def item_def)
  next
    case (Inr r)
    obtain x v where r: "r = (x, v)" by force
    then have v: "length v < length u" using assms(1) u Inr by (auto simp: item_def)
    then have "(\<forall>y w. p v = Inr (y, w) \<longrightarrow> length w < length v) \<and> (safe \<longrightarrow> p v \<noteq> Inl StackExhausted)"
      using assms(2) u by (simp add: item_def)
    then show ?thesis using Inr r v by (cases "p v") (auto simp: read_member_def)
  qed
qed

lemma switch_consumes:
  assumes "\<And>t. length t < length s \<Longrightarrow> item safe t p" "safe \<Longrightarrow> length s \<le> depth"
  shows "(\<forall>x u. cbor_switch C depth p s = Inr (x, u) \<longrightarrow> length u < length s)
    \<and> (safe \<longrightarrow> cbor_switch C depth p s \<noteq> Inl StackExhausted)"
proof (cases s)
  case Nil
  then show ?thesis by (simp add: switch_defs)
next
  case (Cons c t)
  have p: "item safe t p" by (rule assms(1)) (simp add: Cons)
  have str: "item safe t (get_cbor_string depth)" and bin: "item safe t (get_cbor_binary depth)"
    using assms(2) Cons by (auto intro!: item_string item_binary)
  have chunk: "within safe t (read_chunks base depth s)" for base
  proof -
    have "item safe s (read_chunks base depth)" using assms(2) by (rule item_chunks)
    then have "\<forall>x v. read_chunks base depth s = Inr (x, v) \<longrightarrow> length v < length s"
      "safe \<longrightarrow> read_chunks base depth s \<noteq> Inl StackExhausted"
      by (simp_all add: item_def)
    then show ?thesis using Cons by (auto simp: within_def)
  qed
  have arr: "within safe t (get_cbor_array C p len u)" if "length u \<le> length t" for len u
    unfolding get_cbor_array_def
    by (intro within_if within_then within_times within_until within_error within_Inr p that)
  have obj: "within safe t (get_cbor_object C depth p len u)" if "length u \<le> length t" for len u
    unfolding get_cbor_object_def
    by (intro within_if within_then within_times within_until within_error within_Inr item_member p str that)
  have tag: "within safe t (cbor_tagged C depth p b t)" for b
    by (cases "cs_tags C")
      (auto simp: cbor_tagged_def intro!: within_error within_then within_argument within_item [OF p]
        within_item [OF bin] within_Inr)
  have "within safe t (cbor_switch C depth p s)"
    unfolding switch_defs Cons list.case Let_def get_cbor_binary_def get_cbor_string_def
    by (intro within_if within_then within_argument within_number within_error within_Inr tag arr obj
        chunk [unfolded Cons] order_refl)
  then show ?thesis using Cons by (auto simp: within_def)
qed

lemma parse_consumes:
  "(safe \<Longrightarrow> length s \<le> depth) \<Longrightarrow>
   (\<forall>x u. parse_cbor C depth s = Inr (x, u) \<longrightarrow> length u < length s)
    \<and> (safe \<longrightarrow> parse_cbor C depth s \<noteq> Inl StackExhausted)"
proof (induction depth arbitrary: s)
  case 0
  show ?case
  proof (cases "s = []")
    case True
    then show ?thesis by (simp add: switch_defs)
  next
    case False
    with 0 have "\<not> safe" by auto
    then show ?thesis using switch_consumes [of s False "\<lambda>s. Inl StackExhausted" 0 C]
      by (simp add: item_def)
  qed
next
  case (Suc depth)
  have "item safe t (parse_cbor C depth)" if "length t < length s" for t
    unfolding item_def using Suc that by (meson le_trans less_Suc_eq_le less_le_trans)
  from switch_consumes [of s safe, OF this Suc.prems] show ?case by simp
qed

text \<open>
  C33. The reader returns for every input, with a value or an exception, and a value has taken at least
  one byte: a stack as deep as the input is long suffices. That much can be needed: a text of \<open>n\<close>
  bytes that each open an array exhausts every stack that is not deeper than \<open>n\<close> calls.
\<close>

theorem cbor_returns:
  "parse_cbor C (length s) s \<noteq> Inl StackExhausted
   \<and> (\<forall>v u. parse_cbor C depth s = Inr (v, u) \<longrightarrow> length u < length s)
   \<and> (0 < cs_array_max C \<longrightarrow> parse_cbor C depth (replicate (Suc depth) (byte_char 0x81)) = Inl StackExhausted)"
proof (intro conjI impI)
  show "parse_cbor C (length s) s \<noteq> Inl StackExhausted"
    using parse_consumes [of True s "length s" C] by simp
  show "\<forall>v u. parse_cbor C depth s = Inr (v, u) \<longrightarrow> length u < length s"
    using parse_consumes [of False s depth C] by simp
  assume "0 < cs_array_max C"
  then have array: "p t = Inl StackExhausted \<Longrightarrow>
      cbor_switch C d p (byte_char 0x81 # t) = Inl StackExhausted" for d p t
    by (simp add: switch_defs byte_of_int get_cbor_array_def unknown_size_def read_times.simps del: of_char_of)
  show "parse_cbor C depth (replicate (Suc depth) (byte_char 0x81)) = Inl StackExhausted"
  proof (induction depth)
    case 0
    show ?case using array [of "\<lambda>s. Inl StackExhausted" "[]" 0] by simp
  next
    case (Suc depth)
    then show ?case using array [of "parse_cbor C depth" "replicate (Suc depth) (byte_char 0x81)" "Suc depth"] by simp
  qed
qed

text \<open>A value with every kind of part: witness of the round trip and of the depth.\<close>

definition demo_cbor :: cbor_setting where
  "demo_cbor = \<lparr>cs_tags = TagStore, cs_array_max = 2 ^ 59, cs_object_max = 2 ^ 57\<rparr>"

definition demo_bvalue :: bvalue where
  "demo_bvalue = BObject [(''a'', BArray [BUnsigned 500, BInteger (- 70000), BFloat 0x3FB999999999999A, BFloat 0xBFE0000000000000]),
     (''b'', BBinary ''xy'' (Some 300)), (''c'', BFloat 0xFFF0000000000000)]"

theorem cbor_roundtrip_witness:
  "parse_cbor demo_cbor 2 (write_cbor demo_bvalue @ ''rest'') = Inr (demo_bvalue, ''rest'')
   \<and> length (write_cbor demo_bvalue) = 39"
proof -
  have "cbor_fits demo_cbor demo_bvalue" "cbor_depth demo_cbor demo_bvalue \<le> 2" by code_simp+
  note back_again = cbor_roundtrip [OF this, of "''rest''"]
  have "cs_tags demo_cbor \<noteq> TagError" by (simp add: demo_cbor_def)
  moreover have "cbor_received demo_cbor demo_bvalue = demo_bvalue" by code_simp
  moreover have "length (write_cbor demo_bvalue) = 39" by code_simp
  ultimately show ?thesis using back_again by simp
qed

theorem cbor_returns_witness: "parse_cbor demo_cbor 2 (replicate 3 (byte_char 0x81)) = Inl StackExhausted"
proof -
  have "0 < cs_array_max demo_cbor" by (simp add: demo_cbor_def)
  with cbor_returns [of demo_cbor "[]" 2] show ?thesis by (simp add: numeral_eq_Suc del: replicate.simps parse_cbor.simps)
qed

subsection \<open>Inputs that are read as something else\<close>

text \<open>
  C38. The reader misreads two inputs. A negative integer below \<open>- 2 ^ 63\<close>, which no \<^verbatim>\<open>int64_t\<close> holds,
  is read as another number, and not refused: the argument \<open>2 ^ 63 + k\<close>, which stands for
  \<open>- 1 - 2 ^ 63 - k\<close>, gives \<open>2 ^ 63 - 1 - k\<close>. And an array whose length is written as \<open>2 ^ 64 - 1\<close>,
  the value of \<^verbatim>\<open>unknown_size()\<close>, is read as one without a length, up to the next byte 0xFF.
\<close>

theorem cbor_misreads:
  assumes "0 \<le> k" "k < 2 ^ 63"
  shows "(\<exists>i. parse_cbor C depth (byte_char 0x3B # write_number 8 (2 ^ 63 + k) @ s) = Inr (BInteger i, s)
        \<and> sint i = 2 ^ 63 - 1 - k)
    \<and> parse_cbor C (Suc depth) (byte_char 0x9B # write_number 8 unknown_size @ s)
      = parse_cbor C (Suc depth) (byte_char 0x9F # s)"
proof
  let ?i = "- 1 - word_of_int (2 ^ 63 + k) :: u64"
  have n: "0 \<le> 2 ^ 63 + k" "2 ^ 63 + k < 256 ^ 8" using assms by simp_all
  have "get_argument 0x38 0x3B (write_number 8 (2 ^ 63 + k) @ s) = Inr (2 ^ 63 + k, s)"
    using get_number_write [of "2 ^ 63 + k" 8 s] n by (simp add: get_argument_def del: write_number.simps)
  then have read: "parse_cbor C depth (byte_char 0x3B # write_number 8 (2 ^ 63 + k) @ s) = Inr (BInteger ?i, s)"
    by (simp add: parse_cbor_switch switch_defs Let_def byte_of_int del: write_number.simps of_char_of)
  have "?i = word_of_int (- 1 - (2 ^ 63 + k))" by simp
  also have "\<dots> = word_of_int (- 1 - (2 ^ 63 + k) + 2 ^ 64)"
    by (simp add: word_of_int_2p_len [where 'a = 64, simplified])
  also have "\<dots> = word_of_int (2 ^ 63 - 1 - k)" by simp
  finally have i: "?i = word_of_int (2 ^ 63 - 1 - k)" .
  have "sint (word_of_int x :: u64) = x" if "0 \<le> x" "x < 2 ^ 63" for x
    using that by (simp add: signed_of_int signed_take_bit_int_eq_self)
  from this [of "2 ^ 63 - 1 - k"] assms
  have "sint (word_of_int (2 ^ 63 - 1 - k) :: u64) = 2 ^ 63 - 1 - k" by linarith
  then have "sint ?i = 2 ^ 63 - 1 - k" unfolding i .
  with read show "\<exists>i. parse_cbor C depth (byte_char 0x3B # write_number 8 (2 ^ 63 + k) @ s) = Inr (BInteger i, s)
      \<and> sint i = 2 ^ 63 - 1 - k"
    by blast
  have "get_argument 0x98 0x9B (write_number 8 unknown_size @ s) = Inr (unknown_size, s)"
    using get_number_write [of unknown_size 8 s] by (simp add: get_argument_def unknown_size_def del: write_number.simps)
  then show "parse_cbor C (Suc depth) (byte_char 0x9B # write_number 8 unknown_size @ s)
      = parse_cbor C (Suc depth) (byte_char 0x9F # s)"
    by (simp add: switch_defs Let_def byte_of_int del: write_number.simps of_char_of)
qed

text \<open>The number \<open>- 1 - 2 ^ 63\<close> and a list of one element with a length of \<open>2 ^ 64 - 1\<close>.\<close>

theorem cbor_misreads_witness:
  "\<exists>i. parse_cbor demo_cbor 1 (byte_char 0x3B # write_number 8 (2 ^ 63)) = Inr (BInteger i, []) \<and> sint i = 2 ^ 63 - 1
    \<and> parse_cbor demo_cbor 1 (byte_char 0x9B # write_number 8 unknown_size @ [byte_char 0xF6, byte_char 0xFF])
      = Inr (BArray [BNull], [])"
proof -
  have k: "(0 :: int) \<le> 0" "(0 :: int) < 2 ^ 63" by simp_all
  have "parse_cbor demo_cbor (Suc 0) (byte_char 0x9F # [byte_char 0xF6, byte_char 0xFF]) = Inr (BArray [BNull], [])"
    by code_simp
  moreover note cbor_misreads [OF k, of demo_cbor 1 "[]"]
    cbor_misreads [OF k, of demo_cbor 0 "[byte_char 0xF6, byte_char 0xFF]"]
  ultimately show ?thesis by (simp del: parse_cbor.simps write_number.simps of_char_of)
qed

end
