(* ===== verification/NMsgPack.thy ===== *)
theory NMsgPack
  imports NCbor
begin

text \<open>
  The MessagePack format of the bundled JSON library, in the same reader and writer classes as CBOR
  (\<^verbatim>\<open>detail/input/binary_reader.hpp\<close>, \<^verbatim>\<open>detail/output/binary_writer.hpp\<close>): the values, the reads and
  the numbers are those of \<^verbatim>\<open>NCbor\<close>. The format has no indefinite lengths and no length above 32 bits.
\<close>

subsection \<open>The writer\<close>

definition msgpack_unsigned :: "int \<Rightarrow> string" where
  "msgpack_unsigned n =
     (if n < 128 then write_number 1 n
      else if n \<le> 0xFF then byte_char 0xCC # write_number 1 n
      else if n \<le> 0xFFFF then byte_char 0xCD # write_number 2 n
      else if n \<le> 0xFFFFFFFF then byte_char 0xCE # write_number 4 n
      else byte_char 0xCF # write_number 8 n)"

definition msgpack_integer :: "u64 \<Rightarrow> string" where
  "msgpack_integer i =
     (if sint i \<ge> 0 then msgpack_unsigned (sint i)
      else if sint i \<ge> - 32 then write_number 1 (sint i)
      else if sint i \<ge> - (2 ^ 7) then byte_char 0xD0 # write_number 1 (sint i)
      else if sint i \<ge> - (2 ^ 15) then byte_char 0xD1 # write_number 2 (sint i)
      else if sint i \<ge> - (2 ^ 31) then byte_char 0xD2 # write_number 4 (sint i)
      else byte_char 0xD3 # write_number 8 (sint i))"

text \<open>The control byte and the length; there is none for a length of more than 32 bits.\<close>

definition msgpack_string_head :: "int \<Rightarrow> string" where
  "msgpack_string_head n =
     (if n \<le> 31 then write_number 1 (0xA0 + n)
      else if n \<le> 0xFF then byte_char 0xD9 # write_number 1 n
      else if n \<le> 0xFFFF then byte_char 0xDA # write_number 2 n
      else if n \<le> 0xFFFFFFFF then byte_char 0xDB # write_number 4 n
      else [])"

definition msgpack_string :: "string \<Rightarrow> string" where
  "msgpack_string s = msgpack_string_head (int (length s)) @ s"

text \<open>Arrays with \<open>fix = 0x90\<close> and \<open>b = 0xDC\<close>, objects with \<open>fix = 0x80\<close> and \<open>b = 0xDE\<close>.\<close>

definition msgpack_items_head :: "int \<Rightarrow> int \<Rightarrow> int \<Rightarrow> string" where
  "msgpack_items_head fix b n =
     (if n \<le> 15 then write_number 1 (fix + n)
      else if n \<le> 0xFFFF then byte_char b # write_number 2 n
      else if n \<le> 0xFFFFFFFF then byte_char (b + 1) # write_number 4 n
      else [])"

definition msgpack_binary_head :: "bool \<Rightarrow> int \<Rightarrow> string" where
  "msgpack_binary_head use_ext n =
     (if n \<le> 0xFF
      then if use_ext
           then if n = 1 then [byte_char 0xD4]
                else if n = 2 then [byte_char 0xD5]
                else if n = 4 then [byte_char 0xD6]
                else if n = 8 then [byte_char 0xD7]
                else if n = 16 then [byte_char 0xD8]
                else byte_char 0xC7 # write_number 1 n
           else byte_char 0xC4 # write_number 1 n
      else if n \<le> 0xFFFF then byte_char (if use_ext then 0xC8 else 0xC5) # write_number 2 n
      else if n \<le> 0xFFFFFFFF then byte_char (if use_ext then 0xC9 else 0xC6) # write_number 4 n
      else [])"

text \<open>A subtype is cut to one byte.\<close>

fun write_msgpack :: "bvalue \<Rightarrow> string" where
  "write_msgpack BNull = [byte_char 0xC0]"
| "write_msgpack (BBool b) = [byte_char (if b then 0xC3 else 0xC2)]"
| "write_msgpack (BInteger i) = msgpack_integer i"
| "write_msgpack (BUnsigned u) = msgpack_unsigned (uint u)"
| "write_msgpack (BFloat w) = write_compact_float 0xCA 0xCB w"
| "write_msgpack (BString s) = msgpack_string s"
| "write_msgpack (BArray a) =
     msgpack_items_head 0x90 0xDC (int (length a)) @ concat (map write_msgpack a)"
| "write_msgpack (BBinary b t) =
     msgpack_binary_head (t \<noteq> None) (int (length b))
     @ (case t of None \<Rightarrow> [] | Some n \<Rightarrow> write_number 1 (uint n)) @ b"
| "write_msgpack (BObject m) =
     msgpack_items_head 0x80 0xDE (int (length m))
     @ concat (map (\<lambda>(k, v). msgpack_string k @ write_msgpack v) m)"

subsection \<open>The reader\<close>

text \<open>A number of two's complement in \<open>width\<close> bytes.\<close>

definition get_signed :: "int \<Rightarrow> int cbor_read" where
  "get_signed width s =
     then_read (get_number width s)
       (\<lambda>n u. Inr (if n < 2 ^ nat (8 * width - 1) then n else n - 2 ^ nat (8 * width), u))"

definition get_msgpack_string :: "string cbor_read" where
  "get_msgpack_string s =
     (case s of
        [] \<Rightarrow> Inl (CborError (parse_error 110))
      | c # u \<Rightarrow>
         (let b = byte c in
          if 0xA0 \<le> b \<and> b \<le> 0xBF then read_bytes (b mod 32) u
          else if b = 0xD9 then then_read (get_number 1 u) read_bytes
          else if b = 0xDA then then_read (get_number 2 u) read_bytes
          else if b = 0xDB then then_read (get_number 4 u) read_bytes
          else Inl (CborError (parse_error 113))))"

text \<open>
  From the byte \<open>b\<close>: bin 0xC4 to 0xC6 and ext 0xC7 to 0xC9 with a length of 1, 2 or 4 bytes, fixext
  0xD4 to 0xD8 with a fixed length. No other byte leads here. The subtype is converted to \<open>int8_t\<close> and
  back.
\<close>

definition msgpack_extension :: "int \<Rightarrow> bvalue cbor_read" where
  "msgpack_extension len s =
     then_read (get_number 1 s) (\<lambda>subtype u.
       then_read (read_bytes len u) (\<lambda>bs v. Inr (BBinary bs (Some (word_of_int subtype)), v)))"

definition get_msgpack_binary :: "int \<Rightarrow> bvalue cbor_read" where
  "get_msgpack_binary b s =
     (let plain = (\<lambda>len u. then_read (read_bytes len u) (\<lambda>bs v. Inr (BBinary bs None, v))) in
      if b = 0xC4 then then_read (get_number 1 s) plain
      else if b = 0xC5 then then_read (get_number 2 s) plain
      else if b = 0xC6 then then_read (get_number 4 s) plain
      else if b = 0xC7 then then_read (get_number 1 s) msgpack_extension
      else if b = 0xC8 then then_read (get_number 2 s) msgpack_extension
      else if b = 0xC9 then then_read (get_number 4 s) msgpack_extension
      else if b = 0xD4 then msgpack_extension 1 s
      else if b = 0xD5 then msgpack_extension 2 s
      else if b = 0xD6 then msgpack_extension 4 s
      else if b = 0xD7 then msgpack_extension 8 s
      else msgpack_extension 16 s)"

text \<open>The handler that builds values refuses more items than the container can hold.\<close>

definition get_msgpack_array :: "cbor_setting \<Rightarrow> bvalue cbor_read \<Rightarrow> int \<Rightarrow> bvalue cbor_read" where
  "get_msgpack_array C p len s =
     (if len \<noteq> unknown_size \<and> len > cs_array_max C then Inl (CborError (out_of_range 408))
      else then_read (read_times p len s) (\<lambda>xs u. Inr (BArray xs, u)))"

definition get_msgpack_object :: "cbor_setting \<Rightarrow> bvalue cbor_read \<Rightarrow> int \<Rightarrow> bvalue cbor_read" where
  "get_msgpack_object C p len s =
     (if len \<noteq> unknown_size \<and> len > cs_object_max C then Inl (CborError (out_of_range 408))
      else then_read (read_times (read_member get_msgpack_string p) len s) (\<lambda>kvs u. Inr (object_of kvs, u)))"

definition msgpack_number :: "int \<Rightarrow> bvalue cbor_read" where
  "msgpack_number b s =
     (let unsigned = (\<lambda>n u. Inr (BUnsigned (word_of_int n), u));
          signed = (\<lambda>n u. Inr (BInteger (word_of_int n), u)) in
      if b = 0xCA then then_read (get_number 4 s) (\<lambda>n u. Inr (BFloat (single_to_double n), u))
      else if b = 0xCB then then_read (get_number 8 s) (\<lambda>n u. Inr (BFloat (word_of_int n), u))
      else if b = 0xCC then then_read (get_number 1 s) unsigned
      else if b = 0xCD then then_read (get_number 2 s) unsigned
      else if b = 0xCE then then_read (get_number 4 s) unsigned
      else if b = 0xCF then then_read (get_number 8 s) unsigned
      else if b = 0xD0 then then_read (get_signed 1 s) signed
      else if b = 0xD1 then then_read (get_signed 2 s) signed
      else if b = 0xD2 then then_read (get_signed 4 s) signed
      else then_read (get_signed 8 s) signed)"

text \<open>\<^verbatim>\<open>parse_msgpack_internal\<close>; \<open>p\<close> is the call of itself.\<close>

definition msgpack_switch :: "cbor_setting \<Rightarrow> bvalue cbor_read \<Rightarrow> bvalue cbor_read" where
  "msgpack_switch C p input =
     (case input of
        [] \<Rightarrow> Inl (CborError (parse_error 110))
      | c # s \<Rightarrow>
         (let b = byte c in
          if b \<le> 0x7F then Inr (BUnsigned (word_of_int b), s)
          else if b \<le> 0x8F then get_msgpack_object C p (b mod 16) s
          else if b \<le> 0x9F then get_msgpack_array C p (b mod 16) s
          else if b \<le> 0xBF \<or> 0xD9 \<le> b \<and> b \<le> 0xDB
          then then_read (get_msgpack_string input) (\<lambda>t u. Inr (BString t, u))
          else if b = 0xC0 then Inr (BNull, s)
          else if b = 0xC2 then Inr (BBool False, s)
          else if b = 0xC3 then Inr (BBool True, s)
          else if 0xC4 \<le> b \<and> b \<le> 0xC9 \<or> 0xD4 \<le> b \<and> b \<le> 0xD8 then get_msgpack_binary b s
          else if 0xCA \<le> b \<and> b \<le> 0xD3 then msgpack_number b s
          else if b = 0xDC then then_read (get_number 2 s) (get_msgpack_array C p)
          else if b = 0xDD then then_read (get_number 4 s) (get_msgpack_array C p)
          else if b = 0xDE then then_read (get_number 2 s) (get_msgpack_object C p)
          else if b = 0xDF then then_read (get_number 4 s) (get_msgpack_object C p)
          else if 0xE0 \<le> b then Inr (BInteger (word_of_int (b - 256)), s)
          else Inl (CborError (parse_error 112))))"

primrec parse_msgpack :: "cbor_setting \<Rightarrow> nat \<Rightarrow> bvalue cbor_read" where
  "parse_msgpack C 0 = msgpack_switch C (\<lambda>s. Inl StackExhausted)"
| "parse_msgpack C (Suc depth) = msgpack_switch C (parse_msgpack C depth)"

definition from_msgpack :: "cbor_setting \<Rightarrow> nat \<Rightarrow> bool \<Rightarrow> string \<Rightarrow> cbor_fault + bvalue" where
  "from_msgpack C depth strict s =
     (case parse_msgpack C depth s of
        Inl e \<Rightarrow> Inl e
      | Inr (v, u) \<Rightarrow> if strict \<and> u \<noteq> [] then Inl (CborError (parse_error 110)) else Inr v)"

end
