(* ===== verification/NMsgPackLaws.thy ===== *)
theory NMsgPackLaws
  imports NMsgPack NCborLaws
begin

text \<open>
  The MessagePack reader reads what the writer wrote, up to what the format does not keep, and returns
  for every input; what the writer loses without an error.
\<close>

subsection \<open>Numbers\<close>

lemma number_value_written: "number_value (write_number k n) = n mod 256 ^ k"
proof (induction k arbitrary: n)
  case 0
  then show ?case by (simp add: number_value_def)
next
  case (Suc k)
  have "byte (byte_char (n mod 256)) = n mod 256" by (rule byte_of_int) simp_all
  then show ?case using Suc [of "n div 256"]
    by (simp add: number_value_snoc zmod_zmult2_eq del: of_char_of)
qed

lemma get_written: "get_number (int k) (write_number k n @ s) = Inr (n mod 256 ^ k, s)"
  using read_bytes_append [of "write_number k n" s]
  by (simp add: get_number_def write_number_length number_value_written)

lemma get_widths:
  "get_number 1 (write_number 1 n @ s) = Inr (n mod 0x100, s)"
  "get_number 2 (write_number 2 n @ s) = Inr (n mod 0x10000, s)"
  "get_number 4 (write_number 4 n @ s) = Inr (n mod 0x100000000, s)"
  "get_number 8 (write_number 8 n @ s) = Inr (n mod 0x10000000000000000, s)"
  using get_written [of 1 n s] get_written [of 2 n s] get_written [of 4 n s] get_written [of 8 n s]
  by (simp_all del: write_number.simps One_nat_def)

lemma signed_value:
  fixes i :: int
  assumes "- (2 ^ (8 * k - 1)) \<le> i" "i < 2 ^ (8 * k - 1)" "0 < k"
  shows "(if i mod 256 ^ k < 2 ^ (8 * k - 1) then i mod 256 ^ k else i mod 256 ^ k - 2 ^ (8 * k)) = i"
proof -
  have p: "(256 :: int) ^ k = 2 ^ (8 * k)" by (simp add: power_mult)
  have h: "(2 :: int) ^ (8 * k) = 2 * 2 ^ (8 * k - 1)"
    using assms(3) power_Suc [of "2 :: int" "8 * k - 1"] by simp
  show ?thesis
  proof (cases "0 \<le> i")
    case True
    then have "i mod 256 ^ k = i" using assms h p by simp
    then show ?thesis using assms by simp
  next
    case False
    have "(i + 2 ^ (8 * k)) mod 2 ^ (8 * k) = i + 2 ^ (8 * k)"
      by (rule mod_pos_pos_trivial) (use False assms(1) h in linarith)+
    then have "i mod 256 ^ k = i + 2 ^ (8 * k)" unfolding p by simp
    moreover have "\<not> i + 2 ^ (8 * k) < 2 ^ (8 * k - 1)" using assms(1) h by linarith
    ultimately show ?thesis by simp
  qed
qed

lemma get_signed_written:
  assumes "- (2 ^ (8 * k - 1)) \<le> i" "i < 2 ^ (8 * k - 1)" "0 < k"
  shows "get_signed (int k) (write_number k i @ s) = Inr (i, s)"
proof -
  have w: "nat (8 * int k - 1) = 8 * k - 1" "nat (8 * int k) = 8 * k" using assms(3) by simp_all
  show ?thesis by (simp only: get_signed_def get_written then_read_simps w signed_value [OF assms])
qed

lemmas get_signed_widths =
  get_signed_written [of 1, simplified] get_signed_written [of 2, simplified]
  get_signed_written [of 4, simplified] get_signed_written [of 8, simplified]

lemma single_byte: "write_number 1 n = [byte_char (n mod 256)]"
  by simp

lemma switch_unsigned:
  assumes "0 \<le> n" "n < 2 ^ 64"
  shows "msgpack_switch C p (msgpack_unsigned n @ s) = Inr (BUnsigned (word_of_int n), s)"
proof (cases "n < 128")
  case True
  then have "n mod 256 = n" using assms by simp
  with True assms show ?thesis
    by (simp add: msgpack_unsigned_def msgpack_switch_def single_byte byte_of_int
        del: write_number.simps of_char_of One_nat_def)
next
  case False
  with assms show ?thesis
    by (simp add: msgpack_unsigned_def msgpack_switch_def msgpack_number_def get_widths byte_of_int
        del: write_number.simps of_char_of One_nat_def)
qed

lemma switch_integer:
  "msgpack_switch C p (msgpack_integer i @ s)
   = Inr (if 0 \<le> sint i then BUnsigned i else BInteger i, s)"
proof (cases "0 \<le> sint i")
  case True
  moreover have "sint i < 2 ^ 64" using sint_lt [of i] by simp
  ultimately show ?thesis using switch_unsigned [of "sint i"] by (simp add: msgpack_integer_def)
next
  case False
  have r: "- (2 ^ 63) \<le> sint i" using sint_ge [of i] by simp
  have "byte (byte_char (sint i mod 256)) = sint i mod 256" by (rule byte_of_int) simp_all
  moreover have "sint i mod 256 = sint i + 256" if "- 32 \<le> sint i"
  proof -
    have "(sint i + 256) mod 256 = sint i + 256" by (rule mod_pos_pos_trivial) (use that False in simp_all)
    then show ?thesis by simp
  qed
  ultimately show ?thesis using False r unfolding msgpack_integer_def
    by (simp add: msgpack_switch_def msgpack_number_def single_byte get_signed_widths byte_of_int
      del: write_number.simps of_char_of One_nat_def)
qed

lemma switch_float:
  assumes "is_nan w \<longrightarrow> single_nan w"
  shows "msgpack_switch C p (write_compact_float 0xCA 0xCB w @ s) = Inr (BFloat w, s)"
proof (cases "as_single w")
  case None
  have "uint w mod 256 ^ 8 = uint w" using uint_lt2p [of w] by simp
  with None show ?thesis
    by (simp add: write_compact_float_def msgpack_switch_def msgpack_number_def Let_def byte_of_int get_widths
        del: write_number.simps of_char_of)
next
  case (Some f)
  note f = single_read_back [OF Some assms]
  from Some f show ?thesis
    by (simp add: write_compact_float_def msgpack_switch_def msgpack_number_def Let_def byte_of_int get_widths
        del: write_number.simps of_char_of)
qed


subsection \<open>The reader reads what the writer wrote\<close>

text \<open>
  What the format does not keep: an integer that is not negative comes back unsigned, and of a subtype
  its low byte. Values it keeps otherwise: no length of more than 32 bits, no NaN that a single does
  not have, keys in order.
\<close>

fun received :: "bvalue \<Rightarrow> bvalue" where
  "received (BInteger i) = (if 0 \<le> sint i then BUnsigned i else BInteger i)"
| "received (BBinary b (Some n)) = BBinary b (Some (word_of_int (uint n mod 256)))"
| "received (BArray a) = BArray (map received a)"
| "received (BObject m) = BObject (map (\<lambda>(k, v). (k, received v)) m)"
| "received v = v"

fun msgpack_ok :: "cbor_setting \<Rightarrow> bvalue \<Rightarrow> bool" where
  "msgpack_ok C (BFloat w) = (is_nan w \<longrightarrow> single_nan w)"
| "msgpack_ok C (BString s) = (int (length s) < 2 ^ 32)"
| "msgpack_ok C (BBinary b t) = (int (length b) < 2 ^ 32)"
| "msgpack_ok C (BArray a) =
     (int (length a) < 2 ^ 32 \<and> int (length a) \<le> cs_array_max C \<and> list_all (msgpack_ok C) a)"
| "msgpack_ok C (BObject m) =
     (int (length m) < 2 ^ 32 \<and> int (length m) \<le> cs_object_max C \<and> keys_sorted m
      \<and> list_all (\<lambda>(k, v). int (length k) < 2 ^ 32 \<and> msgpack_ok C v) m)"
| "msgpack_ok C v = True"

lemma string_written:
  assumes "int (length t) < 2 ^ 32"
  shows "get_msgpack_string (msgpack_string t @ s) = Inr (t, s)"
    "msgpack_switch C p (msgpack_string t @ s) = Inr (BString t, s)"
proof -
  let ?n = "int (length t)"
  have m: "(0xA0 + ?n) mod 32 = ?n" if "?n \<le> 31" using that mod_mult_self2 [of ?n 32 5] by (simp add: add.commute)
  have b: "byte (byte_char (0xA0 + ?n)) = 0xA0 + ?n" if "?n \<le> 31" by (rule byte_of_int) (use that in simp_all)
  have s: "(0xA0 + ?n) mod 256 = 0xA0 + ?n" if "?n \<le> 31" by (rule mod_pos_pos_trivial) (use that in simp_all)
  have w: "?n mod 256 = ?n" if "?n \<le> 0xFF" by (rule mod_pos_pos_trivial) (use that in simp_all)
  have ww: "?n mod 65536 = ?n" if "?n \<le> 0xFFFF" by (rule mod_pos_pos_trivial) (use that in simp_all)
  have w4: "?n mod 4294967296 = ?n" by (rule mod_pos_pos_trivial) (use assms in simp_all)
  note facts = msgpack_string_def msgpack_string_head_def get_msgpack_string_def msgpack_switch_def Let_def
    read_bytes_append get_widths byte_of_int
  consider "?n \<le> 31" | "\<not> ?n \<le> 31" "?n \<le> 0xFF" | "\<not> ?n \<le> 0xFF" "?n \<le> 0xFFFF" | "\<not> ?n \<le> 0xFFFF" "?n \<le> 0xFFFFFFFF"
    using assms by fastforce
  then have "get_msgpack_string (msgpack_string t @ s) = Inr (t, s)
      \<and> msgpack_switch C p (msgpack_string t @ s) = Inr (BString t, s)"
  proof cases
    case 1
    then show ?thesis using m b s by (simp add: facts single_byte del: write_number.simps of_char_of One_nat_def)
  next
    case 2
    then show ?thesis using w by (simp add: facts del: write_number.simps of_char_of One_nat_def)
  next
    case 3
    then show ?thesis using ww by (simp add: facts del: write_number.simps of_char_of One_nat_def)
  next
    case 4
    then show ?thesis using w4 by (simp add: facts del: write_number.simps of_char_of One_nat_def)
  qed
  then show "get_msgpack_string (msgpack_string t @ s) = Inr (t, s)"
    "msgpack_switch C p (msgpack_string t @ s) = Inr (BString t, s)" by simp_all
qed

lemma items_written:
  assumes "0 \<le> n" "n < 2 ^ 32"
  shows "msgpack_switch C p (msgpack_items_head 0x90 0xDC n @ s) = get_msgpack_array C p n s"
    "msgpack_switch C p (msgpack_items_head 0x80 0xDE n @ s) = get_msgpack_object C p n s"
proof -
  have m: "(0x90 + n) mod 16 = n" "(0x80 + n) mod 16 = n" if "n \<le> 15"
    using that assms mod_mult_self2 [of n 16 9] mod_mult_self2 [of n 16 8] by (simp_all add: add.commute)
  have b: "byte (byte_char (0x90 + n)) = 0x90 + n" "byte (byte_char (0x80 + n)) = 0x80 + n" if "n \<le> 15"
    by (rule byte_of_int; use that assms in simp)+
  have w: "(0x90 + n) mod 256 = 0x90 + n" "(0x80 + n) mod 256 = 0x80 + n" if "n \<le> 15"
    by (rule mod_pos_pos_trivial; use that assms in simp)+
  have ww: "n mod 65536 = n" if "n \<le> 0xFFFF" by (rule mod_pos_pos_trivial) (use that assms in simp_all)
  have w4: "n mod 4294967296 = n" by (rule mod_pos_pos_trivial) (use assms in simp_all)
  show "msgpack_switch C p (msgpack_items_head 0x90 0xDC n @ s) = get_msgpack_array C p n s"
    "msgpack_switch C p (msgpack_items_head 0x80 0xDE n @ s) = get_msgpack_object C p n s"
    using assms m b w ww w4 unfolding msgpack_items_head_def
    by (simp_all add: msgpack_switch_def Let_def get_widths byte_of_int single_byte
        del: write_number.simps of_char_of One_nat_def)
qed

lemma binary_written:
  assumes "int (length b) < 2 ^ 32"
  shows "msgpack_switch C p (write_msgpack (BBinary b t) @ s) = Inr (received (BBinary b t), s)"
proof -
  let ?n = "int (length b)"
  have w: "?n mod 256 = ?n" if "?n \<le> 0xFF" by (rule mod_pos_pos_trivial) (use that in simp_all)
  have ww: "?n mod 65536 = ?n" if "?n \<le> 0xFFFF" by (rule mod_pos_pos_trivial) (use that in simp_all)
  have w4: "?n mod 4294967296 = ?n" by (rule mod_pos_pos_trivial) (use assms in simp_all)
  note facts = msgpack_binary_head_def msgpack_switch_def get_msgpack_binary_def msgpack_extension_def Let_def
    read_bytes_append get_widths byte_of_int
  have fixed: "read_bytes (int k) (b @ s) = Inr (b, s)" if "length b = k" for k
    using read_bytes_append [of b s] that by simp
  note fixed = fixed [of 1, simplified] fixed [of 2, simplified] fixed [of 4, simplified] fixed [of 8, simplified]
    fixed [of 16, simplified]
  consider "?n \<le> 0xFF" | "\<not> ?n \<le> 0xFF" "?n \<le> 0xFFFF" | "\<not> ?n \<le> 0xFFFF" "?n \<le> 0xFFFFFFFF"
    using assms by fastforce
  then show ?thesis
  proof cases
    case 1
    show ?thesis
    proof (cases "t \<noteq> None \<and> ?n \<in> {1, 2, 4, 8, 16}")
      case True
      then show ?thesis using fixed
        by (auto simp: facts simp del: write_number.simps of_char_of One_nat_def)
    next
      case False
      then show ?thesis using 1 w
        by (cases t) (simp_all add: facts del: write_number.simps of_char_of One_nat_def)
    qed
  next
    case 2
    then show ?thesis using ww by (cases t) (simp_all add: facts del: write_number.simps of_char_of One_nat_def)
  next
    case 3
    then show ?thesis using w4 by (cases t) (simp_all add: facts del: write_number.simps of_char_of One_nat_def)
  qed
qed


primrec msgpack_inner :: "cbor_setting \<Rightarrow> nat \<Rightarrow> bvalue cbor_read" where
  "msgpack_inner C 0 = (\<lambda>s. Inl StackExhausted)"
| "msgpack_inner C (Suc depth) = parse_msgpack C depth"

lemma parse_msgpack_switch: "parse_msgpack C depth = msgpack_switch C (msgpack_inner C depth)"
  by (cases depth) simp_all

lemma msgpack_written:
  "msgpack_ok C v \<Longrightarrow> nesting v \<le> depth \<Longrightarrow> parse_msgpack C depth (write_msgpack v @ s) = Inr (received v, s)"
proof (induction v arbitrary: depth s)
  case BNull
  show ?case by (simp add: parse_msgpack_switch msgpack_switch_def byte_of_int del: of_char_of)
next
  case (BBool b)
  show ?case by (simp add: parse_msgpack_switch msgpack_switch_def byte_of_int del: of_char_of)
next
  case (BUnsigned u)
  show ?case using switch_unsigned [of "uint u"] uint_lt2p [of u] by (simp add: parse_msgpack_switch)
next
  case (BInteger i)
  show ?case by (simp add: parse_msgpack_switch switch_integer)
next
  case (BFloat w)
  then show ?case by (simp add: parse_msgpack_switch switch_float)
next
  case (BString t)
  then show ?case using string_written(2) [of t] by (simp add: parse_msgpack_switch)
next
  case (BBinary b t)
  then show ?case using binary_written [of b C _ t s] by (simp add: parse_msgpack_switch del: received.simps write_msgpack.simps)
next
  case (BArray a)
  obtain d where d: "depth = Suc d" using BArray.prems(2) by (cases depth) simp_all
  have "read_times (parse_msgpack C d) (int (length a)) (concat (map write_msgpack a) @ s) = Inr (map received a, s)"
    by (rule read_times_mapped) (use BArray d in \<open>auto simp: list_all_iff fold_max_le\<close>)
  then show ?case using BArray.prems(1) items_written(1) [of "int (length a)" C "msgpack_inner C depth"]
    by (simp add: parse_msgpack_switch d get_msgpack_array_def)
next
  case (BObject m)
  obtain d where d: "depth = Suc d" using BObject.prems(2) by (cases depth) simp_all
  let ?item = "read_member get_msgpack_string (parse_msgpack C d)"
  have item: "?item ((case x of (k, v) \<Rightarrow> msgpack_string k @ write_msgpack v) @ u)
      = Inr (case x of (k, v) \<Rightarrow> (k, received v), u)" if "x \<in> set m" for x u
  proof -
    obtain k v where x: "x = (k, v)" by force
    then have "msgpack_ok C v" "nesting v \<le> d" "int (length k) < 2 ^ 32"
      using that BObject.prems d by (auto simp: list_all_iff fold_max_le)
    then show ?thesis using BObject.IH [of x v d] string_written(1) [of k] that x
      by (simp add: read_member_def)
  qed
  have "read_times ?item (int (length m)) (concat (map (\<lambda>(k, v). msgpack_string k @ write_msgpack v) m) @ s)
      = Inr (map (\<lambda>(k, v). (k, received v)) m, s)"
    by (rule read_times_mapped) (rule item)
  then show ?case
    using BObject.prems(1) items_written(2) [of "int (length m)" C "msgpack_inner C depth"]
    by (simp add: parse_msgpack_switch d get_msgpack_object_def keyed_object)
qed

text \<open>
  What the writer of MessagePack writes of a value, the reader reads back, and leaves what follows:
  every value comes back as it was, except that an integer that is not negative comes back unsigned
  and a binary subtype loses all but its low byte. Lengths are below \<open>2 ^ 32\<close>.
\<close>

lemma msgpack_roundtrip:
  assumes "msgpack_ok C v" "nesting v \<le> depth"
  shows "parse_msgpack C depth (write_msgpack v @ rest) = Inr (received v, rest)
    \<and> from_msgpack C depth True (write_msgpack v) = Inr (received v)"
  using msgpack_written [OF assms, of rest] msgpack_written [OF assms, of "[]"]
  by (simp add: from_msgpack_def)

lemma msgpack_roundtrip_example:
  "parse_msgpack demo_cbor 2 (write_msgpack demo_bvalue @ ''rest'')
   = Inr (BObject [(''a'', BArray [BUnsigned 500, BInteger (- 70000), BFloat 0x3FB999999999999A, BFloat 0xBFE0000000000000]),
       (''b'', BBinary ''xy'' (Some 44)), (''c'', BFloat 0xFFF0000000000000)], ''rest'')"
proof -
  have "msgpack_ok demo_cbor demo_bvalue" by code_simp
  moreover have "nesting demo_bvalue \<le> 2" by code_simp
  ultimately have "parse_msgpack demo_cbor 2 (write_msgpack demo_bvalue @ ''rest'') = Inr (received demo_bvalue, ''rest'')"
    using msgpack_roundtrip by blast
  moreover have "received demo_bvalue
    = BObject [(''a'', BArray [BUnsigned 500, BInteger (- 70000), BFloat 0x3FB999999999999A, BFloat 0xBFE0000000000000]),
       (''b'', BBinary ''xy'' (Some 44)), (''c'', BFloat 0xFFF0000000000000)]" by code_simp
  ultimately show ?thesis by simp
qed


subsection \<open>Every read returns\<close>

lemma within_string: "length u \<le> length s \<Longrightarrow> within safe s (get_msgpack_string u)"
  by (cases u) (auto simp: get_msgpack_string_def Let_def intro!: within_bytes within_then within_number within_error)

lemma item_msgpack_string: "item safe s get_msgpack_string"
  unfolding item_def
proof (intro allI impI)
  fix u :: string
  show "(\<forall>x v. get_msgpack_string u = Inr (x, v) \<longrightarrow> length v < length u)
      \<and> (safe \<longrightarrow> get_msgpack_string u \<noteq> Inl StackExhausted)"
  proof (cases u)
    case (Cons c t)
    have "within safe t (get_msgpack_string u)"
      unfolding get_msgpack_string_def Cons list.case Let_def
      by (intro within_if within_bytes within_then within_number within_error order_refl)
    then show ?thesis using Cons by (auto simp: within_def)
  qed (simp add: get_msgpack_string_def)
qed

lemma within_extension: "length u \<le> length s \<Longrightarrow> within safe s (msgpack_extension len u)"
  unfolding msgpack_extension_def by (intro within_then within_number within_bytes within_Inr)

lemma within_signed: "length u \<le> length s \<Longrightarrow> within safe s (get_signed k u)"
  unfolding get_signed_def by (intro within_then within_number within_Inr)

lemma msgpack_switch_consumes:
  assumes "\<And>t. length t < length s \<Longrightarrow> item safe t p"
  shows "(\<forall>x u. msgpack_switch C p s = Inr (x, u) \<longrightarrow> length u < length s)
    \<and> (safe \<longrightarrow> msgpack_switch C p s \<noteq> Inl StackExhausted)"
proof (cases s)
  case Nil
  then show ?thesis by (simp add: msgpack_switch_def)
next
  case (Cons c t)
  have p: "item safe t p" by (rule assms) (simp add: Cons)
  have "(\<forall>x v. get_msgpack_string (c # t) = Inr (x, v) \<longrightarrow> length v < length (c # t))
      \<and> (safe \<longrightarrow> get_msgpack_string (c # t) \<noteq> Inl StackExhausted)"
    using item_msgpack_string [of safe "c # t"] unfolding item_def by blast
  then have str: "within safe t (get_msgpack_string (c # t))" by (auto simp: within_def less_Suc_eq_le)
  have arr: "within safe t (get_msgpack_array C p len u)" if "length u \<le> length t" for len u
    unfolding get_msgpack_array_def
    by (intro within_if within_then within_times within_error within_Inr p that)
  have obj: "within safe t (get_msgpack_object C p len u)" if "length u \<le> length t" for len u
    unfolding get_msgpack_object_def
    by (intro within_if within_then within_times within_error within_Inr item_member p item_msgpack_string that)
  have "within safe t (msgpack_switch C p s)"
    unfolding msgpack_switch_def get_msgpack_binary_def msgpack_number_def Cons list.case Let_def
    by (intro within_if within_then within_number within_signed within_bytes within_extension within_error
        within_Inr arr obj str order_refl)
  then show ?thesis using Cons by (auto simp: within_def)
qed

lemma parse_msgpack_consumes:
  "(safe \<Longrightarrow> length s \<le> depth) \<Longrightarrow>
   (\<forall>x u. parse_msgpack C depth s = Inr (x, u) \<longrightarrow> length u < length s)
    \<and> (safe \<longrightarrow> parse_msgpack C depth s \<noteq> Inl StackExhausted)"
proof (induction depth arbitrary: s)
  case 0
  show ?case
  proof (cases "s = []")
    case True
    then show ?thesis by (simp add: msgpack_switch_def)
  next
    case False
    with 0 have "\<not> safe" by auto
    then show ?thesis using msgpack_switch_consumes [of s False "\<lambda>s. Inl StackExhausted" C]
      by (simp add: item_def)
  qed
next
  case (Suc depth)
  have "item safe t (parse_msgpack C depth)" if "length t < length s" for t
    unfolding item_def using Suc that by (meson le_trans less_Suc_eq_le less_le_trans)
  from msgpack_switch_consumes [of s safe, OF this] show ?case by simp
qed

text \<open>
  The MessagePack reader returns for every input with a stack as deep as the input is long, and a
  value takes a byte at least. The array or object of the header alone decides how many items follow,
  so a header that announces more than the container can hold is refused before an item is read.
\<close>

lemma msgpack_returns:
  "parse_msgpack C (length s) s \<noteq> Inl StackExhausted
   \<and> (\<forall>v u. parse_msgpack C depth s = Inr (v, u) \<longrightarrow> length u < length s)
   \<and> (cs_array_max C < n \<longrightarrow> n < 2 ^ 32 \<longrightarrow> 0 \<le> n \<longrightarrow>
      parse_msgpack C depth (byte_char 0xDD # write_number 4 n @ s) = Inl (CborError (out_of_range 408)))"
proof (intro conjI impI)
  show "parse_msgpack C (length s) s \<noteq> Inl StackExhausted"
    using parse_msgpack_consumes [of True s "length s" C] by simp
  show "\<forall>v u. parse_msgpack C depth s = Inr (v, u) \<longrightarrow> length u < length s"
    using parse_msgpack_consumes [of False s depth C] by simp
  assume "cs_array_max C < n" "n < 2 ^ 32" "0 \<le> n"
  moreover from this have "n mod 0x100000000 = n" by (intro mod_pos_pos_trivial) simp_all
  ultimately show "parse_msgpack C depth (byte_char 0xDD # write_number 4 n @ s) = Inl (CborError (out_of_range 408))"
    by (simp add: parse_msgpack_switch msgpack_switch_def byte_of_int get_widths get_msgpack_array_def unknown_size_def
        del: write_number.simps of_char_of)
qed

subsection \<open>Lengths of more than 32 bits\<close>

text \<open>
  The writer does not refuse what the format cannot express: the header of a string, a binary, an
  array or an object with \<open>2 ^ 32\<close> items or more is left out, and the text is read as something else.
\<close>

lemma msgpack_header_missing:
  assumes "2 ^ 32 \<le> int (length t)"
  shows "write_msgpack (BString t) = t \<and> write_msgpack (BBinary t None) = t"
    "byte (hd t) \<le> 0x7F \<Longrightarrow> parse_msgpack C depth (write_msgpack (BString t)) = Inr (BUnsigned (word_of_int (byte (hd t))), tl t)"
proof -
  show w: "write_msgpack (BString t) = t \<and> write_msgpack (BBinary t None) = t"
    using assms by (simp add: msgpack_string_def msgpack_string_head_def msgpack_binary_head_def)
  assume b: "byte (hd t) \<le> 0x7F"
  have "t \<noteq> []" using assms by auto
  then obtain c u where "t = c # u" by (cases t) auto
  then show "parse_msgpack C depth (write_msgpack (BString t)) = Inr (BUnsigned (word_of_int (byte (hd t))), tl t)"
    using b w by (simp add: parse_msgpack_switch msgpack_switch_def del: write_msgpack.simps)
qed

end
