(* ===== verification/NBsonLaws.thy ===== *)
theory NBsonLaws
  imports NBson NCborLaws NMsgPackLaws
begin

text \<open>
  What the BSON writer computes as the size of a document is the number of bytes it writes, it throws
  before it writes, and the reader reads what was written; where the reader believes anything.
\<close>

subsection \<open>Sizes and output\<close>

text \<open>No key at any depth has the character 0.\<close>

fun keys_ok :: "bvalue \<Rightarrow> bool" where
  "keys_ok (BObject m) = list_all (\<lambda>(k, v). CHR 0x00 \<notin> set k \<and> keys_ok v) m"
| "keys_ok (BArray a) = list_all keys_ok a"
| "keys_ok v = True"

lemma to_string_no_nul: "CHR 0x00 \<notin> set (to_string n)"
proof
  assume "CHR 0x00 \<in> set (to_string n)"
  moreover have "list_all is_digit (to_string n)" using to_string_digits [of n] by blast
  ultimately have "is_digit (CHR 0x00)" by (auto simp: list_all_iff)
  then show False by (simp add: is_digit_def)
qed

lemma indexed_keys_map: "indexed_keys (map f a) = map (\<lambda>(k, x). (k, f x)) (indexed_keys a)"
  by (simp add: indexed_keys_def enumerate_map_upt enumerate_eq_zip zip_map2 case_prod_unfold)

lemma indexed_keys_values: "map snd (indexed_keys a) = a"
  by (simp add: indexed_keys_def case_prod_unfold comp_def)

lemma indexed_keys_set: "(k, x) \<in> set (indexed_keys a) \<Longrightarrow> x \<in> set a \<and> CHR 0x00 \<notin> set k"
proof
  assume kx: "(k, x) \<in> set (indexed_keys a)"
  then have "x \<in> set (map snd (indexed_keys a))" by force
  then show "x \<in> set a" by (simp only: indexed_keys_values)
  show "CHR 0x00 \<notin> set k" using kx to_string_no_nul by (auto simp: indexed_keys_def)
qed

text \<open>An array is written as a document whose keys are the indices.\<close>

lemma array_keyed:
  "value_size (BArray a) = document_size (map (\<lambda>(k, v). with_header k (value_size v)) (indexed_keys a))"
  "write_element name (BArray a) =
     then_write (entry_header name 0x04, None)
       (write_document (value_size (BArray a)) (map (\<lambda>(k, v). write_element k v) (indexed_keys a)))"
  by (simp_all add: indexed_keys_map case_prod_unfold comp_def)

text \<open>A document of elements: a size for each, and an output for each.\<close>

lemma sum_sizes_ok: "list_all (\<lambda>r. \<exists>n. r = Inr n) rs \<Longrightarrow> \<exists>n. sum_sizes rs = Inr n"
  by (induction rs) auto

lemma sum_sizes_error:
  "\<not> list_all (\<lambda>r. \<exists>n. r = Inr n) rs \<Longrightarrow> list_all (\<lambda>r. \<forall>x. r = Inl x \<longrightarrow> x = e) rs \<Longrightarrow> sum_sizes rs = Inl e"
proof (induction rs)
  case (Cons r rs)
  then show ?case by (cases r) auto
qed simp

lemma with_header_eq:
  "with_header k r =
     (if CHR 0x00 \<in> set k then Inl (out_of_range 409)
      else case r of Inl e \<Rightarrow> Inl e | Inr n \<Rightarrow> Inr (2 + int (length k) + n))"
  by (cases r) (simp_all add: with_header_def entry_header_size_def)

lemma keyed_sizes:
  assumes "\<And>k v. (k, v) \<in> set m \<Longrightarrow> (if keys_ok v then \<exists>n. f v = Inr n else f v = Inl (out_of_range 409))"
  shows "if list_all (\<lambda>(k, v). CHR 0x00 \<notin> set k \<and> keys_ok v) m
     then \<exists>n. document_size (map (\<lambda>(k, v). with_header k (f v)) m) = Inr n
     else document_size (map (\<lambda>(k, v). with_header k (f v)) m) = Inl (out_of_range 409)"
proof -
  let ?rs = "map (\<lambda>(k, v). with_header k (f v)) m"
  have each: "if CHR 0x00 \<notin> set k \<and> keys_ok v then \<exists>n. with_header k (f v) = Inr n
      else with_header k (f v) = Inl (out_of_range 409)" if "(k, v) \<in> set m" for k v
    using assms [OF that] by (auto simp: with_header_eq split: if_splits)
  show ?thesis
  proof (cases "list_all (\<lambda>(k, v). CHR 0x00 \<notin> set k \<and> keys_ok v) m")
    case True
    then have "list_all (\<lambda>r. \<exists>n. r = Inr n) ?rs" using each by (fastforce simp: list_all_iff)
    from sum_sizes_ok [OF this] True show ?thesis by (auto simp: document_size_def)
  next
    case False
    then obtain k v where kv: "(k, v) \<in> set m" "\<not> (CHR 0x00 \<notin> set k \<and> keys_ok v)" by (auto simp: list_all_iff)
    then have "with_header k (f v) = Inl (out_of_range 409)" using each [OF kv(1)] unfolding if_not_P [OF kv(2)] by simp
    then have "\<not> list_all (\<lambda>r. \<exists>n. r = Inr n) ?rs" using kv(1) by (force simp: list_all_iff)
    moreover have "list_all (\<lambda>r. \<forall>x. r = Inl x \<longrightarrow> x = out_of_range 409) ?rs"
      unfolding list_all_iff using each by (fastforce split: if_splits)
    ultimately have "sum_sizes ?rs = Inl (out_of_range 409)" by (rule sum_sizes_error)
    with False show ?thesis by (simp add: document_size_def)
  qed
qed

lemma value_size_result:
  "if keys_ok v then \<exists>n. value_size v = Inr n else value_size v = Inl (out_of_range 409)"
proof (induction v)
  case (BObject m)
  have "if list_all (\<lambda>(k, v). CHR 0x00 \<notin> set k \<and> keys_ok v) m
     then \<exists>n. document_size (map (\<lambda>(k, v). with_header k (value_size v)) m) = Inr n
     else document_size (map (\<lambda>(k, v). with_header k (value_size v)) m) = Inl (out_of_range 409)"
    by (rule keyed_sizes) (use BObject in auto)
  then show ?case by simp
next
  case (BArray a)
  have "if list_all (\<lambda>(k, v). CHR 0x00 \<notin> set k \<and> keys_ok v) (indexed_keys a)
     then \<exists>n. document_size (map (\<lambda>(k, v). with_header k (value_size v)) (indexed_keys a)) = Inr n
     else document_size (map (\<lambda>(k, v). with_header k (value_size v)) (indexed_keys a)) = Inl (out_of_range 409)"
  proof (rule keyed_sizes)
    fix k v assume "(k, v) \<in> set (indexed_keys a)"
    then have "v \<in> set a" by (rule indexed_keys_set [THEN conjunct1])
    then show "if keys_ok v then \<exists>n. value_size v = Inr n else value_size v = Inl (out_of_range 409)" by (rule BArray.IH)
  qed
  moreover have "list_all (\<lambda>(k, v). CHR 0x00 \<notin> set k \<and> keys_ok v) (indexed_keys a) = list_all keys_ok a"
  proof -
    have "list_all keys_ok a = list_all keys_ok (map snd (indexed_keys a))" by (simp only: indexed_keys_values)
    also have "\<dots> = list_all (\<lambda>(k, v). CHR 0x00 \<notin> set k \<and> keys_ok v) (indexed_keys a)"
      using indexed_keys_set [of _ _ a] by (fastforce simp: list_all_iff)
    finally show ?thesis by simp
  qed
  ultimately show ?case unfolding array_keyed keys_ok.simps by simp
qed simp_all

lemma then_write_simps [simp]:
  "then_write (s, None) q = (s @ fst q, snd q)" "then_write (s, Some e) q = (s, Some e)"
  by (simp_all add: then_write_def)

lemma write_little_length [simp]: "length (write_little k n) = k"
  by (simp add: write_little_def write_number_length)

text \<open>An output that is complete and has the size \<open>n\<close>.\<close>

definition complete :: "bson_output \<Rightarrow> int \<Rightarrow> bool" where
  "complete w n \<longleftrightarrow> snd w = None \<and> int (length (fst w)) = n"

lemma write_all_written:
  "sum_sizes (map fst rws) = Inr n \<Longrightarrow> (\<And>r w k. (r, w) \<in> set rws \<Longrightarrow> r = Inr k \<Longrightarrow> complete w k) \<Longrightarrow>
   complete (write_all (map snd rws)) n"
proof (induction rws arbitrary: n)
  case (Cons rw rws)
  obtain r w where rw: "rw = (r, w)" by (cases rw)
  with Cons.prems(1) obtain x y where x: "r = Inr x" "sum_sizes (map fst rws) = Inr y" "n = x + y"
    by (auto split: sum.splits)
  then have "complete w x" "complete (write_all (map snd rws)) y" using Cons rw by auto
  then show ?case using x rw by (simp add: complete_def then_write_def)
qed (simp add: complete_def)

lemma document_written:
  assumes "\<And>k v n. (k, v) \<in> set m \<Longrightarrow> CHR 0x00 \<notin> set k \<Longrightarrow> f v = Inr n \<Longrightarrow> complete (w k v) (2 + int (length k) + n)"
    and "document_size (map (\<lambda>(k, v). with_header k (f v)) m) = Inr n"
  shows "complete (write_document (Inr n) (map (\<lambda>(k, v). w k v) m)) n"
proof -
  let ?rws = "map (\<lambda>(k, v). (with_header k (f v), w k v)) m"
  obtain x where x: "sum_sizes (map (\<lambda>(k, v). with_header k (f v)) m) = Inr x" "n = 4 + x + 1"
    using assms(2) by (auto simp: document_size_def split: sum.splits)
  have outs: "map snd ?rws = map (\<lambda>(k, v). w k v) m" by (simp add: case_prod_unfold comp_def)
  have "complete (write_all (map snd ?rws)) x"
  proof (rule write_all_written)
    show "sum_sizes (map fst ?rws) = Inr x" using x by (simp add: case_prod_unfold comp_def)
    fix r v k assume "(r, v) \<in> set ?rws" "r = Inr k"
    then show "complete v k" using assms(1) by (auto simp: with_header_eq split: if_splits sum.splits)
  qed
  then have "complete (write_all (map (\<lambda>(k, v). w k v) m)) x" unfolding outs .
  then show ?thesis using x(2) by (simp add: write_document_def complete_def then_write_def)
qed

lemma element_written:
  "value_size v = Inr n \<Longrightarrow> complete (write_element name v) (2 + int (length name) + n)"
proof (induction v arbitrary: n name)
  case (BObject m)
  have "complete (write_document (Inr n) (map (\<lambda>(k, v). write_element k v) m)) n"
    by (rule document_written [where f = value_size]) (use BObject in auto)
  then show ?case unfolding write_element.simps(1) BObject.prems by (simp add: complete_def entry_header_def)
next
  case (BArray a)
  let ?w = "write_document (Inr n) (map (\<lambda>(k, v). write_element k v) (indexed_keys a))"
  have "complete ?w n"
  proof (rule document_written [where f = value_size])
    show "document_size (map (\<lambda>(k, v). with_header k (value_size v)) (indexed_keys a)) = Inr n"
      using BArray.prems unfolding array_keyed .
    fix k v n assume kv: "(k, v) \<in> set (indexed_keys a)" and n: "value_size v = Inr n"
    from kv have "v \<in> set a" by (rule indexed_keys_set [THEN conjunct1])
    then show "complete (write_element k v) (2 + int (length k) + n)" using n by (rule BArray.IH)
  qed
  then show ?case unfolding array_keyed(2) BArray.prems by (simp add: complete_def entry_header_def)
qed (auto simp: complete_def entry_header_def bson_boolean_def bson_double_def bson_null_def bson_binary_def
    bson_binary_size_def bson_integer_def bson_integer_size_def
    bson_unsigned_def bson_unsigned_size_def bson_string_def bson_string_size_def write_number_length
    simp del: write_number.simps)


subsection \<open>The reader reads what the writer wrote\<close>

text \<open>
  What comes back: a number that fits into \<open>int64_t\<close> as a signed integer, a binary always with a
  subtype, of one byte.
\<close>

fun bson_received :: "bvalue \<Rightarrow> bvalue" where
  "bson_received (BUnsigned u) = (if uint u \<le> 2 ^ 63 - 1 then BInteger u else BUnsigned u)"
| "bson_received (BBinary b t) =
     BBinary b (Some (word_of_int ((case t of Some n \<Rightarrow> uint n | None \<Rightarrow> 0) mod 256)))"
| "bson_received (BArray a) = BArray (map bson_received a)"
| "bson_received (BObject m) = BObject (map (\<lambda>(k, v). (k, bson_received v)) m)"
| "bson_received v = v"

fun bson_ok :: "bvalue \<Rightarrow> bool" where
  "bson_ok (BString s) = (int (length s) < 2 ^ 31 - 1)"
| "bson_ok (BBinary b t) = (int (length b) < 2 ^ 31)"
| "bson_ok (BArray a) = list_all bson_ok a"
| "bson_ok (BObject m) = (keys_sorted m \<and> list_all (\<lambda>(k, v). CHR 0x00 \<notin> set k \<and> bson_ok v) m)"
| "bson_ok v = True"

lemma bson_ok_keys: "bson_ok v \<Longrightarrow> keys_ok v"
  by (induction v) (auto simp: list_all_iff)

lemma little_written: "get_little k (write_little k n @ s) = Inr (n mod 256 ^ k, s)"
  using read_bytes_append [of "write_little k n" s]
  by (simp add: get_little_def write_little_def write_number_length number_value_written)

lemma little_signed_written:
  "- (2 ^ (8 * k - 1)) \<le> i \<Longrightarrow> i < 2 ^ (8 * k - 1) \<Longrightarrow> 0 < k \<Longrightarrow>
   get_little_signed k (write_little k i @ s) = Inr (i, s)"
  by (simp only: get_little_signed_def little_written then_read_simps signed_value)

lemma little_signed_skipped: "\<exists>x. get_little_signed k (write_little k i @ s) = Inr (x, s)"
  by (simp add: get_little_signed_def little_written)

lemma cstr_written: "CHR 0x00 \<notin> set k \<Longrightarrow> get_bson_cstr (k @ CHR 0x00 # s) = Inr (k, s)"
proof (induction k)
  case (Cons c k)
  have "byte c \<noteq> 0"
  proof
    assume "byte c = 0"
    then have "byte c = byte (CHR 0x00)" by simp
    then have "c = CHR 0x00" by (simp only: of_char_eq_iff)
    with Cons.prems show False by simp
  qed
  with Cons show ?case by simp
qed simp

text \<open>An element as it is written and read.\<close>

definition element_read ::
    "(int \<Rightarrow> bvalue cbor_read) \<Rightarrow> string \<Rightarrow> bson_output \<Rightarrow> bvalue \<Rightarrow> bool" where
  "element_read p k w v \<longleftrightarrow>
     (\<exists>t body. 0 < t \<and> t < 256 \<and> w = (entry_header k t @ body, None) \<and> (\<forall>s. p t (body @ s) = Inr (v, s)))"

lemma elements_read:
  "(\<And>k v. (k, v) \<in> set m \<Longrightarrow> CHR 0x00 \<notin> set k \<and> element_read p k (w k v) (r v)) \<Longrightarrow>
   snd (write_all (map (\<lambda>(k, v). w k v) m)) = None
   \<and> element_list p (fst (write_all (map (\<lambda>(k, v). w k v) m)) @ CHR 0x00 # s) = Inr (map (\<lambda>(k, v). (k, r v)) m, s)"
proof (induction m)
  case (Cons kv m)
  obtain k v where kv: "kv = (k, v)" by force
  obtain t body where e: "CHR 0x00 \<notin> set k" "0 < t" "t < 256" "w k v = (entry_header k t @ body, None)"
    "\<And>s. p t (body @ s) = Inr (r v, s)"
    using Cons.prems [of k v] kv by (auto simp: element_read_def)
  have IH: "snd (write_all (map (\<lambda>(k, v). w k v) m)) = None"
    "element_list p (fst (write_all (map (\<lambda>(k, v). w k v) m)) @ CHR 0x00 # s) = Inr (map (\<lambda>(k, v). (k, r v)) m, s)"
    using Cons.IH Cons.prems by auto
  have "byte (byte_char t) = t" by (rule byte_of_int) (use e in simp_all)
  then show ?case using IH e kv
    by (simp add: entry_header_def read_member_def cstr_written del: of_char_of)
qed simp

lemma document_read:
  assumes "\<And>k v. (k, v) \<in> set m \<Longrightarrow> CHR 0x00 \<notin> set k \<and> element_read p k (w k v) (r v)"
  obtains body where "write_document (Inr n) (map (\<lambda>(k, v). w k v) m) = (write_little 4 n @ body, None)"
    "\<And>s build. bson_document build p (write_little 4 n @ body @ s) = Inr (build (map (\<lambda>(k, v). (k, r v)) m), s)"
proof -
  let ?ws = "write_all (map (\<lambda>(k, v). w k v) m)"
  have r: "snd ?ws = None" "\<And>s. element_list p (fst ?ws @ CHR 0x00 # s) = Inr (map (\<lambda>(k, v). (k, r v)) m, s)"
    using elements_read [of m p w r, OF assms] by blast+
  show thesis
  proof (rule that [of "fst ?ws @ [CHR 0x00]"])
    show "write_document (Inr n) (map (\<lambda>(k, v). w k v) m) = (write_little 4 n @ fst ?ws @ [CHR 0x00], None)"
      using r(1) by (simp add: write_document_def then_write_def)
    fix s build
    obtain x where "get_little_signed 4 (write_little 4 n @ fst ?ws @ CHR 0x00 # s) = Inr (x, fst ?ws @ CHR 0x00 # s)"
      using little_signed_skipped by blast
    then show "bson_document build p (write_little 4 n @ (fst ?ws @ [CHR 0x00]) @ s)
        = Inr (build (map (\<lambda>(k, v). (k, r v)) m), s)"
      using r(2) by (simp add: bson_document_def)
  qed
qed


primrec document_reader :: "((string \<times> bvalue) list \<Rightarrow> bvalue) \<Rightarrow> nat \<Rightarrow> bvalue cbor_read" where
  "document_reader build 0 = (\<lambda>s. Inl StackExhausted)"
| "document_reader build (Suc depth) = bson_document build (parse_element depth)"

lemma parse_element_switch:
  "parse_element depth = bson_element (document_reader object_of depth) (document_reader array_of depth)"
  by (cases depth) simp_all

lemma element_read_intro:
  "w = (entry_header k t @ body, None) \<Longrightarrow> 0 < t \<Longrightarrow> t < 256 \<Longrightarrow> (\<And>s. p t (body @ s) = Inr (v, s)) \<Longrightarrow> element_read p k w v"
  by (auto simp: element_read_def)

lemma integer_read:
  assumes "- (2 ^ 63) \<le> n" "n < 2 ^ 63"
  shows "element_read (parse_element depth) name (bson_integer name n, None) (BInteger (word_of_int n))"
proof (cases "- (2 ^ 31) \<le> n \<and> n \<le> 2 ^ 31 - 1")
  case True
  then have "get_little_signed 4 (write_little 4 n @ s) = Inr (n, s)" for s
    by (intro little_signed_written) simp_all
  with True show ?thesis
    by (intro element_read_intro [of _ _ "0x10" "write_little 4 n"])
      (simp_all add: bson_integer_def parse_element_switch bson_element_def)
next
  case False
  have "get_little_signed 8 (write_little 8 n @ s) = Inr (n, s)" for s
    by (rule little_signed_written) (use assms in simp_all)
  with False show ?thesis
    by (intro element_read_intro [of _ _ "0x12" "write_little 8 n"])
      (auto simp: bson_integer_def parse_element_switch bson_element_def)
qed

lemma bson_element_read:
  "bson_ok v \<Longrightarrow> nesting v \<le> depth \<Longrightarrow>
   element_read (parse_element depth) name (write_element name v) (bson_received v)"
proof (induction v arbitrary: depth name)
  case BNull
  show ?case
    by (intro element_read_intro [of _ _ "0x0A" "[]"]) (simp_all add: bson_null_def parse_element_switch bson_element_def)
next
  case (BBool b)
  show ?case
    by (intro element_read_intro [of _ _ "0x08" "[byte_char (if b then 0x01 else 0x00)]"])
      (simp_all add: bson_boolean_def parse_element_switch bson_element_def get_bson_boolean_def)
next
  case (BUnsigned u)
  have u: "0 \<le> uint u" "uint u < 2 ^ 64" using uint_lt2p [of u] by simp_all
  show ?case
  proof (cases "uint u \<le> 2 ^ 63 - 1")
    case True
    moreover have "- (2 ^ 31) \<le> uint u" by (rule order_trans [OF _ u(1)]) simp
    ultimately have "bson_unsigned name (uint u) = bson_integer name (uint u)"
      by (simp add: bson_unsigned_def bson_integer_def)
    with integer_read [of "uint u" depth name] True u show ?thesis by simp
  next
    case False
    have "uint u mod 256 ^ 8 = uint u" by (rule mod_pos_pos_trivial) (use u in simp_all)
    with little_written [of 8 "uint u"] have "get_little 8 (write_little 8 (uint u) @ s) = Inr (uint u, s)" for s by simp
    with False show ?thesis
      by (intro element_read_intro [of _ _ "0x11" "write_little 8 (uint u)"])
        (simp_all add: bson_unsigned_def parse_element_switch bson_element_def)
  qed
next
  case (BInteger i)
  show ?case using integer_read [of "sint i" depth name] sint_ge [of i] sint_lt [of i] by simp
next
  case (BFloat w)
  have "uint w mod 256 ^ 8 = uint w" using uint_lt2p [of w] by (intro mod_pos_pos_trivial) simp_all
  with little_written [of 8 "uint w"] have "get_little 8 (write_little 8 (uint w) @ s) = Inr (uint w, s)" for s by simp
  then show ?case
    by (intro element_read_intro [of _ _ "0x01" "write_little 8 (uint w)"])
      (simp_all add: bson_double_def parse_element_switch bson_element_def)
next
  case (BString t)
  let ?n = "int (length t) + 1"
  have "get_little_signed 4 (write_little 4 ?n @ s) = Inr (?n, s)" for s
    by (rule little_signed_written) (use BString in simp_all)
  then show ?case
    by (intro element_read_intro [of _ _ "0x02" "write_little 4 ?n @ t @ [CHR 0x00]"])
      (simp_all add: bson_string_def parse_element_switch bson_element_def get_bson_string_def read_bytes_append)
next
  case (BBinary b t)
  let ?n = "int (length b)" and ?t = "case t of Some n \<Rightarrow> uint n | None \<Rightarrow> 0x00"
  have "get_little_signed 4 (write_little 4 ?n @ s) = Inr (?n, s)" for s
    by (rule little_signed_written) (use BBinary in simp_all)
  moreover have "get_number 1 (write_number 1 ?t @ s) = Inr (?t mod 0x100, s)" for s by (rule get_widths)
  ultimately show ?case
    by (intro element_read_intro [of _ _ "0x05" "write_little 4 ?n @ write_number 1 ?t @ b"])
      (simp_all add: bson_binary_def parse_element_switch bson_element_def get_bson_binary_def read_bytes_append
        del: write_number.simps One_nat_def)
next
  case (BArray a)
  obtain d where d: "depth = Suc d" using BArray.prems(2) by (cases depth) simp_all
  obtain n where n: "value_size (BArray a) = Inr n"
    using value_size_result [of "BArray a"] bson_ok_keys [OF BArray.prems(1)] by auto
  have "CHR 0x00 \<notin> set k \<and> element_read (parse_element d) k (write_element k v) (bson_received v)"
    if kv: "(k, v) \<in> set (indexed_keys a)" for k v
  proof -
    have v: "v \<in> set a" by (rule indexed_keys_set [THEN conjunct1, OF kv])
    then have "bson_ok v" "nesting v \<le> d" using BArray.prems d by (auto simp: list_all_iff fold_max_le)
    then show ?thesis using BArray.IH [OF v] indexed_keys_set [OF kv] by simp
  qed
  from document_read [of "indexed_keys a" "parse_element d" write_element bson_received n, OF this]
  obtain body where body: "write_document (Inr n) (map (\<lambda>(k, v). write_element k v) (indexed_keys a)) = (write_little 4 n @ body, None)"
    "\<And>s build. bson_document build (parse_element d) (write_little 4 n @ body @ s)
      = Inr (build (map (\<lambda>(k, v). (k, bson_received v)) (indexed_keys a)), s)" by blast
  have "map snd (map (\<lambda>(k, v). (k, bson_received v)) (indexed_keys a)) = map bson_received (map snd (indexed_keys a))"
    by (simp add: case_prod_unfold comp_def)
  then have "array_of (map (\<lambda>(k, v). (k, bson_received v)) (indexed_keys a)) = bson_received (BArray a)"
    unfolding indexed_keys_values by (simp add: array_of_def)
  with body show ?case unfolding array_keyed(2) n d
    by (intro element_read_intro [of _ _ "0x04" "write_little 4 n @ body"])
      (simp_all add: bson_element_def del: bson_received.simps)
next
  case (BObject m)
  obtain d where d: "depth = Suc d" using BObject.prems(2) by (cases depth) simp_all
  obtain n where n: "value_size (BObject m) = Inr n"
    using value_size_result [of "BObject m"] bson_ok_keys [OF BObject.prems(1)] by auto
  have "CHR 0x00 \<notin> set k \<and> element_read (parse_element d) k (write_element k v) (bson_received v)"
    if kv: "(k, v) \<in> set m" for k v
  proof -
    have "bson_ok v" "nesting v \<le> d" "CHR 0x00 \<notin> set k"
      using BObject.prems d kv by (fastforce simp: list_all_iff fold_max_le)+
    then show ?thesis using BObject.IH [OF kv] by simp
  qed
  from document_read [of m "parse_element d" write_element bson_received n, OF this]
  obtain body where body: "write_document (Inr n) (map (\<lambda>(k, v). write_element k v) m) = (write_little 4 n @ body, None)"
    "\<And>s build. bson_document build (parse_element d) (write_little 4 n @ body @ s)
      = Inr (build (map (\<lambda>(k, v). (k, bson_received v)) m), s)" by blast
  have "object_of (map (\<lambda>(k, v). (k, bson_received v)) m) = bson_received (BObject m)"
    using keyed_object [of m bson_received] BObject.prems(1) by simp
  with body show ?case unfolding write_element.simps(1) n d
    by (intro element_read_intro [of _ _ "0x03" "write_little 4 n @ body"])
      (simp_all add: bson_element_def del: bson_received.simps)
qed


text \<open>
  C26. An object whose keys are in order and without the character 0, whose strings are shorter than
  \<open>2 ^ 31 - 1\<close> and whose binary values are shorter than \<open>2 ^ 31\<close> bytes is written without an exception.
  The size computed in advance and written in front is the number of bytes written. What the reader
  reads back, leaving what follows, is not the object but its BSON form (\<open>bson_received\<close>): an unsigned
  number up to \<open>2 ^ 63 - 1\<close> comes back signed, a binary value comes back with the low byte of its
  subtype (300 becomes 44), and with the subtype 0 if it had none. Everything else comes back as it
  was, every double bit by bit.
\<close>

theorem bson_roundtrip:
  assumes "bson_ok (BObject m)" "nesting (BObject m) \<le> Suc depth"
  shows "\<exists>bytes. to_bson (BObject m) = (bytes, None)
    \<and> value_size (BObject m) = Inr (int (length bytes))
    \<and> take 4 bytes = write_little 4 (int (length bytes))
    \<and> parse_bson depth (bytes @ rest) = Inr (bson_received (BObject m), rest)"
proof -
  obtain n where n: "value_size (BObject m) = Inr n"
    using value_size_result [of "BObject m"] bson_ok_keys [OF assms(1)] by auto
  have "CHR 0x00 \<notin> set k \<and> element_read (parse_element depth) k (write_element k v) (bson_received v)"
    if kv: "(k, v) \<in> set m" for k v
  proof -
    have "bson_ok v" "nesting v \<le> depth" "CHR 0x00 \<notin> set k"
      using assms kv by (fastforce simp: list_all_iff fold_max_le)+
    then show ?thesis using bson_element_read by simp
  qed
  from document_read [of m "parse_element depth" write_element bson_received n, OF this]
  obtain body where body: "write_document (Inr n) (map (\<lambda>(k, v). write_element k v) m) = (write_little 4 n @ body, None)"
    "\<And>s build. bson_document build (parse_element depth) (write_little 4 n @ body @ s)
      = Inr (build (map (\<lambda>(k, v). (k, bson_received v)) m), s)" by blast
  have "complete (write_document (Inr n) (map (\<lambda>(k, v). write_element k v) m)) n"
    by (rule document_written [where f = value_size]) (use n element_written in auto)
  then have "int (length (write_little 4 n @ body)) = n" unfolding body(1) by (simp add: complete_def)
  moreover have "to_bson (BObject m) = (write_little 4 n @ body, None)"
    unfolding to_bson_def bvalue.case n using body(1) by (simp add: case_prod_unfold)
  moreover have "take 4 (write_little 4 n @ body) = write_little 4 n" by simp
  moreover have "parse_bson depth ((write_little 4 n @ body) @ rest) = Inr (bson_received (BObject m), rest)"
    using body(2) keyed_object [of m bson_received] assms(1) by (simp add: parse_bson_def)
  ultimately show ?thesis using n by metis
qed

text \<open>
  What the writer refuses: a value that is no object, and an object with a key, at any depth, that has
  the character 0. It does so before it writes a byte.
\<close>

lemma bson_refused:
  "to_bson v =
     (case v of
        BObject m \<Rightarrow> if keys_ok v then (fst (to_bson v), None) else ([], Some (out_of_range 409))
      | _ \<Rightarrow> ([], Some (type_error 317
          (''to serialize to BSON, top-level type must be object, but is '' @ bvalue_type_name v))))"
proof (cases v)
  case (BObject m)
  show ?thesis
  proof (cases "keys_ok v")
    case True
    then obtain n where n: "value_size (BObject m) = Inr n" using value_size_result [of v] BObject by auto
    have "complete (write_document (Inr n) (map (\<lambda>(k, v). write_element k v) m)) n"
      by (rule document_written [where f = value_size]) (use n element_written in auto)
    then have "snd (to_bson v) = None" unfolding to_bson_def BObject bvalue.case n by (simp add: complete_def case_prod_unfold)
    with True BObject show ?thesis by (cases "to_bson v") simp
  next
    case False
    then have "value_size (BObject m) = Inl (out_of_range 409)" using value_size_result [of v] BObject by auto
    then have "to_bson v = ([], Some (out_of_range 409))" unfolding to_bson_def BObject bvalue.case by (simp add: write_document_def)
    with False BObject show ?thesis by simp
  qed
qed (simp_all add: to_bson_def)

definition demo_document :: bvalue where
  "demo_document = BObject [(''a'', BArray [BUnsigned 500, BInteger (- 70000), BFloat 0x3FB999999999999A]),
     (''b'', BBinary ''xy'' (Some 300)), (''c'', BUnsigned 0xFFFFFFFFFFFFFFFF), (''d'', BObject [(''e'', BString ''f'')])]"

theorem bson_roundtrip_witness:
  "parse_bson 1 (fst (to_bson demo_document) @ ''rest'')
   = Inr (BObject [(''a'', BArray [BInteger 500, BInteger (- 70000), BFloat 0x3FB999999999999A]),
     (''b'', BBinary ''xy'' (Some 44)), (''c'', BUnsigned 0xFFFFFFFFFFFFFFFF), (''d'', BObject [(''e'', BString ''f'')])], ''rest'')"
proof -
  let ?m = "[(''a'', BArray [BUnsigned 500, BInteger (- 70000), BFloat 0x3FB999999999999A]),
     (''b'', BBinary ''xy'' (Some 300)), (''c'', BUnsigned 0xFFFFFFFFFFFFFFFF), (''d'', BObject [(''e'', BString ''f'')])]"
  have "bson_ok (BObject ?m)" by code_simp
  moreover have "nesting (BObject ?m) \<le> Suc 1" by code_simp
  ultimately have "\<exists>bytes. to_bson (BObject ?m) = (bytes, None)
    \<and> value_size (BObject ?m) = Inr (int (length bytes))
    \<and> take 4 bytes = write_little 4 (int (length bytes))
    \<and> parse_bson 1 (bytes @ ''rest'') = Inr (bson_received (BObject ?m), ''rest'')" by (rule bson_roundtrip)
  moreover have "bson_received (BObject ?m)
    = BObject [(''a'', BArray [BInteger 500, BInteger (- 70000), BFloat 0x3FB999999999999A]),
     (''b'', BBinary ''xy'' (Some 44)), (''c'', BUnsigned 0xFFFFFFFFFFFFFFFF), (''d'', BObject [(''e'', BString ''f'')])]"
    by code_simp
  ultimately show ?thesis unfolding demo_document_def by (metis fst_conv)
qed


subsection \<open>Every read returns\<close>

lemma within_little: "length u \<le> length s \<Longrightarrow> within safe s (get_little k u)"
  unfolding get_little_def by (intro within_then within_bytes within_Inr)

lemma within_little_signed: "length u \<le> length s \<Longrightarrow> within safe s (get_little_signed k u)"
  unfolding get_little_signed_def by (intro within_then within_little within_Inr)

lemma within_unreported: "within safe s (Inl Unreported)"
  by (simp add: within_def)

lemma within_cstr: "length u \<le> length s \<Longrightarrow> within safe s (get_bson_cstr u)"
proof (induction u)
  case (Cons c u)
  then show ?case by (auto intro!: within_then within_Inr)
qed (simp add: within_error)

lemma within_bson_string: "length u \<le> length s \<Longrightarrow> within safe s (get_bson_string len u)"
  unfolding get_bson_string_def
  by (intro within_if within_then within_bytes within_error)
    (auto intro: within_unreported within_Inr split: list.splits)

lemma within_bson_binary: "length u \<le> length s \<Longrightarrow> within safe s (get_bson_binary len u)"
  unfolding get_bson_binary_def by (intro within_if within_then within_number within_bytes within_error within_Inr)

lemma within_boolean: "length u \<le> length s \<Longrightarrow> within safe s (get_bson_boolean u)"
  by (cases u) (auto simp: get_bson_boolean_def intro: within_Inr)

text \<open>A read that may take no byte: the element of type null.\<close>

definition reads_within :: "bool \<Rightarrow> string \<Rightarrow> 'a cbor_read \<Rightarrow> bool" where
  "reads_within safe s p \<longleftrightarrow> (\<forall>u. length u \<le> length s \<longrightarrow> within safe u (p u))"

lemma within_wider: "within safe u r \<Longrightarrow> length u \<le> length s \<Longrightarrow> within safe s r"
  by (auto simp: within_def)

lemma inside_element:
  assumes "reads_within safe s p" "reads_within safe s q"
  shows "reads_within safe s (bson_element p q t)"
  unfolding reads_within_def
proof (intro allI impI)
  fix u :: string
  assume u: "length u \<le> length s"
  then have "within safe u (p u)" "within safe u (q u)" using assms by (simp_all add: reads_within_def)
  then show "within safe u (bson_element p q t u)"
    unfolding bson_element_def
    by (intro within_if within_then within_little within_little_signed within_bson_string within_bson_binary
        within_boolean within_error within_Inr order_refl)
qed

lemma within_elements:
  "(\<And>t. reads_within safe s (p t)) \<Longrightarrow> length u \<le> length s \<Longrightarrow> within safe u (element_list p u)"
proof (induction "length u" arbitrary: u rule: less_induct)
  case less
  show ?case
  proof (cases u)
    case (Cons c v)
    have m: "within safe v (read_member get_bson_cstr (p (byte c)) v)"
      unfolding read_member_def
    proof (intro within_then within_cstr order_refl within_Inr)
      fix w :: string assume "length w \<le> length v"
      moreover from this have "within safe w (p (byte c) w)" using less.prems Cons by (simp add: reads_within_def)
      ultimately show "within safe v (p (byte c) w)" by (rule within_wider [rotated])
    qed
    have rest: "within safe v (element_list p w)" if "length w \<le> length v" for w
      using less.hyps [of w] less.prems Cons that by (auto intro: within_wider)
    have "within safe v (if byte c = 0x00 then Inr ([], v)
      else (case read_member get_bson_cstr (p (byte c)) v of
              Inl e \<Rightarrow> Inl e
            | Inr (kv, w) \<Rightarrow>
                if length w \<le> length v then then_read (element_list p w) (\<lambda>kvs x. Inr (kv # kvs, x))
                else Inl StackExhausted))"
    proof (cases "read_member get_bson_cstr (p (byte c)) v")
      case (Inl e)
      then show ?thesis using m by (auto simp: within_def)
    next
      case (Inr r)
      obtain kv w where r: "r = (kv, w)" by (cases r)
      then have "length w \<le> length v" using m Inr by (auto simp: within_def)
      then show ?thesis using rest Inr r by (auto intro!: within_then within_Inr)
    qed
    then have "within safe v (element_list p (c # v))" unfolding element_list.simps .
    then show ?thesis using Cons by (auto intro: within_wider)
  qed (simp add: within_error)
qed

lemma size_consumed: "get_little_signed 4 s = Inr (x, u) \<Longrightarrow> length u < length s"
proof -
  assume r: "get_little_signed 4 s = Inr (x, u)"
  show ?thesis
  proof (cases s)
    case Nil
    with r show ?thesis by (simp add: get_little_signed_def get_little_def)
  next
    case (Cons c t)
    have "within False t (get_little_signed 4 s)"
      unfolding get_little_signed_def get_little_def Cons
      by (simp, intro within_then within_bytes within_Inr) simp_all
    with r Cons show ?thesis by (simp add: within_def)
  qed
qed

lemma inside_document:
  assumes "\<And>u t. length u < length s \<Longrightarrow> reads_within safe u (p t)"
  shows "reads_within safe s (bson_document build p)"
  unfolding reads_within_def
proof (intro allI impI)
  fix u :: string
  assume u: "length u \<le> length s"
  show "within safe u (bson_document build p u)"
  proof (cases "get_little_signed 4 u")
    case (Inl e)
    then show ?thesis using within_little_signed [of u u safe 4] by (simp add: bson_document_def within_def)
  next
    case (Inr r)
    obtain x v where r: "r = (x, v)" by force
    then have v: "length v < length u" using size_consumed Inr by simp
    have "within safe v (then_read (element_list p v) (\<lambda>kvs w. Inr (build kvs, w)))"
      by (intro within_then within_elements [of safe v] within_Inr assms) (use u v in simp_all)
    then show ?thesis using Inr r v by (auto simp: bson_document_def intro: within_wider)
  qed
qed

lemma reads_within_parse: "(safe \<Longrightarrow> length s < depth) \<Longrightarrow> reads_within safe s (parse_element depth t)"
proof (induction depth arbitrary: s t)
  case 0
  then have "\<not> safe" by auto
  then have "reads_within safe s (\<lambda>s. Inl StackExhausted)" for s :: string by (simp add: reads_within_def within_def)
  then show ?case unfolding parse_element.simps by (intro inside_element)
next
  case (Suc depth)
  have "reads_within safe s (bson_document build (parse_element depth))" for build
    by (rule inside_document, rule Suc.IH) (use Suc.prems in fastforce)
  then show ?case unfolding parse_element.simps by (intro inside_element)
qed

text \<open>
  The reader returns for every input with a stack as deep as the input is long, and never leaves more
  than it was given.
\<close>

lemma bson_returns:
  "parse_bson (length s) s \<noteq> Inl StackExhausted \<and> (\<forall>v u. parse_bson depth s = Inr (v, u) \<longrightarrow> length u \<le> length s)"
proof
  have "reads_within True s (parse_bson (length s))" "reads_within False s (parse_bson depth)"
    unfolding parse_bson_def by (intro inside_document reads_within_parse; simp)+
  then show "parse_bson (length s) s \<noteq> Inl StackExhausted" "\<forall>v u. parse_bson depth s = Inr (v, u) \<longrightarrow> length u \<le> length s"
    by (simp_all add: reads_within_def within_def)
qed

subsection \<open>What the reader believes\<close>

text \<open>
  C37. The reader does not check what it reads against the format. The size in front of a document may
  be any number; the byte behind a string may be any byte; and when the input ends in place of that
  byte, no exception is thrown: the result is a discarded value, in strict mode too.
\<close>

theorem bson_reader_lenient:
  assumes "CHR 0x00 \<notin> set k" "int (length t) < 2 ^ 31 - 1"
  defines "prefix \<equiv> \<lambda>n. write_little 4 n @ entry_header k 0x02 @ write_little 4 (int (length t) + 1) @ t"
  shows "parse_bson depth (write_little 4 n @ s) = parse_bson depth (write_little 4 0 @ s)
    \<and> parse_bson depth (prefix n @ c # CHR 0x00 # s) = Inr (BObject [(k, BString t)], s)
    \<and> from_bson depth strict (prefix n) = Inl Unreported"
proof (intro conjI)
  have skip: "parse_bson depth (write_little 4 n @ s)
      = then_read (element_list (parse_element depth) s) (\<lambda>kvs v. Inr (object_of kvs, v))" for n s
    using little_signed_skipped [of 4 n s] by (auto simp: parse_bson_def bson_document_def)
  then show "parse_bson depth (write_little 4 n @ s) = parse_bson depth (write_little 4 0 @ s)" by simp
  have len: "get_little_signed 4 (write_little 4 (int (length t) + 1) @ u) = Inr (int (length t) + 1, u)" for u
    by (rule little_signed_written) (use assms(2) in simp_all)
  have "byte (byte_char 2) = 2" by (rule byte_of_int) simp_all
  then have list: "element_list p (entry_header k 0x02 @ u) =
      (case then_read (p 2 u) (\<lambda>v w. Inr ((k, v), w)) of
        Inl e \<Rightarrow> Inl e
      | Inr (kv, w) \<Rightarrow>
          if length w \<le> length (k @ CHR 0x00 # u) then then_read (element_list p w) (\<lambda>kvs v. Inr (kv # kvs, v))
          else Inl StackExhausted)" for p u
    using assms(1) by (simp add: entry_header_def read_member_def cstr_written del: of_char_of)
  have "parse_element depth 2 (write_little 4 (int (length t) + 1) @ t @ u) =
      then_read (case u of [] \<Rightarrow> Inl Unreported | c # v \<Rightarrow> Inr (t, v)) (\<lambda>t v. Inr (BString t, v))" for u
    by (simp add: parse_element_switch bson_element_def len get_bson_string_def read_bytes_append)
  note facts = this [of "[]", simplified] this [of "c # CHR 0x00 # s", simplified]
  show "parse_bson depth (prefix n @ c # CHR 0x00 # s) = Inr (BObject [(k, BString t)], s)"
    unfolding prefix_def append_assoc skip list by (simp add: facts object_of_def)
  show "from_bson depth strict (prefix n) = Inl Unreported"
    unfolding prefix_def from_bson_def append_assoc skip list by (simp add: facts)
qed

text \<open>A string cut behind its last character, and one that ends with another byte.\<close>

theorem bson_reader_lenient_witness:
  "from_bson 0 True ([byte_char 14, CHR 0x00, CHR 0x00, CHR 0x00, byte_char 2] @ ''k'' @ [CHR 0x00, byte_char 2, CHR 0x00, CHR 0x00, CHR 0x00] @ ''t'')
   = Inl Unreported"
proof -
  have "CHR 0x00 \<notin> set ''k''" "int (length ''t'') < 2 ^ 31 - 1" by simp_all
  then have "from_bson 0 True (write_little 4 14 @ entry_header ''k'' 0x02 @ write_little 4 (int (length ''t'') + 1) @ ''t'') = Inl Unreported"
    using bson_reader_lenient by blast
  moreover have "write_little 4 14 = [byte_char 14, CHR 0x00, CHR 0x00, CHR 0x00]"
    "write_little 4 (int (length ''t'') + 1) = [byte_char 2, CHR 0x00, CHR 0x00, CHR 0x00]" by code_simp+
  ultimately show ?thesis by (simp add: entry_header_def)
qed

end
