(* ===== verification/Receiver.thy ===== *)
theory Receiver
  imports NLexer NJson "HOL-Library.Multiset"
begin

text \<open>
  The browser page \<^verbatim>\<open>web/receiver.html\<close> that receives the stream. The script's variables are the
  fields of a record; the objects it creates (sockets, peer connections) are kept in lists, so
  that handlers of earlier objects, which the script never removes, still act on the current
  variables. An \<^verbatim>\<open>async\<close> function runs up to an \<^verbatim>\<open>await\<close>; what is left of it is a task, and the
  browser's answer to the awaited call is an event that runs the task up to its next \<^verbatim>\<open>await\<close>.

  The browser is outside the repository: when a call is answered and with what are events, what
  an \<^verbatim>\<open>RTCIceCandidate\<close> or a \<^verbatim>\<open>WebSocket\<close> constructor refuses and how text becomes values and back
  are arguments. Of its documented behaviour the model uses that a socket opens at most once, that
  \<^verbatim>\<open>remoteDescription\<close> is set when \<^verbatim>\<open>setRemoteDescription\<close> succeeds, and that a closed peer
  connection does not fulfil a promise and raises no events.
\<close>

subsection \<open>Values of the script\<close>

text \<open>A property of a message: absent is \<^verbatim>\<open>undefined\<close>.\<close>

type_synonym js_value = "json option"

record ice_init =
  ii_candidate :: js_value
  ii_sdp_mid :: js_value
  ii_sdp_mline_index :: js_value

text \<open>
  \<open>jj_parse\<close> is \<^verbatim>\<open>JSON.parse\<close>, \<open>None\<close> when it throws; \<open>jj_stringify\<close> is \<^verbatim>\<open>JSON.stringify\<close>;
  \<open>jj_candidate_ok\<close> and \<open>jj_url_ok\<close> tell whether the constructors accept their arguments.
\<close>

record browser =
  jj_parse :: "string \<Rightarrow> json option"
  jj_stringify :: "json \<Rightarrow> string"
  jj_candidate_ok :: "ice_init \<Rightarrow> bool"
  jj_url_ok :: "string \<Rightarrow> bool"

text \<open>
  \<^verbatim>\<open>String.trim\<close> on UTF-8 text: the encodings of the white space and line terminators of
  ECMAScript are removed at both ends.
\<close>

definition js_spaces :: "string list" where
  "js_spaces = map add_codepoint
     [0x09, 0x0A, 0x0B, 0x0C, 0x0D, 0x20, 0xA0, 0x1680, 0x2000, 0x2001, 0x2002, 0x2003, 0x2004, 0x2005,
      0x2006, 0x2007, 0x2008, 0x2009, 0x200A, 0x2028, 0x2029, 0x202F, 0x205F, 0x3000, 0xFEFF]"

function strip_front :: "string list \<Rightarrow> string \<Rightarrow> string" where
  "strip_front spaces s =
     (case find (\<lambda>w. w \<noteq> [] \<and> is_prefix w s) spaces of
        None \<Rightarrow> s
      | Some w \<Rightarrow> strip_front spaces (drop (length w) s))"
  by pat_completeness auto
termination strip_front
proof (relation "measure (\<lambda>(spaces, s). length s)")
  fix spaces s w
  assume "find (\<lambda>w. w \<noteq> [] \<and> is_prefix w s) spaces = Some w"
  from find_Some_mem [OF this] have "w \<noteq> []" "is_prefix w s" by simp_all
  then have "0 < length w" "length w \<le> length s" by (auto simp: is_prefix_iff)
  then have "length s - length w < length s" by linarith
  then show "((spaces, drop (length w) s), spaces, s) \<in> measure (\<lambda>(spaces, s). length s)" by simp
qed simp

declare strip_front.simps [simp del]

definition js_trim :: "string \<Rightarrow> string" where
  "js_trim s = rev (strip_front (map rev js_spaces) (rev (strip_front js_spaces s)))"

subsection \<open>State\<close>

datatype socket_state = SocketConnecting | SocketOpen | SocketClosed

datatype peer_call =
    SetRemote js_value
  | AddIce ice_init
  | CreateAnswer
  | SetLocal string

record peer =
  pr_remote :: bool
  pr_closed :: bool
  pr_calls :: "peer_call list"

text \<open>Where a suspended handler waits.\<close>

datatype await = AwaitRemote | AwaitPending | AwaitAnswer | AwaitLocal string | AwaitCandidate

datatype page_log =
    LogPlaybackRefused | LogVideoSize | LogTrack | LogConnectionState | LogAnswerSent | LogEmptyId
  | LogRequestSent string | LogPeerGone | LogServerError js_value | LogUnhandled string
  | LogSocketClosed | LogSocketError

text \<open>
  \<open>rv_sent\<close> holds what was sent on an open socket. \<open>rv_stream\<close> is the set of tracks of
  \<^verbatim>\<open>remoteStream\<close>, \<open>rv_shown\<close> whether the video element shows it, \<open>rv_stopped\<close> the tracks that were
  stopped; each log entry has its error flag.
\<close>

record receiver =
  rv_sockets :: "socket_state list"
  rv_ws :: "nat option"
  rv_peers :: "peer list"
  rv_pc :: "nat option"
  rv_stream :: "nat set option"
  rv_shown :: bool
  rv_session_id :: string
  rv_pending :: "ice_init list"
  rv_tasks :: "(await \<times> nat) list"
  rv_plays :: nat
  rv_sent :: "(nat \<times> string) list"
  rv_button_disabled :: bool
  rv_log :: "(page_log \<times> bool) list"
  rv_stopped :: "nat set"

definition new_receiver :: receiver where
  "new_receiver = \<lparr>rv_sockets = [], rv_ws = None, rv_peers = [], rv_pc = None, rv_stream = None,
     rv_shown = False, rv_session_id = [], rv_pending = [], rv_tasks = [], rv_plays = 0, rv_sent = [],
     rv_button_disabled = False, rv_log = [], rv_stopped = {}\<rparr>"

definition page_message :: "page_log \<Rightarrow> bool \<Rightarrow> receiver \<Rightarrow> receiver" where
  "page_message m is_error st = st\<lparr>rv_log := rv_log st @ [(m, is_error)]\<rparr>"

definition ensureVideoPlayback :: "receiver \<Rightarrow> receiver" where
  "ensureVideoPlayback st = st\<lparr>rv_plays := rv_plays st + 1\<rparr>"

definition socket_is :: "receiver \<Rightarrow> socket_state \<Rightarrow> bool" where
  "socket_is st s = (case rv_ws st of None \<Rightarrow> False | Some k \<Rightarrow> rv_sockets st ! k = s)"

text \<open>
  \<^verbatim>\<open>ws.send\<close>: it throws on a socket that is connecting (and on no socket at all) and discards
  the text on a closed one. The result is whether it returned.
\<close>

definition ws_send :: "string \<Rightarrow> receiver \<Rightarrow> bool \<times> receiver" where
  "ws_send m st =
     (case rv_ws st of None \<Rightarrow> (False, st)
      | Some k \<Rightarrow>
          (case rv_sockets st ! k of
             SocketConnecting \<Rightarrow> (False, st)
           | SocketOpen \<Rightarrow> (True, st\<lparr>rv_sent := rv_sent st @ [(k, m)]\<rparr>)
           | SocketClosed \<Rightarrow> (True, st)))"

text \<open>A call of a method of \<^verbatim>\<open>pc\<close> that is awaited; with no peer connection it throws.\<close>

definition await_peer :: "peer_call \<Rightarrow> await \<Rightarrow> receiver \<Rightarrow> receiver" where
  "await_peer c a st =
     (case rv_pc st of None \<Rightarrow> st
      | Some p \<Rightarrow> st\<lparr>rv_peers := (rv_peers st)[p := (rv_peers st ! p)
                       \<lparr>pr_calls := pr_calls (rv_peers st ! p) @ [c]\<rparr>],
                    rv_tasks := rv_tasks st @ [(a, p)]\<rparr>)"

subsection \<open>The functions of the script\<close>

definition createPeerConnection :: "receiver \<Rightarrow> receiver" where
  "createPeerConnection st = st\<lparr>
     rv_peers := rv_peers st @ [\<lparr>pr_remote = False, pr_closed = False, pr_calls = []\<rparr>],
     rv_pc := Some (length (rv_peers st)), rv_stream := Some {}, rv_shown := True\<rparr>"

definition ontrack :: "nat set option \<Rightarrow> nat \<Rightarrow> receiver \<Rightarrow> receiver" where
  "ontrack stream_tracks track st =
     (let added = (case stream_tracks of Some ts \<Rightarrow> ts | None \<Rightarrow> {track})
      in page_message LogTrack False (ensureVideoPlayback
           (st\<lparr>rv_stream := map_option (\<lambda>s. s \<union> added) (rv_stream st)\<rparr>)))"

definition js_string_or_null :: "string option \<Rightarrow> json" where
  "js_string_or_null v = (case v of None \<Rightarrow> JNull | Some s \<Rightarrow> JString s)"

definition js_index_or_null :: "nat option \<Rightarrow> json" where
  "js_index_or_null v = (case v of None \<Rightarrow> JNull | Some i \<Rightarrow> JUnsigned (of_nat i))"

definition candidate_message :: "string \<Rightarrow> string option \<Rightarrow> nat option \<Rightarrow> string \<Rightarrow> json" where
  "candidate_message cand mid idx sid = JObject
     [(''type'', JString ''candidate''), (''candidate'', JString cand), (''sdpMid'', js_string_or_null mid),
      (''sdpMLineIndex'', js_index_or_null idx), (''id'', JString sid)]"

text \<open>The candidate's \<^verbatim>\<open>sdpMid\<close> and \<^verbatim>\<open>sdpMLineIndex\<close> are nullable attributes.\<close>

definition onicecandidate ::
  "browser \<Rightarrow> (string \<times> string option \<times> nat option) option \<Rightarrow> receiver \<Rightarrow> receiver" where
  "onicecandidate B ev st =
     (case ev of None \<Rightarrow> st
      | Some (cand, mid, idx) \<Rightarrow>
          if \<not> socket_is st SocketOpen then st
          else snd (ws_send (jj_stringify B (candidate_message cand mid idx (rv_session_id st))) st))"

text \<open>
  \<^verbatim>\<open>applyPendingCandidates\<close> from the head of its loop, and behind the loop the next call of
  \<^verbatim>\<open>onOffer\<close>.
\<close>

definition drain_pending :: "receiver \<Rightarrow> receiver" where
  "drain_pending st =
     (case rv_pending st of
        [] \<Rightarrow> await_peer CreateAnswer AwaitAnswer st
      | c # cs \<Rightarrow> await_peer (AddIce c) AwaitPending (st\<lparr>rv_pending := cs\<rparr>))"

definition js_member :: "string \<Rightarrow> json \<Rightarrow> js_value" where
  "js_member key v = json_find key v"

definition onOffer :: "json \<Rightarrow> receiver \<Rightarrow> receiver" where
  "onOffer message st =
     (let st1 = (if rv_pc st = None then createPeerConnection st else st)
      in await_peer (SetRemote (js_member ''sdp'' message)) AwaitRemote st1)"

definition candidate_of :: "json \<Rightarrow> ice_init" where
  "candidate_of message = \<lparr>ii_candidate = js_member ''candidate'' message,
     ii_sdp_mid = js_member ''sdpMid'' message, ii_sdp_mline_index = js_member ''sdpMLineIndex'' message\<rparr>"

definition has_remote :: "receiver \<Rightarrow> bool" where
  "has_remote st = (case rv_pc st of None \<Rightarrow> False | Some p \<Rightarrow> pr_remote (rv_peers st ! p))"

definition onCandidate :: "browser \<Rightarrow> json \<Rightarrow> receiver \<Rightarrow> receiver" where
  "onCandidate B message st =
     (let candidate = candidate_of message in
      if \<not> jj_candidate_ok B candidate then st
      else if \<not> has_remote st then st\<lparr>rv_pending := rv_pending st @ [candidate]\<rparr>
      else await_peer (AddIce candidate) AwaitCandidate st)"

definition answer_message :: "string \<Rightarrow> string \<Rightarrow> json" where
  "answer_message sdp sid = JObject
     [(''type'', JString ''answer''), (''sdp'', JString sdp), (''id'', JString sid)]"

definition request_message :: "string \<Rightarrow> json" where
  "request_message sid = JObject [(''type'', JString ''request''), (''id'', JString sid)]"

text \<open>The rest of a handler once its call is fulfilled; the answer's text is the result of \<^verbatim>\<open>createAnswer\<close>.\<close>

definition resume :: "browser \<Rightarrow> await \<times> nat \<Rightarrow> string \<Rightarrow> receiver \<Rightarrow> receiver" where
  "resume B task result st =
     (case fst task of
        AwaitRemote \<Rightarrow> drain_pending (st\<lparr>rv_peers := (rv_peers st)[snd task :=
                         (rv_peers st ! snd task)\<lparr>pr_remote := True\<rparr>]\<rparr>)
      | AwaitPending \<Rightarrow> drain_pending st
      | AwaitAnswer \<Rightarrow> await_peer (SetLocal result) (AwaitLocal result) st
      | AwaitLocal sdp \<Rightarrow>
          (let (ok, st1) = ws_send (jj_stringify B (answer_message sdp (rv_session_id st))) st
           in if ok then page_message LogAnswerSent False st1 else st1)
      | AwaitCandidate \<Rightarrow> st)"

text \<open>\<open>None\<close> is a rejected promise: nothing catches it, so the handler ends.\<close>

definition settle :: "browser \<Rightarrow> nat \<Rightarrow> string option \<Rightarrow> receiver \<Rightarrow> receiver" where
  "settle B i r st =
     (let st1 = st\<lparr>rv_tasks := take i (rv_tasks st) @ drop (i + 1) (rv_tasks st)\<rparr>
      in case r of None \<Rightarrow> st1 | Some result \<Rightarrow> resume B (rv_tasks st ! i) result st1)"

definition close_peer :: "receiver \<Rightarrow> receiver" where
  "close_peer st =
     (case rv_pc st of None \<Rightarrow> st
      | Some p \<Rightarrow> st\<lparr>rv_peers := (rv_peers st)[p := (rv_peers st ! p)\<lparr>pr_closed := True\<rparr>], rv_pc := None\<rparr>)"

definition on_click :: "browser \<Rightarrow> string \<Rightarrow> string \<Rightarrow> receiver \<Rightarrow> receiver" where
  "on_click B server_url session_id st =
     (if socket_is st SocketOpen then st
      else let st1 = (close_peer (st\<lparr>rv_pending := []\<rparr>))
                 \<lparr>rv_stopped := rv_stopped st \<union> (case rv_stream st of None \<Rightarrow> {} | Some ts \<Rightarrow> ts),
                  rv_shown := False, rv_session_id := js_trim session_id\<rparr>
      in if rv_session_id st1 = [] then page_message LogEmptyId True st1
         else let st2 = createPeerConnection st1
         in if \<not> jj_url_ok B (js_trim server_url) then st2
            else st2\<lparr>rv_ws := Some (length (rv_sockets st2)),
                     rv_sockets := rv_sockets st2 @ [SocketConnecting]\<rparr>)"

definition on_open :: "browser \<Rightarrow> receiver \<Rightarrow> receiver" where
  "on_open B st =
     (let (ok, st1) = ws_send (jj_stringify B (request_message (rv_session_id st)))
                        (st\<lparr>rv_button_disabled := True\<rparr>)
      in if ok then page_message (LogRequestSent (rv_session_id st1)) False st1 else st1)"

definition on_message :: "browser \<Rightarrow> string \<Rightarrow> receiver \<Rightarrow> receiver" where
  "on_message B data st =
     (case jj_parse B data of
        None \<Rightarrow> st
      | Some JNull \<Rightarrow> st
      | Some message \<Rightarrow>
          (let type = js_member ''type'' message in
           if type = Some (JString ''offer'') then onOffer message st
           else if type = Some (JString ''candidate'') then onCandidate B message st
           else if type = Some (JString ''peer-disconnected'') then page_message LogPeerGone True st
           else if type = Some (JString ''error'')
           then (page_message (LogServerError (js_member ''message'' message)) True st)\<lparr>rv_button_disabled := False\<rparr>
           else page_message (LogUnhandled data) False st))"

definition on_close :: "receiver \<Rightarrow> receiver" where
  "on_close st = page_message LogSocketClosed True (st\<lparr>rv_button_disabled := False\<rparr>)"

subsection \<open>Events\<close>

datatype page_event =
    EvClick string string
  | EvSocketOpen nat
  | EvSocketMessage nat string
  | EvSocketClose nat
  | EvSocketError nat
  | EvSettle nat "string option"
  | EvLocalCandidate nat "(string \<times> string option \<times> nat option) option"
  | EvTrack nat "nat set option" nat
  | EvPeerState nat
  | EvMetadata
  | EvUnmute
  | EvPlaySettled bool

definition live_peer :: "receiver \<Rightarrow> nat \<Rightarrow> bool" where
  "live_peer st p \<longleftrightarrow> p < length (rv_peers st) \<and> \<not> pr_closed (rv_peers st ! p)"

definition socket_in :: "receiver \<Rightarrow> nat \<Rightarrow> socket_state set \<Rightarrow> bool" where
  "socket_in st k states \<longleftrightarrow> k < length (rv_sockets st) \<and> rv_sockets st ! k \<in> states"

fun page_enabled :: "page_event \<Rightarrow> receiver \<Rightarrow> bool" where
  "page_enabled (EvClick url sid) st = (\<not> rv_button_disabled st)"
| "page_enabled (EvSocketOpen k) st = socket_in st k {SocketConnecting}"
| "page_enabled (EvSocketMessage k data) st = socket_in st k {SocketOpen}"
| "page_enabled (EvSocketClose k) st = socket_in st k {SocketConnecting, SocketOpen}"
| "page_enabled (EvSocketError k) st = (k < length (rv_sockets st))"
| "page_enabled (EvSettle i r) st =
     (i < length (rv_tasks st) \<and> (r \<noteq> None \<longrightarrow> live_peer st (snd (rv_tasks st ! i))))"
| "page_enabled (EvLocalCandidate p ev) st = live_peer st p"
| "page_enabled (EvTrack p ts t) st = live_peer st p"
| "page_enabled (EvPeerState p) st = live_peer st p"
| "page_enabled EvMetadata st = rv_shown st"
| "page_enabled EvUnmute st = True"
| "page_enabled (EvPlaySettled ok) st = (0 < rv_plays st)"

fun page_step :: "browser \<Rightarrow> page_event \<Rightarrow> receiver \<Rightarrow> receiver" where
  "page_step B (EvClick url sid) st = on_click B url sid st"
| "page_step B (EvSocketOpen k) st = on_open B (st\<lparr>rv_sockets := (rv_sockets st)[k := SocketOpen]\<rparr>)"
| "page_step B (EvSocketMessage k data) st = on_message B data st"
| "page_step B (EvSocketClose k) st = on_close (st\<lparr>rv_sockets := (rv_sockets st)[k := SocketClosed]\<rparr>)"
| "page_step B (EvSocketError k) st = page_message LogSocketError True st"
| "page_step B (EvSettle i r) st = settle B i r st"
| "page_step B (EvLocalCandidate p ev) st = onicecandidate B ev st"
| "page_step B (EvTrack p ts t) st = ontrack ts t st"
| "page_step B (EvPeerState p) st = page_message LogConnectionState False st"
| "page_step B EvMetadata st = ensureVideoPlayback (page_message LogVideoSize False st)"
| "page_step B EvUnmute st = ensureVideoPlayback st"
| "page_step B (EvPlaySettled ok) st =
     (let st1 = st\<lparr>rv_plays := rv_plays st - 1\<rparr>
      in if ok then st1 else page_message LogPlaybackRefused True st1)"

definition page_trans :: "browser \<Rightarrow> page_event \<Rightarrow> receiver \<Rightarrow> receiver option" where
  "page_trans B ev st = (if page_enabled ev st then Some (page_step B ev st) else None)"

subsection \<open>Invariant\<close>

text \<open>
  The current peer connection is the only one that is not closed; a handler waits behind
  \<^verbatim>\<open>setRemoteDescription\<close> only on a connection that has its remote description; and while the
  answer is made for the current connection no candidate is held back.
\<close>

definition answering :: "await \<Rightarrow> bool" where
  "answering a \<longleftrightarrow> a = AwaitAnswer \<or> (\<exists>sdp. a = AwaitLocal sdp)"

definition task_ok :: "receiver \<Rightarrow> await \<times> nat \<Rightarrow> bool" where
  "task_ok st t \<longleftrightarrow> snd t < length (rv_peers st)
     \<and> (fst t \<noteq> AwaitRemote \<longrightarrow> pr_remote (rv_peers st ! snd t))
     \<and> (answering (fst t) \<and> rv_pc st = Some (snd t) \<longrightarrow> rv_pending st = [])"

definition only_offered :: "peer \<Rightarrow> bool" where
  "only_offered p \<longleftrightarrow> (\<forall>c \<in> set (pr_calls p). \<exists>v. c = SetRemote v)"

definition page_inv :: "receiver \<Rightarrow> bool" where
  "page_inv st \<longleftrightarrow> (\<forall>p. rv_pc st = Some p \<longleftrightarrow> live_peer st p)
     \<and> (\<forall>t \<in> set (rv_tasks st). task_ok st t)
     \<and> (\<forall>p \<in> set (rv_peers st). \<not> pr_remote p \<longrightarrow> only_offered p)
     \<and> (\<forall>k. rv_ws st = Some k \<longrightarrow> k < length (rv_sockets st))"

lemma page_invD:
  assumes "page_inv st"
  shows "rv_pc st = Some p \<longleftrightarrow> live_peer st p"
    and "t \<in> set (rv_tasks st) \<Longrightarrow> task_ok st t"
    and "p < length (rv_peers st) \<Longrightarrow> \<not> pr_remote (rv_peers st ! p) \<Longrightarrow> only_offered (rv_peers st ! p)"
    and "rv_ws st = Some k \<Longrightarrow> k < length (rv_sockets st)"
  using assms by (simp_all add: page_inv_def)

text \<open>What the invariant does not look at.\<close>

lemma page_inv_frame [simp]:
  "page_inv (page_message m e st) = page_inv st"
  "page_inv (ensureVideoPlayback st) = page_inv st"
  "page_inv (st\<lparr>rv_button_disabled := b\<rparr>) = page_inv st"
  "page_inv (st\<lparr>rv_sent := out\<rparr>) = page_inv st"
  "page_inv (st\<lparr>rv_plays := n\<rparr>) = page_inv st"
  "page_inv (st\<lparr>rv_stream := s\<rparr>) = page_inv st"
  "page_inv (st\<lparr>rv_shown := b\<rparr>) = page_inv st"
  "page_inv (st\<lparr>rv_session_id := sid\<rparr>) = page_inv st"
  "page_inv (st\<lparr>rv_stopped := ts\<rparr>) = page_inv st"
  by (simp_all add: page_inv_def page_message_def ensureVideoPlayback_def task_ok_def live_peer_def)

lemma inv_sockets:
  "page_inv st \<Longrightarrow> length (rv_sockets st) \<le> length ss \<Longrightarrow> page_inv (st\<lparr>rv_sockets := ss\<rparr>)"
  by (fastforce simp: page_inv_def task_ok_def live_peer_def)

lemma inv_ws_send: "page_inv (snd (ws_send m st)) = page_inv st"
  by (simp add: ws_send_def split: option.split socket_state.split)

lemma ws_send_frame [simp]:
  "rv_peers (snd (ws_send m st)) = rv_peers st" "rv_pending (snd (ws_send m st)) = rv_pending st"
  "rv_tasks (snd (ws_send m st)) = rv_tasks st" "rv_log (snd (ws_send m st)) = rv_log st"
  "rv_pc (snd (ws_send m st)) = rv_pc st"
  by (simp_all add: ws_send_def split: option.split socket_state.split)

lemma has_remote_frame [simp]:
  "has_remote (st\<lparr>rv_pending := cs\<rparr>) = has_remote st" "has_remote (st\<lparr>rv_tasks := ts\<rparr>) = has_remote st"
  by (simp_all add: has_remote_def split: option.split)

lemma peer_call_fields [simp]:
  "pr_remote (p\<lparr>pr_calls := cs\<rparr>) = pr_remote p" "pr_closed (p\<lparr>pr_calls := cs\<rparr>) = pr_closed p"
  by simp_all

lemma inv_await_peer:
  assumes "page_inv st"
    and "a = AwaitRemote \<and> (\<exists>v. c = SetRemote v) \<or> has_remote st"
    and "answering a \<Longrightarrow> rv_pending st = []"
  shows "page_inv (await_peer c a st)"
proof (cases "rv_pc st")
  case None
  with assms(1) show ?thesis by (simp add: await_peer_def)
next
  case (Some p)
  have p: "p < length (rv_peers st)" using page_invD(1) [OF assms(1), of p] Some by (simp add: live_peer_def)
  let ?peer = "(rv_peers st ! p)\<lparr>pr_calls := pr_calls (rv_peers st ! p) @ [c]\<rparr>"
  let ?t = "await_peer c a st"
  have t: "rv_peers ?t = (rv_peers st)[p := ?peer]" "rv_tasks ?t = rv_tasks st @ [(a, p)]"
    "rv_pc ?t = rv_pc st" "rv_pending ?t = rv_pending st" "rv_ws ?t = rv_ws st" "rv_sockets ?t = rv_sockets st"
    using Some by (simp_all add: await_peer_def)
  have same: "pr_remote (rv_peers ?t ! q) = pr_remote (rv_peers st ! q)"
    "pr_closed (rv_peers ?t ! q) = pr_closed (rv_peers st ! q)" for q
    using p by (simp_all add: t nth_list_update)
  have len: "length (rv_peers ?t) = length (rv_peers st)" by (simp add: t)
  have "rv_pc ?t = Some q \<longleftrightarrow> live_peer ?t q" for q
    using page_invD(1) [OF assms(1), of q] by (simp add: t(3) live_peer_def same len)
  moreover have "task_ok ?t x" if "x \<in> set (rv_tasks ?t)" for x
  proof (cases "x = (a, p)")
    case True
    with p assms(2,3) Some show ?thesis by (auto simp: task_ok_def same len t(4) has_remote_def)
  next
    case False
    with that have "task_ok st x" using page_invD(2) [OF assms(1), of x] by (auto simp: t(2))
    then show ?thesis by (simp add: task_ok_def same len t(3,4))
  qed
  moreover have "only_offered x" if "x \<in> set (rv_peers ?t)" "\<not> pr_remote x" for x
  proof -
    from that(1) obtain q where q: "q < length (rv_peers st)" "x = rv_peers ?t ! q"
      unfolding in_set_conv_nth len by blast
    have old: "only_offered (rv_peers st ! q)"
      using page_invD(3) [OF assms(1) q(1)] that(2) same(1) [of q] q(2) by simp
    show ?thesis
    proof (cases "q = p")
      case True
      have "\<not> has_remote st" using that(2) q(2) same(1) [of p] True Some by (simp add: has_remote_def)
      moreover have "pr_calls x = pr_calls (rv_peers st ! p) @ [c]" using True q(2) p by (simp add: t(1))
      ultimately show ?thesis using assms(2) old True by (auto simp: only_offered_def)
    next
      case False
      with old q show ?thesis by (simp add: t(1))
    qed
  qed
  ultimately show ?thesis using page_invD(4) [OF assms(1)] unfolding page_inv_def t(5,6) by blast
qed

lemma inv_pop_pending:
  assumes "page_inv st" "rv_pending st = c # cs"
  shows "page_inv (st\<lparr>rv_pending := cs\<rparr>)"
proof -
  have "task_ok (st\<lparr>rv_pending := cs\<rparr>) t" if "t \<in> set (rv_tasks st)" for t
    using page_invD(2) [OF assms(1) that] assms(2) by (auto simp: task_ok_def)
  with assms(1) show ?thesis by (simp add: page_inv_def live_peer_def)
qed

lemma inv_drain:
  assumes "page_inv st" "has_remote st"
  shows "page_inv (drain_pending st)"
proof (cases "rv_pending st")
  case Nil
  with assms show ?thesis by (simp add: drain_pending_def inv_await_peer)
next
  case (Cons c cs)
  have "page_inv (st\<lparr>rv_pending := cs\<rparr>)" by (rule inv_pop_pending [OF assms(1) Cons])
  with assms(2) show ?thesis by (auto simp: drain_pending_def Cons answering_def intro!: inv_await_peer)
qed

lemma inv_close_peer:
  assumes "page_inv st"
  shows "page_inv (close_peer st)" "\<not> live_peer (close_peer st) p" "rv_pc (close_peer st) = None"
proof -
  show none: "rv_pc (close_peer st) = None" by (simp add: close_peer_def split: option.split)
  show dead: "\<not> live_peer (close_peer st) p" for p
  proof (cases "rv_pc st")
    case None
    with page_invD(1) [OF assms, of p] show ?thesis by (simp add: close_peer_def)
  next
    case (Some q)
    with page_invD(1) [OF assms, of p] show ?thesis
      by (cases "p = q") (simp_all add: close_peer_def live_peer_def)
  qed
  have same: "pr_remote (rv_peers (close_peer st) ! q) = pr_remote (rv_peers st ! q)"
    "length (rv_peers (close_peer st)) = length (rv_peers st)" "rv_tasks (close_peer st) = rv_tasks st"
    "rv_ws (close_peer st) = rv_ws st" "rv_sockets (close_peer st) = rv_sockets st" for q
    using page_invD(1) [OF assms]
    by (auto simp: close_peer_def nth_list_update live_peer_def split: option.split)
  have "task_ok (close_peer st) t" if "t \<in> set (rv_tasks st)" for t
    using page_invD(2) [OF assms that] by (simp add: task_ok_def same none)
  moreover have "only_offered x" if "x \<in> set (rv_peers (close_peer st))" "\<not> pr_remote x" for x
  proof -
    have "\<exists>y \<in> set (rv_peers st). pr_remote x = pr_remote y \<and> pr_calls x = pr_calls y"
    proof (cases "rv_pc st")
      case None
      with that(1) show ?thesis by (auto simp: close_peer_def)
    next
      case (Some q)
      then have "q < length (rv_peers st)" using page_invD(1) [OF assms, of q] by (simp add: live_peer_def)
      moreover have "x \<in> insert ((rv_peers st ! q)\<lparr>pr_closed := True\<rparr>) (set (rv_peers st))"
        using that(1) Some set_update_subset_insert [of "rv_peers st" q] by (auto simp: close_peer_def)
      ultimately show ?thesis by auto
    qed
    with assms that(2) show ?thesis by (auto simp: page_inv_def only_offered_def)
  qed
  ultimately show "page_inv (close_peer st)"
    using dead none page_invD(4) [OF assms] unfolding page_inv_def same by auto
qed

lemma inv_create:
  assumes "page_inv st" "rv_pc st = None"
  shows "page_inv (createPeerConnection st)"
proof -
  let ?new = "\<lparr>pr_remote = False, pr_closed = False, pr_calls = []\<rparr>"
  have dead: "\<not> live_peer st p" for p using page_invD(1) [OF assms(1), of p] assms(2) by simp
  then have "live_peer (createPeerConnection st) p \<longleftrightarrow> p = length (rv_peers st)" for p
    by (auto simp: live_peer_def createPeerConnection_def nth_append)
  moreover have "task_ok (createPeerConnection st) t" if "t \<in> set (rv_tasks st)" for t
    using page_invD(2) [OF assms(1) that] by (auto simp: task_ok_def createPeerConnection_def nth_append)
  moreover have "only_offered ?new" by (simp add: only_offered_def)
  ultimately show ?thesis
    using assms(1) unfolding page_inv_def by (auto simp: createPeerConnection_def)
qed

lemma inv_pending:
  assumes "page_inv st" "\<not> has_remote st \<or> cs = []"
  shows "page_inv (st\<lparr>rv_pending := cs\<rparr>)"
proof -
  have "task_ok (st\<lparr>rv_pending := cs\<rparr>) t" if "t \<in> set (rv_tasks st)" for t
    using page_invD(2) [OF assms(1) that] assms(2)
    by (auto simp: task_ok_def has_remote_def answering_def)
  with assms(1) show ?thesis by (simp add: page_inv_def live_peer_def)
qed

lemma inv_click: "page_inv st \<Longrightarrow> page_inv (on_click B url sid st)"
proof -
  assume inv: "page_inv st"
  let ?st = "(close_peer (st\<lparr>rv_pending := []\<rparr>))
    \<lparr>rv_stopped := rv_stopped st \<union> (case rv_stream st of None \<Rightarrow> {} | Some ts \<Rightarrow> ts),
     rv_shown := False, rv_session_id := js_trim sid\<rparr>"
  have pend: "page_inv (st\<lparr>rv_pending := []\<rparr>)" using inv by (rule inv_pending) simp
  then have "page_inv ?st" by (simp add: inv_close_peer)
  moreover have "rv_pc ?st = None" by (simp add: inv_close_peer(3) [OF pend])
  ultimately have new: "page_inv (createPeerConnection ?st)" by (rule inv_create)
  have "page_inv (st2\<lparr>rv_ws := Some (length (rv_sockets st2)), rv_sockets := rv_sockets st2 @ [SocketConnecting]\<rparr>)"
    if "page_inv st2" for st2
    using that by (auto simp: page_inv_def task_ok_def live_peer_def)
  with new \<open>page_inv ?st\<close> inv show ?thesis unfolding on_click_def Let_def by (simp split: if_split)
qed

lemma inv_offer: "page_inv st \<Longrightarrow> page_inv (onOffer m st)"
  unfolding onOffer_def Let_def by (rule inv_await_peer) (auto simp: inv_create answering_def)

lemma inv_candidate: "page_inv st \<Longrightarrow> page_inv (onCandidate B m st)"
  by (auto simp: onCandidate_def answering_def Let_def intro!: inv_await_peer inv_pending)

lemma inv_message: "page_inv st \<Longrightarrow> page_inv (on_message B data st)"
  by (simp add: on_message_def Let_def inv_offer inv_candidate split: option.split json.split)

lemma live_current: "page_inv st \<Longrightarrow> live_peer st p \<Longrightarrow> rv_pc st = Some p"
  by (simp add: page_invD(1))

lemma inv_remote_set:
  assumes "page_inv st" "rv_pc st = Some p"
  defines "t \<equiv> st\<lparr>rv_peers := (rv_peers st)[p := (rv_peers st ! p)\<lparr>pr_remote := True\<rparr>]\<rparr>"
  shows "page_inv t" "has_remote t"
proof -
  have p: "p < length (rv_peers st)" using page_invD(1) [OF assms(1), of p] assms(2) by (simp add: live_peer_def)
  then show "has_remote t" using assms(2) by (simp add: t_def has_remote_def)
  have same: "pr_remote (rv_peers t ! q) \<longleftrightarrow> q = p \<or> pr_remote (rv_peers st ! q)"
    "pr_closed (rv_peers t ! q) = pr_closed (rv_peers st ! q)" for q
    using p by (auto simp: t_def nth_list_update)
  have "task_ok t x" if "x \<in> set (rv_tasks st)" for x
    using page_invD(2) [OF assms(1) that] unfolding task_ok_def same by (auto simp: t_def)
  moreover have "rv_pc t = Some q \<longleftrightarrow> live_peer t q" for q
    using page_invD(1) [OF assms(1), of q] unfolding live_peer_def same by (simp add: t_def)
  moreover have "only_offered x" if "x \<in> set (rv_peers t)" "\<not> pr_remote x" for x
  proof -
    have "x \<in> insert ((rv_peers st ! p)\<lparr>pr_remote := True\<rparr>) (set (rv_peers st))"
      using that(1) set_update_subset_insert [of "rv_peers st" p] by (auto simp: t_def)
    with that(2) assms(1) show ?thesis by (auto simp: page_inv_def)
  qed
  moreover have "rv_ws t = rv_ws st" "rv_sockets t = rv_sockets st" "rv_tasks t = rv_tasks st"
    by (simp_all add: t_def)
  ultimately show "page_inv t" using assms(1) unfolding page_inv_def by auto
qed

lemma inv_tasks:
  "page_inv st \<Longrightarrow> set ts \<subseteq> set (rv_tasks st) \<Longrightarrow> page_inv (st\<lparr>rv_tasks := ts\<rparr>)"
  by (fastforce simp: page_inv_def task_ok_def live_peer_def)

lemma inv_resume:
  assumes "page_inv st" "task_ok st t" "rv_pc st = Some (snd t)"
  shows "page_inv (resume B t r st)"
proof -
  have remote: "fst t \<noteq> AwaitRemote \<Longrightarrow> has_remote st" and pend: "answering (fst t) \<Longrightarrow> rv_pending st = []"
    using assms(2,3) by (auto simp: task_ok_def has_remote_def)
  show ?thesis
  proof (cases "fst t")
    case AwaitRemote
    with inv_remote_set [OF assms(1,3)] show ?thesis by (simp add: resume_def inv_drain)
  next
    case AwaitPending
    with assms(1) remote show ?thesis by (simp add: resume_def inv_drain)
  next
    case AwaitAnswer
    with assms(1) remote pend show ?thesis by (simp add: resume_def inv_await_peer answering_def)
  next
    case (AwaitLocal sdp)
    with assms(1) inv_ws_send [of "jj_stringify B (answer_message sdp (rv_session_id st))" st]
    show ?thesis
      by (cases "ws_send (jj_stringify B (answer_message sdp (rv_session_id st))) st") (simp add: resume_def)
  next
    case AwaitCandidate
    with assms(1) show ?thesis by (simp add: resume_def)
  qed
qed

lemma set_remove_task: "set (take i ts @ drop (i + 1) ts) \<subseteq> set ts"
  using set_take_subset [of i ts] set_drop_subset [of "i + 1" ts] by auto

lemma inv_settle:
  assumes "page_inv st" "i < length (rv_tasks st)" "r \<noteq> None \<Longrightarrow> live_peer st (snd (rv_tasks st ! i))"
  shows "page_inv (settle B i r st)"
proof -
  let ?st = "st\<lparr>rv_tasks := take i (rv_tasks st) @ drop (i + 1) (rv_tasks st)\<rparr>"
  have inv: "page_inv ?st" by (rule inv_tasks [OF assms(1) set_remove_task])
  show ?thesis
  proof (cases r)
    case None
    with inv show ?thesis by (simp add: settle_def)
  next
    case (Some x)
    then have "rv_pc st = Some (snd (rv_tasks st ! i))" using assms(1,3) live_current by simp
    moreover have "task_ok ?st (rv_tasks st ! i)"
      using page_invD(2) [OF assms(1) nth_mem [OF assms(2)]] by (simp add: task_ok_def)
    ultimately show ?thesis using inv_resume [OF inv] Some by (simp add: settle_def)
  qed
qed

lemma page_inv_step:
  assumes "page_inv st" "page_enabled ev st"
  shows "page_inv (page_step B ev st)"
proof (cases ev)
  case (EvSocketOpen k)
  let ?st = "st\<lparr>rv_sockets := (rv_sockets st)[k := SocketOpen], rv_button_disabled := True\<rparr>"
  have "page_inv ?st" using inv_sockets [OF assms(1), of "(rv_sockets st)[k := SocketOpen]"] by simp
  with inv_ws_send [of "jj_stringify B (request_message (rv_session_id st))" ?st] show ?thesis
    by (cases "ws_send (jj_stringify B (request_message (rv_session_id st))) ?st")
      (simp add: EvSocketOpen on_open_def)
next
  case (EvSocketClose k)
  with assms inv_sockets [of st "(rv_sockets st)[k := SocketClosed]"] show ?thesis by (simp add: on_close_def)
next
  case (EvSettle i r)
  with assms inv_settle [OF assms(1), of i r B] show ?thesis by simp
next
  case (EvLocalCandidate p c)
  with assms show ?thesis by (simp add: onicecandidate_def inv_ws_send split: option.split prod.split)
next
  case (EvTrack p ts t)
  with assms show ?thesis by (simp add: ontrack_def)
next
  case (EvPlaySettled ok)
  with assms show ?thesis by (simp add: Let_def)
qed (use assms in \<open>simp_all add: inv_click inv_message\<close>)

lemma page_inv_init: "page_inv new_receiver"
  by (simp add: page_inv_def new_receiver_def live_peer_def)

lemma page_run_Cons:
  "run (page_trans B) (ev # evs) st = Some t
     \<longleftrightarrow> page_enabled ev st \<and> run (page_trans B) evs (page_step B ev st) = Some t"
  by (simp add: page_trans_def [of B ev st])

interpretation page: invariant_system "page_trans B" new_receiver page_inv for B
proof
  show "page_inv new_receiver" by (rule page_inv_init)
next
  fix ev s t
  assume "page_trans B ev s = Some t" "page_inv s"
  then show "page_inv t" by (auto simp: page_trans_def page_inv_step split: if_splits)
qed

subsection \<open>Where the candidates go\<close>

fun ice_of :: "peer_call \<Rightarrow> ice_init option" where
  "ice_of (AddIce c) = Some c"
| "ice_of (SetRemote v) = None"
| "ice_of CreateAnswer = None"
| "ice_of (SetLocal sdp) = None"

definition given_to :: "peer \<Rightarrow> ice_init multiset" where
  "given_to p = mset (List.map_filter ice_of (pr_calls p))"

definition candidates_given :: "receiver \<Rightarrow> ice_init multiset" where
  "candidates_given st = sum_list (map given_to (rv_peers st))"

text \<open>The candidates the page has: given to a peer connection, or held back.\<close>

definition candidates :: "receiver \<Rightarrow> ice_init multiset" where
  "candidates st = candidates_given st + mset (rv_pending st)"

text \<open>The candidates an event brings in.\<close>

fun received :: "browser \<Rightarrow> page_event \<Rightarrow> ice_init list" where
  "received B (EvSocketMessage k data) =
     (case jj_parse B data of
        Some (JObject ms) \<Rightarrow>
          if map_of ms ''type'' = Some (JString ''candidate'') \<and> jj_candidate_ok B (candidate_of (JObject ms))
          then [candidate_of (JObject ms)] else []
      | _ \<Rightarrow> [])"
| "received B ev = []"

fun is_click :: "page_event \<Rightarrow> bool" where
  "is_click (EvClick url sid) = True"
| "is_click ev = False"

lemma candidates_frame [simp]:
  "candidates (page_message m e st) = candidates st"
  "candidates (ensureVideoPlayback st) = candidates st"
  "candidates (st\<lparr>rv_button_disabled := b\<rparr>) = candidates st"
  "candidates (st\<lparr>rv_sockets := ss\<rparr>) = candidates st"
  "candidates (st\<lparr>rv_plays := n\<rparr>) = candidates st"
  "candidates (st\<lparr>rv_stream := x\<rparr>) = candidates st"
  "candidates (st\<lparr>rv_tasks := ts\<rparr>) = candidates st"
  "candidates (snd (ws_send data st)) = candidates st"
  by (simp_all add: candidates_def candidates_given_def page_message_def ensureVideoPlayback_def)

lemma given_update:
  assumes "p < length ps"
  shows "sum_list (map given_to (ps[p := x])) + given_to (ps ! p) = sum_list (map given_to ps) + given_to x"
  using assms
proof (induction ps arbitrary: p)
  case Nil
  then show ?case by simp
next
  case (Cons y ps)
  show ?case
  proof (cases p)
    case 0
    then show ?thesis by simp
  next
    case (Suc q)
    with Cons have "sum_list (map given_to (ps[q := x])) + given_to (ps ! q)
        = sum_list (map given_to ps) + given_to x" by simp
    with Suc show ?thesis by (simp add: ac_simps) 
  qed
qed

lemma candidates_await_peer:
  assumes "page_inv st" "rv_pc st \<noteq> None"
  shows "candidates (await_peer c a st) = candidates st + mset (case ice_of c of None \<Rightarrow> [] | Some x \<Rightarrow> [x])"
proof -
  obtain p where pc: "rv_pc st = Some p" using assms(2) by blast
  then have p: "p < length (rv_peers st)" using page_invD(1) [OF assms(1), of p] by (simp add: live_peer_def)
  let ?x = "(rv_peers st ! p)\<lparr>pr_calls := pr_calls (rv_peers st ! p) @ [c]\<rparr>"
  let ?new = "mset (case ice_of c of None \<Rightarrow> [] | Some x \<Rightarrow> [x])"
  have "given_to ?x = given_to (rv_peers st ! p) + ?new"
    by (simp add: given_to_def List.map_filter_def split: option.split)
  with given_update [OF p, of ?x]
  have "sum_list (map given_to ((rv_peers st)[p := ?x])) = sum_list (map given_to (rv_peers st)) + ?new"
    by (simp add: ac_simps)
  with pc show ?thesis
    by (simp add: candidates_def candidates_given_def await_peer_def ac_simps)
qed

lemma has_remote_pc: "has_remote st \<Longrightarrow> rv_pc st \<noteq> None"
  by (cases "rv_pc st") (simp_all add: has_remote_def)

lemma candidates_drain:
  assumes "page_inv st" "has_remote st"
  shows "candidates (drain_pending st) = candidates st"
proof (cases "rv_pending st")
  case Nil
  with assms has_remote_pc show ?thesis by (simp add: drain_pending_def candidates_await_peer)
next
  case (Cons c cs)
  have "page_inv (st\<lparr>rv_pending := cs\<rparr>)" by (rule inv_pop_pending [OF assms(1) Cons])
  with has_remote_pc [OF assms(2)] show ?thesis
    by (simp add: drain_pending_def Cons candidates_await_peer)
      (simp add: candidates_def candidates_given_def Cons)
qed

lemma candidates_create [simp]: "candidates (createPeerConnection st) = candidates st"
  by (simp add: candidates_def candidates_given_def createPeerConnection_def given_to_def List.map_filter_def)

lemma candidates_offer: "page_inv st \<Longrightarrow> candidates (onOffer m st) = candidates st"
proof -
  assume inv: "page_inv st"
  let ?st = "if rv_pc st = None then createPeerConnection st else st"
  have "page_inv ?st" using inv inv_create by simp
  moreover have "rv_pc ?st \<noteq> None" by (simp add: createPeerConnection_def)
  ultimately show ?thesis by (simp add: onOffer_def Let_def candidates_await_peer)
qed

lemma candidates_candidate:
  "page_inv st \<Longrightarrow> candidates (onCandidate B m st) = candidates st
     + mset (if jj_candidate_ok B (candidate_of m) then [candidate_of m] else [])"
  using has_remote_pc [of st]
  by (simp add: onCandidate_def Let_def candidates_await_peer)
    (simp add: candidates_def candidates_given_def)

lemma message_type_member:
  "js_member ''type'' (JObject ms) = map_of ms ''type''" "\<not> is_object v \<Longrightarrow> js_member ''type'' v = None"
  by (cases v; simp add: js_member_def)+

lemma candidates_message:
  assumes "page_inv st"
  shows "candidates (on_message B data st) = candidates st + mset (received B (EvSocketMessage k data))"
proof (cases "jj_parse B data")
  case None
  then show ?thesis by (simp add: on_message_def)
next
  case (Some v)
  show ?thesis
  proof (cases "\<exists>ms. v = JObject ms")
    case True
    then obtain ms where "v = JObject ms" by blast
    with Some show ?thesis
      by (simp add: on_message_def Let_def message_type_member candidates_offer [OF assms]
          candidates_candidate [OF assms])
  next
    case False
    then have "\<not> is_object v" by (cases v) auto
    with Some False show ?thesis
      by (cases v) (simp_all add: on_message_def Let_def message_type_member(2))
  qed
qed

lemma candidates_resume:
  assumes "page_inv st" "task_ok st t" "rv_pc st = Some (snd t)"
  shows "candidates (resume B t r st) = candidates st"
proof -
  have remote: "fst t \<noteq> AwaitRemote \<Longrightarrow> has_remote st"
    using assms(2,3) by (auto simp: task_ok_def has_remote_def)
  show ?thesis
  proof (cases "fst t")
    case AwaitRemote
    let ?peer = "(rv_peers st ! snd t)\<lparr>pr_remote := True\<rparr>"
    have "snd t < length (rv_peers st)" using assms(2) by (simp add: task_ok_def)
    from given_update [OF this, of ?peer]
    have "candidates (st\<lparr>rv_peers := (rv_peers st)[snd t := ?peer]\<rparr>) = candidates st"
      by (simp add: candidates_def candidates_given_def given_to_def)
    with AwaitRemote candidates_drain [OF inv_remote_set [OF assms(1,3)]] show ?thesis
      by (simp add: resume_def)
  next
    case AwaitPending
    with assms(1) remote show ?thesis by (simp add: resume_def candidates_drain)
  next
    case AwaitAnswer
    with assms(1,3) show ?thesis by (simp add: resume_def candidates_await_peer)
  next
    case (AwaitLocal sdp)
    with candidates_frame(8) [of "jj_stringify B (answer_message sdp (rv_session_id st))" st] show ?thesis
      by (cases "ws_send (jj_stringify B (answer_message sdp (rv_session_id st))) st") (simp add: resume_def)
  next
    case AwaitCandidate
    then show ?thesis by (simp add: resume_def)
  qed
qed

lemma settle_resumes:
  assumes "page_inv st" "i < length (rv_tasks st)" "live_peer st (snd (rv_tasks st ! i))"
  defines "u \<equiv> st\<lparr>rv_tasks := take i (rv_tasks st) @ drop (i + 1) (rv_tasks st)\<rparr>"
  shows "page_inv u" "task_ok u (rv_tasks st ! i)" "rv_pc u = Some (snd (rv_tasks st ! i))"
    "settle B i (Some r) st = resume B (rv_tasks st ! i) r u"
proof -
  show "page_inv u" unfolding u_def by (rule inv_tasks [OF assms(1) set_remove_task])
  show "task_ok u (rv_tasks st ! i)"
    using page_invD(2) [OF assms(1) nth_mem [OF assms(2)]] by (simp add: task_ok_def u_def)
  show "rv_pc u = Some (snd (rv_tasks st ! i))" using assms(1,3) live_current by (simp add: u_def)
  show "settle B i (Some r) st = resume B (rv_tasks st ! i) r u" by (simp add: settle_def u_def)
qed

lemma candidates_step:
  assumes "page_inv st" "page_enabled ev st" "\<not> is_click ev"
  shows "candidates (page_step B ev st) = candidates st + mset (received B ev)"
proof (cases ev)
  case (EvSocketOpen k)
  let ?st = "st\<lparr>rv_sockets := (rv_sockets st)[k := SocketOpen], rv_button_disabled := True\<rparr>"
  have "candidates ?st = candidates st" by simp
  with candidates_frame(8) [of "jj_stringify B (request_message (rv_session_id st))" ?st] show ?thesis
    by (cases "ws_send (jj_stringify B (request_message (rv_session_id st))) ?st")
      (simp add: EvSocketOpen on_open_def)
next
  case (EvSocketMessage k data)
  with candidates_message [OF assms(1)] show ?thesis by (simp del: received.simps)
next
  case (EvSettle i r)
  show ?thesis
  proof (cases r)
    case None
    with EvSettle show ?thesis by (simp add: settle_def)
  next
    case (Some x)
    with EvSettle assms(2) have "i < length (rv_tasks st)" "live_peer st (snd (rv_tasks st ! i))" by simp_all
    note s = settle_resumes [OF assms(1) this]
    from candidates_resume [OF s(1-3)] EvSettle Some show ?thesis by (simp add: s(4))
  qed
next
  case (EvPlaySettled ok)
  then show ?thesis by (simp add: Let_def)
qed (use assms(3) in \<open>simp_all add: on_close_def onicecandidate_def ontrack_def split: option.split prod.split\<close>)

text \<open>
  C8. Without a new click no candidate is lost or repeated: what the messages bring is, as a
  multiset, what is given to the peer connections or held back; none is given to a connection
  before that has its remote description; and when an answer is being made or sent for the current
  connection none is held back.
\<close>

theorem candidates_accounted:
  assumes "reachable (page_trans B) new_receiver st" "run (page_trans B) evs st = Some t"
    and "\<forall>ev \<in> set evs. \<not> is_click ev"
  shows "candidates t = candidates st + mset (concat (map (received B) evs))
    \<and> (\<forall>p \<in> set (rv_peers t). \<not> pr_remote p \<longrightarrow> given_to p = {#})
    \<and> (\<forall>(a, p) \<in> set (rv_tasks t). answering a \<and> rv_pc t = Some p \<longrightarrow> rv_pending t = [])"
proof -
  have inv: "page_inv st" by (rule page.reachable_inv [OF assms(1)])
  have "candidates t = candidates st + mset (concat (map (received B) evs))"
    using inv assms(2,3)
  proof (induction evs arbitrary: st)
    case Nil
    then show ?case by simp
  next
    case (Cons ev evs)
    have en: "page_enabled ev st" and run: "run (page_trans B) evs (page_step B ev st) = Some t"
      using Cons.prems(2) unfolding page_run_Cons by blast+
    have "candidates (page_step B ev st) = candidates st + mset (received B ev)"
      using Cons.prems(1,3) en by (intro candidates_step) auto
    with Cons.IH [OF page_inv_step [OF Cons.prems(1) en] run] Cons.prems(3) show ?case by (simp add: ac_simps)
  qed
  moreover have t: "page_inv t" by (rule page.run_keeps_inv [OF inv assms(2)])
  moreover have "given_to p = {#}" if "p \<in> set (rv_peers t)" "\<not> pr_remote p" for p
  proof -
    have "only_offered p" using t that by (auto simp: page_inv_def)
    then have "List.map_filter ice_of (pr_calls p) = []"
      by (auto simp: only_offered_def List.map_filter_def filter_empty_conv)
    then show ?thesis by (simp add: given_to_def)
  qed
  ultimately show ?thesis using page_invD(2) [OF t] by (fastforce simp: task_ok_def)
qed

text \<open>A browser with a small message format, and the page after a click, a candidate and the offer.\<close>

definition demo_offer :: json where
  "demo_offer = JObject [(''sdp'', JString ''v=0''), (''type'', JString ''offer'')]"

definition demo_candidate :: json where
  "demo_candidate = JObject [(''candidate'', JString ''c''), (''sdpMid'', JString ''0''),
     (''sdpMLineIndex'', JUnsigned 0), (''type'', JString ''candidate'')]"

definition demo_browser :: browser where
  "demo_browser = \<lparr>jj_parse = map_of [(''offer'', demo_offer), (''candidate'', demo_candidate),
       (''error'', JObject [(''type'', JString ''error'')])],
     jj_stringify = (\<lambda>v. case js_member ''type'' v of Some (JString s) \<Rightarrow> s | _ \<Rightarrow> []),
     jj_candidate_ok = (\<lambda>c. True), jj_url_ok = (\<lambda>url. True)\<rparr>"

definition demo_page_events :: "page_event list" where
  "demo_page_events = [EvClick ''ws'' '' room '', EvSocketOpen 0]"

definition demo_page :: receiver where
  "demo_page = \<lparr>rv_sockets = [SocketOpen], rv_ws = Some 0,
     rv_peers = [\<lparr>pr_remote = False, pr_closed = False, pr_calls = []\<rparr>], rv_pc = Some 0,
     rv_stream = Some {}, rv_shown = True, rv_session_id = ''room'', rv_pending = [], rv_tasks = [],
     rv_plays = 0, rv_sent = [(0, ''request'')], rv_button_disabled = True,
     rv_log = [(LogRequestSent ''room'', False)], rv_stopped = {}\<rparr>"

lemma demo_page_run: "run (page_trans demo_browser) demo_page_events new_receiver = Some demo_page"
  by code_simp

lemma demo_page_reachable: "reachable (page_trans demo_browser) new_receiver demo_page"
  by (rule run_reachable [OF demo_page_run])

definition demo_negotiation :: "page_event list" where
  "demo_negotiation = [EvSocketMessage 0 ''candidate'', EvSocketMessage 0 ''offer'', EvSettle 0 (Some []),
     EvSettle 0 (Some []), EvSettle 0 (Some ''v=1''), EvSettle 0 (Some [])]"

theorem candidates_accounted_witness:
  "\<exists>t. run (page_trans demo_browser) demo_negotiation demo_page = Some t
     \<and> candidates t = {#candidate_of demo_candidate#} \<and> rv_pending t = []
     \<and> rv_sent t = [(0, ''request''), (0, ''answer'')]"
proof -
  have "case run (page_trans demo_browser) demo_negotiation demo_page of None \<Rightarrow> False
    | Some t \<Rightarrow> rv_pending t = [] \<and> rv_sent t = [(0, ''request''), (0, ''answer'')]" by code_simp
  then obtain t where t: "run (page_trans demo_browser) demo_negotiation demo_page = Some t" "rv_pending t = []"
    "rv_sent t = [(0, ''request''), (0, ''answer'')]" by (auto split: option.splits)
  have none: "\<forall>ev \<in> set demo_negotiation. \<not> is_click ev" by (simp add: demo_negotiation_def)
  have "concat (map (received demo_browser) demo_negotiation) = [candidate_of demo_candidate]" by code_simp
  moreover have "candidates demo_page = {#}"
    by (simp add: candidates_def candidates_given_def given_to_def demo_page_def List.map_filter_def)
  ultimately have "candidates t = {#candidate_of demo_candidate#}"
    using candidates_accounted [OF demo_page_reachable t(1) none] by simp
  with t show ?thesis by blast
qed

subsection \<open>A refused candidate\<close>

fun brings_offer :: "browser \<Rightarrow> page_event \<Rightarrow> bool" where
  "brings_offer B (EvSocketMessage k data) =
     (case jj_parse B data of None \<Rightarrow> False | Some v \<Rightarrow> js_member ''type'' v = Some (JString ''offer''))"
| "brings_offer B ev = False"

text \<open>No handler of an offer is left, and the current connection has its remote description.\<close>

definition no_offer_handler :: "receiver \<Rightarrow> bool" where
  "no_offer_handler st \<longleftrightarrow> has_remote st \<and> (\<forall>t \<in> set (rv_tasks st). fst t = AwaitCandidate)"

definition not_an_answer :: "browser \<Rightarrow> string \<Rightarrow> bool" where
  "not_an_answer B m \<longleftrightarrow> (\<exists>sid. m = jj_stringify B (request_message sid))
     \<or> (\<exists>c mid idx sid. m = jj_stringify B (candidate_message c mid idx sid))"

definition stays_silent :: "browser \<Rightarrow> receiver \<Rightarrow> receiver \<Rightarrow> bool" where
  "stays_silent B st t \<longleftrightarrow> rv_pending t = rv_pending st
     \<and> (\<exists>out. rv_sent t = rv_sent st @ out \<and> (\<forall>m \<in> set out. not_an_answer B (snd m)))"

lemma stays_silent_refl [simp]: "stays_silent B st st"
  by (simp add: stays_silent_def)

lemma stays_silent_trans:
  assumes "stays_silent B s t" "stays_silent B t u"
  shows "stays_silent B s u"
proof -
  obtain o1 o2 where "rv_sent t = rv_sent s @ o1" "rv_sent u = rv_sent t @ o2"
    "\<forall>m \<in> set o1. not_an_answer B (snd m)" "\<forall>m \<in> set o2. not_an_answer B (snd m)"
    using assms by (auto simp: stays_silent_def)
  with assms show ?thesis unfolding stays_silent_def by (intro conjI exI [of _ "o1 @ o2"]) auto
qed

lemma no_offer_handler_frame [simp]:
  "no_offer_handler (page_message m e st) = no_offer_handler st"
  "no_offer_handler (ensureVideoPlayback st) = no_offer_handler st"
  "no_offer_handler (st\<lparr>rv_button_disabled := b\<rparr>) = no_offer_handler st"
  "no_offer_handler (st\<lparr>rv_sockets := ss\<rparr>) = no_offer_handler st"
  "no_offer_handler (st\<lparr>rv_plays := n\<rparr>) = no_offer_handler st"
  "no_offer_handler (st\<lparr>rv_stream := x\<rparr>) = no_offer_handler st"
  "no_offer_handler (snd (ws_send data st)) = no_offer_handler st"
  by (simp_all add: no_offer_handler_def has_remote_def page_message_def ensureVideoPlayback_def
      split: option.split)

lemma stays_silent_frame [simp]:
  "stays_silent B st (page_message m e t) = stays_silent B st t"
  "stays_silent B st (ensureVideoPlayback t) = stays_silent B st t"
  "stays_silent B st (t\<lparr>rv_button_disabled := b\<rparr>) = stays_silent B st t"
  "stays_silent B st (t\<lparr>rv_sockets := ss\<rparr>) = stays_silent B st t"
  "stays_silent B st (t\<lparr>rv_plays := n\<rparr>) = stays_silent B st t"
  "stays_silent B st (t\<lparr>rv_stream := x\<rparr>) = stays_silent B st t"
  "stays_silent B st (t\<lparr>rv_tasks := ts\<rparr>) = stays_silent B st t"
  by (simp_all add: stays_silent_def page_message_def ensureVideoPlayback_def)

lemma silent_send:
  "not_an_answer B m \<Longrightarrow> stays_silent B st (snd (ws_send m st))"
  by (auto simp: stays_silent_def ws_send_def split: option.split socket_state.split)

lemma silent_direct_candidate:
  assumes "page_inv st" "no_offer_handler st"
  shows "no_offer_handler (await_peer (AddIce c) AwaitCandidate st) \<and> stays_silent B st (await_peer (AddIce c) AwaitCandidate st)"
proof (cases "rv_pc st")
  case None
  with assms show ?thesis by (simp add: await_peer_def)
next
  case (Some p)
  with page_invD(1) [OF assms(1), of p] have "p < length (rv_peers st)" by (simp add: live_peer_def)
  with Some assms(2) show ?thesis
    by (simp add: await_peer_def no_offer_handler_def has_remote_def stays_silent_def)
qed

lemma silent_message:
  assumes "page_inv st" "no_offer_handler st" "\<not> brings_offer B (EvSocketMessage k data)"
  shows "no_offer_handler (on_message B data st) \<and> stays_silent B st (on_message B data st)"
proof (cases "jj_parse B data")
  case None
  with assms(2) show ?thesis by (simp add: on_message_def)
next
  case (Some v)
  have "no_offer_handler (onCandidate B v st) \<and> stays_silent B st (onCandidate B v st)"
    using assms(2) silent_direct_candidate [OF assms(1,2)]
    by (simp add: onCandidate_def Let_def no_offer_handler_def)
  with Some assms(2,3) show ?thesis
    by (cases "v = JNull") (auto simp: on_message_def Let_def split: json.split)
qed

lemma silent_step:
  assumes "page_inv st" "no_offer_handler st" "page_enabled ev st" "\<not> is_click ev" "\<not> brings_offer B ev"
  shows "no_offer_handler (page_step B ev st) \<and> stays_silent B st (page_step B ev st)"
proof (cases ev)
  case (EvSocketOpen k)
  let ?st = "st\<lparr>rv_sockets := (rv_sockets st)[k := SocketOpen], rv_button_disabled := True\<rparr>"
  let ?m = "jj_stringify B (request_message (rv_session_id st))"
  have "not_an_answer B ?m" by (auto simp: not_an_answer_def)
  then have "stays_silent B ?st (snd (ws_send ?m ?st))" by (rule silent_send)
  moreover have "stays_silent B st ?st" by simp
  ultimately have "stays_silent B st (snd (ws_send ?m ?st))" by (rule stays_silent_trans [rotated])
  moreover have "no_offer_handler (snd (ws_send ?m ?st))" using assms(2) by simp
  ultimately show ?thesis
    by (cases "ws_send ?m ?st") (simp add: EvSocketOpen on_open_def)
next
  case (EvSocketMessage k data)
  with silent_message [OF assms(1,2)] assms(5) show ?thesis by (simp del: brings_offer.simps)
next
  case (EvSettle i r)
  then have "i < length (rv_tasks st)" using assms(3) by simp
  then have "fst (rv_tasks st ! i) = AwaitCandidate" using assms(2) by (simp add: no_offer_handler_def)
  moreover have "no_offer_handler (st\<lparr>rv_tasks := take i (rv_tasks st) @ drop (i + 1) (rv_tasks st)\<rparr>)"
    using assms(2) set_remove_task [of i "rv_tasks st"] by (auto simp: no_offer_handler_def)
  ultimately show ?thesis using EvSettle by (simp add: settle_def resume_def Let_def split: option.split)
next
  case (EvLocalCandidate p c)
  have "stays_silent B st (snd (ws_send (jj_stringify B (candidate_message a m n (rv_session_id st))) st))" for a m n
    by (rule silent_send) (unfold not_an_answer_def, blast)
  with EvLocalCandidate assms(2) show ?thesis by (simp add: onicecandidate_def split: option.split prod.split)
next
  case (EvPlaySettled ok)
  with assms(2) show ?thesis by (simp add: Let_def)
qed (use assms(2,4) in \<open>simp_all add: on_close_def ontrack_def\<close>)

lemma silent_run:
  assumes "page_inv st" "no_offer_handler st" "run (page_trans B) evs st = Some t"
    and "\<forall>ev \<in> set evs. \<not> is_click ev \<and> \<not> brings_offer B ev"
  shows "stays_silent B st t"
  using assms
proof (induction evs arbitrary: st)
  case Nil
  then show ?case by simp
next
  case (Cons ev evs)
  have en: "page_enabled ev st" and run: "run (page_trans B) evs (page_step B ev st) = Some t"
    using Cons.prems(3) unfolding page_run_Cons by blast+
  have step: "no_offer_handler (page_step B ev st)" "stays_silent B st (page_step B ev st)"
    using silent_step [OF Cons.prems(1,2) en, of B] Cons.prems(4) by auto
  have "stays_silent B (page_step B ev st) t"
    using Cons.IH [OF page_inv_step [OF Cons.prems(1) en] step(1) run] Cons.prems(4) by simp
  with step(2) show ?case by (rule stays_silent_trans)
qed

text \<open>
  C40. A candidate that arrived before the offer and that the browser refuses ends the handler of
  the offer: the rejection is caught nowhere. From then on, until the user clicks or another offer
  comes, the page sends no answer, and the candidates behind the refused one are never added.
\<close>

theorem refused_candidate_no_answer:
  assumes "reachable (page_trans B) new_receiver st"
    and "i < length (rv_tasks st)" "fst (rv_tasks st ! i) = AwaitPending" "rv_pc st = Some (snd (rv_tasks st ! i))"
    and "\<forall>j < length (rv_tasks st). j \<noteq> i \<longrightarrow> fst (rv_tasks st ! j) = AwaitCandidate"
    and "run (page_trans B) (EvSettle i None # evs) st = Some t"
    and "\<forall>ev \<in> set evs. \<not> is_click ev \<and> \<not> brings_offer B ev"
  shows "rv_pending t = rv_pending st
    \<and> (\<exists>out. rv_sent t = rv_sent st @ out \<and> (\<forall>m \<in> set out. not_an_answer B (snd m)))"
proof -
  let ?ts = "take i (rv_tasks st) @ drop (i + 1) (rv_tasks st)"
  let ?u = "st\<lparr>rv_tasks := ?ts\<rparr>"
  have inv: "page_inv st" by (rule page.reachable_inv [OF assms(1)])
  have "task_ok st (rv_tasks st ! i)" by (rule page_invD(2) [OF inv nth_mem [OF assms(2)]])
  with assms(3,4) have "has_remote st" by (simp add: task_ok_def has_remote_def)
  moreover have "fst x = AwaitCandidate" if x: "x \<in> set ?ts" for x
  proof -
    from x consider "x \<in> set (take i (rv_tasks st))" | "x \<in> set (drop (i + 1) (rv_tasks st))" by auto
    then show ?thesis
    proof cases
      case 1
      then obtain k where "k < i" "k < length (rv_tasks st)" "x = rv_tasks st ! k"
        by (auto simp: in_set_conv_nth)
      with assms(5) show ?thesis by simp
    next
      case 2
      then obtain k where k: "k < length (rv_tasks st) - (i + 1)" "x = rv_tasks st ! (i + 1 + k)"
        by (auto simp: in_set_conv_nth)
      have "i + 1 + k < length (rv_tasks st)" "i + 1 + k \<noteq> i" using k(1) by linarith+
      with assms(5) k(2) show ?thesis by blast
    qed
  qed
  ultimately have quiet: "no_offer_handler ?u" by (simp add: no_offer_handler_def)
  have "run (page_trans B) evs ?u = Some t"
    using assms(6) unfolding page_run_Cons by (simp add: settle_def)
  from silent_run [OF inv_tasks [OF inv set_remove_task] quiet this assms(7)]
  show ?thesis by (simp add: stays_silent_def)
qed

text \<open>Two buffered candidates; the browser refuses the first.\<close>

definition demo_draining :: receiver where
  "demo_draining = demo_page\<lparr>
     rv_peers := [\<lparr>pr_remote = True, pr_closed = False,
       pr_calls = [SetRemote (Some (JString ''v=0'')), AddIce (candidate_of demo_candidate)]\<rparr>],
     rv_pending := [candidate_of demo_candidate], rv_tasks := [(AwaitPending, 0)]\<rparr>"

lemma demo_draining_run:
  "run (page_trans demo_browser) [EvSocketMessage 0 ''candidate'', EvSocketMessage 0 ''candidate'',
     EvSocketMessage 0 ''offer'', EvSettle 0 (Some [])] demo_page = Some demo_draining"
  by code_simp

theorem refused_candidate_no_answer_witness:
  "\<exists>t. run (page_trans demo_browser) [EvSettle 0 None, EvLocalCandidate 0 (Some (''c'', None, None))]
       demo_draining = Some t
     \<and> rv_pending t = [candidate_of demo_candidate] \<and> length (rv_sent t) = 2"
proof -
  let ?evs = "[EvLocalCandidate 0 (Some (''c'', None, None))]"
  have "case run (page_trans demo_browser) (EvSettle 0 None # ?evs) demo_draining of None \<Rightarrow> False
    | Some t \<Rightarrow> length (rv_sent t) = 2" by code_simp
  then obtain t where t: "run (page_trans demo_browser) (EvSettle 0 None # ?evs) demo_draining = Some t"
    "length (rv_sent t) = 2" by (auto split: option.splits)
  have r: "reachable (page_trans demo_browser) new_receiver demo_draining"
    by (rule reachable_run [OF demo_page_reachable demo_draining_run])
  have "rv_pending t = rv_pending demo_draining"
    using refused_candidate_no_answer [OF r _ _ _ _ t(1)] by (simp add: demo_draining_def demo_page_def)
  with t show ?thesis by (auto simp: demo_draining_def)
qed

subsection \<open>Asking again\<close>

text \<open>
  An error reply of the server enables the button, but the user cannot ask again: the socket
  is still open, and then a click changes nothing.
\<close>

theorem error_reply_dead_button:
  assumes "rv_ws st = Some k" "page_enabled (EvSocketMessage k data) st"
    and "jj_parse B data = Some (JObject ms)" "map_of ms ''type'' = Some (JString ''error'')"
  shows "page_enabled (EvClick url sid) (page_step B (EvSocketMessage k data) st)
    \<and> page_step B (EvClick url sid) (page_step B (EvSocketMessage k data) st)
        = page_step B (EvSocketMessage k data) st"
proof -
  have "page_step B (EvSocketMessage k data) st
      = (page_message (LogServerError (map_of ms ''message'')) True st)\<lparr>rv_button_disabled := False\<rparr>"
    using assms(3,4) by (simp add: on_message_def Let_def js_member_def)
  with assms(1,2) show ?thesis
    by (simp add: on_click_def socket_is_def socket_in_def page_message_def)
qed

theorem error_reply_dead_button_witness:
  "page_step demo_browser (EvClick ''ws'' ''other'') (page_step demo_browser (EvSocketMessage 0 ''error'') demo_page)
     = page_step demo_browser (EvSocketMessage 0 ''error'') demo_page"
proof -
  have "page_enabled (EvSocketMessage 0 ''error'') demo_page" by (simp add: demo_page_def socket_in_def)
  moreover have "rv_ws demo_page = Some 0" by (simp add: demo_page_def)
  moreover have "jj_parse demo_browser ''error'' = Some (JObject [(''type'', JString ''error'')])"
    by (simp add: demo_browser_def)
  ultimately show ?thesis
    using error_reply_dead_button [of demo_page 0 "''error''" demo_browser "[(''type'', JString ''error'')]"]
    by simp
qed

text \<open>
  A second click while the first socket is connecting is not prevented: both sockets stay in
  use, and the two open handlers send their requests on the second one, the same request twice.
\<close>

theorem double_click_requests_twice:
  "\<exists>evs t. run (page_trans demo_browser) evs new_receiver = Some t
     \<and> rv_sockets t = [SocketOpen, SocketOpen] \<and> rv_session_id t = ''room''
     \<and> rv_sent t = [(1, ''request''), (1, ''request'')]"
proof -
  let ?evs = "[EvClick ''ws'' ''room'', EvClick ''ws'' ''room'', EvSocketOpen 1, EvSocketOpen 0]"
  have "case run (page_trans demo_browser) ?evs new_receiver of None \<Rightarrow> False
    | Some t \<Rightarrow> rv_sockets t = [SocketOpen, SocketOpen] \<and> rv_session_id t = ''room''
        \<and> rv_sent t = [(1, ''request''), (1, ''request'')]" by code_simp
  then show ?thesis by (auto simp del: run.simps split: option.splits intro!: exI [of _ ?evs])
qed

subsection \<open>The page's side of a negotiation\<close>

lemma open_sends_request:
  assumes "rv_ws st = Some k" "k < length (rv_sockets st)"
  shows "rv_sent (page_step B (EvSocketOpen k) st)
      = rv_sent st @ [(k, jj_stringify B (request_message (rv_session_id st)))]"
    "rv_sockets (page_step B (EvSocketOpen k) st) = (rv_sockets st)[k := SocketOpen]"
    "rv_ws (page_step B (EvSocketOpen k) st) = Some k"
    "rv_pc (page_step B (EvSocketOpen k) st) = rv_pc st"
    "rv_peers (page_step B (EvSocketOpen k) st) = rv_peers st"
    "rv_tasks (page_step B (EvSocketOpen k) st) = rv_tasks st"
    "rv_pending (page_step B (EvSocketOpen k) st) = rv_pending st"
    "rv_session_id (page_step B (EvSocketOpen k) st) = rv_session_id st"
  using assms by (simp_all add: on_open_def ws_send_def page_message_def)

lemma offer_is_answered:
  assumes "rv_ws st = Some k" "k < length (rv_sockets st)" "rv_sockets st ! k = SocketOpen"
    and "rv_pc st = Some p" "live_peer st p" "rv_tasks st = []" "rv_pending st = []"
    and "jj_parse B data = Some (JObject ms)" "map_of ms ''type'' = Some (JString ''offer'')"
  shows "\<exists>t. run (page_trans B) [EvSocketMessage k data, EvSettle 0 (Some x), EvSettle 0 (Some sdp), EvSettle 0 (Some y)] st
      = Some t
    \<and> rv_sent t = rv_sent st @ [(k, jj_stringify B (answer_message sdp (rv_session_id st)))]
    \<and> pr_calls (rv_peers t ! p) = pr_calls (rv_peers st ! p) @ [SetRemote (map_of ms ''sdp''), CreateAnswer, SetLocal sdp]"
proof -
  have p: "p < length (rv_peers st)" "\<not> pr_closed (rv_peers st ! p)" using assms(5) by (simp_all add: live_peer_def)
  define s1 where "s1 = await_peer (SetRemote (map_of ms ''sdp'')) AwaitRemote st"
  have s1: "page_step B (EvSocketMessage k data) st = s1"
    using assms(4,8,9) by (simp add: s1_def on_message_def onOffer_def js_member_def Let_def)
  define q where "q = (rv_peers st ! p)\<lparr>pr_calls := pr_calls (rv_peers st ! p) @ [SetRemote (map_of ms ''sdp'')]\<rparr>"
  have e1: "s1 = st\<lparr>rv_peers := (rv_peers st)[p := q], rv_tasks := [(AwaitRemote, p)]\<rparr>"
    using assms(4,6) by (simp add: s1_def await_peer_def q_def)
  define q2 where "q2 = q\<lparr>pr_remote := True, pr_calls := pr_calls q @ [CreateAnswer]\<rparr>"
  have e2: "settle B 0 (Some x) s1 = st\<lparr>rv_peers := (rv_peers st)[p := q2], rv_tasks := [(AwaitAnswer, p)]\<rparr>"
    using p assms(4,7) by (simp add: e1 settle_def resume_def drain_pending_def await_peer_def q2_def)
  define q3 where "q3 = q2\<lparr>pr_calls := pr_calls q2 @ [SetLocal sdp]\<rparr>"
  have e3: "settle B 0 (Some sdp) (settle B 0 (Some x) s1)
      = st\<lparr>rv_peers := (rv_peers st)[p := q3], rv_tasks := [(AwaitLocal sdp, p)]\<rparr>"
    using p assms(4,7) unfolding e2 by (simp add: settle_def resume_def await_peer_def q3_def)
  let ?t = "settle B 0 (Some y) (settle B 0 (Some sdp) (settle B 0 (Some x) s1))"
  have e4: "rv_sent ?t = rv_sent st @ [(k, jj_stringify B (answer_message sdp (rv_session_id st)))]"
    "rv_peers ?t = (rv_peers st)[p := q3]"
    using assms(1,3) unfolding e3 by (simp_all add: settle_def resume_def ws_send_def page_message_def)
  have "page_enabled (EvSocketMessage k data) st" using assms(2,3) by (simp add: socket_in_def)
  moreover have "page_enabled (EvSettle 0 (Some x)) s1"
    using p by (simp add: e1 live_peer_def q_def)
  moreover have "page_enabled (EvSettle 0 (Some sdp)) (settle B 0 (Some x) s1)"
    using p by (simp add: e2 live_peer_def q_def q2_def)
  moreover have "page_enabled (EvSettle 0 (Some y)) (settle B 0 (Some sdp) (settle B 0 (Some x) s1))"
    using p by (simp add: e3 live_peer_def q_def q2_def q3_def)
  ultimately have "run (page_trans B) [EvSocketMessage k data, EvSettle 0 (Some x), EvSettle 0 (Some sdp), EvSettle 0 (Some y)] st
      = Some ?t"
    unfolding page_run_Cons s1 page_step.simps(6) by simp
  with e4 p(1) show ?thesis by (simp add: q_def q2_def q3_def)
qed

end
