(* ===== verification/Spec2Isabelle.thy ===== *)
theory Spec2Isabelle
  imports SignalingServer PulseAdm Platform AudioConfig VideoSources RtpStats PushClient SignalingClient
    NBuffer NPretty NFloatText NPatchRfc NBsonLaws Receiver
begin

text \<open>
  A verification library for the desktop sender: a Qt program that captures the screen and the
  loopback audio and sends them over WebRTC to a browser, with its signaling server and the
  browser page that receives the stream.

  The parts and how they interact.
  The sender (\<^verbatim>\<open>main.cpp\<close>) opens a window (\<^verbatim>\<open>ui/widg.cpp\<close>) that owns a \<^verbatim>\<open>SignalingClient\<close>
  (\<^verbatim>\<open>module/signaling_client.cpp\<close>). It connects to the signaling server
  (\<^verbatim>\<open>tools/signaling_server.cpp\<close>) and announces itself. A browser (\<^verbatim>\<open>web/receiver.html\<close>) sends
  the server a request with a session id; the server binds it to a free announced sender and
  forwards the request. The sender creates a \<^verbatim>\<open>WebRTCPushClient\<close> (\<^verbatim>\<open>module/pushclient.cpp\<close>) for
  that id, with video sources, an audio device module
  (\<^verbatim>\<open>module/pulse_loopback_audio_device_module.cpp\<close>) and a polling thread for statistics; its
  offer, the answer and the candidates pass through the server. The sender reads the messages with
  the bundled JSON library (\<^verbatim>\<open>3rd/include/nlohmann\<close>).

  The theories, and what they model.
  \<^item> \<open>Prelude\<close>: string searches, C strings, machine ranges, truncating division, and transition
    systems: a partial step function on events, \<open>run\<close>, \<open>reachable\<close>, and the locale
    \<open>invariant_system\<close>, interpreted by every component with an invariant.
  \<^item> \<open>Threads\<close>: \<^verbatim>\<open>std::thread\<close> handles, process-ending errors as the left side of \<open>outcome\<close>, and
    the locale \<open>thread_owner\<close> for a class that starts, stops and destroys one worker.
  \<^item> \<open>SignalingServer\<close>: the server's tables as a record; one definition per handler of the class,
    \<open>server_step\<close> for the events of the Qt loop, deferred deletion included.
  \<^item> \<open>PulseAdm\<close>: the audio device module, every method of its interface, with the capture thread as
    events beside the calls.
  \<^item> \<open>Platform\<close>: the platform functions of \<^verbatim>\<open>pushclient.cpp\<close> and the start-up in \<^verbatim>\<open>main.cpp\<close>.
  \<^item> \<open>AudioConfig\<close>: the choice of the recording device over the interface \<open>recording_backend\<close>
    (interpreted by the module of \<open>PulseAdm\<close> and by a table of devices), codec order, header
    extension and sender parameters.
  \<^item> \<open>VideoSources\<close>: the desktop source, the synthetic source and the polling source.
  \<^item> \<open>RtpStats\<close>: the statistics of the outgoing stream, and the interleaving of the polling thread
    with WebRTC's signaling thread as a step relation.
  \<^item> \<open>PushClient\<close>: initialisation, negotiation and destruction of a session's client; calls into
    WebRTC are recorded in order, their answers are arguments. What WebRTC does to a client after
    \<^verbatim>\<open>Init\<close> are its events: connection states for the observer, and the calls and capture passes of
    the audio device module of \<open>PulseAdm\<close>.
  \<^item> \<open>NJson\<close>, \<open>NLexer\<close>, \<open>NParser\<close>, \<open>NGrammar\<close>, \<open>NDom\<close>: the JSON library as the sender uses it, from
    bytes to values to the typed access with its exceptions. \<open>NGrammar\<close> states what JSON texts are,
    independently of the parser's loop.
  \<^item> \<open>NSerializer\<close>, \<open>NPretty\<close>, \<open>NBuffer\<close>: the compact and the indented output of the same library, and
    the bounds of its buffers.
  \<^item> \<open>NPointer\<close>, \<open>NPatch\<close>, \<open>NDiff\<close>, \<open>NMerge\<close>, \<open>NPatchLaws\<close>, \<open>NPatchRfc\<close>: JSON pointers and the walks
    along them, patches with their operations, differences, comparison, and merge patches of the
    library; \<open>NPatchRfc\<close> states the operations of RFC 6902 on values and relates the library's to them.
  \<^item> \<open>NCbor\<close>, \<open>NMsgPack\<close>, \<open>NBson\<close>: its binary formats CBOR, MessagePack and BSON, readers and writers,
    with their laws in \<open>NCborLaws\<close>, \<open>NMsgPackLaws\<close> and \<open>NBsonLaws\<close>.
  \<^item> \<open>NFloat\<close>: the printing of doubles (\<^verbatim>\<open>to_chars.hpp\<close>, the Grisu2 algorithm), given by their bits.
    \<open>NGrisu\<close>, \<open>NDigits\<close>, \<open>NDoubles\<close> and \<open>NFloatText\<close> prove it correct: the arithmetic and the table of
    powers, the digits, the value they denote, and the text.
  \<^item> \<open>SignalingClient\<close>: the sender's message handling and session table as a transition system over
    the events of the Qt thread and of WebRTC's threads, the window and the socket wrapper.
  \<^item> \<open>Receiver\<close>: the script of the page: its variables, the objects it creates, and its
    asynchronous handlers as tasks that the browser's answers resume.
  \<^item> This theory: properties of the server, the sender and the page together: a complete
    negotiation, and messages of the page that end the sender.

  What the lemmas show.
  Invariants: the server's announced senders and the keys of its reverse table are connected sockets,
  while the ends of a session are null or objects that still exist, of which one can have
  disconnected (a lemma shows such a run); for clients with one session at a time the ends are
  connected and both tables say the same; the audio module's flags, handle and stream agree; the
  sender's sessions are well formed, and their clients can be destroyed exactly when the capture
  thread of their audio module has not ended on its own. Functional behaviour:
  requests, forwarding and disconnects of the server; what a successful initialisation does; device
  choice, codec order, frame sizes and contents. The JSON library: the loop with its stack accepts
  exactly the grammar, \<^verbatim>\<open>parse\<close> builds exactly the denoted value, parsed values are well formed, every
  input has one finite token sequence, output is read back as the value with its numbers as they were
  printed, and no buffer overflows.
  A printed double fails no assertion, and its text is nearer to it than to every other double.
  A pointer's text and its tokens determine each other; the patch that is the difference of two values
  makes one from the other; a patch gives the result of RFC 6902, and throws where the standard fails
  except in named cases; a merge patch does what RFC 7386 says; what is written as CBOR, MessagePack
  or BSON is read back in the form the format gives it, and the sizes BSON computes in advance are
  right.
  The page neither loses nor repeats a candidate. Failures the code has are theorems too: a sender
  in two sessions, recording that cannot be restarted, an overread after a channel change, the
  deadlock of the connection observer, a second initialisation, messages that end the process, the
  destruction of a client whose capture thread ended on a read error, and
  on the page a refused candidate, a button without effect and a request sent twice; in the library a
  patch below a scalar, a difference that misses a change, misread CBOR inputs, and cut or wrong
  BSON documents that throw nothing.

  Termination and bounds. Every function but three is total, and the only fuel is the depth of the
  stack of the readers of the binary formats, which call themselves: a depth of the length of the input is enough, and it
  is a theorem that CBOR can need this much. Loops that consume input
  (lines of a listing, strings, comments, tokens, the parser's loop) decrease the length of the
  input left, shown by the length lemmas of each scanner; the parser's loop also counts whether the
  last token is final (\<open>parse_size\<close>); the escaping loop that reads a byte again counts the undumped
  bytes; the digit loops decrease the number. The three loops of the printing of doubles are partial
  functions, and it is a theorem that they return for every finite double. Loops of threads are events of a step relation or
  take the list of what the clock and the system answer. Counters of the statistics, JSON integers and the
  codec's numbers are kept as 64-bit words; \<^verbatim>\<open>int\<close> values are integers with their range in the
  statements where it matters.

  Not modelled, and why.
  Qt (sockets, JSON objects, the event loop), WebRTC, the browser, PulseAudio, libyuv and the
  operating system are not in the repository as source: they are arguments of the definitions or recorded calls.
  Log output, exception positions and the layout of the window have no influence on the modelled
  state. A parsed floating-point number keeps its text; its conversion (\<^verbatim>\<open>strtod\<close>) is an argument. Of
  the JSON library iterators and the formats UBJSON and BJData are not modelled; pointers, patches and
  the other binary formats are, though the program does not use them. The
  headers of WebRTC and libyuv under \<^verbatim>\<open>3rd\<close> are declarations of code that is not there.
\<close>

subsection \<open>The server and a sender\<close>

text \<open>
  Facts that relate the two ends of a socket: the text the server sends is the text the sender
  receives. What Qt prints is a hypothesis: the sender's JSON library reads the text of a JSON
  object as a value with the same members.
\<close>

lemma to_sender:
  assumes "sessions st sid = Some b" "sid \<noteq> []" "sb_sender b \<noteq> s" "sb_receiver b = s" "sb_sender b \<noteq> 0"
    and "qj_parse J m = Some j" "qj_string J j ''id'' = sid"
    and "qj_string J j ''type'' \<in> {''offer'', ''answer'', ''candidate'', ''error''}"
  shows "sent (onTextMessage J enum s m st) = sent st @ [(sb_sender b, qj_compact J j)]"
  using assms
  by (simp add: session_step forwardSessionMessage_def forward_target_def sendJson_def)

lemma to_receiver:
  assumes "sessions st sid = Some b" "sid \<noteq> []" "sb_sender b = s" "sb_receiver b \<noteq> 0"
    and "qj_parse J m = Some j" "qj_string J j ''id'' = sid"
    and "qj_string J j ''type'' \<in> {''offer'', ''answer'', ''candidate'', ''error''}"
  shows "sent (onTextMessage J enum s m st) = sent st @ [(sb_receiver b, qj_compact J j)]"
  using assms
  by (simp add: session_step forwardSessionMessage_def forward_target_def sendJson_def)

lemma bad_message_ends_sender:
  assumes "server_exact st" and "sessions st sid = Some b" and "s = sb_receiver b"
    and "qj_parse J m = Some j" and "qj_string J j ''id'' = sid"
    and "qj_string J j ''type'' \<in> {''answer'', ''candidate''}"
    and "json_parse (c_str (qj_compact J j)) = Inr v" and "\<not> well_typed v"
    and "reachable sig_trans (Inr (new_sig_client env)) (Inr cl)"
  shows "\<exists>text. sent (onTextMessage J enum s m st) = sent st @ [(sb_sender b, text)]
    \<and> onTextMessageReceived R A text cl = Inl UncaughtException"
proof -
  have b: "exact_binding st sid b" by (rule exactD [OF assms(1,2)])
  have wf: "pointers_ok st" "bindings_ok st"
    using assms(1) by (auto simp: server_exact_def server_wf_def)
  have "sid \<noteq> []" using wf(2) assms(2) by (auto simp: bindings_ok_def)
  moreover have "sb_sender b \<noteq> s" "sb_sender b \<noteq> 0"
    using b sock_pos [OF wf(1)] assms(3) by (auto simp: exact_binding_def)
  ultimately have "sent (onTextMessage J enum s m st) = sent st @ [(sb_sender b, qj_compact J j)]"
    using assms(3,6) by (intro to_sender [OF assms(2) _ _ _ _ assms(4,5)]) auto
  moreover have "onTextMessageReceived R A (qj_compact J j) cl = Inl UncaughtException"
    using message_outcome [OF reachable_sig_wf [OF assms(9)] assms(7), of R A] assms(8) by simp
  ultimately show ?thesis by blast
qed

text \<open>
  C7. The receiver of a session can end the sender's process through the server: an answer or a
  candidate with a wrongly typed field is forwarded unchanged, and the sender does not survive it.
\<close>

theorem receiver_can_end_sender:
  assumes "server_exact st" and "sessions st sid = Some b" and "s = sb_receiver b"
    and "qj_parse J m = Some j" and "qj_string J j ''id'' = sid"
    and "qj_string J j ''type'' \<in> {''answer'', ''candidate''}"
    and "json_parse (c_str (qj_compact J j)) = Inr v" and "\<not> well_typed v"
    and "reachable sig_trans (Inr (new_sig_client env)) (Inr cl)"
  shows "\<exists>text. sent (onTextMessage J enum s m st) = sent st @ [(sb_sender b, text)]
    \<and> onTextMessageReceived R A text cl = Inl UncaughtException"
  by (rule bad_message_ends_sender [OF assms])

text \<open>For the witnesses, Qt's JSON functions are instantiated with the modelled JSON library.\<close>

definition library_json :: "json qjson" where
  "library_json = \<lparr>
     qj_parse = (\<lambda>m. case json_parse m of Inr (JObject ms) \<Rightarrow> Some (JObject ms) | _ \<Rightarrow> None),
     qj_string = (\<lambda>j k. case json_find k j of Some (JString s) \<Rightarrow> s | _ \<Rightarrow> []),
     qj_object = (\<lambda>kvs. JObject (fold (\<lambda>(k, v) m. map_set k (JString v) m) kvs [])),
     qj_compact = (\<lambda>j. case json_dump (\<lambda>f. f) False HandlerStrict j of Inr s \<Rightarrow> s | Inl e \<Rightarrow> [])\<rparr>"

definition bad_answer :: json where
  "bad_answer = JObject [(''id'', JString ''1''), (''sdp'', JUnsigned 5), (''type'', JString ''answer'')]"

definition bad_answer_text :: string where
  "bad_answer_text = ''{'' @ quoted ''id'' @ '':'' @ quoted ''1'' @ '','' @ quoted ''sdp'' @ '':5,''
     @ quoted ''type'' @ '':'' @ quoted ''answer'' @ ''}''"

lemma bad_answer_facts:
  "qj_parse library_json bad_answer_text = Some bad_answer"
  "qj_string library_json bad_answer ''id'' = ''1''" "qj_string library_json bad_answer ''type'' = ''answer''"
  "qj_compact library_json bad_answer = bad_answer_text"
  "json_parse (c_str bad_answer_text) = Inr bad_answer"
  by code_simp+

theorem receiver_can_end_sender_witness:
  "\<exists>text. sent (onTextMessage library_json demo_enum 2 bad_answer_text demo_state) = sent demo_state @ [(1, text)]
    \<and> onTextMessageReceived demo_answers demo_session_answers text (new_sig_client (\<lambda>_. None))
        = Inl UncaughtException"
proof -
  have "\<not> well_typed bad_answer" by (simp add: well_typed_def bad_answer_def field_is_def)
  with receiver_can_end_sender [OF demo_state_exact demo_state_session(1) _ bad_answer_facts(1,2) _ _ _ reach_init,
      of 2 bad_answer] bad_answer_facts
  show ?thesis by auto
qed

subsection \<open>Opening a session\<close>

lemma handle_request_opens:
  assumes "sig_wf st" "capture_available R"
    and "Init R google_stun (new_push_client cid (sc_environment st)) = Inr (True, c)"
    and "\<not> lost_session st cid"
  shows "handle_request R cid st = Inr (st\<lparr>sc_environment := pc_environment c,
    sc_clients := (sc_clients st)(cid \<mapsto> c)\<rparr>)"
proof -
  have "client_destroy None old = Inr ()" if "sc_clients st cid = Some old" for old
    using sig_wfD(1) [OF assms(1) that] client_inv_destroy [of old None] assms(4) that
    by (simp add: session_ok_def lost_session_def)
  with assms(2,3) show ?thesis
    by (cases "sc_clients st cid") (simp_all add: handle_request_def Let_def)
qed

lemma received_request:
  assumes "json_parse (c_str text) = Inr (JObject ms)"
    and "map_of ms ''type'' = Some (JString ''request'')" "map_of ms ''id'' = Some (JString cid)"
    and "map_of ms ''sdp'' = None \<or> (\<exists>t. map_of ms ''sdp'' = Some (JString t))"
  shows "onTextMessageReceived R A text st = handle_request R cid st"
  using assms by (auto simp: onTextMessageReceived_def json_value_def)

lemma offer_queued:
  assumes "sc_clients st cid = Some c" "pc_id c = cid"
  shows "sc_queue (client_callback cid (OnOfferCreated True sdp) st)
    = sc_queue st @ [sdp_message \<lparr>sb_type = ''offer'', sb_sdp = sdp\<rparr> cid]"
  using assms
  by (simp add: client_callback_def run_callbacks_def update_session_def OnOfferCreated_def call_def
      List.map_filter_def)

lemma request_granted:
  assumes "server_wf st" "enum_ok enum" "sid \<noteq> []" "sessions st sid = None"
    and "\<exists>x \<in> ready_senders st. x \<noteq> r \<and> socket_to_session st x = None"
    and "qj_parse J m = Some j" "qj_string J j ''type'' = ''request''" "qj_string J j ''id'' = sid"
  obtains x where "x \<in> ready_senders st" "x \<noteq> r" "x \<noteq> 0"
    "onTextMessage J enum r m st = st\<lparr>
          sessions := (sessions st)(sid \<mapsto> \<lparr>sb_sender = x, sb_receiver = r\<rparr>),
          socket_to_session := (socket_to_session st)(x \<mapsto> sid, r \<mapsto> sid),
          sent := sent st @ [(x, qj_compact J j)]\<rparr>"
proof -
  obtain x where "x \<in> ready_senders st" "x \<noteq> r" "x \<noteq> 0" "handleRequest J enum r j sid st = st\<lparr>
          sessions := (sessions st)(sid \<mapsto> \<lparr>sb_sender = x, sb_receiver = r\<rparr>),
          socket_to_session := (socket_to_session st)(x \<mapsto> sid, r \<mapsto> sid),
          sent := sent st @ [(x, qj_compact J j)]\<rparr>"
    by (rule handleRequest_grants [OF assms(1-5)])
  with request_step [OF assms(6,7), of enum r st] assms(8) show thesis by (intro that) simp_all
qed

text \<open>
  A request opens a session end to end: the server picks a free announced sender and forwards the
  request unchanged; that sender, when capture is available and its client initialises, keeps the
  client under the requested id and queues its offer with that id; and an offer with that id which
  the sender sends is delivered to the receiver that asked.
\<close>

theorem request_opens_session:
  assumes "server_wf st" "enum_ok enum" "r \<in> sockets st" and "sid \<noteq> []" "sessions st sid = None"
    and free: "\<exists>x \<in> ready_senders st. x \<noteq> r \<and> socket_to_session st x = None"
    and request: "qj_parse J m = Some j" "qj_string J j ''type'' = ''request''" "qj_string J j ''id'' = sid"
    and printed: "json_parse (c_str (qj_compact J j)) = Inr (JObject ms)"
      "map_of ms ''type'' = Some (JString ''request'')" "map_of ms ''id'' = Some (JString sid)"
      "map_of ms ''sdp'' = None \<or> (\<exists>t. map_of ms ''sdp'' = Some (JString t))"
    and sender: "reachable sig_trans (Inr (new_sig_client env)) (Inr cl)" "capture_available R"
      "Init R google_stun (new_push_client sid (sc_environment cl)) = Inr (True, c)" "\<not> lost_session cl sid"
  shows "\<exists>x text cl'. x \<in> ready_senders st
    \<and> sent (onTextMessage J enum r m st) = sent st @ [(x, text)]
    \<and> onTextMessageReceived R A text cl = Inr cl' \<and> sc_clients cl' = (sc_clients cl)(sid \<mapsto> c)
    \<and> sc_queue (client_callback sid (OnOfferCreated True sdp) cl')
        = sc_queue cl @ [sdp_message \<lparr>sb_type = ''offer'', sb_sdp = sdp\<rparr> sid]
    \<and> (\<forall>m' j'. qj_parse J m' = Some j' \<and> qj_string J j' ''id'' = sid \<and> qj_string J j' ''type'' = ''offer'' \<longrightarrow>
        sent (onTextMessage J enum x m' (onTextMessage J enum r m st))
          = sent st @ [(x, text), (r, qj_compact J j')])"
proof -
  obtain x where x: "x \<in> ready_senders st" "x \<noteq> r" "x \<noteq> 0"
    and granted: "onTextMessage J enum r m st = st\<lparr>
          sessions := (sessions st)(sid \<mapsto> \<lparr>sb_sender = x, sb_receiver = r\<rparr>),
          socket_to_session := (socket_to_session st)(x \<mapsto> sid, r \<mapsto> sid),
          sent := sent st @ [(x, qj_compact J j)]\<rparr>"
    by (rule request_granted [OF assms(1,2,4,5) free request])
  have r: "r \<noteq> 0" using assms(1,3) by (auto simp: server_wf_def pointers_ok_def)
  let ?cl = "cl\<lparr>sc_environment := pc_environment c, sc_clients := (sc_clients cl)(sid \<mapsto> c)\<rparr>"
  have wf: "sig_wf cl" using sig.reachable_inv [OF sender(1)] by simp
  have handled: "handle_request R sid cl = Inr ?cl" by (rule handle_request_opens [OF wf sender(2-4)])
  then have "sig_wf ?cl" using sig_wf_request [OF wf] by blast
  then have "pc_id c = sid" using sig_wfD(1) by (force simp: session_ok_def)
  then have "sc_queue (client_callback sid (OnOfferCreated True sdp) ?cl)
      = sc_queue cl @ [sdp_message \<lparr>sb_type = ''offer'', sb_sdp = sdp\<rparr> sid]"
    using offer_queued [of ?cl sid c sdp] by simp
  moreover have "sent (onTextMessage J enum x m' (onTextMessage J enum r m st))
      = sent st @ [(x, qj_compact J j), (r, qj_compact J j')]"
    if "qj_parse J m' = Some j'" "qj_string J j' ''id'' = sid" "qj_string J j' ''type'' = ''offer''" for m' j'
    unfolding granted
    by (subst to_receiver [where sid = sid and J = J and b = "\<lparr>sb_sender = x, sb_receiver = r\<rparr>",
          OF _ _ _ _ that(1,2)])
      (simp_all add: assms(4) r that(3))
  ultimately show ?thesis
    using x(1) granted handled received_request [OF printed, of R A cl]
    by (intro exI [of _ x] exI [of _ "qj_compact J j"] exI [of _ ?cl]) simp
qed

lemma demo_request_facts:
  "qj_parse library_json demo_request_text = Some demo_request"
  "qj_string library_json demo_request ''type'' = ''request''" "qj_string library_json demo_request ''id'' = ''s1''"
  "json_parse (c_str (qj_compact library_json demo_request)) = Inr demo_request"
  by code_simp+

theorem request_opens_session_witness:
  "\<exists>x text cl'. x \<in> ready_senders demo_idle
    \<and> sent (onTextMessage library_json demo_enum 2 demo_request_text demo_idle) = sent demo_idle @ [(x, text)]
    \<and> onTextMessageReceived demo_answers demo_session_answers text (new_sig_client (\<lambda>_. None)) = Inr cl'
    \<and> sc_clients cl' ''s1'' \<noteq> None"
proof -
  obtain d where d: "Init demo_answers google_stun (new_push_client ''s1''
      (sc_environment (new_sig_client (\<lambda>_. None)))) = Inr (True, d)"
    using demo_request_init by (auto simp: new_sig_client_def)
  have "Option.is_none (sessions demo_idle ''s1'')" by code_simp
  then have none: "sessions demo_idle ''s1'' = None" by (simp add: Option.is_none_def)
  have free: "\<exists>x \<in> ready_senders demo_idle. x \<noteq> 2 \<and> socket_to_session demo_idle x = None"
    using demo_idle_facts(4,5) by force
  have printed: "json_parse (c_str (qj_compact library_json demo_request))
      = Inr (JObject [(''id'', JString ''s1''), (''type'', JString ''request'')])"
    using demo_request_facts(4) by (simp add: demo_request_def)
  show ?thesis
    using request_opens_session [OF demo_idle_facts(1) demo_enum_ok demo_idle_facts(2) _ none free
      demo_request_facts(1-3) printed _ _ _ reach_init demo_capture_available d,
      of demo_session_answers "''v=0''"]
    by (auto simp: lost_session_def new_sig_client_def)
qed

subsection \<open>The browser page at the other end\<close>

text \<open>
  A text that stands for an object with the members \<open>ms\<close>, on its way through the server: Qt reads
  its type and id, and the reader at the other end finds the same members in what Qt prints.
\<close>

definition string_member :: "(string \<times> json) list \<Rightarrow> string \<Rightarrow> string" where
  "string_member ms key = (case map_of ms key of Some (JString s) \<Rightarrow> s | _ \<Rightarrow> [])"

definition carried :: "'j qjson \<Rightarrow> (string \<Rightarrow> json option) \<Rightarrow> string \<Rightarrow> (string \<times> json) list \<Rightarrow> bool" where
  "carried J read m ms \<longleftrightarrow>
     (case qj_parse J m of None \<Rightarrow> False
      | Some j \<Rightarrow> qj_string J j ''type'' = string_member ms ''type'' \<and> qj_string J j ''id'' = string_member ms ''id''
          \<and> (case read (qj_compact J j) of Some (JObject ms') \<Rightarrow> map_of ms' = map_of ms | _ \<Rightarrow> False))"

definition sender_reads :: "string \<Rightarrow> json option" where
  "sender_reads m = (case json_parse (c_str m) of Inl e \<Rightarrow> None | Inr v \<Rightarrow> Some v)"

fun members :: "json \<Rightarrow> (string \<times> json) list" where
  "members (JObject ms) = ms"
| "members v = []"

lemma carriedE:
  assumes "carried J read m ms"
  obtains j ms' where "qj_parse J m = Some j" "qj_string J j ''type'' = string_member ms ''type''"
    "qj_string J j ''id'' = string_member ms ''id''" "read (qj_compact J j) = Some (JObject ms')"
    "map_of ms' = map_of ms"
  using assms by (auto simp: carried_def split: option.splits json.splits)

lemma sender_reads_Some: "sender_reads m = Some v \<longleftrightarrow> json_parse (c_str m) = Inr v"
  by (simp add: sender_reads_def split: sum.split)

text \<open>
  C9. The page can end the sender without meaning to: a local candidate whose \<^verbatim>\<open>sdpMid\<close> attribute is
  null, which the attribute's type allows, is sent as a JSON null, forwarded by the server, and its
  typed access in the sender throws.
\<close>

theorem null_mid_ends_sender:
  assumes page: "rv_ws rv = Some k" "rv_sockets rv ! k = SocketOpen" "rv_session_id rv = sid"
    and server: "server_exact st" "sessions st sid = Some b" "s = sb_receiver b"
    and sender: "reachable sig_trans (Inr (new_sig_client env)) (Inr cl)"
    and wire: "m = jj_stringify B (candidate_message cand None idx sid)"
      "carried J sender_reads m (members (candidate_message cand None idx sid))"
  shows "\<exists>text. rv_sent (page_step B (EvLocalCandidate p (Some (cand, None, idx))) rv) = rv_sent rv @ [(k, m)]
    \<and> sent (onTextMessage J enum s m st) = sent st @ [(sb_sender b, text)]
    \<and> onTextMessageReceived R A text cl = Inl UncaughtException"
proof -
  obtain j ms' where j: "qj_parse J m = Some j" "qj_string J j ''type'' = ''candidate''" "qj_string J j ''id'' = sid"
    and v: "json_parse (c_str (qj_compact J j)) = Inr (JObject ms')"
    and mid: "map_of ms' ''sdpMid'' = Some JNull" and ty: "map_of ms' ''type'' = Some (JString ''candidate'')"
    using wire(2)
    by (auto elim!: carriedE simp: string_member_def candidate_message_def sender_reads_Some
        js_string_or_null_def)
  have "\<not> well_typed (JObject ms')"
    using mid ty by (simp add: well_typed_def message_type_def field_is_def)
  from bad_message_ends_sender [OF server j(1,3) _ v this sender] j(2)
  have "\<exists>text. sent (onTextMessage J enum s m st) = sent st @ [(sb_sender b, text)]
      \<and> onTextMessageReceived R A text cl = Inl UncaughtException" by simp
  moreover have "rv_sent (page_step B (EvLocalCandidate p (Some (cand, None, idx))) rv) = rv_sent rv @ [(k, m)]"
    using page wire(1) by (simp add: onicecandidate_def socket_is_def ws_send_def)
  ultimately show ?thesis by blast
qed

definition library_browser :: browser where
  "library_browser = \<lparr>
     jj_parse = (\<lambda>m. case json_parse m of Inl e \<Rightarrow> None | Inr v \<Rightarrow> Some v),
     jj_stringify = (\<lambda>v. case json_dump (\<lambda>f. f) False HandlerStrict v of Inr s \<Rightarrow> s | Inl e \<Rightarrow> []),
     jj_candidate_ok = (\<lambda>c. ii_sdp_mid c \<noteq> None \<or> ii_sdp_mline_index c \<noteq> None), jj_url_ok = (\<lambda>url. True)\<rparr>"

lemma null_mid_carried:
  "carried library_json sender_reads (jj_stringify library_browser (candidate_message ''c'' None (Some 0) ''1''))
     (members (candidate_message ''c'' None (Some 0) ''1''))"
proof -
  let ?m = "jj_stringify library_browser (candidate_message ''c'' None (Some 0) ''1'')"
  let ?v = "JObject [(''candidate'', JString ''c''), (''id'', JString ''1''), (''sdpMLineIndex'', JUnsigned 0),
    (''sdpMid'', JNull), (''type'', JString ''candidate'')]"
  have "qj_parse library_json ?m = Some ?v" "sender_reads (qj_compact library_json ?v) = Some ?v"
    "qj_string library_json ?v ''type'' = ''candidate''" "qj_string library_json ?v ''id'' = ''1''"
    by code_simp+
  then show ?thesis
    by (simp add: carried_def string_member_def candidate_message_def js_string_or_null_def
        js_index_or_null_def fun_eq_iff)
qed

theorem null_mid_ends_sender_witness:
  "\<exists>m text. rv_sent (page_step library_browser (EvLocalCandidate 0 (Some (''c'', None, Some 0)))
        (demo_page\<lparr>rv_session_id := ''1''\<rparr>)) = rv_sent demo_page @ [(0, m)]
    \<and> sent (onTextMessage library_json demo_enum 2 m demo_state) = sent demo_state @ [(1, text)]
    \<and> onTextMessageReceived demo_answers demo_session_answers text (new_sig_client (\<lambda>_. None))
        = Inl UncaughtException"
proof -
  have page: "rv_ws (demo_page\<lparr>rv_session_id := ''1''\<rparr>) = Some 0"
    "rv_sockets (demo_page\<lparr>rv_session_id := ''1''\<rparr>) ! 0 = SocketOpen"
    "rv_session_id (demo_page\<lparr>rv_session_id := ''1''\<rparr>) = ''1''"
    by (simp_all add: demo_page_def)
  have "2 = sb_receiver \<lparr>sb_sender = 1, sb_receiver = (2::nat)\<rparr>" by simp
  from null_mid_ends_sender [OF page demo_state_exact demo_state_session(1) this reach_init refl null_mid_carried]
  show ?thesis by auto
qed

subsection \<open>A complete negotiation\<close>

lemma received_answer:
  assumes "json_parse (c_str text) = Inr (JObject ms)"
    and "map_of ms ''type'' = Some (JString ''answer'')" "map_of ms ''id'' = Some (JString cid)"
    and "map_of ms ''sdp'' = Some (JString sdp)"
  shows "onTextMessageReceived R A text st
    = Inr (update_session cid (\<lambda>c. snd (SetRemoteAnswer (sa_sdp_ok A) sdp c)) st)"
  using assms by (simp add: onTextMessageReceived_def json_value_def)

text \<open>The sender from the request to the offer it writes to its socket.\<close>

lemma sender_offers:
  fixes sdp :: string
  assumes "sig_wf cl" "sc_valid cl" "sc_queue cl = []" "capture_available R"
    and "Init R google_stun (new_push_client sid (sc_environment cl)) = Inr (True, c)" "\<not> lost_session cl sid"
  defines "cl1 \<equiv> flush_one (client_callback sid (OnOfferCreated True sdp)
      (cl\<lparr>sc_environment := pc_environment c, sc_clients := (sc_clients cl)(sid \<mapsto> c)\<rparr>))"
  shows "handle_request R sid cl
      = Inr (cl\<lparr>sc_environment := pc_environment c, sc_clients := (sc_clients cl)(sid \<mapsto> c)\<rparr>)"
    "sc_sent cl1 = sc_sent cl @ [sdp_message \<lparr>sb_type = ''offer'', sb_sdp = sdp\<rparr> sid]"
    "sc_clients cl1 sid = Some (OnOfferCreated True sdp c)" "pc_connection c"
proof -
  let ?cl = "cl\<lparr>sc_environment := pc_environment c, sc_clients := (sc_clients cl)(sid \<mapsto> c)\<rparr>"
  show h: "handle_request R sid cl = Inr ?cl" by (rule handle_request_opens [OF assms(1,4,5,6)])
  then have "sig_wf ?cl" using sig_wf_request [OF assms(1)] by blast
  then have c: "session_ok sid c" using sig_wfD(1) by force
  then show "pc_connection c" by (simp add: session_ok_def)
  have "pc_id c = sid" using c by (simp add: session_ok_def)
  from offer_queued [of ?cl sid c sdp] this assms(3)
  have "sc_queue (client_callback sid (OnOfferCreated True sdp) ?cl)
      = [sdp_message \<lparr>sb_type = ''offer'', sb_sdp = sdp\<rparr> sid]" by simp
  moreover have "sc_valid (client_callback sid (OnOfferCreated True sdp) ?cl)"
    "sc_sent (client_callback sid (OnOfferCreated True sdp) ?cl) = sc_sent cl"
    "sc_clients (client_callback sid (OnOfferCreated True sdp) ?cl) sid = Some (OnOfferCreated True sdp c)"
    using assms(2) by (simp_all add: client_callback_def run_callbacks_def update_session_def)
  ultimately show "sc_sent cl1 = sc_sent cl @ [sdp_message \<lparr>sb_type = ''offer'', sb_sdp = sdp\<rparr> sid]"
    "sc_clients cl1 sid = Some (OnOfferCreated True sdp c)"
    by (simp_all add: cl1_def flush_one_def client_sendJson_def)
qed

text \<open>What the sender's socket is given for an outgoing message; the offer has only string members.\<close>

definition offer_members :: "string \<Rightarrow> string \<Rightarrow> (string \<times> json) list" where
  "offer_members sdp sid =
     [(''type'', JString ''offer''), (''sdp'', JString sdp), (''id'', JString sid)]"

text \<open>
  C6. A negotiation completes: the page's request reaches a free sender, the sender's offer reaches
  the page, whose peer connection gets the offer's session description as its remote description,
  creates an answer and sets it as its local description, and that answer reaches the client of the
  session in the sender, which sets it as its remote description; the server forwards exactly these
  three messages. The sender must not hold a client under this id that lost its capture thread.
\<close>

theorem negotiation_completes:
  assumes server: "server_wf st" "enum_ok enum" "r \<in> sockets st" "sid \<noteq> []" "sessions st sid = None"
      "\<exists>x \<in> ready_senders st. x \<noteq> r \<and> socket_to_session st x = None"
    and page: "rv_ws rv = Some k" "k < length (rv_sockets rv)" "rv_pc rv = Some p" "live_peer rv p"
      "rv_tasks rv = []" "rv_pending rv = []" "rv_session_id rv = sid"
      "rv_sockets rv ! k = SocketConnecting"
    and sender: "reachable sig_trans (Inr (new_sig_client env)) (Inr cl)" "sc_valid cl" "sc_queue cl = []"
      "capture_available R" "Init R google_stun (new_push_client sid (sc_environment cl)) = Inr (True, c)"
      "\<not> lost_session cl sid" "sa_sdp_ok A ans"
    and request: "carried J sender_reads (jj_stringify B (request_message sid)) (members (request_message sid))"
    and offer: "carried J (jj_parse B) (print (sdp_message \<lparr>sb_type = ''offer'', sb_sdp = sdp\<rparr> sid)) (offer_members sdp sid)"
    and answer: "carried J sender_reads (jj_stringify B (answer_message ans sid)) (members (answer_message ans sid))"
  shows "\<exists>x text1 cl1 text2 rv2 text3 cl2.
      x \<in> ready_senders st
    \<and> sent (onTextMessage J enum r (jj_stringify B (request_message sid)) st) = sent st @ [(x, text1)]
    \<and> onTextMessageReceived R A text1 cl = Inr cl1
    \<and> sc_sent (flush_one (client_callback sid (OnOfferCreated True sdp) cl1))
        = sc_sent cl @ [sdp_message \<lparr>sb_type = ''offer'', sb_sdp = sdp\<rparr> sid]
    \<and> run (page_trans B) [EvSocketOpen k, EvSocketMessage k text2, EvSettle 0 (Some a), EvSettle 0 (Some ans),
          EvSettle 0 (Some b)] rv = Some rv2
    \<and> rv_sent rv2 = rv_sent rv @ [(k, jj_stringify B (request_message sid)), (k, jj_stringify B (answer_message ans sid))]
    \<and> pr_calls (rv_peers rv2 ! p) = pr_calls (rv_peers rv ! p) @ [SetRemote (Some (JString sdp)), CreateAnswer, SetLocal ans]
    \<and> sent (onTextMessage J enum r (jj_stringify B (answer_message ans sid))
          (onTextMessage J enum x (print (sdp_message \<lparr>sb_type = ''offer'', sb_sdp = sdp\<rparr> sid))
            (onTextMessage J enum r (jj_stringify B (request_message sid)) st)))
        = sent st @ [(x, text1), (r, text2), (x, text3)]
    \<and> onTextMessageReceived R A text3 (flush_one (client_callback sid (OnOfferCreated True sdp) cl1)) = Inr cl2
    \<and> sc_clients cl2 sid = Some (call (SetRemoteDescription ans) (OnOfferCreated True sdp c))"
proof -
  obtain j1 ms1 where j1: "qj_parse J (jj_stringify B (request_message sid)) = Some j1"
      "qj_string J j1 ''type'' = ''request''" "qj_string J j1 ''id'' = sid"
    and ms1: "json_parse (c_str (qj_compact J j1)) = Inr (JObject ms1)" "map_of ms1 ''type'' = Some (JString ''request'')"
      "map_of ms1 ''id'' = Some (JString sid)" "map_of ms1 ''sdp'' = None"
    using request by (auto elim!: carriedE simp: string_member_def request_message_def sender_reads_Some)
  obtain j2 ms2 where j2: "qj_parse J (print (sdp_message \<lparr>sb_type = ''offer'', sb_sdp = sdp\<rparr> sid)) = Some j2"
      "qj_string J j2 ''type'' = ''offer''" "qj_string J j2 ''id'' = sid"
    and ms2: "jj_parse B (qj_compact J j2) = Some (JObject ms2)" "map_of ms2 ''type'' = Some (JString ''offer'')"
      "map_of ms2 ''sdp'' = Some (JString sdp)"
    using offer by (auto elim!: carriedE simp: string_member_def offer_members_def)
  obtain j3 ms3 where j3: "qj_parse J (jj_stringify B (answer_message ans sid)) = Some j3"
      "qj_string J j3 ''type'' = ''answer''" "qj_string J j3 ''id'' = sid"
    and ms3: "json_parse (c_str (qj_compact J j3)) = Inr (JObject ms3)" "map_of ms3 ''type'' = Some (JString ''answer'')"
      "map_of ms3 ''id'' = Some (JString sid)" "map_of ms3 ''sdp'' = Some (JString ans)"
    using answer by (auto elim!: carriedE simp: string_member_def answer_message_def sender_reads_Some)
  obtain x where x: "x \<in> ready_senders st" "x \<noteq> r" "x \<noteq> 0"
    and granted: "onTextMessage J enum r (jj_stringify B (request_message sid)) st = st\<lparr>
          sessions := (sessions st)(sid \<mapsto> \<lparr>sb_sender = x, sb_receiver = r\<rparr>),
          socket_to_session := (socket_to_session st)(x \<mapsto> sid, r \<mapsto> sid),
          sent := sent st @ [(x, qj_compact J j1)]\<rparr>" (is "_ = ?st1")
    by (rule request_granted [OF server(1,2,4,5,6) j1])
  have r: "r \<noteq> 0" using server(1,3) by (auto simp: server_wf_def pointers_ok_def)
  let ?st2 = "onTextMessage J enum x (print (sdp_message \<lparr>sb_type = ''offer'', sb_sdp = sdp\<rparr> sid)) ?st1"
  have st2: "?st2 = ?st1\<lparr>sent := sent ?st1 @ [(r, qj_compact J j2)]\<rparr>"
    using session_step [OF j2(1), of enum x ?st1] j2(2,3) server(4) r
    by (simp add: forwardSessionMessage_def forward_target_def sendJson_def)
  have st3: "sent (onTextMessage J enum r (jj_stringify B (answer_message ans sid)) ?st2)
      = sent st @ [(x, qj_compact J j1), (r, qj_compact J j2), (x, qj_compact J j3)]"
    unfolding st2
    by (subst to_sender [where sid = sid and J = J and b = "\<lparr>sb_sender = x, sb_receiver = r\<rparr>",
          OF _ _ _ _ _ j3(1,3)]) (use server(4) x j3(2) in auto)
  have wf: "sig_wf cl" using sig.reachable_inv [OF sender(1)] by simp
  note offers = sender_offers [OF wf sender(2-6)]
  let ?cl1 = "cl\<lparr>sc_environment := pc_environment c, sc_clients := (sc_clients cl)(sid \<mapsto> c)\<rparr>"
  let ?cl2 = "flush_one (client_callback sid (OnOfferCreated True sdp) ?cl1)"
  have cl1: "onTextMessageReceived R A (qj_compact J j1) cl = Inr ?cl1"
    using received_request [OF ms1(1-3)] ms1(4) offers(1) by simp
  have "pc_connection (OnOfferCreated True sdp c)" using offers(4) by (simp add: OnOfferCreated_def Let_def call_def)
  then have cl3: "\<exists>cl3. onTextMessageReceived R A (qj_compact J j3) ?cl2 = Inr cl3
      \<and> sc_clients cl3 sid = Some (call (SetRemoteDescription ans) (OnOfferCreated True sdp c))"
    using received_answer [OF ms3, of R A ?cl2] offers(3) sender(7) by (simp add: update_session_def SetRemoteAnswer_def)
  let ?rv1 = "page_step B (EvSocketOpen k) rv"
  note opened = open_sends_request [OF page(1,2), of B]
  have live: "live_peer ?rv1 p" using page(4) by (simp add: live_peer_def opened(5) del: page_step.simps)
  obtain rv2 where rv2: "run (page_trans B) [EvSocketMessage k (qj_compact J j2), EvSettle 0 (Some a), EvSettle 0 (Some ans),
        EvSettle 0 (Some b)] ?rv1 = Some rv2"
      "rv_sent rv2 = rv_sent ?rv1 @ [(k, jj_stringify B (answer_message ans (rv_session_id ?rv1)))]"
      "pr_calls (rv_peers rv2 ! p) = pr_calls (rv_peers ?rv1 ! p) @ [SetRemote (map_of ms2 ''sdp''), CreateAnswer, SetLocal ans]"
    using offer_is_answered [of ?rv1 k p B "qj_compact J j2" ms2 a ans b] page live ms2 opened(2-8)
    by (auto simp del: page_step.simps run.simps)
  have "run (page_trans B) [EvSocketOpen k, EvSocketMessage k (qj_compact J j2), EvSettle 0 (Some a), EvSettle 0 (Some ans),
        EvSettle 0 (Some b)] rv = Some rv2"
    using rv2(1) page(2,8) unfolding page_run_Cons [of B "EvSocketOpen k"] by (simp add: socket_in_def del: run.simps page_step.simps)
  moreover have "rv_sent rv2 = rv_sent rv @ [(k, jj_stringify B (request_message sid)), (k, jj_stringify B (answer_message ans sid))]"
    using rv2(2) opened(1,8) page(7) by (simp del: page_step.simps)
  moreover have "pr_calls (rv_peers rv2 ! p)
      = pr_calls (rv_peers rv ! p) @ [SetRemote (Some (JString sdp)), CreateAnswer, SetLocal ans]"
    using rv2(3) ms2(3) opened(5) by (simp del: page_step.simps)
  moreover have "sent (onTextMessage J enum r (jj_stringify B (request_message sid)) st) = sent st @ [(x, qj_compact J j1)]"
    by (simp add: granted)
  moreover have "sent (onTextMessage J enum r (jj_stringify B (answer_message ans sid))
          (onTextMessage J enum x (print (sdp_message \<lparr>sb_type = ''offer'', sb_sdp = sdp\<rparr> sid))
            (onTextMessage J enum r (jj_stringify B (request_message sid)) st)))
        = sent st @ [(x, qj_compact J j1), (r, qj_compact J j2), (x, qj_compact J j3)]"
    unfolding granted by (rule st3)
  ultimately show ?thesis using x(1) cl1 offers(2) [of sdp] cl3 by blast
qed

definition library_print :: "out_message \<Rightarrow> string" where
  "library_print m = jj_stringify library_browser (JObject
     (map (\<lambda>(k, v). (k, case v of OutString s \<Rightarrow> JString s | OutInt i \<Rightarrow> JInteger (word_of_int i))) m))"

definition demo_connected :: sig_client where
  "demo_connected = onConnected (new_sig_client (\<lambda>_. None)\<lparr>sc_valid := True\<rparr>)"

lemma demo_connected_facts:
  "reachable sig_trans (Inr (new_sig_client (\<lambda>_. None))) (Inr demo_connected)"
  "sc_valid demo_connected" "sc_queue demo_connected = []" "sc_environment demo_connected = (\<lambda>_. None)"
proof -
  show "reachable sig_trans (Inr (new_sig_client (\<lambda>_. None))) (Inr demo_connected)"
    by (rule reach_step [OF reach_init, of _ EvOpened]) (simp add: sig_trans_def demo_connected_def)
  show "sc_valid demo_connected" "sc_queue demo_connected = []" "sc_environment demo_connected = (\<lambda>_. None)"
    by (simp_all add: demo_connected_def onConnected_def client_sendJson_def new_sig_client_def)
qed

lemma carriedI:
  assumes "qj_parse J m = Some j" "qj_string J j ''type'' = string_member ms ''type''"
    "qj_string J j ''id'' = string_member ms ''id''" "read (qj_compact J j) = Some (JObject ms')"
    "map_of ms' = map_of ms"
  shows "carried J read m ms"
  using assms by (simp add: carried_def)

lemma demo_carried:
  "carried library_json sender_reads (jj_stringify library_browser (request_message ''s1''))
     (members (request_message ''s1''))"
  "carried library_json (jj_parse library_browser)
     (library_print (sdp_message \<lparr>sb_type = ''offer'', sb_sdp = ''v=0''\<rparr> ''s1'')) (offer_members ''v=0'' ''s1'')"
  "carried library_json sender_reads (jj_stringify library_browser (answer_message ''v=1'' ''s1''))
     (members (answer_message ''v=1'' ''s1''))"
proof -
  let ?r = "[(''id'', JString ''s1''), (''type'', JString ''request'')]"
  let ?o = "[(''id'', JString ''s1''), (''sdp'', JString ''v=0''), (''type'', JString ''offer'')]"
  let ?a = "[(''id'', JString ''s1''), (''sdp'', JString ''v=1''), (''type'', JString ''answer'')]"
  show "carried library_json sender_reads (jj_stringify library_browser (request_message ''s1''))
      (members (request_message ''s1''))"
    by (rule carriedI [where j = "JObject ?r" and ms' = ?r], code_simp, code_simp, code_simp, code_simp)
      (simp add: request_message_def fun_eq_iff)
  show "carried library_json (jj_parse library_browser)
      (library_print (sdp_message \<lparr>sb_type = ''offer'', sb_sdp = ''v=0''\<rparr> ''s1'')) (offer_members ''v=0'' ''s1'')"
    by (rule carriedI [where j = "JObject ?o" and ms' = ?o], code_simp, code_simp, code_simp, code_simp)
      (simp add: offer_members_def fun_eq_iff)
  show "carried library_json sender_reads (jj_stringify library_browser (answer_message ''v=1'' ''s1''))
      (members (answer_message ''v=1'' ''s1''))"
    by (rule carriedI [where j = "JObject ?a" and ms' = ?a], code_simp, code_simp, code_simp, code_simp)
      (simp add: answer_message_def fun_eq_iff)
qed

definition demo_waiting :: receiver where
  "demo_waiting = demo_page\<lparr>rv_sockets := [SocketConnecting], rv_session_id := ''s1'', rv_sent := []\<rparr>"

theorem negotiation_completes_witness:
  "\<exists>text2 rv2. run (page_trans library_browser) [EvSocketOpen 0, EvSocketMessage 0 text2, EvSettle 0 (Some []),
       EvSettle 0 (Some ''v=1''), EvSettle 0 (Some [])] demo_waiting = Some rv2 \<and> length (rv_sent rv2) = 2
     \<and> pr_calls (rv_peers rv2 ! 0) = pr_calls (rv_peers demo_waiting ! 0)
         @ [SetRemote (Some (JString ''v=0'')), CreateAnswer, SetLocal ''v=1'']"
proof -
  obtain d where d: "Init demo_answers google_stun (new_push_client ''s1'' (sc_environment demo_connected)) = Inr (True, d)"
    using demo_request_init by (auto simp: demo_connected_facts(4))
  have "Option.is_none (sessions demo_idle ''s1'')" by code_simp
  then have none: "sessions demo_idle ''s1'' = None" by (simp add: Option.is_none_def)
  have free: "\<exists>x \<in> ready_senders demo_idle. x \<noteq> 2 \<and> socket_to_session demo_idle x = None"
    using demo_idle_facts(4,5) by force
  have page: "rv_ws demo_waiting = Some 0" "0 < length (rv_sockets demo_waiting)" "rv_pc demo_waiting = Some 0"
    "live_peer demo_waiting 0" "rv_tasks demo_waiting = []" "rv_pending demo_waiting = []"
    "rv_session_id demo_waiting = ''s1''" "rv_sockets demo_waiting ! 0 = SocketConnecting"
    by (simp_all add: demo_waiting_def demo_page_def live_peer_def)
  have ok: "sa_sdp_ok demo_session_answers ''v=1''" by (simp add: demo_session_answers_def)
  have sid: "''s1'' \<noteq> []" by simp
  have kept: "\<not> lost_session demo_connected ''s1''"
    by (simp add: lost_session_def demo_connected_def onConnected_def client_sendJson_def new_sig_client_def)
  from negotiation_completes [where print = library_print and a = "[]" and b = "[]", OF demo_idle_facts(1) demo_enum_ok demo_idle_facts(2) sid none free page
      demo_connected_facts(1-3) demo_capture_available d kept ok demo_carried]
  obtain text2 rv2 where "run (page_trans library_browser) [EvSocketOpen 0, EvSocketMessage 0 text2, EvSettle 0 (Some []),
       EvSettle 0 (Some ''v=1''), EvSettle 0 (Some [])] demo_waiting = Some rv2"
    "rv_sent rv2 = rv_sent demo_waiting @ [(0, jj_stringify library_browser (request_message ''s1'')),
       (0, jj_stringify library_browser (answer_message ''v=1'' ''s1''))]"
    "pr_calls (rv_peers rv2 ! 0) = pr_calls (rv_peers demo_waiting ! 0)
       @ [SetRemote (Some (JString ''v=0'')), CreateAnswer, SetLocal ''v=1'']"
    by blast
  then show ?thesis by (intro exI conjI) (auto simp: demo_waiting_def)
qed

end
